(* ===== verification/Prelude.thy ===== *)
theory Prelude
  imports Main "HOL-Library.Word"
begin

text \<open>
  Shared material of the development: names for the machine integers of the
  Rust code, the operations of Rust's standard library on them that the
  sources use, triangular probing, arrays of optional buckets seen as finite
  maps, and loops over a state that may fail to return.

  Rust's \<^verbatim>\<open>usize\<close> is \<^typ>\<open>nat\<close> with the wrap-around at
  \<open>2 ^ 64\<close> written out where the code asks for it (\<^verbatim>\<open>wrapping_add\<close>);
  \<^verbatim>\<open>u8\<close>, \<^verbatim>\<open>u16\<close>, \<^verbatim>\<open>u32\<close> and \<^verbatim>\<open>u64\<close> are words.
\<close>

unbundle bit_operations_syntax

type_synonym u8 = "8 word"
type_synonym u16 = "16 word"
type_synonym u32 = "32 word"
type_synonym u64 = "64 word"

named_theorems table_simps \<open>characteristic equations of the table operations\<close>

section \<open>Standard library operations on machine integers\<close>

definition wrapping_add :: "nat \<Rightarrow> nat \<Rightarrow> nat" where
  "wrapping_add a b = (a + b) mod 2 ^ 64"

lemma wrapping_add_code [code]: "wrapping_add a b = unat (of_nat a + of_nat b :: u64)"
  by (simp add: wrapping_add_def unat_of_nat flip: of_nat_add)

definition trailing_zeros :: "'w::len word \<Rightarrow> nat" where
  "trailing_zeros w = length (takeWhile (\<lambda>i. \<not> bit w i) [0..<LENGTH('w)])"

text \<open>Smallest power of two that is at least \<open>n\<close>, by doubling.\<close>

function npow2_from :: "nat \<Rightarrow> nat \<Rightarrow> nat" where
  "npow2_from p n = (if p < n \<and> 0 < p then npow2_from (2 * p) n else p)"
  by pat_completeness auto
termination
  by (relation "measure (\<lambda>(p, n). n - p)") auto

declare npow2_from.simps [simp del]

definition next_power_of_two :: "nat \<Rightarrow> nat" where
  "next_power_of_two n = npow2_from 1 n"

lemma npow2_from_ge: "0 < p \<Longrightarrow> n \<le> npow2_from p n"
proof (induction p n rule: npow2_from.induct)
  case (1 p n)
  then show ?case by (subst npow2_from.simps) auto
qed

lemma npow2_from_pow: "\<exists>k. npow2_from (2 ^ j) n = 2 ^ k"
proof (induction "(2::nat) ^ j" n arbitrary: j rule: npow2_from.induct)
  case (1 n)
  show ?case
  proof (cases "2 ^ j < n")
    case True
    with 1[of "Suc j"] show ?thesis by (subst npow2_from.simps) simp
  next
    case False
    then have "npow2_from (2 ^ j) n = 2 ^ j" by (subst npow2_from.simps) simp
    then show ?thesis by blast
  qed
qed

lemma next_power_of_two_ge: "n \<le> next_power_of_two n"
  by (simp add: next_power_of_two_def npow2_from_ge)

lemma next_power_of_two_pow: "\<exists>k. next_power_of_two n = 2 ^ k"
  using npow2_from_pow [of 0 n] by (simp add: next_power_of_two_def)

lemma npow2_from_minimal: "p \<le> 2 ^ m \<Longrightarrow> \<exists>j. p = 2 ^ j \<Longrightarrow> n \<le> 2 ^ m \<Longrightarrow> npow2_from p n \<le> 2 ^ m"
proof (induction p n rule: npow2_from.induct)
  case (1 p n)
  show ?case
  proof (cases "p < n")
    case True
    obtain j where j: "p = 2 ^ j" using 1 by blast
    have "(2::nat) ^ j < 2 ^ m" using True 1(4) unfolding j by (rule less_le_trans)
    then have "j < m" by (rule power_less_imp_less_exp [rotated]) simp
    then have "2 * p \<le> 2 ^ m"
      using j power_increasing [of "Suc j" m "2::nat"] by simp
    moreover have "\<exists>i. 2 * p = 2 ^ i" using j by (metis power_Suc)
    ultimately have "npow2_from (2 * p) n \<le> 2 ^ m" using 1 True j by simp
    then show ?thesis using True by (subst npow2_from.simps) (simp add: j)
  next
    case False
    then show ?thesis using 1 by (subst npow2_from.simps) simp
  qed
qed

lemma next_power_of_two_least: "n \<le> 2 ^ m \<Longrightarrow> next_power_of_two n \<le> 2 ^ m"
  unfolding next_power_of_two_def
  by (rule npow2_from_minimal) (auto intro: exI [of _ 0])

text \<open>
  \<^verbatim>\<open>usize\<close> arithmetic: a sum or product is reduced modulo \<open>2 ^ 64\<close>. Reductions
  below the last one of an expression without divisions can be left out.
\<close>

definition usize :: "nat \<Rightarrow> nat" where
  "usize n = n mod 2 ^ 64"

lemma usize_code [code]: "usize n = unat (of_nat n :: u64)"
  by (simp add: usize_def unat_of_nat)

lemma usize_exact: "n < 2 ^ 64 \<Longrightarrow> usize n = n"
  by (simp add: usize_def)

lemma ceil_div_le: "0 < b \<Longrightarrow> (a + b - 1) div b \<le> n \<longleftrightarrow> a \<le> n * b" for a b n :: nat
proof -
  assume b: "0 < b"
  have "(a + b - 1) div b \<le> n \<longleftrightarrow> (a + b - 1) div b < Suc n" by (simp only: less_Suc_eq_le)
  also have "\<dots> \<longleftrightarrow> a + b - 1 < Suc n * b" using b by (simp only: div_less_iff_less_mult)
  also have "\<dots> \<longleftrightarrow> a \<le> n * b" using b by auto
  finally show ?thesis .
qed

lemma upt_split: "l < n \<Longrightarrow> [0..<n] = [0..<l] @ l # [Suc l..<n]"
  using upt_add_eq_append [of 0 l "n - l"] upt_conv_Cons [of l n] by simp

lemma grid_less: "g < n \<Longrightarrow> s < w \<Longrightarrow> g * w + s < n * w" for g n s w :: nat
proof -
  assume "g < n" "s < w"
  then have "g * w + s < Suc g * w" by simp
  also have "\<dots> \<le> n * w" using \<open>g < n\<close> by (intro mult_le_mono1) simp
  finally show ?thesis .
qed

lemma grid_inj: "s < w \<Longrightarrow> s' < w \<Longrightarrow> g * w + s = g' * w + s' \<longleftrightarrow> g = g' \<and> s = s'"
  for g g' s s' w :: nat
  by (metis div_mult_self3 div_less add.commute add_0 add_left_cancel less_zeroE neq0_conv)

lemma upt_grid: "[0..<n * w] = concat (map (\<lambda>g. map (\<lambda>s. g * w + s) [0..<w]) [0..<n])"
  for n w :: nat
proof (induction n)
  case (Suc n)
  have "[0..<Suc n * w] = [0..<n * w] @ [n * w..<n * w + w]"
    using upt_add_eq_append [of 0 "n * w" w] by (simp add: add.commute)
  also have "[n * w..<n * w + w] = map (\<lambda>s. n * w + s) [0..<w]"
    using map_add_upt [of "n * w" w] by (simp add: add.commute)
  finally show ?case using Suc by simp
qed simp

lemma distinct_concat_pairs:
  "distinct xs \<Longrightarrow> (\<And>x. x \<in> set xs \<Longrightarrow> distinct (f x)) \<Longrightarrow> distinct (concat (map (\<lambda>x. map (Pair x) (f x)) xs))"
  by (induction xs) (auto simp: distinct_map inj_on_def)

lemma fold_pairs:
  "fold (\<lambda>x. fold (f x) (g x)) xs = fold (\<lambda>(x, y). f x y) (concat (map (\<lambda>x. map (Pair x) (g x)) xs))"
  by (induction xs) (simp_all add: fold_map comp_def)

text \<open>Writing all entries of a list into another one that agrees with it elsewhere.\<close>

lemma fold_list_update:
  assumes "length cs = length bs" "\<And>p. p \<in> set ps \<Longrightarrow> bs ! f p = e p"
    and "\<And>i. i < length bs \<Longrightarrow> cs ! i = bs ! i \<or> i \<in> f ` set ps"
  shows "fold (\<lambda>p cs. cs[f p := e p]) ps cs = bs"
  using assms
proof (induction ps arbitrary: cs)
  case (Cons p ps)
  have "fold (\<lambda>p cs. cs[f p := e p]) ps (cs[f p := e p]) = bs"
  proof (rule Cons.IH)
    show "cs[f p := e p] ! i = bs ! i \<or> i \<in> f ` set ps" if "i < length bs" for i
      using Cons.prems(1) Cons.prems(2) [of p] Cons.prems(3) [OF that] that by (cases "i = f p") auto
  qed (use Cons.prems in auto)
  then show ?case by simp
qed (simp add: list_eq_iff_nth_eq)

section \<open>Triangular probing\<close>

text \<open>
  The probe loops of all table engines step from group to group by
  \<^verbatim>\<open>probe += 1; gi = gi.wrapping_add(probe) & mask\<close>.
\<close>

definition next_group :: "nat \<Rightarrow> nat \<Rightarrow> nat \<Rightarrow> nat" where
  "next_group msk gi probe = wrapping_add gi probe AND msk"

primrec probe_seq :: "nat \<Rightarrow> nat \<Rightarrow> nat \<Rightarrow> nat" where
  "probe_seq msk g 0 = g"
| "probe_seq msk g (Suc p) = next_group msk (probe_seq msk g p) (Suc p)"

text \<open>The group counts the tables can have: powers of two within the address space.\<close>

definition groups_ok :: "nat \<Rightarrow> bool" where
  "groups_ok n \<longleftrightarrow> (\<exists>k\<le>64. n = 2 ^ k)"

lemma groups_ok_pos [simp]: "groups_ok n \<Longrightarrow> 0 < n"
  by (auto simp: groups_ok_def)

lemma groups_ok_1 [simp]: "groups_ok 1" "groups_ok (Suc 0)"
  by (auto simp: groups_ok_def intro: exI [of _ 0])

lemma groups_ok_double: "groups_ok n \<Longrightarrow> n < 2 ^ 64 \<Longrightarrow> groups_ok (n * 2)"
proof -
  assume "groups_ok n" "n < 2 ^ 64"
  then obtain k where k: "n = 2 ^ k" "(2::nat) ^ k < 2 ^ 64"
    by (auto simp: groups_ok_def)
  then have "Suc k \<le> 64" using power_less_imp_less_exp [of "2::nat" k 64] by simp
  moreover have "n * 2 = 2 ^ Suc k" using k by simp
  ultimately show ?thesis unfolding groups_ok_def by blast
qed

lemma groups_ok_le: "groups_ok n \<Longrightarrow> n \<le> 2 ^ 64"
  unfolding groups_ok_def using power_increasing [of _ 64 "2::nat"] by auto

lemma next_power_of_two_groups_ok:
  assumes "next_power_of_two n \<le> 2 ^ 64"
  shows "groups_ok (next_power_of_two n)"
proof -
  obtain k where k: "next_power_of_two n = 2 ^ k" using next_power_of_two_pow by blast
  then have "k \<le> 64" using assms power_le_imp_le_exp [of "2::nat" k 64] by simp
  then show ?thesis using k by (auto simp: groups_ok_def)
qed

lemma usize_groups_ok:
  assumes "2 \<le> b"
  shows "groups_ok (usize (next_power_of_two (usize x div b)))"
proof -
  have "usize x div b \<le> usize x div 2" using assms by (rule div_le_mono2 [rotated]) simp
  also have "\<dots> \<le> 2 ^ 63"
    using less_imp_le [OF mod_less_divisor [of "2 ^ 64" x]] div_le_mono [of "usize x" "2 ^ 64" 2] by (simp add: usize_def)
  finally have le: "next_power_of_two (usize x div b) \<le> 2 ^ 63" by (rule next_power_of_two_least)
  then have "usize (next_power_of_two (usize x div b)) = next_power_of_two (usize x div b)"
    by (intro usize_exact) simp
  moreover have "groups_ok (next_power_of_two (usize x div b))" using le by (intro next_power_of_two_groups_ok) simp
  ultimately show ?thesis by simp
qed

lemma usize_pow: "0 < usize (2 ^ k) \<Longrightarrow> usize (2 ^ k) = 2 ^ k"
proof -
  assume pos: "0 < usize (2 ^ k)"
  have "k < 64"
  proof (rule ccontr)
    assume "\<not> k < 64"
    then have "(2 ^ 64 :: nat) dvd 2 ^ k" by (intro le_imp_power_dvd) simp
    then show False using pos unfolding usize_def by (metis dvd_imp_mod_0 less_numeral_extra(3))
  qed
  then show ?thesis by (intro usize_exact power_strict_increasing) auto
qed

lemma groups_ok_dvd: "groups_ok n \<Longrightarrow> n dvd 2 ^ 64"
  unfolding groups_ok_def by (metis le_imp_power_dvd)

lemma and_pred_groups: "groups_ok n \<Longrightarrow> a AND (n - 1) = a mod n" for a :: nat
  unfolding groups_ok_def by (metis mask_eq_exp_minus_1 take_bit_eq_mask take_bit_eq_mod)

lemma next_group_eq:
  assumes "groups_ok (Suc msk)"
  shows "next_group msk gi probe = (gi + probe) mod Suc msk"
  using and_pred_groups [OF assms] groups_ok_dvd [OF assms]
  by (simp add: next_group_def wrapping_add_def mod_mod_cancel)

lemma next_group_less: "groups_ok (Suc msk) \<Longrightarrow> next_group msk gi probe < Suc msk"
  by (simp add: next_group_eq)

lemma probe_seq_less:
  "groups_ok (Suc msk) \<Longrightarrow> g < Suc msk \<Longrightarrow> probe_seq msk g p < Suc msk"
  by (cases p) (simp_all add: next_group_less)

definition triangle :: "nat \<Rightarrow> nat" where
  "triangle p = p * Suc p div 2"

lemma triangle_Suc: "triangle (Suc p) = triangle p + Suc p"
proof -
  have "Suc p * Suc (Suc p) = p * Suc p + 2 * Suc p" by simp
  then show ?thesis by (simp add: triangle_def)
qed

lemma triangle_twice: "2 * triangle p = p * Suc p"
  by (induction p) (simp_all add: triangle_Suc, simp add: triangle_def)

lemma probe_seq_triangle:
  assumes "groups_ok (Suc msk)" "g < Suc msk"
  shows "probe_seq msk g p = (g + triangle p) mod Suc msk"
proof (induction p)
  case 0
  then show ?case using assms by (simp add: triangle_def)
next
  case (Suc p)
  then show ?case
    by (simp add: next_group_eq [OF assms(1)] triangle_Suc mod_add_left_eq add.assoc del: add_Suc_right)
qed

text \<open>
  Two probes below \<open>2 ^ k\<close> never meet: the difference of two triangle numbers
  is \<open>(i - j) * (i + j + 1) / 2\<close>, one factor is odd and the other below
  \<open>2 ^ (k + 1)\<close>.
\<close>

lemma triangle_mono: "j \<le> i \<Longrightarrow> triangle j \<le> triangle i"
  unfolding triangle_def by (intro div_le_mono mult_le_mono) auto

lemma triangle_diff: "j \<le> i \<Longrightarrow> 2 * (triangle i - triangle j) = (i - j) * (i + j + 1)"
proof -
  assume "j \<le> i"
  then obtain d where i: "i = j + d" by (auto simp: le_iff_add)
  have "2 * triangle i = 2 * triangle j + d * (i + j + 1)"
    unfolding triangle_twice i by (simp add: algebra_simps)
  then show ?thesis by (simp add: i diff_mult_distrib2)
qed

lemma triangle_diff_not_dvd:
  assumes ij: "j < i" "i < 2 ^ k"
  shows "\<not> 2 ^ k dvd triangle i - triangle j"
proof
  assume "2 ^ k dvd triangle i - triangle j"
  then have "2 ^ Suc k dvd 2 * (triangle i - triangle j)" by simp
  then have dvd: "2 ^ Suc k dvd (i - j) * (i + j + 1)"
    using triangle_diff ij by (simp del: power_Suc)
  show False
  proof (cases "odd (i - j)")
    case True
    then have "coprime (2 ^ Suc k) (i - j)" by simp
    with dvd have "2 ^ Suc k dvd i + j + 1" by (metis coprime_dvd_mult_right_iff)
    then have "2 ^ Suc k \<le> i + j + 1" by (rule dvd_imp_le) simp
    then show False using ij by simp
  next
    case False
    then have "odd (i + j + 1)" using ij by simp
    then have "coprime (2 ^ Suc k) (i + j + 1)" by simp
    with dvd have "2 ^ Suc k dvd i - j" by (metis coprime_dvd_mult_left_iff)
    then have "2 ^ Suc k \<le> i - j" using ij by (simp add: dvd_imp_le)
    then show False using ij by simp
  qed
qed

lemma probe_seq_inj:
  assumes ok: "groups_ok (Suc msk)" and g: "g < Suc msk"
  shows "inj_on (probe_seq msk g) {..<Suc msk}"
proof (rule linorder_inj_onI)
  fix j i assume lt: "j < i" and i: "i \<in> {..<Suc msk}"
  obtain k where k: "Suc msk = 2 ^ k" using ok by (auto simp: groups_ok_def)
  have "(g + triangle j) mod 2 ^ k \<noteq> (g + triangle i) mod 2 ^ k"
    using triangle_diff_not_dvd [OF lt] triangle_mono [of j i] lt i k
    by (metis add_le_cancel_left diff_add_inverse2 diff_cancel2 add.commute less_imp_le lessThan_iff
        mod_eq_dvd_iff_nat)
  then show "probe_seq msk g j \<noteq> probe_seq msk g i"
    using probe_seq_triangle [OF ok g] k by simp
qed auto

text \<open>Hence the probe sequence visits every group within the first \<open>mask + 1\<close> probes.\<close>

lemma probe_seq_surj:
  assumes ok: "groups_ok (Suc msk)" and g: "g < Suc msk"
  shows "probe_seq msk g ` {..<Suc msk} = {..<Suc msk}"
proof (rule endo_inj_surj)
  show "probe_seq msk g ` {..<Suc msk} \<subseteq> {..<Suc msk}"
    using probe_seq_less [OF ok g] by auto
qed (use probe_seq_inj [OF ok g] in auto)

lemma probe_seq_reaches:
  assumes "groups_ok (Suc msk)" "g < Suc msk" "x < Suc msk"
  obtains p where "p < Suc msk" "probe_seq msk g p = x"
  using probe_seq_surj [OF assms(1,2)] assms(3) by (metis imageE lessThan_iff)

section \<open>Bucket arrays as finite maps\<close>

text \<open>
  The bucket region of a table is an array of slots that hold a key-value pair
  or nothing (never written, or moved out of). Its content is the list of
  pairs in index order; with distinct keys it is a finite map.
\<close>

type_synonym ('k, 'v) bucket_array = "('k \<times> 'v) option list"

definition somes :: "'a option list \<Rightarrow> 'a list" where
  "somes bs = map the (filter (\<lambda>b. b \<noteq> None) bs)"

definition bucket_map :: "('k, 'v) bucket_array \<Rightarrow> 'k \<rightharpoonup> 'v" where
  "bucket_map bs = map_of (somes bs)"

definition keys_distinct :: "('k, 'v) bucket_array \<Rightarrow> bool" where
  "keys_distinct bs \<longleftrightarrow> distinct (map fst (somes bs))"

lemma somes_simps [simp]:
  "somes [] = []"
  "somes (None # bs) = somes bs"
  "somes (Some x # bs) = x # somes bs"
  "somes (bs @ cs) = somes bs @ somes cs"
  "somes (replicate n None) = []"
  by (simp_all add: somes_def)

lemma set_somes: "set (somes bs) = {x. Some x \<in> set bs}"
  by (force simp: somes_def image_iff)

lemma somes_update:
  "i < length bs \<Longrightarrow> somes (bs[i := x]) = somes (take i bs) @ somes [x] @ somes (drop (Suc i) bs)"
  by (simp add: upd_conv_take_nth_drop flip: somes_simps(4))

lemma somes_split:
  "i < length bs \<Longrightarrow> somes bs = somes (take i bs) @ somes [bs ! i] @ somes (drop (Suc i) bs)"
  using somes_update [of i bs "bs ! i"] by simp

lemma bucket_map_None_iff:
  "bucket_map bs k = None \<longleftrightarrow> (\<forall>i v. i < length bs \<longrightarrow> bs ! i \<noteq> Some (k, v))"
  unfolding bucket_map_def map_of_eq_None_iff
  by (auto simp: set_somes image_iff in_set_conv_nth)

lemma bucket_map_Some_iff:
  assumes "keys_distinct bs"
  shows "bucket_map bs k = Some v \<longleftrightarrow> (\<exists>i<length bs. bs ! i = Some (k, v))"
  using assms unfolding bucket_map_def keys_distinct_def
  by (simp add: set_somes in_set_conv_nth)

lemma keys_distinct_nth:
  assumes d: "keys_distinct bs" and i: "i < length bs" "bs ! i = Some (k, v)"
    and j: "j < length bs" "bs ! j = Some (k, w)"
  shows "i = j"
proof -
  have aux: False if "a < b" "b < length bs" "bs ! a = Some (k, x)" "bs ! b = Some (k, y)" for a b x y
  proof -
    have "drop (Suc a) bs ! (b - Suc a) = Some (k, y)" using that by simp
    then have "Some (k, y) \<in> set (drop (Suc a) bs)"
      using that by (metis Suc_leI diff_less_mono length_drop nth_mem)
    then have "(k, y) \<in> set (somes (drop (Suc a) bs))" by (simp add: set_somes)
    then show False
      using d somes_split [of a bs] that by (auto simp: keys_distinct_def image_iff)
  qed
  show ?thesis using aux i j by (metis linorder_neqE_nat)
qed

lemma bucket_insert:
  assumes "keys_distinct bs" "i < length bs" "bs ! i = None" "bucket_map bs k = None"
  shows "bucket_map (bs[i := Some (k, v)]) = (bucket_map bs)(k \<mapsto> v)"
    and "keys_distinct (bs[i := Some (k, v)])"
    and "length (somes (bs[i := Some (k, v)])) = Suc (length (somes bs))"
  using assms somes_split [of i bs]
  by (auto simp: bucket_map_def keys_distinct_def somes_update map_add_upd_left map_of_eq_None_iff
      map_add_upd dom_map_of_conv_image_fst)

lemma bucket_remove:
  assumes "keys_distinct bs" "i < length bs" "bs ! i = Some (k, v)"
  shows "bucket_map (bs[i := None]) = (bucket_map bs)(k := None)"
    and "keys_distinct (bs[i := None])"
    and "Suc (length (somes (bs[i := None]))) = length (somes bs)"
proof -
  have "k \<notin> fst ` set (somes (take i bs))" "k \<notin> fst ` set (somes (drop (Suc i) bs))"
    using assms somes_split [of i bs] by (auto simp: keys_distinct_def)
  then have k: "map_of (somes (take i bs)) k = None" "map_of (somes (drop (Suc i) bs)) k = None"
    by (simp_all add: map_of_eq_None_iff)
  then show "bucket_map (bs[i := None]) = (bucket_map bs)(k := None)"
    using assms somes_split [of i bs]
    by (auto simp: bucket_map_def somes_update map_add_def fun_eq_iff split: option.splits)
  show "keys_distinct (bs[i := None])" "Suc (length (somes (bs[i := None]))) = length (somes bs)"
    using assms somes_split [of i bs] by (auto simp: keys_distinct_def somes_update)
qed

lemma bucket_replace:
  assumes "keys_distinct bs" "i < length bs" "bs ! i = Some (k, v)"
  shows "bucket_map (bs[i := Some (k, w)]) = (bucket_map bs)(k \<mapsto> w)"
    and "keys_distinct (bs[i := Some (k, w)])"
    and "length (somes (bs[i := Some (k, w)])) = length (somes bs)"
proof -
  let ?cs = "bs[i := None]"
  have cs: "keys_distinct ?cs" "i < length ?cs" "?cs ! i = None" "bucket_map ?cs k = None"
    using bucket_remove [OF assms] assms by auto
  have eq: "?cs[i := Some (k, w)] = bs[i := Some (k, w)]" by simp
  show "bucket_map (bs[i := Some (k, w)]) = (bucket_map bs)(k \<mapsto> w)"
    using bucket_insert(1) [OF cs, of w] bucket_remove(1) [OF assms] unfolding eq by simp
  show "keys_distinct (bs[i := Some (k, w)])"
    using bucket_insert(2) [OF cs, of w] unfolding eq .
  show "length (somes (bs[i := Some (k, w)])) = length (somes bs)"
    using bucket_insert(3) [OF cs, of w] bucket_remove(3) [OF assms] unfolding eq by simp
qed

lemma length_somes_card: "length (somes bs) = card {i. i < length bs \<and> bs ! i \<noteq> None}"
  by (simp add: somes_def length_filter_conv_card)

lemma bucket_map_empty [simp]: "bucket_map (replicate n None) = Map.empty" "bucket_map [] = Map.empty"
  by (simp_all add: bucket_map_def)

lemma keys_distinct_empty [simp]: "keys_distinct (replicate n None)" "keys_distinct []"
  by (simp_all add: keys_distinct_def)

lemma dom_bucket_map: "dom (bucket_map bs) = fst ` set (somes bs)"
  by (simp add: bucket_map_def dom_map_of_conv_image_fst)

lemma card_dom_bucket_map: "keys_distinct bs \<Longrightarrow> card (dom (bucket_map bs)) = length (somes bs)"
  by (simp add: keys_distinct_def dom_bucket_map distinct_card flip: set_map)

section \<open>Loops over a state that may not return\<close>

text \<open>A loop body that may run forever has \<^term>\<open>None\<close> for not returning.\<close>

fun foldM :: "('a \<Rightarrow> 's \<Rightarrow> 's option) \<Rightarrow> 'a list \<Rightarrow> 's \<Rightarrow> 's option" where
  "foldM f [] s = Some s"
| "foldM f (x # xs) s = (case f x s of None \<Rightarrow> None | Some s' \<Rightarrow> foldM f xs s')"

lemma foldM_append:
  "foldM f (xs @ ys) s = (case foldM f xs s of None \<Rightarrow> None | Some s' \<Rightarrow> foldM f ys s')"
  by (induction xs arbitrary: s) (auto split: option.splits)

lemma foldM_concat: "foldM (\<lambda>x. foldM f (g x)) xs s = foldM f (concat (map g xs)) s"
  by (induction xs arbitrary: s) (auto simp: foldM_append split: option.splits)

lemma foldM_map: "foldM f (map g xs) = foldM (\<lambda>x. f (g x)) xs"
proof
  show "foldM f (map g xs) s = foldM (\<lambda>x. f (g x)) xs s" for s
    by (induction xs arbitrary: s) (auto split: option.splits)
qed

lemma foldM_invariant:
  assumes "foldM f xs s = Some s'" "I s"
    and "\<And>x s s'. x \<in> set xs \<Longrightarrow> I s \<Longrightarrow> f x s = Some s' \<Longrightarrow> I s'"
  shows "I s'"
  using assms
proof (induction xs arbitrary: s)
  case (Cons x xs)
  from Cons.prems(1) obtain s1 where "f x s = Some s1" "foldM f xs s1 = Some s'"
    by (auto split: option.splits)
  then show ?case using Cons.IH [of s1] Cons.prems(2) Cons.prems(3) by (meson list.set_intros)
qed simp

section \<open>Probing visits every group\<close>

text \<open>
  C20. For every power-of-two group count, the first \<open>mask + 1\<close> groups of the probe
  loop from any home group are a permutation of all groups, computed with the
  wrapping additions and the masking of the code. The code relies on it in every
  probe loop and does not state it.
\<close>

theorem probe_sequence_permutes:
  assumes "groups_ok (Suc msk)" "g \<le> msk"
  shows "bij_betw (\<lambda>p. probe_seq msk g p) {..msk} {..msk} \<and>
    (\<forall>p. probe_seq msk g (Suc p) = next_group msk (probe_seq msk g p) (Suc p))"
  using probe_seq_inj [of msk g] probe_seq_surj [of msk g] assms
  by (simp add: bij_betw_def lessThan_Suc_atMost)

theorem probe_sequence_permutes_witness:
  "bij_betw (\<lambda>p. probe_seq 7 3 p) {..7} {..7} \<and>
    (\<forall>p. probe_seq 7 3 (Suc p) = next_group 7 (probe_seq 7 3 p) (Suc p))"
proof -
  have "groups_ok (Suc 7)" unfolding groups_ok_def by (rule exI [of _ 3]) simp
  then show ?thesis using probe_sequence_permutes [of 7 3] by simp
qed

end
