(* ===== verification/Bitmask.thy ===== *)
theory Bitmask
  imports Prelude
begin

text \<open>
  The bitmask iterators of \<^verbatim>\<open>src/raw/bitmask.rs\<close>. The three types
  \<^verbatim>\<open>BitMask\<close>, \<^verbatim>\<open>BitMask32\<close> and \<^verbatim>\<open>BitMask64\<close> have the same code over
  \<^verbatim>\<open>u16\<close>, \<^verbatim>\<open>u32\<close> and \<^verbatim>\<open>u64\<close>; the model is polymorphic in the word width,
  and the width is the type parameter \<open>'w\<close>. A mask's set bits are the matching
  slots of a group; iterating it clears the lowest set bit with
  \<^verbatim>\<open>mask & (mask - 1)\<close> and must yield exactly the set bits in ascending order.
\<close>

type_synonym BitMask = u16
type_synonym BitMask32 = u32
type_synonym BitMask64 = u64

definition any_set :: "'w::len word \<Rightarrow> bool" where
  "any_set m \<longleftrightarrow> m \<noteq> 0"

definition lowest_set_bit :: "'w::len word \<Rightarrow> nat option" where
  "lowest_set_bit m = (if m = 0 then None else Some (trailing_zeros m))"

definition mask_next :: "'w::len word \<Rightarrow> (nat \<times> 'w word) option" where
  "mask_next m = (if m = 0 then None else Some (trailing_zeros m, m AND (m - 1)))"

section \<open>Clearing the lowest set bit\<close>

lemma takeWhile_upt: "length (takeWhile (\<lambda>i. \<not> P i) [0..<n]) = (if \<exists>i<n. P i then LEAST i. P i else n)"
proof (cases "\<exists>i<n. P i")
  case True
  define l where "l = (LEAST i. P i)"
  have l: "P l" "l < n" "\<And>i. i < l \<Longrightarrow> \<not> P i"
  proof -
    obtain i where i: "P i" "i < n" using True by blast
    then show "P l" "l < n"
      unfolding l_def using LeastI [of P i] Least_le [of P i] by auto
    show "\<not> P i" if "i < l" for i using that unfolding l_def by (rule not_less_Least)
  qed
  with upt_split [of l n] have "takeWhile (\<lambda>i. \<not> P i) [0..<n] = [0..<l]"
    by (simp, subst takeWhile_append2) auto
  then show ?thesis using True by (simp add: l_def)
next
  case False
  then have eq: "takeWhile (\<lambda>i. \<not> P i) [0..<n] = [0..<n]" by (simp add: takeWhile_eq_all_conv)
  show ?thesis unfolding eq using False by auto
qed

lemma trailing_zeros_least:
  fixes m :: "'w::len word"
  assumes "m \<noteq> 0"
  shows "trailing_zeros m = (LEAST i. bit m i)"
proof -
  have "\<exists>i<LENGTH('w). bit m i" using assms bit_eqI [of m 0] by (metis bit_0_eq bot_apply bit_imp_le_length bot_bool_def)
  then show ?thesis by (simp add: trailing_zeros_def takeWhile_upt)
qed

lemma trailing_zeros_bit: "m \<noteq> 0 \<Longrightarrow> bit m (trailing_zeros m)"
  by (metis LeastI_ex bit_eqI bit_0_eq bot_apply bot_bool_def trailing_zeros_least)

lemma trailing_zeros_low: "m \<noteq> 0 \<Longrightarrow> i < trailing_zeros m \<Longrightarrow> \<not> bit m i"
  by (metis not_less_Least trailing_zeros_least)

lemma trailing_zeros_less: "(m::'w::len word) \<noteq> 0 \<Longrightarrow> trailing_zeros m < LENGTH('w)"
  using bit_imp_le_length trailing_zeros_bit by blast

lemma clear_lowest_eq:
  fixes m :: "'w::len word"
  assumes "m \<noteq> 0"
  shows "m AND (m - 1) = unset_bit (trailing_zeros m) m"
proof -
  define t where "t = trailing_zeros m"
  define a where "a = unset_bit t m"
  have t: "bit m t" "t < LENGTH('w)" and low: "\<And>i. i < t \<Longrightarrow> \<not> bit m i"
    using trailing_zeros_bit trailing_zeros_low trailing_zeros_less assms by (auto simp: t_def)
  have bits: "bit a i \<longleftrightarrow> bit m i \<and> t < i" for i
    using low [of i] by (cases i t rule: linorder_cases) (auto simp: a_def bit_unset_bit_iff)
  have m: "m = a + 2 ^ t"
  proof -
    have "a AND 2 ^ t = 0"
      by (rule bit_eqI) (auto simp: bit_and_iff bits bit_exp_iff)
    then have "a + 2 ^ t = a OR 2 ^ t" by (rule disjunctive_add_eq_or)
    also have "\<dots> = m"
      by (rule bit_eqI) (use t low in \<open>auto simp: bit_or_iff bits bit_exp_iff intro: linorder_neqE_nat\<close>)
    finally show ?thesis by simp
  qed
  have "m - 1 = a + mask t" by (simp add: m mask_eq_exp_minus_1)
  also have "\<dots> = a OR mask t"
  proof (rule disjunctive_add_eq_or)
    show "a AND mask t = 0"
      by (rule bit_eqI) (auto simp: bit_and_iff bits bit_mask_iff)
  qed
  finally have "m - 1 = a OR mask t" .
  then have "m AND (m - 1) = a"
    by (auto intro!: bit_eqI simp: bit_and_iff bit_or_iff bits bit_mask_iff dest: low)
  then show ?thesis by (simp add: a_def t_def)
qed

lemma bit_clear_lowest:
  "m \<noteq> 0 \<Longrightarrow> bit (m AND (m - 1)) i \<longleftrightarrow> bit m i \<and> i \<noteq> trailing_zeros m"
  by (auto simp: clear_lowest_eq bit_unset_bit_iff)

lemma clear_lowest_less:
  assumes "m \<noteq> 0"
  shows "unat (m AND (m - 1)) < unat m"
proof -
  have "m AND (m - 1) \<noteq> m"
    using bit_clear_lowest [OF assms, of "trailing_zeros m"] trailing_zeros_bit [OF assms] by metis
  moreover have "m AND (m - 1) \<le> m" by (rule word_and_le2)
  ultimately have "m AND (m - 1) < m" by simp
  then show ?thesis by (simp add: word_less_nat_alt)
qed

section \<open>Iterating a mask\<close>

text \<open>Collecting the iterator, and the early-exit loop \<^verbatim>\<open>for si in mask { if P(si) return si }\<close>.\<close>

function mask_collect :: "'w::len word \<Rightarrow> nat list" where
  "mask_collect m = (case mask_next m of None \<Rightarrow> [] | Some (i, m') \<Rightarrow> i # mask_collect m')"
  by pat_completeness auto
termination
  by (relation "measure unat")
    (auto simp: mask_next_def clear_lowest_less split: if_splits)

function mask_find :: "(nat \<Rightarrow> bool) \<Rightarrow> 'w::len word \<Rightarrow> nat option" where
  "mask_find P m =
    (case mask_next m of None \<Rightarrow> None
     | Some (i, m') \<Rightarrow> if P i then Some i else mask_find P m')"
  by pat_completeness auto
termination
  by (relation "measure (\<lambda>(P, m). unat m)")
    (auto simp: mask_next_def clear_lowest_less split: if_splits)

declare mask_collect.simps [simp del] mask_find.simps [simp del]

text \<open>The set bits in ascending order: the specification of the iterator.\<close>

definition set_bits_of :: "'w::len word \<Rightarrow> nat list" where
  "set_bits_of m = filter (bit m) [0..<LENGTH('w)]"

lemma set_bits_of_next:
  fixes m :: "'w::len word"
  assumes "m \<noteq> 0"
  shows "set_bits_of m = trailing_zeros m # set_bits_of (m AND (m - 1))"
proof -
  let ?t = "trailing_zeros m" and ?n = "LENGTH('w)"
  have t: "?t < ?n" "bit m ?t" using assms trailing_zeros_less trailing_zeros_bit by auto
  have split: "[0..<?n] = [0..<?t] @ ?t # [Suc ?t..<?n]"
    using t by (simp add: upt_split)
  have low: "filter (bit m) [0..<?t] = []" "filter (bit (m AND (m - 1))) [0..<?t] = []"
    using trailing_zeros_low [OF assms] by (auto simp: filter_empty_conv bit_clear_lowest [OF assms])
  have high: "filter (bit (m AND (m - 1))) [Suc ?t..<?n] = filter (bit m) [Suc ?t..<?n]"
    by (rule filter_cong) (auto simp: bit_clear_lowest [OF assms])
  show ?thesis
    using t by (simp add: set_bits_of_def split low high bit_clear_lowest [OF assms])
qed

lemma set_bits_of_0 [simp]: "set_bits_of 0 = []"
  by (simp add: set_bits_of_def)

lemma mask_collect_eq: "mask_collect m = set_bits_of m"
proof (induction m rule: mask_collect.induct)
  case (1 m)
  then show ?case
    by (subst mask_collect.simps) (auto simp: mask_next_def set_bits_of_next)
qed

lemma mask_find_eq: "mask_find P m = List.find P (set_bits_of m)"
proof (induction P m rule: mask_find.induct)
  case (1 P m)
  then show ?case
    by (subst mask_find.simps) (auto simp: mask_next_def set_bits_of_next)
qed

lemma set_set_bits_of [simp]: "set (set_bits_of m) = {i. bit m i}"
  by (auto simp: set_bits_of_def dest: bit_imp_le_length)

lemma distinct_set_bits_of [simp]: "distinct (set_bits_of m)"
  by (simp add: set_bits_of_def)

lemma sorted_set_bits_of [simp]: "sorted (set_bits_of m)"
  unfolding set_bits_of_def by (rule sorted_wrt_filter) simp

lemma mask_find_Some: "mask_find P m = Some i \<Longrightarrow> bit m i \<and> P i"
  by (auto simp: mask_find_eq find_Some_iff) (metis mem_Collect_eq nth_mem set_set_bits_of)

lemma mask_find_None: "mask_find P m = None \<longleftrightarrow> (\<forall>i. bit m i \<longrightarrow> \<not> P i)"
  by (auto simp: mask_find_eq find_None_iff)

lemma lowest_set_bit_Some: "lowest_set_bit m = Some i \<Longrightarrow> bit m i"
  by (auto simp: lowest_set_bit_def trailing_zeros_bit split: if_splits)

lemma lowest_set_bit_None: "lowest_set_bit m = None \<longleftrightarrow> (\<forall>i. \<not> bit m i)"
  by (auto simp: lowest_set_bit_def) (metis trailing_zeros_bit)

section \<open>The property\<close>

text \<open>
  C21. Iterating a bitmask by clearing its lowest set bit yields exactly its set bits,
  each once and in ascending order, for masks of every width; the early-exit loop
  over it returns the first set bit that satisfies the test.
\<close>

theorem bitmask_iteration:
  "sorted (mask_collect m) \<and> distinct (mask_collect m) \<and> set (mask_collect m) = {i. bit m i} \<and>
   mask_find P m = List.find P (mask_collect m) \<and>
   lowest_set_bit m = (case mask_collect m of [] \<Rightarrow> None | i # _ \<Rightarrow> Some i)"
proof -
  have "lowest_set_bit m = (case set_bits_of m of [] \<Rightarrow> None | i # _ \<Rightarrow> Some i)"
    by (cases "m = 0") (simp_all add: lowest_set_bit_def set_bits_of_next)
  then show ?thesis by (simp add: mask_collect_eq mask_find_eq)
qed

end
