(* ===== verification/Group_Ops.thy ===== *)
theory Group_Ops
  imports Bitmask
begin

text \<open>
  The SIMD group operations of \<^verbatim>\<open>src/raw/generic_group.rs\<close>,
  \<^verbatim>\<open>src/raw/group32.rs\<close>, \<^verbatim>\<open>src/raw/group64.rs\<close> and
  \<^verbatim>\<open>src/in_place_overflow/raw/group.rs\<close>. A loaded register is the list of its
  bytes. The intrinsics the code uses are modelled on byte lists:
  \<^verbatim>\<open>cmpeq_epi8\<close> gives 0xFF or 0x00 per byte, \<^verbatim>\<open>movemask_epi8\<close> gathers the
  top bit of every byte, \<^verbatim>\<open>or_si128\<close> is bytewise. The single-load code of the
  16-, 32- and 64-slot groups is the same text at three widths and is one
  definition, polymorphic in the mask width \<open>'w\<close>; the narrower-register
  fallbacks and the scalar fallbacks have their own definitions and are shown
  to agree with it.
\<close>

definition EMPTY :: u8 where "EMPTY = 0"

definition TOMBSTONE :: u8 where "TOMBSTONE = 1"

section \<open>Intrinsics\<close>

definition cmpeq_epi8 :: "u8 list \<Rightarrow> u8 list \<Rightarrow> u8 list" where
  "cmpeq_epi8 xs ys = map2 (\<lambda>a b. if a = b then 0xFF else 0x00) xs ys"

definition or_bytes :: "u8 list \<Rightarrow> u8 list \<Rightarrow> u8 list" where
  "or_bytes xs ys = map2 (\<lambda>a b. a OR b) xs ys"

definition movemask_epi8 :: "u8 list \<Rightarrow> 'w::len word" where
  "movemask_epi8 xs = horner_sum of_bool 2 (map (\<lambda>b. bit b 7) xs)"

definition set1_epi8 :: "nat \<Rightarrow> u8 \<Rightarrow> u8 list" where
  "set1_epi8 n v = replicate n v"

text \<open>Compare every byte with one value and gather the result.\<close>

definition cmp_mask :: "u8 list \<Rightarrow> u8 \<Rightarrow> 'w::len word" where
  "cmp_mask data value = movemask_epi8 (cmpeq_epi8 data (set1_epi8 (length data) value))"

lemma bit_0xFF_7 [simp]: "bit (if P then 0xFF else 0 :: u8) 7 \<longleftrightarrow> P"
  by (cases P) simp_all

lemma bit_cmp_mask:
  "bit (cmp_mask xs v :: 'w::len word) i \<longleftrightarrow> i < LENGTH('w) \<and> i < length xs \<and> xs ! i = v"
  by (auto simp: cmp_mask_def movemask_epi8_def cmpeq_epi8_def set1_epi8_def bit_horner_sum_bit_word_iff)

section \<open>Single-load groups (SSE2 16, AVX2 32, AVX-512BW 64)\<close>

definition match_byte :: "'w::len word \<Rightarrow> u8 list \<Rightarrow> u8 \<Rightarrow> 'w word" where
  "match_byte slot_mask data value =
    cmp_mask data value AND slot_mask"

definition match_empty :: "'w::len word \<Rightarrow> u8 list \<Rightarrow> 'w word" where
  "match_empty slot_mask data =
    cmp_mask data 0 AND slot_mask"

definition match_non_empty :: "'w::len word \<Rightarrow> u8 list \<Rightarrow> 'w word" where
  "match_non_empty slot_mask data =
    NOT (cmp_mask data 0) AND slot_mask"

definition match_byte_and_empty :: "'w::len word \<Rightarrow> u8 list \<Rightarrow> u8 \<Rightarrow> 'w word \<times> 'w word" where
  "match_byte_and_empty slot_mask data value =
    (cmp_mask data value AND slot_mask,
     cmp_mask data 0 AND slot_mask)"

lemma bit_match_byte [table_simps]:
  "bit (match_byte sm data v) i \<longleftrightarrow> i < length data \<and> data ! i = v \<and> bit sm i"
  by (auto simp: match_byte_def bit_and_iff bit_cmp_mask dest: bit_imp_le_length)

lemma bit_match_empty [table_simps]:
  "bit (match_empty sm data) i \<longleftrightarrow> i < length data \<and> data ! i = EMPTY \<and> bit sm i"
  by (auto simp: match_empty_def bit_and_iff bit_cmp_mask EMPTY_def dest: bit_imp_le_length)

lemma bit_match_non_empty [table_simps]:
  "length data = LENGTH('w) \<Longrightarrow>
   bit (match_non_empty (sm :: 'w::len word) data) i \<longleftrightarrow> i < length data \<and> data ! i \<noteq> EMPTY \<and> bit sm i"
  by (auto simp: match_non_empty_def bit_and_iff bit_not_iff bit_cmp_mask EMPTY_def
      possible_bit_word dest: bit_imp_le_length)

lemma match_byte_and_empty_eq [table_simps]:
  "match_byte_and_empty sm data v = (match_byte sm data v, match_empty sm data)"
  by (simp add: match_byte_and_empty_def match_byte_def match_empty_def)

section \<open>Narrower registers\<close>

text \<open>\<^verbatim>\<open>Group32\<close> without AVX2: two 128-bit loads.\<close>

definition group32_sse2_match :: "u8 list \<Rightarrow> u8 \<Rightarrow> u32" where
  "group32_sse2_match data value =
    (let lo = take 16 data; hi = take 16 (drop 16 data);
         lo_m = cmp_mask lo value AND 0xFFFF;
         hi_m = cmp_mask hi value AND 0xFFFF
     in push_bit 16 hi_m OR lo_m)"

definition group32_sse2_match_byte :: "u32 \<Rightarrow> u8 list \<Rightarrow> u8 \<Rightarrow> u32" where
  "group32_sse2_match_byte slot_mask data value = group32_sse2_match data value AND slot_mask"

definition group32_sse2_match_non_empty :: "u32 \<Rightarrow> u8 list \<Rightarrow> u32" where
  "group32_sse2_match_non_empty slot_mask data = NOT (group32_sse2_match data 0) AND slot_mask"

text \<open>\<^verbatim>\<open>Group64\<close> with AVX2 only: two 256-bit loads; \<^verbatim>\<open>as u32 as u64\<close> zero-extends.\<close>

definition group64_avx2_match :: "u8 list \<Rightarrow> u8 \<Rightarrow> u64" where
  "group64_avx2_match data value =
    (let lo = take 32 data; hi = take 32 (drop 32 data);
         lo_m = ucast (cmp_mask lo value :: u32);
         hi_m = ucast (cmp_mask hi value :: u32)
     in push_bit 32 hi_m OR lo_m)"

definition group64_avx2_match_byte :: "u64 \<Rightarrow> u8 list \<Rightarrow> u8 \<Rightarrow> u64" where
  "group64_avx2_match_byte slot_mask data value = group64_avx2_match data value AND slot_mask"

definition group64_avx2_match_non_empty :: "u64 \<Rightarrow> u8 list \<Rightarrow> u64" where
  "group64_avx2_match_non_empty slot_mask data = NOT (group64_avx2_match data 0) AND slot_mask"

text \<open>\<^verbatim>\<open>Group64\<close> with SSE2 only: four 128-bit loads in a loop.\<close>

definition group64_sse2_match :: "u8 list \<Rightarrow> u8 \<Rightarrow> u64" where
  "group64_sse2_match data value =
    fold (\<lambda>i acc.
      let chunk = take 16 (drop (i * 16) data);
          m = ucast (cmp_mask chunk value :: u32) AND 0xFFFF
      in acc OR push_bit (i * 16) m) [0..<4] 0"

definition group64_sse2_match_byte :: "u64 \<Rightarrow> u8 list \<Rightarrow> u8 \<Rightarrow> u64" where
  "group64_sse2_match_byte slot_mask data value = group64_sse2_match data value AND slot_mask"

definition group64_sse2_match_non_empty :: "u64 \<Rightarrow> u8 list \<Rightarrow> u64" where
  "group64_sse2_match_non_empty slot_mask data = NOT (group64_sse2_match data 0) AND slot_mask"

lemma cmp_mask_and_0xFFFF:
  "length xs \<le> 16 \<Longrightarrow> cmp_mask xs v AND 0xFFFF = (cmp_mask xs v :: u32)"
  "length xs \<le> 16 \<Longrightarrow> ucast (cmp_mask xs v :: u32) AND 0xFFFF = (ucast (cmp_mask xs v :: u32) :: u64)"
proof -
  assume xs: "length xs \<le> 16"
  have m: "(0xFFFF :: u32) = mask 16" "(0xFFFF :: u64) = mask 16" by (simp_all add: mask_eq_exp_minus_1)
  show "cmp_mask xs v AND 0xFFFF = (cmp_mask xs v :: u32)"
    "ucast (cmp_mask xs v :: u32) AND 0xFFFF = (ucast (cmp_mask xs v :: u32) :: u64)"
    unfolding m using xs
    by (auto intro!: bit_eqI simp: bit_and_iff bit_mask_iff bit_cmp_mask bit_ucast_iff possible_bit_word)
qed

lemma nth_take_drop_cases:
  "k \<le> i \<Longrightarrow> i < length xs \<Longrightarrow> drop k xs ! (i - k) = xs ! i"
  by (simp add: nth_drop)

lemma group32_sse2_match_eq:
  assumes "length data = 32"
  shows "group32_sse2_match data v = cmp_mask data v"
proof (rule bit_eqI)
  fix i assume "possible_bit TYPE(32 word) i"
  then have "i < 32" by (simp add: possible_bit_word)
  then show "bit (group32_sse2_match data v) i \<longleftrightarrow> bit (cmp_mask data v :: u32) i"
    using assms
    by (cases "i < 16")
      (auto simp: group32_sse2_match_def Let_def cmp_mask_and_0xFFFF bit_or_iff bit_push_bit_iff
        bit_cmp_mask possible_bit_word nth_take_drop_cases simp del: push_bit_and)
qed

lemma group64_avx2_match_eq:
  assumes "length data = 64"
  shows "group64_avx2_match data v = cmp_mask data v"
proof (rule bit_eqI)
  fix i assume "possible_bit TYPE(64 word) i"
  then have "i < 64" by (simp add: possible_bit_word)
  then show "bit (group64_avx2_match data v) i \<longleftrightarrow> bit (cmp_mask data v :: u64) i"
    using assms
    by (cases "i < 32")
      (auto simp: group64_avx2_match_def Let_def bit_or_iff bit_push_bit_iff bit_ucast_iff
        bit_cmp_mask possible_bit_word nth_take_drop_cases)
qed

lemma group64_sse2_match_eq:
  assumes "length data = 64"
  shows "group64_sse2_match data v = cmp_mask data v"
proof (rule bit_eqI)
  have upt: "[0..<4] = [0, 1, 2, 3 :: nat]" by (simp add: upt_rec)
  fix i assume "possible_bit TYPE(64 word) i"
  then have i: "i < 64" by (simp add: possible_bit_word)
  then consider "i < 16" | "16 \<le> i" "i < 32" | "32 \<le> i" "i < 48" | "48 \<le> i" by linarith
  then show "bit (group64_sse2_match data v) i \<longleftrightarrow> bit (cmp_mask data v :: u64) i"
    unfolding group64_sse2_match_def Let_def upt using assms i
    by cases (auto simp: cmp_mask_and_0xFFFF bit_or_iff bit_push_bit_iff bit_ucast_iff
        bit_cmp_mask possible_bit_word nth_take_drop_cases simp del: push_bit_and)
qed

text \<open>Every register width computes the same masks.\<close>

lemma group32_sse2_eq:
  assumes "length data = 32"
  shows "group32_sse2_match_byte sm data v = match_byte sm data v"
    and "group32_sse2_match_non_empty sm data = match_non_empty sm data"
  using assms by (simp_all add: group32_sse2_match_byte_def group32_sse2_match_non_empty_def
      group32_sse2_match_eq match_byte_def match_non_empty_def)

lemma group64_avx2_eq:
  assumes "length data = 64"
  shows "group64_avx2_match_byte sm data v = match_byte sm data v"
    and "group64_avx2_match_non_empty sm data = match_non_empty sm data"
  using assms by (simp_all add: group64_avx2_match_byte_def group64_avx2_match_non_empty_def
      group64_avx2_match_eq match_byte_def match_non_empty_def)

lemma group64_sse2_eq:
  assumes "length data = 64"
  shows "group64_sse2_match_byte sm data v = match_byte sm data v"
    and "group64_sse2_match_non_empty sm data = match_non_empty sm data"
  using assms by (simp_all add: group64_sse2_match_byte_def group64_sse2_match_non_empty_def
      group64_sse2_match_eq match_byte_def match_non_empty_def)

section \<open>Scalar fallbacks\<close>

text \<open>The loops \<^verbatim>\<open>for i in 0..count { if P(byte i) { mask |= 1 << i } }\<close>.\<close>

definition scalar_mask :: "(u8 \<Rightarrow> bool) \<Rightarrow> u8 list \<Rightarrow> nat \<Rightarrow> 'w::len word" where
  "scalar_mask P data count =
    fold (\<lambda>i acc. if P (data ! i) then acc OR push_bit i 1 else acc) [0..<count] 0"

text \<open>The 15/16-slot group derives its loop bound from the slot mask and applies no mask.\<close>

definition group_scalar_count :: "u16 \<Rightarrow> nat" where
  "group_scalar_count slot_mask = (if slot_mask = 0x7FFF then 15 else 16)"

definition group_scalar_match_byte :: "u16 \<Rightarrow> u8 list \<Rightarrow> u8 \<Rightarrow> u16" where
  "group_scalar_match_byte slot_mask data value =
    scalar_mask (\<lambda>b. b = value) data (group_scalar_count slot_mask)"

definition group_scalar_match_non_empty :: "u16 \<Rightarrow> u8 list \<Rightarrow> u16" where
  "group_scalar_match_non_empty slot_mask data =
    scalar_mask (\<lambda>b. b \<noteq> EMPTY) data (group_scalar_count slot_mask)"

definition group32_scalar_match_byte :: "u32 \<Rightarrow> u8 list \<Rightarrow> u8 \<Rightarrow> u32" where
  "group32_scalar_match_byte slot_mask data value = scalar_mask (\<lambda>b. b = value) data 32 AND slot_mask"

definition group32_scalar_match_non_empty :: "u32 \<Rightarrow> u8 list \<Rightarrow> u32" where
  "group32_scalar_match_non_empty slot_mask data = scalar_mask (\<lambda>b. b \<noteq> 0) data 32 AND slot_mask"

definition group64_scalar_match_byte :: "u64 \<Rightarrow> u8 list \<Rightarrow> u8 \<Rightarrow> u64" where
  "group64_scalar_match_byte slot_mask data value = scalar_mask (\<lambda>b. b = value) data 64 AND slot_mask"

definition group64_scalar_match_non_empty :: "u64 \<Rightarrow> u8 list \<Rightarrow> u64" where
  "group64_scalar_match_non_empty slot_mask data = scalar_mask (\<lambda>b. b \<noteq> 0) data 64 AND slot_mask"

lemma bit_scalar_mask:
  "bit (scalar_mask P data n :: 'w::len word) i \<longleftrightarrow> i < LENGTH('w) \<and> i < n \<and> P (data ! i)"
proof (induction n)
  case 0
  then show ?case by (simp add: scalar_mask_def)
next
  case (Suc n)
  have "scalar_mask P data (Suc n) =
      (if P (data ! n) then scalar_mask P data n OR push_bit n 1 else scalar_mask P data n :: 'w word)"
    by (simp add: scalar_mask_def)
  then show ?case
    using Suc by (auto simp: bit_or_iff bit_exp_iff possible_bit_word less_Suc_eq)
qed

lemma bit_slot_mask_16: "bit (0x7FFF :: u16) i \<longleftrightarrow> i < 15" "bit (0xFFFF :: u16) i \<longleftrightarrow> i < 16"
proof -
  have m: "(0x7FFF :: u16) = mask 15" "(0xFFFF :: u16) = mask 16" by (simp_all add: mask_eq_exp_minus_1)
  show "bit (0x7FFF :: u16) i \<longleftrightarrow> i < 15" "bit (0xFFFF :: u16) i \<longleftrightarrow> i < 16"
    unfolding m by (auto simp: bit_mask_iff possible_bit_word)
qed

lemma group_scalar_match_byte_eq:
  "sm = 0x7FFF \<or> sm = 0xFFFF \<Longrightarrow> length data = 16 \<Longrightarrow>
   group_scalar_match_byte sm data v = match_byte sm data v"
  by (rule bit_eqI) (auto simp: group_scalar_match_byte_def group_scalar_count_def bit_scalar_mask
      table_simps bit_slot_mask_16 simp del: bit_numeral_word_iff)

lemma group_scalar_match_non_empty_eq:
  "sm = 0x7FFF \<or> sm = 0xFFFF \<Longrightarrow> length data = 16 \<Longrightarrow>
   group_scalar_match_non_empty sm data = match_non_empty sm data"
  by (rule bit_eqI) (auto simp: group_scalar_match_non_empty_def group_scalar_count_def bit_scalar_mask
      table_simps bit_slot_mask_16 simp del: bit_numeral_word_iff)

lemma group32_scalar_eq:
  "length data = 32 \<Longrightarrow> group32_scalar_match_byte sm data v = match_byte sm data v"
  "length data = 32 \<Longrightarrow> group32_scalar_match_non_empty sm data = match_non_empty sm data"
  by (auto intro!: bit_eqI simp: group32_scalar_match_byte_def group32_scalar_match_non_empty_def
      bit_and_iff bit_scalar_mask table_simps EMPTY_def)

lemma group64_scalar_eq:
  "length data = 64 \<Longrightarrow> group64_scalar_match_byte sm data v = match_byte sm data v"
  "length data = 64 \<Longrightarrow> group64_scalar_match_non_empty sm data = match_non_empty sm data"
  by (auto intro!: bit_eqI simp: group64_scalar_match_byte_def group64_scalar_match_non_empty_def
      bit_and_iff bit_scalar_mask table_simps EMPTY_def)

section \<open>Groups with tombstones\<close>

text \<open>
  \<^verbatim>\<open>src/in_place_overflow/raw/group.rs\<close>: all 16 bits of a mask are slots, and a
  byte is \<^const>\<open>EMPTY\<close>, \<^const>\<open>TOMBSTONE\<close> or the tag of an occupied slot.
\<close>

definition tomb_match_byte :: "u8 list \<Rightarrow> u8 \<Rightarrow> 'w::len word" where
  "tomb_match_byte data value = cmp_mask data value"

definition tomb_match_empty :: "u8 list \<Rightarrow> 'w::len word" where
  "tomb_match_empty data = cmp_mask data 0"

definition tomb_match_empty_or_tombstone :: "u8 list \<Rightarrow> 'w::len word" where
  "tomb_match_empty_or_tombstone data =
    movemask_epi8 (or_bytes (cmpeq_epi8 data (set1_epi8 (length data) 0))
                            (cmpeq_epi8 data (set1_epi8 (length data) 1)))"

definition tomb_match_occupied :: "u8 list \<Rightarrow> 'w::len word" where
  "tomb_match_occupied data = NOT (tomb_match_empty_or_tombstone data)"

definition tomb_match_byte_and_empty :: "u8 list \<Rightarrow> u8 \<Rightarrow> 'w::len word \<times> 'w word" where
  "tomb_match_byte_and_empty data value = (cmp_mask data value, cmp_mask data 0)"

definition tomb_scalar_match_occupied :: "u8 list \<Rightarrow> u16" where
  "tomb_scalar_match_occupied data = scalar_mask (\<lambda>b. 2 \<le> b) data 16"

lemma bit_tomb_match_byte [table_simps]:
  "bit (tomb_match_byte data v :: 'w::len word) i \<longleftrightarrow> i < LENGTH('w) \<and> i < length data \<and> data ! i = v"
  by (simp add: tomb_match_byte_def bit_cmp_mask)

lemma bit_tomb_match_empty [table_simps]:
  "bit (tomb_match_empty data :: 'w::len word) i \<longleftrightarrow> i < LENGTH('w) \<and> i < length data \<and> data ! i = EMPTY"
  by (simp add: tomb_match_empty_def bit_cmp_mask EMPTY_def)

lemma bit_or_7: "bit ((if P then 0xFF else 0 :: u8) OR (if Q then 0xFF else 0)) 7 \<longleftrightarrow> P \<or> Q"
  by (simp add: bit_or_iff)

lemma bit_tomb_match_empty_or_tombstone [table_simps]:
  "bit (tomb_match_empty_or_tombstone data :: 'w::len word) i \<longleftrightarrow>
   i < LENGTH('w) \<and> i < length data \<and> (data ! i = EMPTY \<or> data ! i = TOMBSTONE)"
  by (auto simp: tomb_match_empty_or_tombstone_def movemask_epi8_def or_bytes_def cmpeq_epi8_def
      set1_epi8_def bit_horner_sum_bit_word_iff bit_or_7 EMPTY_def TOMBSTONE_def)

lemma bit_tomb_match_occupied [table_simps]:
  "length data = LENGTH('w) \<Longrightarrow> bit (tomb_match_occupied data :: 'w::len word) i \<longleftrightarrow>
   i < length data \<and> data ! i \<noteq> EMPTY \<and> data ! i \<noteq> TOMBSTONE"
  by (auto simp: tomb_match_occupied_def bit_not_iff bit_tomb_match_empty_or_tombstone possible_bit_word)

lemma tomb_match_byte_and_empty_eq [table_simps]:
  "tomb_match_byte_and_empty data v = (tomb_match_byte data v, tomb_match_empty data)"
  by (simp add: tomb_match_byte_and_empty_def tomb_match_byte_def tomb_match_empty_def)

lemma tomb_scalar_match_occupied_eq:
  "length data = 16 \<Longrightarrow> tomb_scalar_match_occupied data = tomb_match_occupied data"
proof (rule bit_eqI)
  fix i
  assume "length data = 16"
  moreover have "2 \<le> b \<longleftrightarrow> b \<noteq> EMPTY \<and> b \<noteq> TOMBSTONE" for b :: u8
    unfolding EMPTY_def TOMBSTONE_def by unat_arith
  ultimately show "bit (tomb_scalar_match_occupied data) i \<longleftrightarrow> bit (tomb_match_occupied data :: u16) i"
    by (auto simp: tomb_scalar_match_occupied_def bit_scalar_mask table_simps)
qed

section \<open>The properties\<close>

text \<open>
  C22. All SIMD tiers of a group compute the same masks as the single-load tier: the
  32-slot group on SSE2, and the 64-slot group on AVX2 and on SSE2, for every slot
  mask, every content of the metadata bytes and every tag.
\<close>

theorem simd_tiers_agree:
  "length d32 = 32 \<Longrightarrow> length d64 = 64 \<Longrightarrow>
   group32_sse2_match_byte sm32 d32 v = match_byte sm32 d32 v \<and>
   group32_sse2_match_non_empty sm32 d32 = match_non_empty sm32 d32 \<and>
   group64_avx2_match_byte sm64 d64 v = match_byte sm64 d64 v \<and>
   group64_avx2_match_non_empty sm64 d64 = match_non_empty sm64 d64 \<and>
   group64_sse2_match_byte sm64 d64 v = match_byte sm64 d64 v \<and>
   group64_sse2_match_non_empty sm64 d64 = match_non_empty sm64 d64"
  by (simp add: group32_sse2_eq group64_avx2_eq group64_sse2_eq)

theorem simd_tiers_agree_witness:
  "group32_sse2_match_byte 0xFFFFFFFF (replicate 32 5) 5 = match_byte 0xFFFFFFFF (replicate 32 5) 5 \<and>
   group64_sse2_match_non_empty 0x7FFFFFFFFFFFFFFF (replicate 64 5) = match_non_empty 0x7FFFFFFFFFFFFFFF (replicate 64 5)"
  using simd_tiers_agree [of "replicate 32 5" "replicate 64 5"] by simp

text \<open>
  C23. The scalar fallbacks agree with the SIMD code: the 15/16-slot group, which derives
  its loop bound from the slot mask instead of masking, the 32- and 64-slot groups,
  and the occupancy test of the tombstone group.
\<close>

theorem scalar_fallbacks_agree:
  "sm16 = 0x7FFF \<or> sm16 = 0xFFFF \<Longrightarrow> length d16 = 16 \<Longrightarrow> length d32 = 32 \<Longrightarrow> length d64 = 64 \<Longrightarrow>
   group_scalar_match_byte sm16 d16 v = match_byte sm16 d16 v \<and>
   group_scalar_match_non_empty sm16 d16 = match_non_empty sm16 d16 \<and>
   group32_scalar_match_byte sm32 d32 v = match_byte sm32 d32 v \<and>
   group32_scalar_match_non_empty sm32 d32 = match_non_empty sm32 d32 \<and>
   group64_scalar_match_byte sm64 d64 v = match_byte sm64 d64 v \<and>
   group64_scalar_match_non_empty sm64 d64 = match_non_empty sm64 d64 \<and>
   tomb_scalar_match_occupied d16 = tomb_match_occupied d16"
  by (simp add: group_scalar_match_byte_eq group_scalar_match_non_empty_eq group32_scalar_eq
      group64_scalar_eq tomb_scalar_match_occupied_eq)

theorem scalar_fallbacks_agree_witness:
  "group_scalar_match_byte 0x7FFF (replicate 16 5) 5 = match_byte 0x7FFF (replicate 16 5) 5 \<and>
   tomb_scalar_match_occupied (replicate 16 5) = tomb_match_occupied (replicate 16 5)"
  using scalar_fallbacks_agree [of "0x7FFF" "replicate 16 5" "replicate 32 5" "replicate 64 5" 5] by simp

end
