(* ===== verification/Tags.thy ===== *)
theory Tags
  imports Group_Ops
begin

text \<open>
  Tag extraction: \<^verbatim>\<open>hash_tag\<close> of \<^verbatim>\<open>src/lib.rs\<close>, the hash mixer of
  \<^verbatim>\<open>src/raw/hash.rs\<close> and the tag strategies of \<^verbatim>\<open>src/raw/tag_strategy.rs\<close>.
  The crate selects one of three implementations of \<^verbatim>\<open>hash_tag\<close> by cargo
  feature; the strategies that call it take the selected one as an argument, so
  every statement holds for each build. A strategy is a record of its two
  functions, and the contract its trait documents is a locale.
\<close>

section \<open>Reduction of a hash to a tag byte\<close>

definition byte_at :: "nat \<Rightarrow> u64 \<Rightarrow> u8" where
  "byte_at s h = ucast (drop_bit s h)"

text \<open>Feature \<^verbatim>\<open>reduced-hash-128\<close>.\<close>

definition hash_tag_128 :: "u64 \<Rightarrow> u8" where
  "hash_tag_128 h = ucast h OR 1"

text \<open>
  Feature \<^verbatim>\<open>reduced-hash-asm\<close>: \<^verbatim>\<open>cmp b, 0xFF\<close> sets the carry when \<open>b < 255\<close>,
  \<^verbatim>\<open>adc b, 0\<close> adds it.
\<close>

definition reduce_255_asm :: "u8 \<Rightarrow> u8" where
  "reduce_255_asm b = (let carry = (if b < 0xFF then 1 else 0) in b + 0 + carry)"

definition hash_tag_asm :: "u64 \<Rightarrow> u8" where
  "hash_tag_asm h = reduce_255_asm (ucast h)"

text \<open>Neither feature: \<^verbatim>\<open>low | (low == 0) as u8\<close>.\<close>

definition reduce_255_pure :: "u8 \<Rightarrow> u8" where
  "reduce_255_pure b = b OR (if b = 0 then 1 else 0)"

definition hash_tag_pure :: "u64 \<Rightarrow> u8" where
  "hash_tag_pure h = (let low = ucast (h AND 0xFF) in low OR (if low = 0 then 1 else 0))"

datatype hash_feature = ReducedHash128 | ReducedHashAsm | PureRust

fun hash_tag :: "hash_feature \<Rightarrow> u64 \<Rightarrow> u8" where
  "hash_tag ReducedHash128 h = hash_tag_128 h"
| "hash_tag ReducedHashAsm h = hash_tag_asm h"
| "hash_tag PureRust h = hash_tag_pure h"

text \<open>The post-mixer for hashers that do not avalanche.\<close>

definition mix_hash :: "u64 \<Rightarrow> u64" where
  "mix_hash h = (let mixed = h * 0x9E3779B97F4A7C15 in mixed XOR drop_bit 32 mixed)"

section \<open>Strategies\<close>

record tag_strategy =
  tag :: "u64 \<Rightarrow> u8"
  overflow_channel :: "u64 \<Rightarrow> u8"

definition channel_low :: "u64 \<Rightarrow> u8" where
  "channel_low h = push_bit (unat (h AND 7)) 1"

definition channel_high :: "u64 \<Rightarrow> u8" where
  "channel_high h = push_bit (unat (drop_bit 48 h AND 7)) 1"

definition LowTag255 :: "hash_feature \<Rightarrow> tag_strategy" where
  "LowTag255 f = \<lparr>tag = hash_tag f, overflow_channel = channel_low\<rparr>"

definition LowTag255ChSafe :: "hash_feature \<Rightarrow> tag_strategy" where
  "LowTag255ChSafe f = \<lparr>tag = (\<lambda>h. hash_tag f (drop_bit 8 h)), overflow_channel = channel_low\<rparr>"

definition LowTag128 :: tag_strategy where
  "LowTag128 = \<lparr>tag = (\<lambda>h. ucast h OR 1), overflow_channel = channel_low\<rparr>"

definition HighTag128 :: tag_strategy where
  "HighTag128 = \<lparr>tag = (\<lambda>h. byte_at 56 h OR 0x80), overflow_channel = channel_low\<rparr>"

definition HighTag255 :: "hash_feature \<Rightarrow> tag_strategy" where
  "HighTag255 f = \<lparr>tag = (\<lambda>h. hash_tag f (drop_bit 56 h)), overflow_channel = channel_low\<rparr>"

definition HighTag128ChSafe :: tag_strategy where
  "HighTag128ChSafe = \<lparr>tag = (\<lambda>h. byte_at 56 h OR 0x80), overflow_channel = channel_high\<rparr>"

definition HighTag255ChSafe :: "hash_feature \<Rightarrow> tag_strategy" where
  "HighTag255ChSafe f = \<lparr>tag = (\<lambda>h. hash_tag f (drop_bit 56 h)), overflow_channel = channel_high\<rparr>"

definition LowTag255Pure :: tag_strategy where
  "LowTag255Pure = \<lparr>tag = (\<lambda>h. reduce_255_pure (ucast h)), overflow_channel = channel_low\<rparr>"

definition LowTag255ChSafePure :: tag_strategy where
  "LowTag255ChSafePure = \<lparr>tag = (\<lambda>h. reduce_255_pure (byte_at 8 h)), overflow_channel = channel_low\<rparr>"

definition HighTag255Pure :: tag_strategy where
  "HighTag255Pure = \<lparr>tag = (\<lambda>h. reduce_255_pure (byte_at 56 h)), overflow_channel = channel_low\<rparr>"

definition HighTag255ChSafePure :: tag_strategy where
  "HighTag255ChSafePure = \<lparr>tag = (\<lambda>h. reduce_255_pure (byte_at 56 h)), overflow_channel = channel_high\<rparr>"

text \<open>Tombstone strategies: one function, with two reserved byte values.\<close>

definition LowTomb_reduced_hash :: "u64 \<Rightarrow> u8" where
  "LowTomb_reduced_hash h = (let b = ucast h in if b < 2 then b + 2 else b)"

definition HighTomb_reduced_hash :: "u64 \<Rightarrow> u8" where
  "HighTomb_reduced_hash h = (let b = byte_at 56 h in if b < 2 then b + 2 else b)"

definition HighTag128_reduced_hash :: "u64 \<Rightarrow> u8" where
  "HighTag128_reduced_hash h = byte_at 56 h OR 0x80"

section \<open>The contracts of the two traits\<close>

text \<open>\<^verbatim>\<open>TagStrategy\<close>: a tag is never the EMPTY byte, a channel is one bit of eight.\<close>

definition one_bit :: "u8 \<Rightarrow> bool" where
  "one_bit c \<longleftrightarrow> (\<exists>i<8. c = push_bit i 1)"

locale tag_strategy_laws =
  fixes T :: tag_strategy
  assumes tag_not_empty: "tag T h \<noteq> EMPTY"
    and channel_one_bit: "one_bit (overflow_channel T h)"
begin

lemma channel_nonzero: "overflow_channel T h \<noteq> 0"
proof -
  obtain i where i: "i < 8" "overflow_channel T h = push_bit i 1"
    using channel_one_bit [of h] by (auto simp: one_bit_def)
  then have "bit (overflow_channel T h) i" by (simp add: bit_push_bit_iff possible_bit_word bit_exp_iff)
  then show ?thesis by auto
qed

end

text \<open>\<^verbatim>\<open>TombstoneTag\<close>: a tag is neither EMPTY nor TOMBSTONE.\<close>

locale tombstone_tag_laws =
  fixes reduced_hash :: "u64 \<Rightarrow> u8"
  assumes tag_not_reserved: "reduced_hash h \<noteq> EMPTY" "reduced_hash h \<noteq> TOMBSTONE"

lemma or_ne_0: "b OR c \<noteq> 0" if "c \<noteq> 0" for b c :: u8
  using that by (metis or_eq_0_iff)

lemma reduce_255_pure_ne: "reduce_255_pure b \<noteq> 0"
  by (simp add: reduce_255_pure_def or_eq_0_iff)

lemma reduce_255_asm_ne: "reduce_255_asm b \<noteq> 0"
proof (cases "b < 0xFF")
  case True
  then have "unat (b + 1) = unat b + 1" by (simp add: word_less_nat_alt unat_word_ariths)
  then have "b + 1 \<noteq> 0" by (metis add_gr_0 less_one unat_0 less_irrefl)
  then show ?thesis using True by (simp add: reduce_255_asm_def)
qed (auto simp: reduce_255_asm_def)

lemma hash_tag_ne: "hash_tag f h \<noteq> 0"
  by (cases f) (simp_all add: hash_tag_128_def hash_tag_asm_def hash_tag_pure_def Let_def
      reduce_255_asm_ne or_ne_0 flip: reduce_255_pure_def, simp_all add: reduce_255_pure_ne)

lemma and_7_less: "unat (x AND 7 :: u64) < 8"
proof -
  have "unat (x AND 7) \<le> unat (7 :: u64)"
    by (rule word_and_le1 [THEN word_le_nat_alt [THEN iffD1]])
  then show ?thesis by simp
qed

lemma channel_low_one_bit: "one_bit (channel_low h)"
  unfolding channel_low_def one_bit_def using and_7_less by blast

lemma channel_high_one_bit: "one_bit (channel_high h)"
  unfolding channel_high_def one_bit_def using and_7_less by blast

lemmas tag_law_simps = EMPTY_def hash_tag_ne or_ne_0 reduce_255_pure_ne
  channel_low_one_bit channel_high_one_bit

interpretation LowTag255: tag_strategy_laws "LowTag255 f" for f
  by unfold_locales (simp_all add: LowTag255_def tag_law_simps)

interpretation LowTag255ChSafe: tag_strategy_laws "LowTag255ChSafe f" for f
  by unfold_locales (simp_all add: LowTag255ChSafe_def tag_law_simps)

interpretation LowTag128: tag_strategy_laws LowTag128
  by unfold_locales (simp_all add: LowTag128_def tag_law_simps)

interpretation HighTag128: tag_strategy_laws HighTag128
  by unfold_locales (simp_all add: HighTag128_def tag_law_simps)

interpretation HighTag255: tag_strategy_laws "HighTag255 f" for f
  by unfold_locales (simp_all add: HighTag255_def tag_law_simps)

interpretation HighTag128ChSafe: tag_strategy_laws HighTag128ChSafe
  by unfold_locales (simp_all add: HighTag128ChSafe_def tag_law_simps)

interpretation HighTag255ChSafe: tag_strategy_laws "HighTag255ChSafe f" for f
  by unfold_locales (simp_all add: HighTag255ChSafe_def tag_law_simps)

interpretation LowTag255Pure: tag_strategy_laws LowTag255Pure
  by unfold_locales (simp_all add: LowTag255Pure_def tag_law_simps)

interpretation LowTag255ChSafePure: tag_strategy_laws LowTag255ChSafePure
  by unfold_locales (simp_all add: LowTag255ChSafePure_def tag_law_simps)

interpretation HighTag255Pure: tag_strategy_laws HighTag255Pure
  by unfold_locales (simp_all add: HighTag255Pure_def tag_law_simps)

interpretation HighTag255ChSafePure: tag_strategy_laws HighTag255ChSafePure
  by unfold_locales (simp_all add: HighTag255ChSafePure_def tag_law_simps)

lemma bump2_ge: "(if b < 2 then b + 2 else b) \<noteq> 0 \<and> (if b < 2 then b + 2 else b) \<noteq> (1 :: u8)"
proof (cases "b < 2")
  case True
  then have "unat (b + 2) = unat b + 2" by (simp add: word_less_nat_alt unat_word_ariths)
  then have "unat (b + 2) \<noteq> unat (0 :: u8)" "unat (b + 2) \<noteq> unat (1 :: u8)" by simp_all
  then show ?thesis using True by metis
qed auto

lemma or_0x80_not_1: "b OR 0x80 \<noteq> (1 :: u8)"
proof
  assume "b OR 0x80 = 1"
  then have "bit (b OR 0x80) 7 = bit (1 :: u8) 7" by simp
  then show False by (simp add: bit_or_iff bit_1_iff)
qed

interpretation LowTomb: tombstone_tag_laws LowTomb_reduced_hash
  by unfold_locales (use bump2_ge in \<open>simp_all add: LowTomb_reduced_hash_def Let_def EMPTY_def TOMBSTONE_def\<close>)

interpretation HighTomb: tombstone_tag_laws HighTomb_reduced_hash
  by unfold_locales (use bump2_ge in \<open>simp_all add: HighTomb_reduced_hash_def Let_def EMPTY_def TOMBSTONE_def\<close>)

interpretation HighTag128_tomb: tombstone_tag_laws HighTag128_reduced_hash
  by unfold_locales (simp_all add: HighTag128_reduced_hash_def EMPTY_def TOMBSTONE_def or_ne_0 or_0x80_not_1)

section \<open>Discrimination: how many tags a reduction can produce\<close>

lemma ucast_u64_u8: "ucast (ucast b :: u64) = (b :: u8)"
  by (rule bit_eqI) (auto simp: bit_ucast_iff possible_bit_word)

lemma range_hash_tag_asm: "range hash_tag_asm = {b. b \<noteq> 0}"
proof
  show "range hash_tag_asm \<subseteq> {b. b \<noteq> 0}"
    using hash_tag_ne [of ReducedHashAsm] by auto
  show "{b. b \<noteq> 0} \<subseteq> range hash_tag_asm"
  proof
    fix b :: u8 assume "b \<in> {b. b \<noteq> 0}"
    then have b: "b \<noteq> 0" by simp
    then have "unat (b - 1) = unat b - 1" by (simp add: unat_minus_one)
    then have "b - 1 < 0xFF"
      using b unsigned_less [of b, where 'a = nat] by (simp add: word_less_nat_alt unat_gt_0)
    then have "reduce_255_asm (b - 1) = b" by (simp add: reduce_255_asm_def)
    then have "hash_tag_asm (ucast (b - 1)) = b" by (simp add: hash_tag_asm_def ucast_u64_u8)
    then show "b \<in> range hash_tag_asm" by (metis rangeI)
  qed
qed

lemma range_hash_tag_128: "range hash_tag_128 = {b. bit b 0}"
proof
  show "range hash_tag_128 \<subseteq> {b. bit b 0}"
    by (auto simp: hash_tag_128_def bit_or_iff)
  show "{b. bit b 0} \<subseteq> range hash_tag_128"
  proof
    fix b :: u8 assume "b \<in> {b. bit b 0}"
    then have "b OR 1 = b" by (auto intro!: bit_eqI simp: bit_or_iff bit_1_iff)
    then have "hash_tag_128 (ucast b) = b" by (simp add: hash_tag_128_def ucast_u64_u8)
    then show "b \<in> range hash_tag_128" by (metis rangeI)
  qed
qed

section \<open>The property\<close>

text \<open>
  C24. The contract of \<^verbatim>\<open>TagStrategy\<close> holds for every strategy of the crate and every
  feature of the reduction: a tag is never the EMPTY byte and an overflow channel is
  exactly one of the eight bits; the tombstone reductions also avoid TOMBSTONE. The
  asm reduction produces all 255 non-empty tags, the 128-value one exactly the odd bytes.
\<close>

theorem tag_contracts:
  "(\<forall>T \<in> {LowTag255 f, LowTag255ChSafe f, LowTag128, HighTag128, HighTag255 f, HighTag128ChSafe, HighTag255ChSafe f,
      LowTag255Pure, LowTag255ChSafePure, HighTag255Pure, HighTag255ChSafePure}.
      \<forall>h. tag T h \<noteq> EMPTY \<and> one_bit (overflow_channel T h)) \<and>
   (\<forall>r \<in> {LowTomb_reduced_hash, HighTomb_reduced_hash, HighTag128_reduced_hash}. \<forall>h. r h \<noteq> EMPTY \<and> r h \<noteq> TOMBSTONE) \<and>
   range hash_tag_asm = {b. b \<noteq> EMPTY} \<and> range hash_tag_128 = {b. bit b 0}"
  using LowTag255.tag_strategy_laws_axioms [of f] LowTag255ChSafe.tag_strategy_laws_axioms [of f]
    LowTag128.tag_strategy_laws_axioms HighTag128.tag_strategy_laws_axioms HighTag255.tag_strategy_laws_axioms [of f]
    HighTag128ChSafe.tag_strategy_laws_axioms HighTag255ChSafe.tag_strategy_laws_axioms [of f]
    LowTag255Pure.tag_strategy_laws_axioms LowTag255ChSafePure.tag_strategy_laws_axioms
    HighTag255Pure.tag_strategy_laws_axioms HighTag255ChSafePure.tag_strategy_laws_axioms
    LowTomb.tombstone_tag_laws_axioms HighTomb.tombstone_tag_laws_axioms HighTag128_tomb.tombstone_tag_laws_axioms
  by (simp add: tag_strategy_laws_def tombstone_tag_laws_def range_hash_tag_asm range_hash_tag_128) (simp add: EMPTY_def)

theorem tag_contracts_witness: "tag HighTag128 0 \<noteq> EMPTY \<and> HighTomb_reduced_hash 1 \<noteq> TOMBSTONE"
  using tag_contracts [of PureRust] by simp

end
