(* ===== verification/Layouts.thy ===== *)
theory Layouts
  imports Tags
begin

text \<open>
  Overflow storage (\<^verbatim>\<open>src/raw/overflow_strategy.rs\<close>) and group layouts
  (\<^verbatim>\<open>src/raw/group_layout.rs\<close>). The bytes forward from a table's \<^verbatim>\<open>ctrl\<close>
  pointer, metadata and overflow bytes, are one byte list; a pointer into it is
  an index. A layout is a record of the constants and strategies of the
  \<^verbatim>\<open>GroupLayout\<close> trait; its type parameter \<open>'w\<close> is the width of the group's
  mask type. The laws the table engine needs of a layout are
  \<open>valid_layout\<close>, proved for every layout constructor of the crate.
\<close>

section \<open>Overflow strategies\<close>

datatype overflow_strategy = ByteSeparate | BitSeparate | EmbeddedOverflow

fun extra_alloc_bytes :: "overflow_strategy \<Rightarrow> nat \<Rightarrow> nat" where
  "extra_alloc_bytes ByteSeparate num_groups = num_groups"
| "extra_alloc_bytes BitSeparate num_groups = (num_groups + 7) div 8"
| "extra_alloc_bytes EmbeddedOverflow num_groups = 0"

fun overflow_bytes_to_zero :: "overflow_strategy \<Rightarrow> nat \<Rightarrow> nat" where
  "overflow_bytes_to_zero ByteSeparate num_groups = num_groups"
| "overflow_bytes_to_zero BitSeparate num_groups = (num_groups + 7) div 8"
| "overflow_bytes_to_zero EmbeddedOverflow num_groups = 0"

fun overflow_bytes_to_copy :: "overflow_strategy \<Rightarrow> nat \<Rightarrow> nat" where
  "overflow_bytes_to_copy ByteSeparate num_groups = num_groups"
| "overflow_bytes_to_copy BitSeparate num_groups = (num_groups + 7) div 8"
| "overflow_bytes_to_copy EmbeddedOverflow num_groups = 0"

text \<open>Offset of a group's overflow byte from \<^verbatim>\<open>ctrl\<close>; \<open>gi >> 3\<close> is \<open>gi div 8\<close>.\<close>

fun overflow_ptr :: "overflow_strategy \<Rightarrow> nat \<Rightarrow> nat \<Rightarrow> nat \<Rightarrow> nat" where
  "overflow_ptr ByteSeparate msk gi meta_stride = (msk + 1) * meta_stride + gi"
| "overflow_ptr BitSeparate msk gi meta_stride = (msk + 1) * meta_stride + gi div 8"
| "overflow_ptr EmbeddedOverflow msk gi meta_stride = gi * meta_stride + meta_stride - 1"

fun has_overflow :: "overflow_strategy \<Rightarrow> u8 \<Rightarrow> nat \<Rightarrow> u8 \<Rightarrow> bool" where
  "has_overflow ByteSeparate b gi channel = (b AND channel \<noteq> 0)"
| "has_overflow BitSeparate b gi channel = (b AND push_bit (gi mod 8) 1 \<noteq> 0)"
| "has_overflow EmbeddedOverflow b gi channel = (b AND channel \<noteq> 0)"

fun set_overflow :: "overflow_strategy \<Rightarrow> u8 \<Rightarrow> nat \<Rightarrow> u8 \<Rightarrow> u8" where
  "set_overflow ByteSeparate b gi channel = b OR channel"
| "set_overflow BitSeparate b gi channel = b OR push_bit (gi mod 8) 1"
| "set_overflow EmbeddedOverflow b gi channel = b OR channel"

text \<open>Whether a strategy distinguishes channels: the constant \<^verbatim>\<open>CHANNELED\<close>.\<close>

fun CHANNELED :: "overflow_strategy \<Rightarrow> bool" where
  "CHANNELED ByteSeparate = True"
| "CHANNELED BitSeparate = False"
| "CHANNELED EmbeddedOverflow = True"

lemma set_has_overflow: "ch \<noteq> 0 \<Longrightarrow> has_overflow ov (set_overflow ov b gi ch) gi ch"
proof -
  assume ch: "ch \<noteq> 0"
  have "(b OR x) AND x = x" for x :: u8 by (auto intro!: bit_eqI simp: bit_and_iff bit_or_iff)
  moreover have "push_bit (gi mod 8) 1 \<noteq> (0 :: u8)"
  proof -
    have "bit (push_bit (gi mod 8) 1 :: u8) (gi mod 8)"
      by (simp add: bit_exp_iff possible_bit_word)
    then show ?thesis by auto
  qed
  ultimately show ?thesis using ch by (cases ov) simp_all
qed

lemma set_overflow_mono:
  assumes "has_overflow ov b g c"
  shows "has_overflow ov (set_overflow ov b gi ch) g c"
proof -
  have "(b OR x) AND y \<noteq> 0" if "b AND y \<noteq> 0" for x y :: u8
    using that by (metis and.commute bit.conj_disj_distrib or_eq_0_iff)
  then show ?thesis using assms by (cases ov) simp_all
qed

lemma no_overflow_zero [simp]: "\<not> has_overflow ov 0 gi ch"
  by (cases ov) simp_all

section \<open>Layouts\<close>

text \<open>Which end of the hash selects the group.\<close>

datatype hash_region = Low | High

record (overloaded) 'w layout =
  Grp :: "'w word"
  Tag :: tag_strategy
  Overflow :: overflow_strategy
  GROUP_SIZE :: nat
  BUCKET_STRIDE :: nat
  META_STRIDE :: nat
  GROUP_INDEX_REGION :: hash_region
  LOAD_FACTOR_NUM :: nat
  LOAD_FACTOR_DEN :: nat

definition bucket_index :: "'w::len layout \<Rightarrow> nat \<Rightarrow> nat \<Rightarrow> nat" where
  "bucket_index L gi si = gi * BUCKET_STRIDE L + si"

text \<open>Separate overflow, 16, 32 and 64 slots, shift and AND indexing.\<close>

definition Layout16 :: "tag_strategy \<Rightarrow> overflow_strategy \<Rightarrow> 16 layout" where
  "Layout16 T O' = \<lparr>Grp = 0xFFFF, Tag = T, Overflow = O', GROUP_SIZE = 16, BUCKET_STRIDE = 16,
    META_STRIDE = 16, GROUP_INDEX_REGION = High, LOAD_FACTOR_NUM = 7, LOAD_FACTOR_DEN = 8\<rparr>"

definition Layout16And :: "tag_strategy \<Rightarrow> overflow_strategy \<Rightarrow> 16 layout" where
  "Layout16And T O' = \<lparr>Grp = 0xFFFF, Tag = T, Overflow = O', GROUP_SIZE = 16, BUCKET_STRIDE = 16,
    META_STRIDE = 16, GROUP_INDEX_REGION = Low, LOAD_FACTOR_NUM = 7, LOAD_FACTOR_DEN = 8\<rparr>"

definition Layout32 :: "tag_strategy \<Rightarrow> overflow_strategy \<Rightarrow> 32 layout" where
  "Layout32 T O' = \<lparr>Grp = 0xFFFFFFFF, Tag = T, Overflow = O', GROUP_SIZE = 32, BUCKET_STRIDE = 32,
    META_STRIDE = 32, GROUP_INDEX_REGION = High, LOAD_FACTOR_NUM = 7, LOAD_FACTOR_DEN = 8\<rparr>"

definition Layout32And :: "tag_strategy \<Rightarrow> overflow_strategy \<Rightarrow> 32 layout" where
  "Layout32And T O' = \<lparr>Grp = 0xFFFFFFFF, Tag = T, Overflow = O', GROUP_SIZE = 32, BUCKET_STRIDE = 32,
    META_STRIDE = 32, GROUP_INDEX_REGION = Low, LOAD_FACTOR_NUM = 7, LOAD_FACTOR_DEN = 8\<rparr>"

definition Layout64 :: "tag_strategy \<Rightarrow> overflow_strategy \<Rightarrow> 64 layout" where
  "Layout64 T O' = \<lparr>Grp = 0xFFFFFFFFFFFFFFFF, Tag = T, Overflow = O', GROUP_SIZE = 64,
    BUCKET_STRIDE = 64, META_STRIDE = 64, GROUP_INDEX_REGION = High,
    LOAD_FACTOR_NUM = 7, LOAD_FACTOR_DEN = 8\<rparr>"

definition Layout64And :: "tag_strategy \<Rightarrow> overflow_strategy \<Rightarrow> 64 layout" where
  "Layout64And T O' = \<lparr>Grp = 0xFFFFFFFFFFFFFFFF, Tag = T, Overflow = O', GROUP_SIZE = 64,
    BUCKET_STRIDE = 64, META_STRIDE = 64, GROUP_INDEX_REGION = Low,
    LOAD_FACTOR_NUM = 7, LOAD_FACTOR_DEN = 8\<rparr>"

text \<open>The macro \<^verbatim>\<open>define_embedded_layout!\<close> and its instances.\<close>

definition embedded_layout ::
  "'w::len word \<Rightarrow> nat \<Rightarrow> nat \<Rightarrow> nat \<Rightarrow> hash_region \<Rightarrow> tag_strategy \<Rightarrow> 'w layout" where
  "embedded_layout grp gs bs ms index_region T =
    \<lparr>Grp = grp, Tag = T, Overflow = EmbeddedOverflow, GROUP_SIZE = gs, BUCKET_STRIDE = bs,
     META_STRIDE = ms, GROUP_INDEX_REGION = index_region, LOAD_FACTOR_NUM = 7, LOAD_FACTOR_DEN = 8\<rparr>"

definition Layout16EmbCompact :: "tag_strategy \<Rightarrow> 16 layout" where
  "Layout16EmbCompact = embedded_layout 0x7FFF 15 15 16 High"

definition Layout16EmbP2 :: "tag_strategy \<Rightarrow> 16 layout" where
  "Layout16EmbP2 = embedded_layout 0x7FFF 15 16 16 High"

definition Layout16EmbCompactAnd :: "tag_strategy \<Rightarrow> 16 layout" where
  "Layout16EmbCompactAnd = embedded_layout 0x7FFF 15 15 16 Low"

definition Layout16EmbP2And :: "tag_strategy \<Rightarrow> 16 layout" where
  "Layout16EmbP2And = embedded_layout 0x7FFF 15 16 16 Low"

definition Layout32EmbCompact :: "tag_strategy \<Rightarrow> 32 layout" where
  "Layout32EmbCompact = embedded_layout 0x7FFFFFFF 31 31 32 High"

definition Layout32EmbP2 :: "tag_strategy \<Rightarrow> 32 layout" where
  "Layout32EmbP2 = embedded_layout 0x7FFFFFFF 31 32 32 High"

definition Layout32EmbCompactAnd :: "tag_strategy \<Rightarrow> 32 layout" where
  "Layout32EmbCompactAnd = embedded_layout 0x7FFFFFFF 31 31 32 Low"

definition Layout32EmbP2And :: "tag_strategy \<Rightarrow> 32 layout" where
  "Layout32EmbP2And = embedded_layout 0x7FFFFFFF 31 32 32 Low"

definition Layout64EmbCompact :: "tag_strategy \<Rightarrow> 64 layout" where
  "Layout64EmbCompact = embedded_layout 0x7FFFFFFFFFFFFFFF 63 63 64 High"

definition Layout64EmbP2 :: "tag_strategy \<Rightarrow> 64 layout" where
  "Layout64EmbP2 = embedded_layout 0x7FFFFFFFFFFFFFFF 63 64 64 High"

definition Layout64EmbCompactAnd :: "tag_strategy \<Rightarrow> 64 layout" where
  "Layout64EmbCompactAnd = embedded_layout 0x7FFFFFFFFFFFFFFF 63 63 64 Low"

definition Layout64EmbP2And :: "tag_strategy \<Rightarrow> 64 layout" where
  "Layout64EmbP2And = embedded_layout 0x7FFFFFFFFFFFFFFF 63 64 64 Low"

text \<open>Named layouts.\<close>

definition SplitsiesLayout :: "hash_feature \<Rightarrow> 16 layout" where
  "SplitsiesLayout f = Layout16 (LowTag255 f) ByteSeparate"

definition UfmLayout :: "hash_feature \<Rightarrow> 16 layout" where
  "UfmLayout f = Layout16EmbCompact (LowTag255 f)"

definition GapsLayout :: "hash_feature \<Rightarrow> 16 layout" where
  "GapsLayout f = Layout16EmbP2 (LowTag255 f)"

definition LowTag255_1bit :: "hash_feature \<Rightarrow> 16 layout" where
  "LowTag255_1bit f = Layout16 (LowTag255 f) BitSeparate"

definition HighTag128_1bitAnd :: "16 layout" where
  "HighTag128_1bitAnd = Layout16And HighTag128 BitSeparate"

definition HighTag128_8bitAnd :: "16 layout" where
  "HighTag128_8bitAnd = Layout16And HighTag128ChSafe ByteSeparate"

definition Splitsies32Layout :: "hash_feature \<Rightarrow> 32 layout" where
  "Splitsies32Layout f = Layout32 (LowTag255 f) ByteSeparate"

definition Splitsies64Layout :: "hash_feature \<Rightarrow> 64 layout" where
  "Splitsies64Layout f = Layout64 (LowTag255 f) ByteSeparate"

definition Ufm64Layout :: "hash_feature \<Rightarrow> 64 layout" where
  "Ufm64Layout f = Layout64EmbCompact (LowTag255 f)"

section \<open>What the table engine needs of a layout\<close>

definition valid_layout :: "'w::len layout \<Rightarrow> bool" where
  "valid_layout L \<longleftrightarrow>
     META_STRIDE L = LENGTH('w) \<and>
     (\<forall>i<LENGTH('w). bit (Grp L) i \<longleftrightarrow> i < GROUP_SIZE L) \<and>
     0 < GROUP_SIZE L \<and> GROUP_SIZE L \<le> META_STRIDE L \<and> GROUP_SIZE L \<le> BUCKET_STRIDE L \<and>
     (Overflow L = EmbeddedOverflow \<longrightarrow> GROUP_SIZE L < META_STRIDE L) \<and>
     0 < LOAD_FACTOR_NUM L \<and> LOAD_FACTOR_NUM L < LOAD_FACTOR_DEN L \<and>
     LOAD_FACTOR_DEN L \<le> GROUP_SIZE L * LOAD_FACTOR_NUM L \<and>
     GROUP_SIZE L \<le> 64 \<and> LOAD_FACTOR_DEN L \<le> 16 \<and>
     tag_strategy_laws (Tag L)"

lemma bit_numeral_mask:
  "(0xFFFF :: u16) = mask 16" "(0x7FFF :: u16) = mask 15"
  "(0xFFFFFFFF :: u32) = mask 32" "(0x7FFFFFFF :: u32) = mask 31"
  "(0xFFFFFFFFFFFFFFFF :: u64) = mask 64" "(0x7FFFFFFFFFFFFFFF :: u64) = mask 63"
  by (simp_all add: mask_eq_exp_minus_1)

lemmas separate_layout_defs = Layout16_def Layout16And_def Layout32_def Layout32And_def
  Layout64_def Layout64And_def

lemmas embedded_layout_defs = Layout16EmbCompact_def Layout16EmbP2_def Layout16EmbCompactAnd_def
  Layout16EmbP2And_def Layout32EmbCompact_def Layout32EmbP2_def Layout32EmbCompactAnd_def
  Layout32EmbP2And_def Layout64EmbCompact_def Layout64EmbP2_def Layout64EmbCompactAnd_def
  Layout64EmbP2And_def embedded_layout_def

lemmas named_layout_defs = SplitsiesLayout_def UfmLayout_def GapsLayout_def LowTag255_1bit_def
  HighTag128_1bitAnd_def HighTag128_8bitAnd_def Splitsies32Layout_def Splitsies64Layout_def
  Ufm64Layout_def

lemma valid_separate_layouts:
  assumes "tag_strategy_laws T" "O' \<noteq> EmbeddedOverflow"
  shows "valid_layout (Layout16 T O')" "valid_layout (Layout16And T O')"
    "valid_layout (Layout32 T O')" "valid_layout (Layout32And T O')"
    "valid_layout (Layout64 T O')" "valid_layout (Layout64And T O')"
  using assms unfolding valid_layout_def separate_layout_defs bit_numeral_mask
  by (simp_all add: bit_mask_iff possible_bit_word)

lemma valid_embedded_layouts:
  assumes "tag_strategy_laws T"
  shows "valid_layout (Layout16EmbCompact T)" "valid_layout (Layout16EmbP2 T)"
    "valid_layout (Layout16EmbCompactAnd T)" "valid_layout (Layout16EmbP2And T)"
    "valid_layout (Layout32EmbCompact T)" "valid_layout (Layout32EmbP2 T)"
    "valid_layout (Layout32EmbCompactAnd T)" "valid_layout (Layout32EmbP2And T)"
    "valid_layout (Layout64EmbCompact T)" "valid_layout (Layout64EmbP2 T)"
    "valid_layout (Layout64EmbCompactAnd T)" "valid_layout (Layout64EmbP2And T)"
  using assms unfolding valid_layout_def embedded_layout_defs bit_numeral_mask
  by (simp_all add: bit_mask_iff possible_bit_word)

lemma valid_named_layouts:
  "valid_layout (SplitsiesLayout f)" "valid_layout (UfmLayout f)" "valid_layout (GapsLayout f)"
  "valid_layout (LowTag255_1bit f)" "valid_layout HighTag128_1bitAnd" "valid_layout HighTag128_8bitAnd"
  "valid_layout (Splitsies32Layout f)" "valid_layout (Splitsies64Layout f)" "valid_layout (Ufm64Layout f)"
  unfolding named_layout_defs
  by (intro valid_separate_layouts valid_embedded_layouts LowTag255.tag_strategy_laws_axioms
      HighTag128.tag_strategy_laws_axioms HighTag128ChSafe.tag_strategy_laws_axioms; simp)+

end
