(* ===== verification/Table_Api.thy ===== *)
theory Table_Api
  imports Layouts
begin

text \<open>
  What the table engines share through \<^verbatim>\<open>src/raw/table_api.rs\<close>: the result of an
  entry probe and the trait \<^verbatim>\<open>RawTableApi\<close>, the operations a map needs of its table
  as a record that each engine fills in. A probe loop without bound may not return, so
  the operations that probe have an optional result. \<open>ra_write\<close> stands for a write
  through the pointers of \<^verbatim>\<open>key_ptr\<close> and \<^verbatim>\<open>value_ptr\<close>; writing \<^const>\<open>None\<close> moves the pair out
  or drops it. A hasher is the function from a key to its hash.
\<close>

datatype entry_probe = ProbeFound nat nat | ProbeVacant "(nat \<times> nat \<times> u8) option"

datatype panic = CapacityOverflow | NoEntryForKey

record ('t, 'k, 'v) raw_table_api =
  ra_new :: 't
  ra_with_capacity :: "nat \<Rightarrow> 't"
  ra_len :: "'t \<Rightarrow> nat"
  ra_capacity :: "'t \<Rightarrow> nat"
  ra_is_allocated :: "'t \<Rightarrow> bool"
  ra_clear :: "'t \<Rightarrow> 't"
  ra_key :: "'t \<Rightarrow> nat \<Rightarrow> nat \<Rightarrow> 'k"
  ra_value :: "'t \<Rightarrow> nat \<Rightarrow> nat \<Rightarrow> 'v"
  ra_write :: "'t \<Rightarrow> nat \<Rightarrow> nat \<Rightarrow> ('k \<times> 'v) option \<Rightarrow> 't"
  ra_find_by_hash :: "'t \<Rightarrow> u64 \<Rightarrow> ('k \<Rightarrow> bool) \<Rightarrow> (nat \<times> nat) option option"
  ra_insert_or_replace :: "('k \<Rightarrow> u64) \<Rightarrow> 't \<Rightarrow> 'k \<Rightarrow> 'v \<Rightarrow> ('v option \<times> 't) option"
  ra_find_for_entry :: "'t \<Rightarrow> u64 \<Rightarrow> 'k \<Rightarrow> entry_probe option"
  ra_insert_at :: "'t \<Rightarrow> u64 \<Rightarrow> nat \<Rightarrow> nat \<Rightarrow> 'k \<Rightarrow> 'v \<Rightarrow> u8 \<Rightarrow> 't"
  ra_insert_no_check :: "'t \<Rightarrow> u64 \<Rightarrow> 'k \<Rightarrow> 'v \<Rightarrow> ((nat \<times> nat) \<times> 't) option"
  ra_ensure_capacity :: "('k \<Rightarrow> u64) \<Rightarrow> 't \<Rightarrow> 't option"
  ra_remove_by_hash :: "'t \<Rightarrow> u64 \<Rightarrow> ('k \<Rightarrow> bool) \<Rightarrow> (('k \<times> 'v) option \<times> 't) option"
  ra_erase_slot :: "'t \<Rightarrow> u64 \<Rightarrow> nat \<Rightarrow> nat \<Rightarrow> 't"
  ra_reserve :: "('k \<Rightarrow> u64) \<Rightarrow> 't \<Rightarrow> nat \<Rightarrow> (panic + 't) option"
  ra_shrink_to_fit :: "('k \<Rightarrow> u64) \<Rightarrow> 't \<Rightarrow> 't option"
  ra_iter_slots :: "'t \<Rightarrow> (nat \<times> nat) list"
  ra_into_iter :: "'t \<Rightarrow> ('k \<times> 'v) list \<times> 't"
  ra_drain :: "'t \<Rightarrow> ('k \<times> 'v) list \<times> 't"
  ra_clone :: "'t \<Rightarrow> 't"

definition is_empty :: "('t, 'k, 'v) raw_table_api \<Rightarrow> 't \<Rightarrow> bool" where
  "is_empty R t \<longleftrightarrow> ra_len R t = 0"

definition occupied_positions :: "('t, 'k, 'v) raw_table_api \<Rightarrow> 't \<Rightarrow> (nat \<times> nat) list" where
  "occupied_positions R t = ra_iter_slots R t"

end
