(* ===== verification/Overflow_Table.thy ===== *)
theory Overflow_Table
  imports Table_Api
begin

text \<open>
  The overflow-bit hash table engine, \<^verbatim>\<open>RawTable<K, V, L, S>\<close> of
  \<^verbatim>\<open>src/raw/overflow_table.rs\<close>: the state and every operation.

  The bytes forward from \<^verbatim>\<open>ctrl\<close> are \<open>rt_ctrl\<close>; the bucket slots are
  \<open>rt_buckets\<close>, indexed by \<^verbatim>\<open>bucket_index\<close>, where \<^term>\<open>None\<close> is a slot
  that holds no initialised pair (never written, or moved out of). Both storage
  layouts of the crate (pairs, or separate key and value arrays) hold one pair
  per bucket index, so one model serves both. Prefetches have no effect on the
  state and are left out. The hasher is the argument \<open>hash\<close>, and a key
  comparison closure is a predicate.

  The probe loops end only when they see what they look for; they are
  \<^theory_text>\<open>partial_function\<close>s whose value \<^term>\<open>None\<close> means that the loop runs forever.
\<close>

record ('k, 'v) raw_table =
  rt_mask :: nat
  rt_ctrl :: "u8 list"
  rt_buckets :: "('k, 'v) bucket_array"
  rt_len :: nat
  rt_max_load :: nat
  rt_shift :: nat

definition max_load_for_capacity :: "nat \<Rightarrow> nat \<Rightarrow> nat \<Rightarrow> nat" where
  "max_load_for_capacity capacity num den = capacity * num div den"

definition EMPTY_SENTINEL :: "u8 list" where
  "EMPTY_SENTINEL = replicate 64 0"

section \<open>Addressing\<close>

definition group_index :: "'w::len layout \<Rightarrow> ('k, 'v) raw_table \<Rightarrow> u64 \<Rightarrow> nat" where
  "group_index L t h =
    (case GROUP_INDEX_REGION L of
       Low \<Rightarrow> unat h AND rt_mask t
     | High \<Rightarrow> unat (drop_bit (rt_shift t mod 64) h) AND rt_mask t)"

text \<open>The bytes of the SIMD load at \<^verbatim>\<open>meta_ptr(gi)\<close>.\<close>

definition meta_group :: "'w::len layout \<Rightarrow> ('k, 'v) raw_table \<Rightarrow> nat \<Rightarrow> u8 list" where
  "meta_group L t gi = take (META_STRIDE L) (drop (gi * META_STRIDE L) (rt_ctrl t))"

definition set_meta :: "'w::len layout \<Rightarrow> ('k, 'v) raw_table \<Rightarrow> nat \<Rightarrow> nat \<Rightarrow> u8 \<Rightarrow> ('k, 'v) raw_table" where
  "set_meta L t gi si value = t\<lparr>rt_ctrl := (rt_ctrl t)[gi * META_STRIDE L + si := value]\<rparr>"

definition has_overflow_bit :: "'w::len layout \<Rightarrow> ('k, 'v) raw_table \<Rightarrow> nat \<Rightarrow> u8 \<Rightarrow> bool" where
  "has_overflow_bit L t gi ch =
    has_overflow (Overflow L) (rt_ctrl t ! overflow_ptr (Overflow L) (rt_mask t) gi (META_STRIDE L)) gi ch"

definition set_overflow_bit :: "'w::len layout \<Rightarrow> ('k, 'v) raw_table \<Rightarrow> nat \<Rightarrow> u8 \<Rightarrow> ('k, 'v) raw_table" where
  "set_overflow_bit L t gi ch =
    (let p = overflow_ptr (Overflow L) (rt_mask t) gi (META_STRIDE L)
     in t\<lparr>rt_ctrl := (rt_ctrl t)[p := set_overflow (Overflow L) (rt_ctrl t ! p) gi ch]\<rparr>)"

definition key_at :: "'w::len layout \<Rightarrow> ('k, 'v) raw_table \<Rightarrow> nat \<Rightarrow> nat \<Rightarrow> 'k" where
  "key_at L t gi si = fst (the (rt_buckets t ! bucket_index L gi si))"

definition value_at :: "'w::len layout \<Rightarrow> ('k, 'v) raw_table \<Rightarrow> nat \<Rightarrow> nat \<Rightarrow> 'v" where
  "value_at L t gi si = snd (the (rt_buckets t ! bucket_index L gi si))"

text \<open>\<^verbatim>\<open>S::write\<close>, \<^verbatim>\<open>S::read\<close> (which moves the pair out) and a write through \<^verbatim>\<open>value_ptr\<close>.\<close>

definition bucket_write :: "'w::len layout \<Rightarrow> ('k, 'v) raw_table \<Rightarrow> nat \<Rightarrow> nat \<Rightarrow> 'k \<Rightarrow> 'v \<Rightarrow> ('k, 'v) raw_table" where
  "bucket_write L t gi si k v = t\<lparr>rt_buckets := (rt_buckets t)[bucket_index L gi si := Some (k, v)]\<rparr>"

definition bucket_moved_out :: "'w::len layout \<Rightarrow> ('k, 'v) raw_table \<Rightarrow> nat \<Rightarrow> nat \<Rightarrow> ('k, 'v) raw_table" where
  "bucket_moved_out L t gi si = t\<lparr>rt_buckets := (rt_buckets t)[bucket_index L gi si := None]\<rparr>"

definition value_write :: "'w::len layout \<Rightarrow> ('k, 'v) raw_table \<Rightarrow> nat \<Rightarrow> nat \<Rightarrow> 'v \<Rightarrow> ('k, 'v) raw_table" where
  "value_write L t gi si v = bucket_write L t gi si (key_at L t gi si) v"

section \<open>Construction and allocation\<close>

definition raw_new :: "('k, 'v) raw_table" where
  "raw_new = \<lparr>rt_mask = 0, rt_ctrl = EMPTY_SENTINEL, rt_buckets = [], rt_len = 0, rt_max_load = 0,
    rt_shift = 64\<rparr>"

definition allocate :: "'w::len layout \<Rightarrow> ('k, 'v) raw_table \<Rightarrow> nat \<Rightarrow> ('k, 'v) raw_table" where
  "allocate L t num_groups = t\<lparr>
     rt_ctrl := replicate (num_groups * META_STRIDE L + overflow_bytes_to_zero (Overflow L) num_groups) 0,
     rt_buckets := replicate (num_groups * BUCKET_STRIDE L) None,
     rt_mask := num_groups - 1,
     rt_max_load := max_load_for_capacity (num_groups * GROUP_SIZE L) (LOAD_FACTOR_NUM L) (LOAD_FACTOR_DEN L),
     rt_shift := 64 - trailing_zeros (of_nat num_groups :: u64)\<rparr>"

text \<open>
  The capacity is a number the caller gives, so the arithmetic is that of a release build: it wraps
  (a debug build panics instead), and \<^verbatim>\<open>next_power_of_two\<close> of a number above \<open>2 ^ 63\<close> is 0.
\<close>

definition groups_for_capacity :: "'w::len layout \<Rightarrow> nat \<Rightarrow> nat" where
  "groups_for_capacity L capacity =
    (let min_slots = usize (capacity * LOAD_FACTOR_DEN L + LOAD_FACTOR_NUM L - 1) div LOAD_FACTOR_NUM L;
         min_groups = usize (min_slots + GROUP_SIZE L - 1) div GROUP_SIZE L
     in usize (next_power_of_two min_groups))"

definition with_capacity :: "'w::len layout \<Rightarrow> nat \<Rightarrow> ('k, 'v) raw_table" where
  "with_capacity L capacity =
    (if capacity = 0 then raw_new else allocate L raw_new (groups_for_capacity L capacity))"

definition is_allocated :: "('k, 'v) raw_table \<Rightarrow> bool" where
  "is_allocated t \<longleftrightarrow> 0 < rt_max_load t"

definition num_groups :: "('k, 'v) raw_table \<Rightarrow> nat" where
  "num_groups t = rt_mask t + 1"

definition capacity :: "'w::len layout \<Rightarrow> ('k, 'v) raw_table \<Rightarrow> nat" where
  "capacity L t = (if 0 < rt_max_load t then (rt_mask t + 1) * GROUP_SIZE L else 0)"

section \<open>Lookup\<close>

text \<open>
  One group: the first slot whose tag matches and whose key satisfies the closure
  (\<^verbatim>\<open>for si in match_byte(meta, reduced) { if eq(key) { return .. } }\<close>).
\<close>

definition group_find :: "'w::len layout \<Rightarrow> ('k, 'v) raw_table \<Rightarrow> nat \<Rightarrow> ('k \<Rightarrow> bool) \<Rightarrow> 'w word \<Rightarrow> nat option" where
  "group_find L t gi eq matches = mask_find (\<lambda>si. eq (key_at L t gi si)) matches"

partial_function (option) find_loop ::
  "'w::len layout \<Rightarrow> ('k, 'v) raw_table \<Rightarrow> u8 \<Rightarrow> u8 \<Rightarrow> ('k \<Rightarrow> bool) \<Rightarrow> nat \<Rightarrow> nat \<Rightarrow> (nat \<times> nat) option option" where
  [code]: "find_loop L t reduced ofw_bit eq gi probe =
    (case group_find L t gi eq (match_byte (Grp L) (meta_group L t gi) reduced) of
       Some si \<Rightarrow> Some (Some (gi, si))
     | None \<Rightarrow>
         if \<not> has_overflow_bit L t gi ofw_bit then Some None
         else find_loop L t reduced ofw_bit eq (next_group (rt_mask t) gi (probe + 1)) (probe + 1))"

definition find_by_hash ::
  "'w::len layout \<Rightarrow> ('k, 'v) raw_table \<Rightarrow> u64 \<Rightarrow> ('k \<Rightarrow> bool) \<Rightarrow> (nat \<times> nat) option option" where
  "find_by_hash L t h eq =
    find_loop L t (tag (Tag L) h) (overflow_channel (Tag L) h) eq (group_index L t h) 0"

definition find_by_hash_eq ::
  "'w::len layout \<Rightarrow> ('k, 'v) raw_table \<Rightarrow> u64 \<Rightarrow> 'k \<Rightarrow> (nat \<times> nat) option option" where
  "find_by_hash_eq L t h key = find_by_hash L t h (\<lambda>k. k = key)"

section \<open>Insertion\<close>

text \<open>Writing a pair into an empty slot: tag byte, bucket, length.\<close>

definition fill_slot ::
  "'w::len layout \<Rightarrow> ('k, 'v) raw_table \<Rightarrow> u64 \<Rightarrow> nat \<Rightarrow> nat \<Rightarrow> 'k \<Rightarrow> 'v \<Rightarrow> ('k, 'v) raw_table" where
  "fill_slot L t h gi si key value =
    (let t1 = set_meta L t gi si (tag (Tag L) h);
         t2 = bucket_write L t1 gi si key value
     in t2\<lparr>rt_len := rt_len t2 + 1\<rparr>)"

partial_function (option) insert_no_check_loop ::
  "'w::len layout \<Rightarrow> u64 \<Rightarrow> 'k \<Rightarrow> 'v \<Rightarrow> ('k, 'v) raw_table \<Rightarrow> nat \<Rightarrow> nat
    \<Rightarrow> ((nat \<times> nat) \<times> ('k, 'v) raw_table) option" where
  [code]: "insert_no_check_loop L h key value t gi probe =
    (case lowest_set_bit (match_empty (Grp L) (meta_group L t gi)) of
       Some si \<Rightarrow> Some ((gi, si), fill_slot L t h gi si key value)
     | None \<Rightarrow>
         insert_no_check_loop L h key value (set_overflow_bit L t gi (overflow_channel (Tag L) h))
           (next_group (rt_mask t) gi (probe + 1)) (probe + 1))"

definition insert_no_check ::
  "'w::len layout \<Rightarrow> ('k, 'v) raw_table \<Rightarrow> u64 \<Rightarrow> 'k \<Rightarrow> 'v \<Rightarrow> ((nat \<times> nat) \<times> ('k, 'v) raw_table) option" where
  "insert_no_check L t h key value = insert_no_check_loop L h key value t (group_index L t h) 0"

text \<open>
  \<^verbatim>\<open>insert_at_impl\<close>: set the overflow bit of the groups that \<open>full_mask\<close> names,
  walking the probe sequence from the home group, then fill the slot.
\<close>

function set_overflow_bits ::
  "'w::len layout \<Rightarrow> u8 \<Rightarrow> ('k, 'v) raw_table \<Rightarrow> nat \<Rightarrow> nat \<Rightarrow> u8 \<Rightarrow> ('k, 'v) raw_table" where
  "set_overflow_bits L ofw_bit t set_gi set_probe msk =
    (if msk = 0 then t
     else let t' = (if msk AND 1 \<noteq> 0 then set_overflow_bit L t set_gi ofw_bit else t)
          in set_overflow_bits L ofw_bit t' (next_group (rt_mask t') set_gi (set_probe + 1))
               (set_probe + 1) (drop_bit 1 msk))"
  by pat_completeness auto
termination
  by (relation "measure (\<lambda>(L, b, t, g, p, msk). unat msk)") 
    (auto simp: drop_bit_Suc unat_div_distrib unat_gt_0)

declare set_overflow_bits.simps [simp del]

definition insert_at ::
  "'w::len layout \<Rightarrow> ('k, 'v) raw_table \<Rightarrow> u64 \<Rightarrow> nat \<Rightarrow> nat \<Rightarrow> 'k \<Rightarrow> 'v \<Rightarrow> u8 \<Rightarrow> ('k, 'v) raw_table" where
  "insert_at L t h gi si key value full_mask =
    (let t1 = (if full_mask \<noteq> 0
               then set_overflow_bits L (overflow_channel (Tag L) h) t (group_index L t h) 0 full_mask
               else t)
     in fill_slot L t1 h gi si key value)"

section \<open>Find or locate\<close>

datatype find_or_locate_result = Found nat nat | InsertSlot nat nat u8 | NotFound

partial_function (option) find_or_locate_overflow ::
  "'w::len layout \<Rightarrow> ('k, 'v) raw_table \<Rightarrow> ('k \<Rightarrow> bool) \<Rightarrow> u8 \<Rightarrow> u8 \<Rightarrow> nat \<Rightarrow> nat
    \<Rightarrow> (nat \<times> nat) option \<Rightarrow> u8 \<Rightarrow> find_or_locate_result option" where
  [code]: "find_or_locate_overflow L t eq reduced ofw_bit gi probe first_empty full_mask =
    (let (matches, empties) = match_byte_and_empty (Grp L) (meta_group L t gi) reduced in
     case group_find L t gi eq matches of
       Some si \<Rightarrow> Some (Found gi si)
     | None \<Rightarrow>
         let (first_empty', full_mask') =
           (if first_empty = None
            then (case lowest_set_bit empties of
                    Some si \<Rightarrow> (Some (gi, si), full_mask)
                  | None \<Rightarrow> if probe < 8 then (None, full_mask OR push_bit probe 1) else (None, full_mask))
            else (first_empty, full_mask)) in
         if \<not> has_overflow_bit L t gi ofw_bit
         then Some (case first_empty' of
                      Some (ins_gi, ins_si) \<Rightarrow> InsertSlot ins_gi ins_si full_mask'
                    | None \<Rightarrow> NotFound)
         else find_or_locate_overflow L t eq reduced ofw_bit (next_group (rt_mask t) gi (probe + 1))
                (probe + 1) first_empty' full_mask')"

definition find_or_locate ::
  "'w::len layout \<Rightarrow> ('k, 'v) raw_table \<Rightarrow> u64 \<Rightarrow> ('k \<Rightarrow> bool) \<Rightarrow> find_or_locate_result option" where
  "find_or_locate L t h eq =
    (let reduced = tag (Tag L) h; ofw_bit = overflow_channel (Tag L) h; gi = group_index L t h;
         (matches, empties) = match_byte_and_empty (Grp L) (meta_group L t gi) reduced in
     case group_find L t gi eq matches of
       Some si \<Rightarrow> Some (Found gi si)
     | None \<Rightarrow>
       (case lowest_set_bit empties of
          Some si \<Rightarrow>
            if \<not> has_overflow_bit L t gi ofw_bit then Some (InsertSlot gi si 0)
            else find_or_locate_overflow L t eq reduced ofw_bit (next_group (rt_mask t) gi 1) 1
                   (Some (gi, si)) 0
        | None \<Rightarrow>
            if \<not> has_overflow_bit L t gi ofw_bit then Some NotFound
            else find_or_locate_overflow L t eq reduced ofw_bit (next_group (rt_mask t) gi 1) 1 None 1))"

section \<open>Rehashing\<close>

definition rehash_with ::
  "'w::len layout \<Rightarrow> ('k \<Rightarrow> u64) \<Rightarrow> ('k, 'v) raw_table \<Rightarrow> nat \<Rightarrow> ('k, 'v) raw_table option" where
  "rehash_with L hash t new_num_groups =
    (let was_allocated = 0 < rt_max_load t;
         old_num_groups = rt_mask t + 1;
         t0 = allocate L (t\<lparr>rt_ctrl := EMPTY_SENTINEL, rt_buckets := [], rt_mask := 0, rt_len := 0,
                            rt_max_load := 0\<rparr>) new_num_groups
     in if \<not> was_allocated then Some t0
        else foldM (\<lambda>gi. foldM (\<lambda>si s.
               let key = key_at L t gi si; value = value_at L t gi si
               in map_option snd (insert_no_check L s (hash key) key value))
               (mask_collect (match_non_empty (Grp L) (meta_group L t gi))))
             [0..<old_num_groups] t0)"

definition grow_and_rehash ::
  "'w::len layout \<Rightarrow> ('k \<Rightarrow> u64) \<Rightarrow> ('k, 'v) raw_table \<Rightarrow> ('k, 'v) raw_table option" where
  "grow_and_rehash L hash t =
    rehash_with L hash t (if rt_max_load t = 0 then 1 else (rt_mask t + 1) * 2)"

definition ensure_capacity ::
  "'w::len layout \<Rightarrow> ('k \<Rightarrow> u64) \<Rightarrow> ('k, 'v) raw_table \<Rightarrow> ('k, 'v) raw_table option" where
  "ensure_capacity L hash t =
    (if rt_max_load t \<le> rt_len t
     then rehash_with L hash t (if rt_max_load t = 0 then 1 else (rt_mask t + 1) * 2)
     else Some t)"

section \<open>Insert or replace\<close>

definition replace_value ::
  "'w::len layout \<Rightarrow> ('k, 'v) raw_table \<Rightarrow> nat \<Rightarrow> nat \<Rightarrow> 'v \<Rightarrow> 'v option \<times> ('k, 'v) raw_table" where
  "replace_value L t gi si value = (Some (value_at L t gi si), value_write L t gi si value)"

definition insert_overflow ::
  "'w::len layout \<Rightarrow> ('k \<Rightarrow> u64) \<Rightarrow> ('k, 'v) raw_table \<Rightarrow> u64 \<Rightarrow> 'k \<Rightarrow> 'v \<Rightarrow> ('v option \<times> ('k, 'v) raw_table) option" where
  "insert_overflow L hash t h key value =
    (case find_by_hash_eq L t h key of
       None \<Rightarrow> None
     | Some (Some (gi, si)) \<Rightarrow> Some (replace_value L t gi si value)
     | Some None \<Rightarrow>
         (case (if rt_max_load t \<le> rt_len t then grow_and_rehash L hash t else Some t) of
            None \<Rightarrow> None
          | Some t' \<Rightarrow> map_option (\<lambda>(_, t''). (None, t'')) (insert_no_check L t' h key value)))"

definition insert_at_capacity ::
  "'w::len layout \<Rightarrow> ('k \<Rightarrow> u64) \<Rightarrow> ('k, 'v) raw_table \<Rightarrow> u64 \<Rightarrow> 'k \<Rightarrow> 'v \<Rightarrow> ('v option \<times> ('k, 'v) raw_table) option" where
  "insert_at_capacity L hash t h key value =
    (case find_by_hash_eq L t h key of
       None \<Rightarrow> None
     | Some (Some (gi, si)) \<Rightarrow> Some (replace_value L t gi si value)
     | Some None \<Rightarrow>
         (case grow_and_rehash L hash t of
            None \<Rightarrow> None
          | Some t' \<Rightarrow> map_option (\<lambda>(_, t''). (None, t'')) (insert_no_check L t' h key value)))"

definition insert_or_replace ::
  "'w::len layout \<Rightarrow> ('k \<Rightarrow> u64) \<Rightarrow> ('k, 'v) raw_table \<Rightarrow> 'k \<Rightarrow> 'v \<Rightarrow> ('v option \<times> ('k, 'v) raw_table) option" where
  "insert_or_replace L hash t0 key value =
    (let t = (if rt_max_load t0 = 0 then allocate L t0 1 else t0); h = hash key in
     if rt_max_load t \<le> rt_len t then insert_at_capacity L hash t h key value
     else
       let gi = group_index L t h;
           (matches, empties) = match_byte_and_empty (Grp L) (meta_group L t gi) (tag (Tag L) h) in
       case group_find L t gi (\<lambda>k. k = key) matches of
         Some si \<Rightarrow> Some (replace_value L t gi si value)
       | None \<Rightarrow>
         (case lowest_set_bit empties of
            Some si \<Rightarrow>
              if \<not> has_overflow_bit L t gi (overflow_channel (Tag L) h)
              then Some (None, fill_slot L t h gi si key value)
              else insert_overflow L hash t h key value
          | None \<Rightarrow> insert_overflow L hash t h key value))"

section \<open>Entry probe\<close>

definition find_for_entry ::
  "'w::len layout \<Rightarrow> ('k, 'v) raw_table \<Rightarrow> u64 \<Rightarrow> 'k \<Rightarrow> entry_probe option" where
  "find_for_entry L t h key =
    (if rt_max_load t \<le> rt_len t then
       (case find_by_hash_eq L t h key of
          None \<Rightarrow> None
        | Some (Some (gi, si)) \<Rightarrow> Some (ProbeFound gi si)
        | Some None \<Rightarrow> Some (ProbeVacant None))
     else
       let gi = group_index L t h;
           (matches, empties) = match_byte_and_empty (Grp L) (meta_group L t gi) (tag (Tag L) h);
           located = map_option (\<lambda>r. case r of
                 Found gi si \<Rightarrow> ProbeFound gi si
               | InsertSlot gi si msk \<Rightarrow> ProbeVacant (Some (gi, si, msk))
               | NotFound \<Rightarrow> ProbeVacant None) (find_or_locate L t h (\<lambda>k. k = key)) in
       case group_find L t gi (\<lambda>k. k = key) matches of
         Some si \<Rightarrow> Some (ProbeFound gi si)
       | None \<Rightarrow>
         (case lowest_set_bit empties of
            Some si \<Rightarrow>
              if \<not> has_overflow_bit L t gi (overflow_channel (Tag L) h)
              then Some (ProbeVacant (Some (gi, si, 0))) else located
          | None \<Rightarrow> located))"

section \<open>Removal\<close>

text \<open>Clearing a slot and the anti-drift decrement (\<^verbatim>\<open>saturating_sub\<close>).\<close>

definition erase_slot ::
  "'w::len layout \<Rightarrow> ('k, 'v) raw_table \<Rightarrow> u64 \<Rightarrow> nat \<Rightarrow> nat \<Rightarrow> ('k, 'v) raw_table" where
  "erase_slot L t h gi si =
    (let t1 = set_meta L t gi si EMPTY;
         t2 = t1\<lparr>rt_len := rt_len t1 - 1\<rparr>
     in if has_overflow_bit L t2 (group_index L t2 h) (overflow_channel (Tag L) h)
        then t2\<lparr>rt_max_load := rt_max_load t2 - 1\<rparr> else t2)"

definition remove_by_hash ::
  "'w::len layout \<Rightarrow> ('k, 'v) raw_table \<Rightarrow> u64 \<Rightarrow> ('k \<Rightarrow> bool) \<Rightarrow> (('k \<times> 'v) option \<times> ('k, 'v) raw_table) option" where
  "remove_by_hash L t h eq =
    (case find_by_hash L t h eq of
       None \<Rightarrow> None
     | Some None \<Rightarrow> Some (None, t)
     | Some (Some (gi, si)) \<Rightarrow>
         Some (Some (key_at L t gi si, value_at L t gi si),
               erase_slot L (bucket_moved_out L t gi si) h gi si))"

definition clear :: "'w::len layout \<Rightarrow> ('k, 'v) raw_table \<Rightarrow> ('k, 'v) raw_table" where
  "clear L t =
    (if rt_max_load t = 0 then t
     else t\<lparr>rt_ctrl := replicate ((rt_mask t + 1) * META_STRIDE L
                          + overflow_bytes_to_zero (Overflow L) (rt_mask t + 1)) 0,
            rt_buckets := replicate (length (rt_buckets t)) None,
            rt_len := 0,
            rt_max_load := max_load_for_capacity ((rt_mask t + 1) * GROUP_SIZE L)
                             (LOAD_FACTOR_NUM L) (LOAD_FACTOR_DEN L)\<rparr>)"

section \<open>Capacity management\<close>

definition reserve ::
  "'w::len layout \<Rightarrow> ('k \<Rightarrow> u64) \<Rightarrow> ('k, 'v) raw_table \<Rightarrow> nat \<Rightarrow> (panic + ('k, 'v) raw_table) option" where
  "reserve L hash t additional =
    (if 2 ^ 64 \<le> rt_len t + additional then Some (Inl CapacityOverflow)
     else let needed = rt_len t + additional in
       if rt_max_load t = 0 then
         Some (Inr (if 0 < additional then allocate L t (groups_for_capacity L needed) else t))
       else if rt_max_load t < needed \<and> rt_mask t + 1 < groups_for_capacity L needed then
         map_option Inr (rehash_with L hash t (groups_for_capacity L needed))
       else Some (Inr t))"

definition shrink_to_fit ::
  "'w::len layout \<Rightarrow> ('k \<Rightarrow> u64) \<Rightarrow> ('k, 'v) raw_table \<Rightarrow> ('k, 'v) raw_table option" where
  "shrink_to_fit L hash t =
    (if rt_len t = 0 then Some raw_new
     else let min_groups = groups_for_capacity L (rt_len t) in
       if min_groups < rt_mask t + 1 then rehash_with L hash t min_groups else Some t)"

section \<open>Iteration and cloning\<close>

definition first_non_empty_mask :: "'w::len layout \<Rightarrow> ('k, 'v) raw_table \<Rightarrow> 'w word" where
  "first_non_empty_mask L t =
    (if rt_max_load t = 0 then 0 else match_non_empty (Grp L) (meta_group L t 0))"

text \<open>\<^verbatim>\<open>SlotIter::next\<close> on its state, the current group and mask.\<close>

function slot_next ::
  "'w::len layout \<Rightarrow> ('k, 'v) raw_table \<Rightarrow> nat \<Rightarrow> 'w word \<Rightarrow> ((nat \<times> nat) \<times> nat \<times> 'w word) option" where
  "slot_next L t g current_mask =
    (case mask_next current_mask of
       Some (si, m') \<Rightarrow> Some ((g, si), g, m')
     | None \<Rightarrow>
         if rt_mask t < g + 1 then None
         else slot_next L t (g + 1) (match_non_empty (Grp L) (meta_group L t (g + 1))))"
  by pat_completeness auto
termination
  by (relation "measure (\<lambda>(L, t, g, m). Suc (rt_mask t) - g)") auto

declare slot_next.simps [simp del]

lemma slot_next_decreases:
  "slot_next L t g m = Some (p, g', m') \<Longrightarrow> g' = g \<and> unat m' < unat m \<or> g < g' \<and> g' \<le> rt_mask t"
proof (induction L t g m arbitrary: p g' m' rule: slot_next.induct)
  case (1 L t g m)
  then show ?case
    by (subst (asm) (2) slot_next.simps)
      (fastforce simp: mask_next_def clear_lowest_less split: if_splits option.splits)
qed

function slot_collect ::
  "'w::len layout \<Rightarrow> ('k, 'v) raw_table \<Rightarrow> nat \<Rightarrow> 'w word \<Rightarrow> (nat \<times> nat) list" where
  "slot_collect L t g current_mask =
    (case slot_next L t g current_mask of
       None \<Rightarrow> []
     | Some (p, g', m') \<Rightarrow> p # slot_collect L t g' m')"
  by pat_completeness auto
termination
  by (relation "measures [\<lambda>(L, t, g, m). Suc (rt_mask t) - g, \<lambda>(L, t, g, m). unat m]")
    (auto dest!: slot_next_decreases)

declare slot_collect.simps [simp del]

text \<open>All positions \<^verbatim>\<open>iter_slots\<close> yields, in order.\<close>

definition iter_slots :: "'w::len layout \<Rightarrow> ('k, 'v) raw_table \<Rightarrow> (nat \<times> nat) list" where
  "iter_slots L t = slot_collect L t 0 (first_non_empty_mask L t)"

text \<open>
  \<^verbatim>\<open>IntoIter::next\<close>: as \<^verbatim>\<open>SlotIter::next\<close>, but the pair is moved out, its tag byte
  cleared and the length decremented.
\<close>

function into_iter_next ::
  "'w::len layout \<Rightarrow> ('k, 'v) raw_table \<Rightarrow> nat \<Rightarrow> 'w word
    \<Rightarrow> (('k \<times> 'v) \<times> ('k, 'v) raw_table \<times> nat \<times> 'w word) option" where
  "into_iter_next L t g current_mask =
    (case mask_next current_mask of
       Some (si, m') \<Rightarrow>
         let kv = (key_at L t g si, value_at L t g si);
             t1 = set_meta L (bucket_moved_out L t g si) g si EMPTY
         in Some (kv, t1\<lparr>rt_len := rt_len t1 - 1\<rparr>, g, m')
     | None \<Rightarrow>
         if rt_mask t < g + 1 then None
         else into_iter_next L t (g + 1) (match_non_empty (Grp L) (meta_group L t (g + 1))))"
  by pat_completeness auto
termination
  by (relation "measure (\<lambda>(L, t, g, m). Suc (rt_mask t) - g)") auto

declare into_iter_next.simps [simp del]

lemma into_iter_next_decreases:
  "into_iter_next L t g m = Some (kv, t', g', m') \<Longrightarrow>
   rt_mask t' = rt_mask t \<and> (g' = g \<and> unat m' < unat m \<or> g < g' \<and> g' \<le> rt_mask t)"
proof (induction L t g m arbitrary: kv t' g' m' rule: into_iter_next.induct)
  case (1 L t g m)
  then show ?case
    by (subst (asm) (2) into_iter_next.simps)
      (fastforce simp: mask_next_def clear_lowest_less Let_def set_meta_def bucket_moved_out_def
        split: if_splits option.splits)
qed

function into_iter_collect ::
  "'w::len layout \<Rightarrow> ('k, 'v) raw_table \<Rightarrow> nat \<Rightarrow> 'w word \<Rightarrow> ('k \<times> 'v) list \<times> ('k, 'v) raw_table" where
  "into_iter_collect L t g current_mask =
    (case into_iter_next L t g current_mask of
       None \<Rightarrow> ([], t)
     | Some (kv, t', g', m') \<Rightarrow>
         let (kvs, t'') = into_iter_collect L t' g' m' in (kv # kvs, t''))"
  by pat_completeness auto
termination
  by (relation "measures [\<lambda>(L, t, g, m). Suc (rt_mask t) - g, \<lambda>(L, t, g, m). unat m]")
    (auto dest!: into_iter_next_decreases)

declare into_iter_collect.simps [simp del]

text \<open>Consuming the whole iterator; \<^verbatim>\<open>drain\<close> leaves a new table behind.\<close>

definition into_iter :: "'w::len layout \<Rightarrow> ('k, 'v) raw_table \<Rightarrow> ('k \<times> 'v) list \<times> ('k, 'v) raw_table" where
  "into_iter L t = into_iter_collect L t 0 (first_non_empty_mask L t)"

definition drain :: "'w::len layout \<Rightarrow> ('k, 'v) raw_table \<Rightarrow> ('k \<times> 'v) list \<times> ('k, 'v) raw_table" where
  "drain L t = (fst (into_iter L t), raw_new)"

text \<open>The bucket indices that \<^verbatim>\<open>clear\<close> and \<^verbatim>\<open>drop\<close> pass to \<^verbatim>\<open>S::drop_slot\<close>, in order.\<close>

definition drop_slots :: "'w::len layout \<Rightarrow> ('k, 'v) raw_table \<Rightarrow> nat list" where
  "drop_slots L t =
    (if rt_max_load t = 0 then []
     else concat (map (\<lambda>gi. map (bucket_index L gi)
            (mask_collect (match_non_empty (Grp L) (meta_group L t gi)))) [0..<rt_mask t + 1]))"

definition clone_table :: "'w::len layout \<Rightarrow> ('k, 'v) raw_table \<Rightarrow> ('k, 'v) raw_table" where
  "clone_table L t =
    (if rt_max_load t = 0 then raw_new
     else
       let n = rt_mask t + 1;
           t0 = allocate L raw_new n;
           copy_size = n * META_STRIDE L + overflow_bytes_to_copy (Overflow L) n;
           t1 = t0\<lparr>rt_ctrl := take copy_size (rt_ctrl t) @ drop copy_size (rt_ctrl t0)\<rparr>;
           t2 = fold (\<lambda>gi. fold (\<lambda>si s. bucket_write L s gi si (key_at L t gi si) (value_at L t gi si))
                  (mask_collect (match_non_empty (Grp L) (meta_group L t gi)))) [0..<n] t1
       in t2\<lparr>rt_len := rt_len t, rt_max_load := rt_max_load t\<rparr>)"

end
