(* ===== verification/Overflow_Correct.thy ===== *)
theory Overflow_Correct
  imports Overflow_Table
begin

text \<open>
  Correctness of the overflow-bit engine: the table invariant, the finite map a
  table stands for, and what every operation does to them.
\<close>

section \<open>Observers\<close>

definition slot_tag :: "'w::len layout \<Rightarrow> ('k, 'v) raw_table \<Rightarrow> nat \<Rightarrow> nat \<Rightarrow> u8" where
  "slot_tag L t gi si = rt_ctrl t ! (gi * META_STRIDE L + si)"

definition slot :: "'w::len layout \<Rightarrow> ('k, 'v) raw_table \<Rightarrow> nat \<Rightarrow> nat \<Rightarrow> ('k \<times> 'v) option" where
  "slot L t gi si = rt_buckets t ! bucket_index L gi si"

definition table_map :: "('k, 'v) raw_table \<Rightarrow> 'k \<rightharpoonup> 'v" where
  "table_map t = bucket_map (rt_buckets t)"

definition probe_group :: "'w::len layout \<Rightarrow> ('k, 'v) raw_table \<Rightarrow> u64 \<Rightarrow> nat \<Rightarrow> nat" where
  "probe_group L t h p = probe_seq (rt_mask t) (group_index L t h) p"

definition overflowed :: "'w::len layout \<Rightarrow> ('k, 'v) raw_table \<Rightarrow> u64 \<Rightarrow> nat \<Rightarrow> bool" where
  "overflowed L t h gi = has_overflow_bit L t gi (overflow_channel (Tag L) h)"

definition reaches :: "'w::len layout \<Rightarrow> ('k, 'v) raw_table \<Rightarrow> u64 \<Rightarrow> nat \<Rightarrow> bool" where
  "reaches L t h gi \<longleftrightarrow>
    (\<exists>p\<le>rt_mask t. probe_group L t h p = gi \<and> (\<forall>q<p. overflowed L t h (probe_group L t h q)))"

section \<open>The invariant\<close>

definition table_shape :: "'w::len layout \<Rightarrow> ('k, 'v) raw_table \<Rightarrow> bool" where
  "table_shape L t \<longleftrightarrow>
     groups_ok (Suc (rt_mask t)) \<and>
     length (rt_ctrl t) =
       Suc (rt_mask t) * META_STRIDE L + overflow_bytes_to_zero (Overflow L) (Suc (rt_mask t)) \<and>
     length (rt_buckets t) = Suc (rt_mask t) * BUCKET_STRIDE L \<and>
     rt_shift t = 64 - trailing_zeros (of_nat (Suc (rt_mask t)) :: u64)"

definition slot_ok :: "'w::len layout \<Rightarrow> ('k \<Rightarrow> u64) \<Rightarrow> ('k, 'v) raw_table \<Rightarrow> nat \<Rightarrow> nat \<Rightarrow> bool" where
  "slot_ok L hash t gi si \<longleftrightarrow>
     (case slot L t gi si of
        None \<Rightarrow> si < GROUP_SIZE L \<longrightarrow> slot_tag L t gi si = EMPTY
      | Some (k, v) \<Rightarrow> si < GROUP_SIZE L \<and> slot_tag L t gi si = tag (Tag L) (hash k)
                      \<and> reaches L t (hash k) gi)"

definition slots_ok :: "'w::len layout \<Rightarrow> ('k \<Rightarrow> u64) \<Rightarrow> ('k, 'v) raw_table \<Rightarrow> bool" where
  "slots_ok L hash t \<longleftrightarrow> (\<forall>gi\<le>rt_mask t. \<forall>si<BUCKET_STRIDE L. slot_ok L hash t gi si)"

definition table_core :: "'w::len layout \<Rightarrow> ('k \<Rightarrow> u64) \<Rightarrow> ('k, 'v) raw_table \<Rightarrow> bool" where
  "table_core L hash t \<longleftrightarrow>
     table_shape L t \<and> slots_ok L hash t \<and> keys_distinct (rt_buckets t) \<and>
     rt_len t = length (somes (rt_buckets t))"

lemmas observer_defs = slot_tag_def slot_def table_map_def probe_group_def overflowed_def

lemma key_at_slot: "slot L t gi si = Some (k, v) \<Longrightarrow> key_at L t gi si = k"
  "slot L t gi si = Some (k, v) \<Longrightarrow> value_at L t gi si = v"
  by (simp_all add: slot_def key_at_def value_at_def)

text \<open>Fields an observer does not read.\<close>

lemma group_index_simps [simp]:
  "group_index L (t\<lparr>rt_ctrl := c\<rparr>) h = group_index L t h"
  "group_index L (t\<lparr>rt_buckets := b\<rparr>) h = group_index L t h"
  "group_index L (t\<lparr>rt_len := n\<rparr>) h = group_index L t h"
  "group_index L (t\<lparr>rt_max_load := n\<rparr>) h = group_index L t h"
  by (simp_all add: group_index_def split: hash_region.split)

lemma has_overflow_bit_simps [simp]:
  "has_overflow_bit L (t\<lparr>rt_buckets := b\<rparr>) gi c = has_overflow_bit L t gi c"
  "has_overflow_bit L (t\<lparr>rt_len := n\<rparr>) gi c = has_overflow_bit L t gi c"
  "has_overflow_bit L (t\<lparr>rt_max_load := n\<rparr>) gi c = has_overflow_bit L t gi c"
  by (simp_all add: has_overflow_bit_def)

lemma slot_tag_simps [simp]:
  "slot_tag L (t\<lparr>rt_buckets := b\<rparr>) gi si = slot_tag L t gi si"
  "slot_tag L (t\<lparr>rt_len := n\<rparr>) gi si = slot_tag L t gi si"
  "slot_tag L (t\<lparr>rt_max_load := n\<rparr>) gi si = slot_tag L t gi si"
  by (simp_all add: slot_tag_def)

lemma slot_simps [simp]:
  "slot L (t\<lparr>rt_ctrl := c\<rparr>) gi si = slot L t gi si"
  "slot L (t\<lparr>rt_len := n\<rparr>) gi si = slot L t gi si"
  "slot L (t\<lparr>rt_max_load := n\<rparr>) gi si = slot L t gi si"
  by (simp_all add: slot_def)

text \<open>Fields an operation keeps.\<close>

lemma set_meta_simps [simp]:
  "rt_mask (set_meta L t gi si x) = rt_mask t" "rt_buckets (set_meta L t gi si x) = rt_buckets t"
  "rt_len (set_meta L t gi si x) = rt_len t" "rt_max_load (set_meta L t gi si x) = rt_max_load t"
  "rt_shift (set_meta L t gi si x) = rt_shift t"
  "group_index L' (set_meta L t gi si x) h = group_index L' t h"
  "slot L' (set_meta L t gi si x) g s = slot L' t g s"
  by (simp_all add: set_meta_def)

lemma set_overflow_bit_simps [simp]:
  "rt_mask (set_overflow_bit L t gi c) = rt_mask t"
  "rt_buckets (set_overflow_bit L t gi c) = rt_buckets t"
  "rt_len (set_overflow_bit L t gi c) = rt_len t"
  "rt_max_load (set_overflow_bit L t gi c) = rt_max_load t"
  "rt_shift (set_overflow_bit L t gi c) = rt_shift t"
  "group_index L' (set_overflow_bit L t gi c) h = group_index L' t h"
  "slot L' (set_overflow_bit L t gi c) g s = slot L' t g s"
  by (simp_all add: set_overflow_bit_def Let_def)

lemma bucket_write_simps [simp]:
  "rt_mask (bucket_write L t gi si k v) = rt_mask t" "rt_ctrl (bucket_write L t gi si k v) = rt_ctrl t"
  "rt_len (bucket_write L t gi si k v) = rt_len t" "rt_max_load (bucket_write L t gi si k v) = rt_max_load t"
  "rt_shift (bucket_write L t gi si k v) = rt_shift t"
  "group_index L' (bucket_write L t gi si k v) h = group_index L' t h"
  "has_overflow_bit L' (bucket_write L t gi si k v) g c = has_overflow_bit L' t g c"
  "slot_tag L' (bucket_write L t gi si k v) g s = slot_tag L' t g s"
  by (simp_all add: bucket_write_def)

lemma bucket_moved_out_simps [simp]:
  "rt_mask (bucket_moved_out L t gi si) = rt_mask t" "rt_ctrl (bucket_moved_out L t gi si) = rt_ctrl t"
  "rt_len (bucket_moved_out L t gi si) = rt_len t" "rt_max_load (bucket_moved_out L t gi si) = rt_max_load t"
  "rt_shift (bucket_moved_out L t gi si) = rt_shift t"
  "group_index L' (bucket_moved_out L t gi si) h = group_index L' t h"
  "has_overflow_bit L' (bucket_moved_out L t gi si) g c = has_overflow_bit L' t g c"
  "slot_tag L' (bucket_moved_out L t gi si) g s = slot_tag L' t g s"
  by (simp_all add: bucket_moved_out_def)

section \<open>Addressing within a well-shaped table\<close>

locale overflow_layout =
  fixes L :: "'w::len layout"
  assumes valid: "valid_layout L"
begin

lemma layout_simps [simp]:
  "META_STRIDE L = LENGTH('w)" "0 < GROUP_SIZE L" "GROUP_SIZE L \<le> LENGTH('w)"
  "GROUP_SIZE L \<le> BUCKET_STRIDE L" "0 < LOAD_FACTOR_NUM L" "LOAD_FACTOR_NUM L < LOAD_FACTOR_DEN L"
  "Overflow L = EmbeddedOverflow \<Longrightarrow> GROUP_SIZE L < LENGTH('w)" "GROUP_SIZE L \<le> 64" "LOAD_FACTOR_DEN L \<le> 16"
  using valid by (simp_all add: valid_layout_def)

lemma grp_bit: "bit (Grp L) i \<longleftrightarrow> i < GROUP_SIZE L"
  using valid bit_imp_le_length [of "Grp L" i] unfolding valid_layout_def
  by (metis dual_order.strict_trans1)

lemma tag_laws: "tag_strategy_laws (Tag L)"
  using valid by (simp add: valid_layout_def)

lemma tag_nonzero [simp]: "tag (Tag L) h \<noteq> EMPTY"
  by (rule tag_strategy_laws.tag_not_empty [OF tag_laws])

lemma channel_nonzero [simp]: "overflow_channel (Tag L) h \<noteq> 0"
  by (rule tag_strategy_laws.channel_nonzero [OF tag_laws])

lemma overflow_index:
  assumes "table_shape L t" "gi \<le> rt_mask t"
  shows "overflow_ptr (Overflow L) (rt_mask t) gi LENGTH('w) < length (rt_ctrl t)"
proof (cases "Overflow L")
  case EmbeddedOverflow
  have "gi * LENGTH('w) + (LENGTH('w) - 1) < Suc (rt_mask t) * LENGTH('w)"
    using assms(2) by (intro grid_less) auto
  then show ?thesis using assms EmbeddedOverflow by (simp add: table_shape_def)
qed (use assms in \<open>auto simp: table_shape_def\<close>)

lemma overflow_index_not_slot:
  assumes "gi \<le> m" "g \<le> m" "s < GROUP_SIZE L"
  shows "overflow_ptr (Overflow L) m gi LENGTH('w) \<noteq> g * LENGTH('w) + s"
proof (cases "Overflow L")
  case EmbeddedOverflow
  have "s < LENGTH('w) - 1" using layout_simps(7) [OF EmbeddedOverflow] assms by simp
  moreover have "gi * LENGTH('w) + LENGTH('w) - 1 = gi * LENGTH('w) + (LENGTH('w) - 1)"
    using len_gt_0 [where 'a = 'w] by linarith
  ultimately show ?thesis
    using grid_inj [of "LENGTH('w) - 1" "LENGTH('w)" s gi g] EmbeddedOverflow by simp
next
  case ByteSeparate
  have "g * LENGTH('w) + s < Suc m * LENGTH('w)"
    using assms layout_simps(3) by (intro grid_less) (auto intro: less_le_trans)
  then show ?thesis using ByteSeparate by simp
next
  case BitSeparate
  have "g * LENGTH('w) + s < Suc m * LENGTH('w)"
    using assms layout_simps(3) by (intro grid_less) (auto intro: less_le_trans)
  then show ?thesis using BitSeparate by simp
qed

lemma slot_index:
  assumes "table_shape L t" "gi \<le> rt_mask t" "si < GROUP_SIZE L"
  shows "gi * LENGTH('w) + si < length (rt_ctrl t)"
    and "bucket_index L gi si < length (rt_buckets t)"
proof -
  have "si < LENGTH('w)" "si < BUCKET_STRIDE L"
    using assms(3) layout_simps(3,4) by (meson less_le_trans)+
  then show "gi * LENGTH('w) + si < length (rt_ctrl t)"
    "bucket_index L gi si < length (rt_buckets t)"
    using assms grid_less [of gi "Suc (rt_mask t)" si "LENGTH('w)"]
      grid_less [of gi "Suc (rt_mask t)" si "BUCKET_STRIDE L"]
    by (simp_all add: table_shape_def bucket_index_def)
qed

lemma bucket_index_eq:
  "s < BUCKET_STRIDE L \<Longrightarrow> s' < BUCKET_STRIDE L \<Longrightarrow>
   bucket_index L g s = bucket_index L g' s' \<longleftrightarrow> g = g' \<and> s = s'"
  by (simp add: bucket_index_def grid_inj)

lemma bucket_index_grid:
  assumes "table_shape L t" "i < length (rt_buckets t)"
  obtains gi si where "gi \<le> rt_mask t" "si < BUCKET_STRIDE L" "i = bucket_index L gi si"
proof
  have "0 < BUCKET_STRIDE L" using layout_simps(2,4) by (rule less_le_trans)
  then show "i div BUCKET_STRIDE L \<le> rt_mask t" "i mod BUCKET_STRIDE L < BUCKET_STRIDE L"
    "i = bucket_index L (i div BUCKET_STRIDE L) (i mod BUCKET_STRIDE L)"
    using assms less_mult_imp_div_less [of i "Suc (rt_mask t)" "BUCKET_STRIDE L"]
    by (simp_all add: table_shape_def bucket_index_def)
qed

lemma group_index_le: "table_shape L t \<Longrightarrow> group_index L t h \<le> rt_mask t"
proof -
  assume "table_shape L t"
  then have "a AND rt_mask t = a mod Suc (rt_mask t)" for a
    using and_pred_groups [of "Suc (rt_mask t)" a] by (simp add: table_shape_def)
  then show ?thesis by (simp add: group_index_def less_Suc_eq_le [symmetric] split: hash_region.split)
qed

lemma probe_group_le: "table_shape L t \<Longrightarrow> probe_group L t h p \<le> rt_mask t"
  using probe_seq_less [of "rt_mask t" "group_index L t h" p] group_index_le [of t h]
  by (simp add: probe_group_def table_shape_def less_Suc_eq_le)

lemma probe_group_reaches:
  assumes "table_shape L t" "gi \<le> rt_mask t"
  obtains p where "p \<le> rt_mask t" "probe_group L t h p = gi"
  using probe_seq_reaches [of "rt_mask t" "group_index L t h" gi] assms group_index_le [of t h]
  by (auto simp: probe_group_def table_shape_def less_Suc_eq_le)

section \<open>Single writes\<close>

lemma table_shape_set_meta [simp]: "table_shape L (set_meta L t gi si x) \<longleftrightarrow> table_shape L t"
  by (simp add: table_shape_def set_meta_def)

lemma table_shape_set_overflow [simp]: "table_shape L (set_overflow_bit L t gi c) \<longleftrightarrow> table_shape L t"
  by (simp add: table_shape_def set_overflow_bit_def Let_def)

lemma slot_tag_set_meta:
  assumes "table_shape L t" "gi \<le> rt_mask t" "si < GROUP_SIZE L" "s < GROUP_SIZE L"
  shows "slot_tag L (set_meta L t gi si x) g s = (if g = gi \<and> s = si then x else slot_tag L t g s)"
proof -
  have "si < LENGTH('w)" "s < LENGTH('w)" using assms layout_simps(3) by (meson less_le_trans)+
  then show ?thesis
    using slot_index(1) [OF assms(1-3)] grid_inj [of s "LENGTH('w)" si g gi]
    by (auto simp: slot_tag_def set_meta_def nth_list_update)
qed

lemma slot_tag_set_overflow:
  assumes "gi \<le> rt_mask t" "g \<le> rt_mask t" "s < GROUP_SIZE L"
  shows "slot_tag L (set_overflow_bit L t gi c) g s = slot_tag L t g s"
  using overflow_index_not_slot [OF assms] by (simp add: slot_tag_def set_overflow_bit_def Let_def)

lemma has_overflow_set_meta:
  assumes "gi \<le> rt_mask t" "si < GROUP_SIZE L" "g \<le> rt_mask t"
  shows "has_overflow_bit L (set_meta L t gi si x) g c = has_overflow_bit L t g c"
  using overflow_index_not_slot [OF assms(3,1,2)] not_sym
  by (fastforce simp: has_overflow_bit_def set_meta_def)

lemma has_overflow_set_overflow:
  assumes "table_shape L t" "gi \<le> rt_mask t" "c \<noteq> 0"
  shows "has_overflow_bit L (set_overflow_bit L t gi c) gi c"
  using overflow_index [OF assms(1,2)] set_has_overflow [OF assms(3)]
  by (simp add: has_overflow_bit_def set_overflow_bit_def Let_def)

lemma has_overflow_set_overflow_mono:
  assumes "table_shape L t" "gi \<le> rt_mask t" "has_overflow_bit L t g d"
  shows "has_overflow_bit L (set_overflow_bit L t gi c) g d"
proof (cases "overflow_ptr (Overflow L) (rt_mask t) g LENGTH('w) = overflow_ptr (Overflow L) (rt_mask t) gi LENGTH('w)")
  case True
  then show ?thesis
    using assms overflow_index [OF assms(1,2)]
    by (simp add: has_overflow_bit_def set_overflow_bit_def Let_def set_overflow_mono)
next
  case False
  then show ?thesis
    using assms by (simp add: has_overflow_bit_def set_overflow_bit_def Let_def)
qed

section \<open>SIMD matches of a group\<close>

lemma length_meta_group:
  "table_shape L t \<Longrightarrow> gi \<le> rt_mask t \<Longrightarrow> length (meta_group L t gi) = LENGTH('w)"
proof -
  assume a: "table_shape L t" "gi \<le> rt_mask t"
  have "gi * LENGTH('w) \<le> rt_mask t * LENGTH('w)" using a(2) by (rule mult_le_mono1)
  moreover have "LENGTH('w) + rt_mask t * LENGTH('w) \<le> length (rt_ctrl t)"
    using a(1) by (simp add: table_shape_def)
  ultimately have "LENGTH('w) \<le> length (rt_ctrl t) - gi * LENGTH('w)" by linarith
  then show ?thesis by (simp add: meta_group_def)
qed

lemma nth_meta_group:
  "table_shape L t \<Longrightarrow> gi \<le> rt_mask t \<Longrightarrow> si < LENGTH('w) \<Longrightarrow> meta_group L t gi ! si = slot_tag L t gi si"
  using length_meta_group [of t gi] by (simp add: meta_group_def slot_tag_def)

lemma match_group:
  assumes "table_shape L t" "gi \<le> rt_mask t"
  shows "bit (match_byte (Grp L) (meta_group L t gi) x) i \<longleftrightarrow> i < GROUP_SIZE L \<and> slot_tag L t gi i = x"
    and "bit (match_empty (Grp L) (meta_group L t gi)) i \<longleftrightarrow> i < GROUP_SIZE L \<and> slot_tag L t gi i = EMPTY"
    and "bit (match_non_empty (Grp L) (meta_group L t gi)) i \<longleftrightarrow> i < GROUP_SIZE L \<and> slot_tag L t gi i \<noteq> EMPTY"
proof -
  have "i < GROUP_SIZE L \<Longrightarrow> i < LENGTH('w)" using layout_simps(3) by linarith
  then show "bit (match_byte (Grp L) (meta_group L t gi) x) i \<longleftrightarrow> i < GROUP_SIZE L \<and> slot_tag L t gi i = x"
    "bit (match_empty (Grp L) (meta_group L t gi)) i \<longleftrightarrow> i < GROUP_SIZE L \<and> slot_tag L t gi i = EMPTY"
    "bit (match_non_empty (Grp L) (meta_group L t gi)) i \<longleftrightarrow> i < GROUP_SIZE L \<and> slot_tag L t gi i \<noteq> EMPTY"
    using length_meta_group [OF assms] nth_meta_group [OF assms, of i]
    by (auto simp: table_simps grp_bit)
qed

end

section \<open>Slots and the map of a table\<close>

context overflow_layout
begin

lemma core_shape: "table_core L hash t \<Longrightarrow> table_shape L t"
  by (simp add: table_core_def)

lemma slot_Some:
  assumes "table_core L hash t" "gi \<le> rt_mask t" "si < BUCKET_STRIDE L" "slot L t gi si = Some (k, v)"
  shows "si < GROUP_SIZE L" "slot_tag L t gi si = tag (Tag L) (hash k)" "reaches L t (hash k) gi"
  using assms unfolding table_core_def slots_ok_def slot_ok_def by fastforce+

lemma slot_None:
  assumes "table_core L hash t" "gi \<le> rt_mask t" "si < GROUP_SIZE L"
  shows "slot L t gi si = None \<longleftrightarrow> slot_tag L t gi si = EMPTY"
proof -
  have si: "si < BUCKET_STRIDE L" using assms(3) layout_simps(4) by linarith
  show ?thesis
  proof (cases "slot L t gi si")
    case None
    then show ?thesis using assms si unfolding table_core_def slots_ok_def slot_ok_def by fastforce
  next
    case (Some kv)
    then show ?thesis using slot_Some(2) [OF assms(1,2) si] by (cases kv) auto
  qed
qed

lemma slot_non_empty:
  assumes "table_core L hash t" "gi \<le> rt_mask t" "si < GROUP_SIZE L" "slot_tag L t gi si \<noteq> EMPTY"
  obtains k v where "slot L t gi si = Some (k, v)" "slot_tag L t gi si = tag (Tag L) (hash k)"
    "reaches L t (hash k) gi"
proof -
  obtain k v where kv: "slot L t gi si = Some (k, v)"
    using slot_None [OF assms(1-3)] assms(4) by fastforce
  moreover have "si < BUCKET_STRIDE L" using assms(3) layout_simps(4) by linarith
  ultimately show ?thesis using slot_Some(2,3) [OF assms(1,2)] that by blast
qed

lemma table_map_Some:
  assumes "table_core L hash t"
  shows "table_map t k = Some v \<longleftrightarrow> (\<exists>gi\<le>rt_mask t. \<exists>si<GROUP_SIZE L. slot L t gi si = Some (k, v))"
proof
  have kd: "keys_distinct (rt_buckets t)" using assms by (simp add: table_core_def)
  {
    assume "table_map t k = Some v"
    then obtain i where i: "i < length (rt_buckets t)" "rt_buckets t ! i = Some (k, v)"
      using kd by (auto simp: table_map_def bucket_map_Some_iff)
    obtain gi si where g: "gi \<le> rt_mask t" "si < BUCKET_STRIDE L" "i = bucket_index L gi si"
      using bucket_index_grid [OF core_shape [OF assms] i(1)] by blast
    then have "slot L t gi si = Some (k, v)" using i by (simp add: slot_def)
    then show "\<exists>gi\<le>rt_mask t. \<exists>si<GROUP_SIZE L. slot L t gi si = Some (k, v)"
      using slot_Some(1) [OF assms g(1,2)] g(1) by blast
  }
  assume "\<exists>gi\<le>rt_mask t. \<exists>si<GROUP_SIZE L. slot L t gi si = Some (k, v)"
  then show "table_map t k = Some v"
    using kd slot_index(2) [OF core_shape [OF assms]]
    by (auto simp: table_map_def bucket_map_Some_iff slot_def)
qed

lemma table_map_None:
  assumes "table_core L hash t"
  shows "table_map t k = None \<longleftrightarrow> (\<forall>gi\<le>rt_mask t. \<forall>si<GROUP_SIZE L. \<forall>v. slot L t gi si \<noteq> Some (k, v))"
  using table_map_Some [OF assms, of k] by (metis not_None_eq)

lemma slot_unique:
  assumes "table_core L hash t"
    and "gi \<le> rt_mask t" "si < GROUP_SIZE L" "slot L t gi si = Some (k, v)"
    and "g \<le> rt_mask t" "s < GROUP_SIZE L" "slot L t g s = Some (k, w)"
  shows "g = gi \<and> s = si"
proof -
  have "bucket_index L g s = bucket_index L gi si"
    using assms slot_index(2) [OF core_shape [OF assms(1)]] keys_distinct_nth [of "rt_buckets t"]
    unfolding table_core_def slot_def by metis
  then show ?thesis using bucket_index_eq assms(3,6) layout_simps(4) by (meson less_le_trans)
qed

section \<open>Lookup\<close>

abbreviation tag_matches :: "('k, 'v) raw_table \<Rightarrow> u64 \<Rightarrow> nat \<Rightarrow> 'w word" where
  "tag_matches t h gi \<equiv> match_byte (Grp L) (meta_group L t gi) (tag (Tag L) h)"

lemma group_find_Some:
  assumes "table_core L hash t" "gi \<le> rt_mask t"
    and "group_find L t gi eq (tag_matches t h gi) = Some si"
  shows "si < GROUP_SIZE L" "\<exists>k v. slot L t gi si = Some (k, v) \<and> eq k"
proof -
  have si: "si < GROUP_SIZE L" "slot_tag L t gi si = tag (Tag L) h" "eq (key_at L t gi si)"
    using assms mask_find_Some match_group(1) [OF core_shape] unfolding group_find_def by blast+
  then show "si < GROUP_SIZE L" by simp
  obtain k v where "slot L t gi si = Some (k, v)"
    using slot_non_empty [OF assms(1,2) si(1)] si(2) tag_nonzero by metis
  then show "\<exists>k v. slot L t gi si = Some (k, v) \<and> eq k" using si(3) key_at_slot(1) by metis
qed

lemma group_find_absent:
  assumes "table_core L hash t" "gi \<le> rt_mask t"
    and "\<And>si k v. si < GROUP_SIZE L \<Longrightarrow> slot L t gi si = Some (k, v) \<Longrightarrow> \<not> eq k"
  shows "group_find L t gi eq (tag_matches t h gi) = None"
  using group_find_Some [OF assms(1,2)] assms(3) by (metis not_None_eq)

lemma group_find_unmapped:
  assumes "table_core L hash t" "gi \<le> rt_mask t" "\<And>k. eq k \<Longrightarrow> table_map t k = None"
  shows "group_find L t gi eq (tag_matches t h gi) = None"
proof (rule group_find_absent [OF assms(1,2)])
  fix si k v assume "si < GROUP_SIZE L" "slot L t gi si = Some (k, v)"
  then have "table_map t k = Some v" using table_map_Some [OF assms(1)] assms(2) by blast
  then show "\<not> eq k" using assms(3) by force
qed

lemma group_find_present:
  assumes "table_core L hash t" "gi \<le> rt_mask t" "si < GROUP_SIZE L" "slot L t gi si = Some (k, v)"
  shows "group_find L t gi (\<lambda>x. x = k) (tag_matches t (hash k) gi) = Some si"
proof (cases "group_find L t gi (\<lambda>x. x = k) (tag_matches t (hash k) gi)")
  case None
  have "si < BUCKET_STRIDE L" using assms(3) layout_simps(4) by linarith
  then have "bit (tag_matches t (hash k) gi) si"
    using match_group(1) [OF core_shape [OF assms(1)] assms(2)] assms(3)
      slot_Some(2) [OF assms(1,2) _ assms(4)] by simp
  then have "key_at L t gi si \<noteq> k" using None by (simp add: group_find_def mask_find_None)
  then show ?thesis using key_at_slot(1) [OF assms(4)] by simp
next
  case (Some s)
  have "s < GROUP_SIZE L" using group_find_Some(1) [OF assms(1,2) Some] .
  moreover obtain w where "slot L t gi s = Some (k, w)"
    using group_find_Some(2) [OF assms(1,2) Some] by blast
  ultimately show ?thesis using slot_unique [OF assms assms(2)] Some by simp
qed

text \<open>The loop passes over groups without a match whose overflow bit is set.\<close>

lemma find_loop_skip:
  assumes "\<And>q. q < d \<Longrightarrow> group_find L t (probe_seq (rt_mask t) g (p + q)) eq
      (match_byte (Grp L) (meta_group L t (probe_seq (rt_mask t) g (p + q))) r) = None"
    and "\<And>q. q < d \<Longrightarrow> has_overflow_bit L t (probe_seq (rt_mask t) g (p + q)) c"
  shows "find_loop L t r c eq (probe_seq (rt_mask t) g p) p =
         find_loop L t r c eq (probe_seq (rt_mask t) g (p + d)) (p + d)"
  using assms
proof (induction d)
  case (Suc d)
  then have "find_loop L t r c eq (probe_seq (rt_mask t) g p) p =
    find_loop L t r c eq (probe_seq (rt_mask t) g (p + d)) (p + d)" by simp
  also have "\<dots> = find_loop L t r c eq (probe_seq (rt_mask t) g (p + Suc d)) (p + Suc d)"
    using Suc.prems [of d] by (subst find_loop.simps) simp
  finally show ?case .
qed simp

lemma find_loop_forever:
  assumes "\<And>q. group_find L t (probe_seq (rt_mask t) g q) eq
      (match_byte (Grp L) (meta_group L t (probe_seq (rt_mask t) g q)) r) = None"
    and "\<And>q. has_overflow_bit L t (probe_seq (rt_mask t) g q) c"
  shows "find_loop L t r c eq (probe_seq (rt_mask t) g p) p = None"
proof -
  let ?P = "\<lambda>l u r' c' e gi probe (res :: (nat \<times> nat) option).
    \<not> (l = L \<and> u = t \<and> r' = r \<and> c' = c \<and> e = eq \<and> gi = probe_seq (rt_mask t) g probe)"
  have "?P L t r c eq (probe_seq (rt_mask t) g p) p res"
    if "find_loop L t r c eq (probe_seq (rt_mask t) g p) p = Some res" for res
  proof (rule find_loop.raw_induct [where P = ?P, OF _ that])
    fix fl l u r' c' e gi probe res
    assume IH: "\<And>l u r' c' e gi probe res. fl l u r' c' e gi probe = Some res \<Longrightarrow> ?P l u r' c' e gi probe res"
      and body: "(case group_find l u gi e (match_byte (Grp l) (meta_group l u gi) r') of
         None \<Rightarrow> if \<not> has_overflow_bit l u gi c' then Some None
            else fl l u r' c' e (next_group (rt_mask u) gi (probe + 1)) (probe + 1)
       | Some si \<Rightarrow> Some (Some (gi, si))) = Some res"
    show "?P l u r' c' e gi probe res"
      using IH [of L t r c eq "probe_seq (rt_mask t) g (Suc probe)" "Suc probe" res] body assms by auto
  qed
  then show ?thesis by (metis not_None_eq)
qed

lemma probe_group_inj:
  assumes "table_shape L t" "p \<le> rt_mask t" "q \<le> rt_mask t" "probe_group L t h p = probe_group L t h q"
  shows "p = q"
proof -
  have "inj_on (probe_seq (rt_mask t) (group_index L t h)) {..<Suc (rt_mask t)}"
    using probe_seq_inj group_index_le assms(1) by (auto simp: table_shape_def less_Suc_eq_le)
  then show ?thesis using assms by (auto simp: probe_group_def dest: inj_onD)
qed

theorem find_by_hash_present:
  assumes "table_core L hash t" "gi \<le> rt_mask t" "si < GROUP_SIZE L" "slot L t gi si = Some (k, v)"
  shows "find_by_hash L t (hash k) (\<lambda>x. x = k) = Some (Some (gi, si))"
proof -
  let ?h = "hash k" and ?eq = "\<lambda>x. x = k"
  have shape: "table_shape L t" using assms core_shape by blast
  have "si < BUCKET_STRIDE L" using assms(3) layout_simps(4) by linarith
  then obtain p where p: "probe_group L t ?h p = gi" "\<And>q. q < p \<Longrightarrow> overflowed L t ?h (probe_group L t ?h q)"
    "p \<le> rt_mask t" using slot_Some(3) [OF assms(1,2) _ assms(4)] by (auto simp: reaches_def)
  have skip: "group_find L t (probe_group L t ?h q) ?eq (tag_matches t ?h (probe_group L t ?h q)) = None"
    if "q < p" for q
  proof (rule group_find_absent [OF assms(1) probe_group_le [OF shape]])
    fix s k' v' assume s: "s < GROUP_SIZE L" "slot L t (probe_group L t ?h q) s = Some (k', v')"
    have "probe_group L t ?h q \<noteq> gi"
      using probe_group_inj [OF shape, of q p] that p by force
    then show "k' \<noteq> k" using slot_unique [OF assms probe_group_le [OF shape] s(1)] s(2) by blast
  qed
  have "find_by_hash L t ?h ?eq =
    find_loop L t (tag (Tag L) ?h) (overflow_channel (Tag L) ?h) ?eq gi p"
    using find_loop_skip [of p t "group_index L t ?h" 0] skip p
    by (simp add: find_by_hash_def probe_group_def overflowed_def)
  also have "\<dots> = Some (Some (gi, si))"
    by (subst find_loop.simps) (simp add: group_find_present [OF assms])
  finally show ?thesis .
qed

theorem find_by_hash_absent:
  assumes "table_core L hash t" "\<And>k. eq k \<Longrightarrow> table_map t k = None"
  shows "find_by_hash L t h eq = (if \<forall>gi\<le>rt_mask t. overflowed L t h gi then None else Some None)"
proof -
  have shape: "table_shape L t" using assms core_shape by blast
  have skip: "group_find L t (probe_group L t h q) eq (tag_matches t h (probe_group L t h q)) = None" for q
    using group_find_unmapped [OF assms(1) probe_group_le [OF shape] assms(2)] .
  show ?thesis
  proof (cases "\<exists>p. \<not> overflowed L t h (probe_group L t h p)")
    case True
    then obtain p where p: "\<not> overflowed L t h (probe_group L t h p)"
      "\<And>q. q < p \<Longrightarrow> overflowed L t h (probe_group L t h q)"
      using exists_least_iff [of "\<lambda>p. \<not> overflowed L t h (probe_group L t h p)"] by blast
    have "find_by_hash L t h eq = find_loop L t (tag (Tag L) h) (overflow_channel (Tag L) h) eq
        (probe_group L t h p) p"
      using find_loop_skip [of p t "group_index L t h" 0] skip p
      by (simp add: find_by_hash_def probe_group_def overflowed_def)
    also have "\<dots> = Some None"
      using p(1) by (subst find_loop.simps) (simp add: skip overflowed_def)
    finally show ?thesis using p(1) probe_group_le [OF shape] by auto
  next
    case False
    then have all: "\<forall>gi\<le>rt_mask t. overflowed L t h gi"
      using probe_group_reaches [OF shape] by metis
    have "find_by_hash L t h eq = None"
      using find_loop_forever [of t "group_index L t h" eq "tag (Tag L) h" "overflow_channel (Tag L) h" 0]
        skip False by (simp add: find_by_hash_def probe_group_def overflowed_def)
    then show ?thesis using all by simp
  qed
qed

end

section \<open>Marking overflow and filling a slot\<close>

text \<open>The overflow bits an insertion sets on its way: those of the first \<open>d\<close> probed groups.\<close>

primrec mark_path :: "'w::len layout \<Rightarrow> u8 \<Rightarrow> ('k, 'v) raw_table \<Rightarrow> nat \<Rightarrow> nat \<Rightarrow> ('k, 'v) raw_table" where
  "mark_path L c t g 0 = t"
| "mark_path L c t g (Suc d) = set_overflow_bit L (mark_path L c t g d) (probe_seq (rt_mask t) g d) c"

lemma mark_path_simps [simp]:
  "rt_mask (mark_path L c t g d) = rt_mask t" "rt_buckets (mark_path L c t g d) = rt_buckets t"
  "rt_len (mark_path L c t g d) = rt_len t" "rt_max_load (mark_path L c t g d) = rt_max_load t"
  "rt_shift (mark_path L c t g d) = rt_shift t"
  "group_index L' (mark_path L c t g d) h = group_index L' t h"
  "slot L' (mark_path L c t g d) a s = slot L' t a s"
  by (induction d) simp_all

context overflow_layout
begin

lemma overflowed_mono:
  "table_shape L t \<Longrightarrow> gi \<le> rt_mask t \<Longrightarrow> overflowed L t h g \<Longrightarrow> overflowed L (set_overflow_bit L t gi c) h g"
  by (simp add: overflowed_def has_overflow_set_overflow_mono)

lemma probe_group_same [simp]:
  "probe_group L (set_overflow_bit L t gi c) h = probe_group L t h"
  "probe_group L (mark_path L c t g d) h = probe_group L t h"
  "probe_group L (set_meta L t gi si x) h = probe_group L t h"
  by (simp_all add: probe_group_def fun_eq_iff)

lemma reaches_mono:
  assumes "reaches L t h g" "rt_mask u = rt_mask t" "probe_group L u h = probe_group L t h"
    and "\<And>g. g \<le> rt_mask t \<Longrightarrow> overflowed L t h g \<Longrightarrow> overflowed L u h g" "table_shape L t"
  shows "reaches L u h g"
  using assms probe_group_le [OF assms(5)] unfolding reaches_def by metis

lemma core_set_overflow:
  assumes "table_core L hash t" "gi \<le> rt_mask t"
  shows "table_core L hash (set_overflow_bit L t gi c)"
proof -
  have shape: "table_shape L t" using core_shape [OF assms(1)] .
  have "slots_ok L hash (set_overflow_bit L t gi c)"
    unfolding slots_ok_def
  proof (intro allI impI, goal_cases)
    case (1 g s)
    then have "slot_ok L hash t g s" using assms(1) by (simp add: table_core_def slots_ok_def)
    then show ?case
      using 1 slot_tag_set_overflow [OF assms(2), of g s c]
        reaches_mono [OF _ _ _ _ shape, of _ g "set_overflow_bit L t gi c"]
        overflowed_mono [OF shape assms(2)]
      by (auto simp: slot_ok_def split: option.splits)
  qed
  then show ?thesis using assms by (simp add: table_core_def)
qed

lemma mark_path_shape [simp]: "table_shape L (mark_path L c t g d) \<longleftrightarrow> table_shape L t"
  by (induction d) simp_all

lemma mark_path_tag:
  assumes "table_shape L t" "g \<le> rt_mask t" "a \<le> rt_mask t" "s < GROUP_SIZE L"
  shows "slot_tag L (mark_path L c t g d) a s = slot_tag L t a s"
proof (induction d)
  case (Suc d)
  have "probe_seq (rt_mask t) g d \<le> rt_mask t"
    using probe_seq_less [of "rt_mask t" g d] assms by (simp add: table_shape_def less_Suc_eq_le)
  then show ?case using slot_tag_set_overflow [of _ "mark_path L c t g d" a s c] assms Suc by simp
qed simp

lemma mark_path_core:
  assumes "table_core L hash t" "g \<le> rt_mask t"
  shows "table_core L hash (mark_path L c t g d)"
proof (induction d)
  case (Suc d)
  have "probe_seq (rt_mask t) g d \<le> rt_mask t"
    using probe_seq_less [of "rt_mask t" g d] assms core_shape [OF assms(1)]
    by (simp add: table_shape_def less_Suc_eq_le)
  then show ?case using core_set_overflow [OF Suc] by simp
qed (use assms in simp)

lemma mark_path_overflowed:
  assumes "table_shape L t" "q < d"
  shows "overflowed L (mark_path L (overflow_channel (Tag L) h) t (group_index L t h) d) h (probe_group L t h q)"
  using assms(2)
proof (induction d)
  case (Suc d)
  let ?u = "mark_path L (overflow_channel (Tag L) h) t (group_index L t h) d"
  have le: "probe_group L t h d \<le> rt_mask ?u" using probe_group_le [OF assms(1)] by simp
  have eq: "mark_path L (overflow_channel (Tag L) h) t (group_index L t h) (Suc d) =
    set_overflow_bit L ?u (probe_group L t h d) (overflow_channel (Tag L) h)"
    by (simp add: probe_group_def)
  show ?case
  proof (cases "q = d")
    case True
    then show ?thesis
      unfolding eq overflowed_def using has_overflow_set_overflow [OF _ le] assms(1) by simp
  next
    case False
    then show ?thesis unfolding eq using Suc assms(1) le by (intro overflowed_mono) auto
  qed
qed simp

lemma fill_slot_simps [simp]:
  "rt_mask (fill_slot L t h gi si k v) = rt_mask t"
  "rt_max_load (fill_slot L t h gi si k v) = rt_max_load t"
  "rt_len (fill_slot L t h gi si k v) = rt_len t + 1"
  "rt_shift (fill_slot L t h gi si k v) = rt_shift t"
  "rt_buckets (fill_slot L t h gi si k v) = (rt_buckets t)[bucket_index L gi si := Some (k, v)]"
  "group_index L (fill_slot L t h gi si k v) h' = group_index L t h'"
  "probe_group L (fill_slot L t h gi si k v) h' = probe_group L t h'"
  "table_shape L (fill_slot L t h gi si k v) \<longleftrightarrow> table_shape L t"
  by (simp_all add: fill_slot_def Let_def bucket_write_def probe_group_def table_shape_def fun_eq_iff)
     (simp_all add: set_meta_def)

lemma fill_slot_overflowed:
  assumes "gi \<le> rt_mask t" "si < GROUP_SIZE L" "g \<le> rt_mask t"
  shows "overflowed L (fill_slot L t h gi si k v) h' g = overflowed L t h' g"
  using has_overflow_set_meta [OF assms] by (simp add: overflowed_def fill_slot_def Let_def)

lemma fill_slot_tag:
  assumes "table_shape L t" "gi \<le> rt_mask t" "si < GROUP_SIZE L" "s < GROUP_SIZE L"
  shows "slot_tag L (fill_slot L t h gi si k v) g s =
    (if g = gi \<and> s = si then tag (Tag L) h else slot_tag L t g s)"
  using slot_tag_set_meta [OF assms] by (simp add: fill_slot_def Let_def)

lemma slot_update:
  assumes "table_shape L t" "gi \<le> rt_mask t" "si < GROUP_SIZE L" "s < BUCKET_STRIDE L"
    and "rt_buckets u = (rt_buckets t)[bucket_index L gi si := x]"
  shows "slot L u g s = (if g = gi \<and> s = si then x else slot L t g s)"
proof -
  have "si < BUCKET_STRIDE L" using assms(3) layout_simps(4) by linarith
  then show ?thesis
    using bucket_index_eq [OF assms(4), of si g gi] slot_index(2) [OF assms(1-3)] assms(5)
    by (auto simp: slot_def nth_list_update)
qed

lemma fill_slot_correct:
  assumes core: "table_core L hash t" and pos: "gi \<le> rt_mask t" "si < GROUP_SIZE L"
    and "slot_tag L t gi si = EMPTY" "table_map t k = None" "reaches L t (hash k) gi"
  shows "table_core L hash (fill_slot L t (hash k) gi si k v)"
    and "table_map (fill_slot L t (hash k) gi si k v) = (table_map t)(k \<mapsto> v)"
proof -
  let ?u = "fill_slot L t (hash k) gi si k v"
  have shape: "table_shape L t" using core_shape [OF core] .
  have free: "rt_buckets t ! bucket_index L gi si = None"
    using slot_None [OF core pos] assms(4) by (simp add: slot_def)
  note ins = bucket_insert [OF _ slot_index(2) [OF shape pos] free]
  have kd: "keys_distinct (rt_buckets t)" and none: "bucket_map (rt_buckets t) k = None"
    and len: "rt_len t = length (somes (rt_buckets t))"
    using core assms(5) by (simp_all add: table_core_def table_map_def)
  show "table_map ?u = (table_map t)(k \<mapsto> v)" using ins(1) [OF kd none] by (simp add: table_map_def)
  have reach: "reaches L ?u h g" if "reaches L t h g" for h g
    using that by (rule reaches_mono) (use fill_slot_overflowed [OF pos] shape in auto)
  have "slots_ok L hash ?u"
    unfolding slots_ok_def
  proof (intro allI impI, goal_cases)
    case (1 g s)
    then have "slot_ok L hash t g s" using core by (simp add: table_core_def slots_ok_def)
    then show ?case
      using slot_update [OF shape pos 1(2), of ?u "Some (k, v)" g] pos(2) reach [OF assms(6)]
      by (auto simp: slot_ok_def fill_slot_tag [OF shape pos] reach split: option.splits)
  qed
  then show "table_core L hash ?u"
    using ins(2,3) [OF kd none] shape len by (simp add: table_core_def)
qed

section \<open>Insertion without a check\<close>

text \<open>A table with fewer entries than slots has an empty slot.\<close>

lemma somes_grid:
  assumes "table_shape L t"
  shows "length (somes (rt_buckets t)) = card {(gi, si). gi \<le> rt_mask t \<and> si < BUCKET_STRIDE L \<and> slot L t gi si \<noteq> None}"
proof -
  have "bij_betw (\<lambda>(gi, si). bucket_index L gi si)
      {(gi, si). gi \<le> rt_mask t \<and> si < BUCKET_STRIDE L \<and> slot L t gi si \<noteq> None}
      {i. i < length (rt_buckets t) \<and> rt_buckets t ! i \<noteq> None}"
    (is "bij_betw ?f ?A ?B")
  proof (rule bij_betw_imageI)
    show "inj_on ?f ?A" by (auto simp: inj_on_def bucket_index_eq)
    have "?f ` ?A \<subseteq> ?B"
      using assms grid_less [of _ "Suc (rt_mask t)" _ "BUCKET_STRIDE L"]
      by (auto simp: slot_def table_shape_def bucket_index_def less_Suc_eq_le)
    moreover have "i \<in> ?f ` ?A" if i: "i \<in> ?B" for i
    proof -
      obtain gi si where "gi \<le> rt_mask t" "si < BUCKET_STRIDE L" "i = bucket_index L gi si"
        using bucket_index_grid [OF assms] i by blast
      then have "(gi, si) \<in> ?A" "i = ?f (gi, si)" using i by (auto simp: slot_def)
      then show ?thesis by (rule rev_image_eqI)
    qed
    ultimately show "?f ` ?A = ?B" by blast
  qed
  then show ?thesis by (simp add: length_somes_card bij_betw_same_card)
qed

lemma exists_empty:
  assumes core: "table_core L hash t" and "rt_len t < Suc (rt_mask t) * GROUP_SIZE L"
  obtains gi si where "gi \<le> rt_mask t" "si < GROUP_SIZE L" "slot_tag L t gi si = EMPTY"
proof -
  let ?A = "{(gi, si). gi \<le> rt_mask t \<and> si < BUCKET_STRIDE L \<and> slot L t gi si \<noteq> None}"
  have fin: "finite ?A"
    by (rule finite_subset [of _ "{..rt_mask t} \<times> {..<BUCKET_STRIDE L}"]) auto
  have "\<not> {..rt_mask t} \<times> {..<GROUP_SIZE L} \<subseteq> ?A"
  proof
    assume "{..rt_mask t} \<times> {..<GROUP_SIZE L} \<subseteq> ?A"
    from card_mono [OF fin this] show False
      using assms somes_grid [OF core_shape [OF core]]
      by (simp add: card_cartesian_product table_core_def)
  qed
  then obtain gi si where gs: "gi \<le> rt_mask t" "si < GROUP_SIZE L" "(gi, si) \<notin> ?A" by blast
  moreover have "si < BUCKET_STRIDE L" using gs(2) layout_simps(4) by linarith
  ultimately have "slot L t gi si = None" by simp (metis option.exhaust surj_pair)
  then show ?thesis using slot_None [OF core] that gs by blast
qed

lemma insert_loop_skip:
  assumes shape: "table_shape L t"
    and full: "\<And>q. q < d \<Longrightarrow> lowest_set_bit (match_empty (Grp L) (meta_group L t (probe_group L t h q))) = None"
  shows "insert_no_check L t h k v =
    insert_no_check_loop L h k v (mark_path L (overflow_channel (Tag L) h) t (group_index L t h) d)
      (probe_group L t h d) d"
  using full
proof (induction d)
  case 0
  then show ?case by (simp add: insert_no_check_def probe_group_def)
next
  case (Suc d)
  let ?u = "mark_path L (overflow_channel (Tag L) h) t (group_index L t h) d"
  have "lowest_set_bit (match_empty (Grp L) (meta_group L ?u (probe_group L t h d))) = None"
    using Suc.prems [of d] match_group(2) [of ?u] match_group(2) [OF shape] shape
      mark_path_tag [OF shape group_index_le [OF shape]] probe_group_le [OF shape]
    by (simp add: lowest_set_bit_None)
  then show ?case
    using Suc by (simp, subst insert_no_check_loop.simps) (simp add: probe_group_def)
qed

theorem insert_no_check_correct:
  assumes core: "table_core L hash t" and room: "rt_len t < Suc (rt_mask t) * GROUP_SIZE L"
    and new: "table_map t k = None"
  obtains gi si u p where
    "insert_no_check L t (hash k) k v = Some ((gi, si), fill_slot L u (hash k) gi si k v)"
    "u = mark_path L (overflow_channel (Tag L) (hash k)) t (group_index L t (hash k)) p"
    "p \<le> rt_mask t" "gi = probe_group L t (hash k) p" "si < GROUP_SIZE L" "slot_tag L t gi si = EMPTY"
    "\<And>q s. q < p \<Longrightarrow> s < GROUP_SIZE L \<Longrightarrow> slot_tag L t (probe_group L t (hash k) q) s \<noteq> EMPTY"
    "table_core L hash (fill_slot L u (hash k) gi si k v)"
    "table_map (fill_slot L u (hash k) gi si k v) = (table_map t)(k \<mapsto> v)"
proof -
  let ?h = "hash k"
  let ?emp = "\<lambda>p. lowest_set_bit (match_empty (Grp L) (meta_group L t (probe_group L t ?h p)))"
  have shape: "table_shape L t" using core_shape [OF core] .
  obtain g s where gs: "g \<le> rt_mask t" "s < GROUP_SIZE L" "slot_tag L t g s = EMPTY"
    using exists_empty [OF core room] .
  obtain p' where p': "p' \<le> rt_mask t" "probe_group L t ?h p' = g"
    using probe_group_reaches [OF shape gs(1)] .
  have "?emp p' \<noteq> None" using gs p' match_group(2) [OF shape gs(1)] by (auto simp: lowest_set_bit_None)
  then obtain p where p: "?emp p \<noteq> None" "\<And>q. q < p \<Longrightarrow> ?emp q = None" "p \<le> p'"
    using exists_least_iff [of "\<lambda>p. ?emp p \<noteq> None"] by (metis linorder_not_less)
  let ?gi = "probe_group L t ?h p"
  let ?u = "mark_path L (overflow_channel (Tag L) ?h) t (group_index L t ?h) p"
  have gi: "?gi \<le> rt_mask t" by (rule probe_group_le [OF shape])
  have ut: "slot_tag L ?u a s = slot_tag L t a s" if "a \<le> rt_mask t" "s < GROUP_SIZE L" for a s
    using mark_path_tag [OF shape group_index_le [OF shape] that] .
  obtain si where si: "lowest_set_bit (match_empty (Grp L) (meta_group L ?u ?gi)) = Some si"
  proof (cases "lowest_set_bit (match_empty (Grp L) (meta_group L ?u ?gi))")
    case None
    then show ?thesis
      using p(1) match_group(2) [of ?u] match_group(2) [OF shape gi] shape ut gi
      by (auto simp: lowest_set_bit_None)
  qed
  then have "si < GROUP_SIZE L \<and> slot_tag L ?u ?gi si = EMPTY"
    using lowest_set_bit_Some [OF si] match_group(2) [of ?u ?gi] shape gi by simp
  then have empty: "si < GROUP_SIZE L" "slot_tag L t ?gi si = EMPTY" using ut [OF gi] by auto
  have run: "insert_no_check L t ?h k v = Some ((?gi, si), fill_slot L ?u ?h ?gi si k v)"
    using insert_loop_skip [OF shape p(2)] si by (simp, subst insert_no_check_loop.simps) simp
  have "reaches L ?u ?h ?gi"
    using p(3) p'(1) mark_path_overflowed [OF shape] by (auto simp: reaches_def intro!: exI [of _ p])
  moreover have "table_core L hash ?u" by (rule mark_path_core [OF core group_index_le [OF shape]])
  moreover have "table_map ?u = table_map t" by (simp add: table_map_def)
  ultimately have "table_core L hash (fill_slot L ?u ?h ?gi si k v)"
    "table_map (fill_slot L ?u ?h ?gi si k v) = (table_map t)(k \<mapsto> v)"
    using fill_slot_correct [of hash ?u ?gi si k v] gi empty ut new by simp_all
  moreover have "slot_tag L t (probe_group L t ?h q) s \<noteq> EMPTY" if "q < p" "s < GROUP_SIZE L" for q s
    using p(2) [OF that(1)] match_group(2) [OF shape probe_group_le [OF shape]] that(2)
    by (auto simp: lowest_set_bit_None)
  ultimately show ?thesis
    using that [OF run refl le_trans [OF p(3) p'(1)] refl empty] by blast
qed

end

end
