(* ===== verification/Overflow_Ops.thy ===== *)
theory Overflow_Ops
  imports Overflow_Correct
begin

text \<open>
  The public operations of the overflow-bit engine as operations on finite
  maps: replacing, removing, growing, inserting, the entry probe, clearing,
  reserving, shrinking, iterating and cloning.
\<close>

section \<open>Well-formed tables\<close>

text \<open>The unallocated table of \<^verbatim>\<open>new()\<close>, whose metadata is the static sentinel.\<close>

definition unallocated :: "('k, 'v) raw_table \<Rightarrow> bool" where
  "unallocated t \<longleftrightarrow> rt_max_load t = 0 \<and> rt_len t = 0 \<and> rt_mask t = 0 \<and>
     rt_ctrl t = EMPTY_SENTINEL \<and> rt_buckets t = []"

definition full_load :: "'w::len layout \<Rightarrow> nat \<Rightarrow> nat" where
  "full_load L n = max_load_for_capacity (n * GROUP_SIZE L) (LOAD_FACTOR_NUM L) (LOAD_FACTOR_DEN L)"

definition table_wf :: "'w::len layout \<Rightarrow> ('k \<Rightarrow> u64) \<Rightarrow> ('k, 'v) raw_table \<Rightarrow> bool" where
  "table_wf L hash t \<longleftrightarrow> unallocated t \<or>
     table_core L hash t \<and> rt_len t \<le> rt_max_load t \<and> rt_max_load t \<le> full_load L (Suc (rt_mask t))"

text \<open>
  The sentinel is 64 bytes; the overflow byte of its only group must lie in it.
  It does for every layout but those with 64 slots and separate overflow bytes.
\<close>

definition sentinel_ok :: "'w::len layout \<Rightarrow> bool" where
  "sentinel_ok L \<longleftrightarrow> overflow_ptr (Overflow L) 0 0 (META_STRIDE L) < 64"

text \<open>A lookup of an absent key ends when some group lacks the overflow bit of its channel.\<close>

definition lookup_stops :: "'w::len layout \<Rightarrow> ('k, 'v) raw_table \<Rightarrow> u64 \<Rightarrow> bool" where
  "lookup_stops L t h \<longleftrightarrow> (\<exists>gi\<in>{..rt_mask t}. \<not> overflowed L t h gi)"

definition at_slot :: "'w::len layout \<Rightarrow> ('k, 'v) raw_table \<Rightarrow> nat \<Rightarrow> nat \<Rightarrow> 'k \<Rightarrow> 'v \<Rightarrow> bool" where
  "at_slot L t gi si k v \<longleftrightarrow> gi \<le> rt_mask t \<and> si < GROUP_SIZE L \<and> slot L t gi si = Some (k, v)"

context overflow_layout
begin

lemma full_load_less: "0 < n \<Longrightarrow> full_load L n < n * GROUP_SIZE L"
proof -
  assume "0 < n"
  then have "n * GROUP_SIZE L * LOAD_FACTOR_NUM L < n * GROUP_SIZE L * LOAD_FACTOR_DEN L" by simp
  then show ?thesis
    unfolding full_load_def max_load_for_capacity_def by (rule less_mult_imp_div_less)
qed

lemma full_load_pos: "0 < n \<Longrightarrow> 0 < full_load L n"
proof -
  assume "0 < n"
  have "LOAD_FACTOR_DEN L \<le> GROUP_SIZE L * LOAD_FACTOR_NUM L"
    using valid by (simp add: valid_layout_def)
  also have "\<dots> \<le> n * GROUP_SIZE L * LOAD_FACTOR_NUM L" using \<open>0 < n\<close> by simp
  finally show ?thesis
    using less_trans [OF layout_simps(5,6)]
    by (simp add: full_load_def max_load_for_capacity_def div_greater_zero_iff)
qed

lemma full_load_mono: "m \<le> n \<Longrightarrow> full_load L m \<le> full_load L n"
  unfolding full_load_def max_load_for_capacity_def by (intro div_le_mono mult_le_mono1)

lemma allocate_simps [simp]:
  "rt_mask (allocate L t n) = n - 1" "rt_len (allocate L t n) = rt_len t"
  "rt_max_load (allocate L t n) = full_load L n"
  "rt_buckets (allocate L t n) = replicate (n * BUCKET_STRIDE L) None"
  "table_map (allocate L t n) = Map.empty"
  by (simp_all add: allocate_def full_load_def table_map_def)

lemma allocate_shape: "groups_ok n \<Longrightarrow> table_shape L (allocate L t n)"
  using groups_ok_pos [of n] by (simp add: table_shape_def allocate_def)

lemma zero_ctrl:
  assumes "table_shape L t" "rt_ctrl t = replicate m 0" "gi \<le> rt_mask t"
  shows "\<not> has_overflow_bit L t gi c" "si < GROUP_SIZE L \<Longrightarrow> slot_tag L t gi si = EMPTY"
  using overflow_index [OF assms(1,3)] slot_index(1) [OF assms(1,3)] assms(2)
  by (simp_all add: has_overflow_bit_def slot_tag_def EMPTY_def)

lemma empty_core:
  assumes "table_shape L t" "rt_ctrl t = replicate m 0" "rt_buckets t = replicate b None" "rt_len t = 0"
  shows "table_core L hash t"
proof -
  have "slot L t gi si = None" if "gi \<le> rt_mask t" "si < BUCKET_STRIDE L" for gi si
    using grid_less [of gi "Suc (rt_mask t)" si "BUCKET_STRIDE L"] that assms(1,3)
    by (simp add: slot_def table_shape_def bucket_index_def)
  then have "slots_ok L hash t"
    using zero_ctrl(2) [OF assms(1,2)] by (auto simp: slots_ok_def slot_ok_def)
  then show ?thesis using assms by (simp add: table_core_def)
qed

lemma allocate_core: "groups_ok n \<Longrightarrow> rt_len t = 0 \<Longrightarrow> table_core L hash (allocate L t n)"
  by (rule empty_core [OF allocate_shape]) (simp_all add: allocate_def)

lemma allocate_wf: "groups_ok n \<Longrightarrow> rt_len t = 0 \<Longrightarrow> table_wf L hash (allocate L t n)"
  using allocate_core [of n t hash] groups_ok_pos [of n] by (simp add: table_wf_def)

lemma raw_new_simps [simp]:
  "rt_len raw_new = 0" "rt_mask raw_new = 0" "rt_max_load raw_new = 0" "rt_buckets raw_new = []"
  by (simp_all add: raw_new_def)

lemma raw_new_wf [simp]: "unallocated raw_new" "table_wf L hash raw_new" "table_map raw_new = Map.empty"
  by (simp_all add: unallocated_def raw_new_def table_wf_def table_map_def)

lemma unallocated_map: "unallocated t \<Longrightarrow> table_map t = Map.empty"
  by (simp add: unallocated_def table_map_def)

lemma wf_cases:
  assumes "table_wf L hash t"
  obtains (Unallocated) "unallocated t"
  | (Allocated) "table_core L hash t" "rt_len t \<le> rt_max_load t" "rt_max_load t \<le> full_load L (Suc (rt_mask t))"
  using assms by (auto simp: table_wf_def)

text \<open>\<^verbatim>\<open>len\<close> is the size of the map.\<close>

lemma len_card:
  assumes "table_wf L hash t"
  shows "rt_len t = card (dom (table_map t))"
  using assms
  by (cases rule: wf_cases)
    (auto simp: unallocated_def table_core_def table_map_def card_dom_bucket_map)

lemma wf_no_load: "table_wf L hash t \<Longrightarrow> rt_max_load t = 0 \<Longrightarrow> rt_len t = 0 \<and> table_map t = Map.empty"
  by (cases rule: wf_cases, assumption)
    (auto simp: unallocated_def table_core_def table_map_def bucket_map_def)

section \<open>Lookup in a well-formed table\<close>

lemma find_unallocated:
  assumes "sentinel_ok L" "unallocated t"
  shows "find_by_hash L t h eq = Some None" "lookup_stops L t h"
proof -
  have ctrl: "rt_ctrl t = replicate 64 0" "rt_mask t = 0"
    using assms(2) by (simp_all add: unallocated_def EMPTY_SENTINEL_def)
  then have gi: "group_index L t h = 0" by (simp add: group_index_def split: hash_region.split)
  have no: "\<not> has_overflow_bit L t 0 c" for c
    using assms(1) ctrl by (simp add: has_overflow_bit_def sentinel_ok_def)
  then show "lookup_stops L t h" using ctrl by (simp add: lookup_stops_def overflowed_def)
  have "\<not> bit (match_byte (Grp L) (meta_group L t 0) (tag (Tag L) h)) i" for i
    using tag_nonzero [of h] by (auto simp: table_simps meta_group_def ctrl EMPTY_def simp del: tag_nonzero)
  then show "find_by_hash L t h eq = Some None"
    unfolding find_by_hash_def gi using no
    by (subst find_loop.simps) (simp add: group_find_def mask_find_None [THEN iffD2])
qed

lemma find_present:
  assumes "table_wf L hash t" "table_map t k = Some v"
  obtains gi si where "find_by_hash L t (hash k) (\<lambda>x. x = k) = Some (Some (gi, si))"
    "table_core L hash t" "at_slot L t gi si k v"
  using assms(1)
proof (cases rule: wf_cases)
  case Unallocated
  then show ?thesis using assms(2) by (simp add: unallocated_map)
next
  case Allocated
  obtain gi si where "gi \<le> rt_mask t" "si < GROUP_SIZE L" "slot L t gi si = Some (k, v)"
    using table_map_Some [OF Allocated(1)] assms(2) by blast
  then show ?thesis
    using that find_by_hash_present [OF Allocated(1)] Allocated(1) by (simp add: at_slot_def)
qed

lemma find_absent:
  assumes "table_wf L hash t" "sentinel_ok L" "\<And>k. eq k \<Longrightarrow> table_map t k = None"
  shows "find_by_hash L t h eq = (if lookup_stops L t h then Some None else None)"
  using assms(1)
proof (cases rule: wf_cases)
  case Unallocated
  then show ?thesis using find_unallocated [OF assms(2) Unallocated] by simp
next
  case Allocated
  then show ?thesis using find_by_hash_absent [OF Allocated(1) assms(3)] by (auto simp: lookup_stops_def)
qed

section \<open>Replacing and removing\<close>

lemma replace_value_correct:
  assumes core: "table_core L hash t" and "at_slot L t gi si k v"
  shows "fst (replace_value L t gi si w) = Some v"
    and "table_core L hash (snd (replace_value L t gi si w))"
    and "table_map (snd (replace_value L t gi si w)) = (table_map t)(k \<mapsto> w)"
    and "rt_max_load (snd (replace_value L t gi si w)) = rt_max_load t"
      "rt_len (snd (replace_value L t gi si w)) = rt_len t"
      "rt_mask (snd (replace_value L t gi si w)) = rt_mask t"
      "rt_ctrl (snd (replace_value L t gi si w)) = rt_ctrl t"
      "rt_shift (snd (replace_value L t gi si w)) = rt_shift t"
      "rt_buckets (snd (replace_value L t gi si w)) = (rt_buckets t)[bucket_index L gi si := Some (k, w)]"
proof -
  let ?u = "snd (replace_value L t gi si w)"
  have pos: "gi \<le> rt_mask t" "si < GROUP_SIZE L" and sl: "slot L t gi si = Some (k, v)"
    using assms(2) by (simp_all add: at_slot_def)
  have u: "?u = t\<lparr>rt_buckets := (rt_buckets t)[bucket_index L gi si := Some (k, w)]\<rparr>"
    using key_at_slot(1) [OF sl] by (simp add: replace_value_def value_write_def bucket_write_def)
  show "fst (replace_value L t gi si w) = Some v"
    using key_at_slot(2) [OF sl] by (simp add: replace_value_def)
  show "rt_max_load ?u = rt_max_load t" "rt_len ?u = rt_len t" "rt_mask ?u = rt_mask t"
    "rt_ctrl ?u = rt_ctrl t" "rt_shift ?u = rt_shift t"
    "rt_buckets ?u = (rt_buckets t)[bucket_index L gi si := Some (k, w)]"
    by (simp_all add: u)
  have shape: "table_shape L t" using core_shape [OF core] .
  note rep = bucket_replace [OF _ slot_index(2) [OF shape pos] sl [unfolded slot_def]]
  have kd: "keys_distinct (rt_buckets t)" using core by (simp add: table_core_def)
  show "table_map ?u = (table_map t)(k \<mapsto> w)" using rep(1) [OF kd] by (simp add: u table_map_def)
  have reach: "reaches L ?u = reaches L t"
    by (simp add: u reaches_def probe_group_def overflowed_def fun_eq_iff)
  have "slot_ok L hash ?u g s" if gs: "g \<le> rt_mask t" "s < BUCKET_STRIDE L" for g s
  proof -
    have "slot_ok L hash t g s" using core gs by (simp add: table_core_def slots_ok_def)
    moreover have "slot_tag L ?u g s = slot_tag L t g s" by (simp add: u)
    moreover have "slot L ?u g s = (if g = gi \<and> s = si then Some (k, w) else slot L t g s)"
      by (rule slot_update [OF shape pos gs(2)]) (simp add: u)
    ultimately show ?thesis using sl by (auto simp: slot_ok_def reach split: option.splits)
  qed
  then have "slots_ok L hash ?u" by (simp add: slots_ok_def u)
  then show "table_core L hash ?u"
    using core rep(2,3) [OF kd] by (simp add: table_core_def u table_shape_def)
qed

lemma erase_slot_correct:
  fixes h
  assumes core: "table_core L hash t" and "at_slot L t gi si k v"
  defines "u \<equiv> erase_slot L (bucket_moved_out L t gi si) h gi si"
  shows "table_core L hash u" "table_map u = (table_map t)(k := None)"
    and "Suc (rt_len u) = rt_len t" "rt_mask u = rt_mask t"
    and "rt_max_load u = (if overflowed L t h (group_index L t h) then rt_max_load t - 1 else rt_max_load t)"
    and "\<And>h' g. g \<le> rt_mask t \<Longrightarrow> overflowed L u h' g = overflowed L t h' g"
    and "\<And>g s. s < GROUP_SIZE L \<Longrightarrow> slot_tag L u g s = (if g = gi \<and> s = si then EMPTY else slot_tag L t g s)"
    and "rt_buckets u = (rt_buckets t)[bucket_index L gi si := None]" "probe_group L u = probe_group L t"
proof -
  have pos: "gi \<le> rt_mask t" "si < GROUP_SIZE L" and sl: "slot L t gi si = Some (k, v)"
    using assms(2) by (simp_all add: at_slot_def)
  have shape: "table_shape L t" using core_shape [OF core] .
  have shape': "table_shape L (bucket_moved_out L t gi si)"
    using shape by (simp add: table_shape_def bucket_moved_out_def)
  have ov: "has_overflow_bit L (set_meta L (bucket_moved_out L t gi si) gi si EMPTY) g c = has_overflow_bit L t g c"
    if "g \<le> rt_mask t" for g c
    using has_overflow_set_meta [of gi "bucket_moved_out L t gi si" si g] pos that by simp
  show bu: "rt_buckets u = (rt_buckets t)[bucket_index L gi si := None]"
    and mask: "rt_mask u = rt_mask t"
    and ml: "rt_max_load u = (if overflowed L t h (group_index L t h) then rt_max_load t - 1 else rt_max_load t)"
    and pg: "probe_group L u = probe_group L t"
    using ov [OF group_index_le [OF shape]]
    by (simp_all add: u_def erase_slot_def Let_def overflowed_def bucket_moved_out_def probe_group_def fun_eq_iff)
  have len': "rt_len u = rt_len t - 1" by (simp add: u_def erase_slot_def Let_def)
  show ovu: "overflowed L u h' g = overflowed L t h' g" if "g \<le> rt_mask t" for h' g
    using ov [OF that] by (simp add: overflowed_def u_def erase_slot_def Let_def)
  show tags: "slot_tag L u g s = (if g = gi \<and> s = si then EMPTY else slot_tag L t g s)"
    if "s < GROUP_SIZE L" for g s
    using slot_tag_set_meta [OF shape' _ pos(2) that, of gi EMPTY g] pos(1)
    by (auto simp: u_def erase_slot_def Let_def)
  have shape_u: "table_shape L u"
    using shape by (simp add: table_shape_def u_def erase_slot_def Let_def bucket_moved_out_def)
      (simp add: set_meta_def)
  note rem = bucket_remove [OF _ slot_index(2) [OF shape pos] sl [unfolded slot_def]]
  have kd: "keys_distinct (rt_buckets t)" and len: "rt_len t = length (somes (rt_buckets t))"
    using core by (simp_all add: table_core_def)
  show "table_map u = (table_map t)(k := None)" using rem(1) [OF kd] by (simp add: bu table_map_def)
  show "Suc (rt_len u) = rt_len t" using rem(3) [OF kd] len len' by simp
  have reach: "reaches L u h' g" if "reaches L t h' g" for h' g
    using that by (rule reaches_mono) (use ovu shape mask pg in auto)
  have "slot_ok L hash u g s" if gs: "g \<le> rt_mask t" "s < BUCKET_STRIDE L" for g s
  proof -
    have "slot_ok L hash t g s" using core gs by (simp add: table_core_def slots_ok_def)
    moreover have "slot L u g s = (if g = gi \<and> s = si then None else slot L t g s)"
      by (rule slot_update [OF shape pos gs(2) bu])
    ultimately show ?thesis using tags reach by (auto simp: slot_ok_def split: option.splits)
  qed
  then have "slots_ok L hash u" by (simp add: slots_ok_def mask)
  then show "table_core L hash u"
    using shape_u rem(2,3) [OF kd] len len' by (simp add: table_core_def bu)
qed

theorem remove_present:
  assumes wf: "table_wf L hash t" and "table_map t k = Some v"
  obtains u where "remove_by_hash L t (hash k) (\<lambda>x. x = k) = Some (Some (k, v), u)"
    "table_wf L hash u" "table_map u = (table_map t)(k := None)" "rt_mask u = rt_mask t"
proof -
  obtain gi si where f: "find_by_hash L t (hash k) (\<lambda>x. x = k) = Some (Some (gi, si))"
    and core: "table_core L hash t" and at: "at_slot L t gi si k v"
    using find_present [OF assms] .
  let ?u = "erase_slot L (bucket_moved_out L t gi si) (hash k) gi si"
  note er = erase_slot_correct [OF core at, where h = "hash k"]
  have sl: "slot L t gi si = Some (k, v)" using at by (simp add: at_slot_def)
  have "rt_len t \<le> rt_max_load t" "rt_max_load t \<le> full_load L (Suc (rt_mask t))"
    using wf er(3) by (auto simp: table_wf_def unallocated_def)
  then have "table_wf L hash ?u" using er(1,3,4,5) by (auto simp: table_wf_def)
  moreover have "remove_by_hash L t (hash k) (\<lambda>x. x = k) = Some (Some (k, v), ?u)"
    using f key_at_slot [OF sl] by (simp add: remove_by_hash_def)
  ultimately show ?thesis using that er(2,4) by blast
qed

theorem remove_absent:
  assumes "table_wf L hash t" "sentinel_ok L" "\<And>k. eq k \<Longrightarrow> table_map t k = None" "lookup_stops L t h"
  shows "remove_by_hash L t h eq = Some (None, t)"
  using find_absent [OF assms(1-3)] assms(4) by (simp add: remove_by_hash_def)

end

section \<open>Walking the occupied slots\<close>

text \<open>The positions the loops over all groups visit.\<close>

definition occupied_slots :: "'w::len layout \<Rightarrow> ('k, 'v) raw_table \<Rightarrow> (nat \<times> nat) list" where
  "occupied_slots L t =
    concat (map (\<lambda>gi. map (Pair gi) (mask_collect (match_non_empty (Grp L) (meta_group L t gi))))
      [0..<Suc (rt_mask t)])"

definition entry_at :: "'w::len layout \<Rightarrow> ('k, 'v) raw_table \<Rightarrow> nat \<times> nat \<Rightarrow> 'k \<times> 'v" where
  "entry_at L t p = (key_at L t (fst p) (snd p), value_at L t (fst p) (snd p))"

context overflow_layout
begin

lemma occupied_iff:
  assumes "table_core L hash t" "gi \<le> rt_mask t"
  shows "si < GROUP_SIZE L \<and> slot_tag L t gi si \<noteq> EMPTY \<longleftrightarrow> si < BUCKET_STRIDE L \<and> slot L t gi si \<noteq> None"
    and "si < GROUP_SIZE L \<and> slot L t gi si \<noteq> None \<longleftrightarrow> si < BUCKET_STRIDE L \<and> slot L t gi si \<noteq> None"
proof -
  have "si < GROUP_SIZE L \<Longrightarrow> si < BUCKET_STRIDE L" using layout_simps(4) by linarith
  moreover have "si < BUCKET_STRIDE L \<Longrightarrow> slot L t gi si \<noteq> None \<Longrightarrow> si < GROUP_SIZE L"
    using slot_Some(1) [OF assms] by (metis not_None_eq prod.exhaust)
  ultimately show "si < GROUP_SIZE L \<and> slot_tag L t gi si \<noteq> EMPTY \<longleftrightarrow> si < BUCKET_STRIDE L \<and> slot L t gi si \<noteq> None"
    "si < GROUP_SIZE L \<and> slot L t gi si \<noteq> None \<longleftrightarrow> si < BUCKET_STRIDE L \<and> slot L t gi si \<noteq> None"
    using slot_None [OF assms, of si] by metis+
qed

lemma group_slots:
  assumes "table_core L hash t" "gi \<le> rt_mask t"
  shows "mask_collect (match_non_empty (Grp L) (meta_group L t gi)) =
    filter (\<lambda>si. slot L t gi si \<noteq> None) [0..<BUCKET_STRIDE L]" (is "?l = ?r")
proof (rule sorted_distinct_set_unique)
  show "set ?l = set ?r"
    using match_group(3) [OF core_shape [OF assms(1)] assms(2)] occupied_iff(1) [OF assms]
    by (simp add: mask_collect_eq conj_commute)
  show "sorted ?r" by (rule sorted_wrt_filter) simp
qed (simp_all add: mask_collect_eq)

lemma occupied_slots_eq:
  assumes "table_core L hash t"
  shows "occupied_slots L t = concat (map (\<lambda>gi. map (Pair gi)
    (filter (\<lambda>si. slot L t gi si \<noteq> None) [0..<BUCKET_STRIDE L])) [0..<Suc (rt_mask t)])"
  unfolding occupied_slots_def using group_slots [OF assms]
  by (intro arg_cong [where f = concat] map_cong) auto

lemma set_occupied_slots:
  assumes "table_core L hash t"
  shows "set (occupied_slots L t) = {(gi, si). gi \<le> rt_mask t \<and> si < GROUP_SIZE L \<and> slot L t gi si \<noteq> None}"
proof -
  have "set (occupied_slots L t) = {(gi, si). gi \<le> rt_mask t \<and> si < BUCKET_STRIDE L \<and> slot L t gi si \<noteq> None}"
    by (auto simp: occupied_slots_eq [OF assms] less_Suc_eq_le image_iff simp del: upt_Suc)
  then show ?thesis by (simp only: occupied_iff(2) [OF assms] cong: conj_cong)
qed

lemma distinct_occupied_slots:
  assumes "table_core L hash t"
  shows "distinct (occupied_slots L t)"
  unfolding occupied_slots_eq [OF assms]
  by (rule distinct_concat_pairs) auto

text \<open>The entries in visiting order are the content of the bucket array in index order.\<close>

lemma occupied_entries:
  assumes "table_core L hash t"
  shows "map (entry_at L t) (occupied_slots L t) = somes (rt_buckets t)"
proof -
  let ?n = "Suc (rt_mask t)" and ?b = "BUCKET_STRIDE L"
  have "rt_buckets t = map ((!) (rt_buckets t)) [0..<?n * ?b]"
    using core_shape [OF assms] map_nth [of "rt_buckets t"] by (simp add: table_shape_def)
  also have "\<dots> = concat (map (\<lambda>gi. map (slot L t gi) [0..<?b]) [0..<?n])"
    unfolding upt_grid slot_def bucket_index_def map_concat map_map comp_def ..
  finally have "somes (rt_buckets t) = concat (map (\<lambda>gi. somes (map (slot L t gi) [0..<?b])) [0..<?n])"
    by (simp add: somes_def filter_concat map_concat comp_def)
  moreover have "somes (map (slot L t gi) [0..<?b]) =
      map (\<lambda>si. entry_at L t (gi, si)) (filter (\<lambda>si. slot L t gi si \<noteq> None) [0..<?b])" for gi
    by (simp add: somes_def filter_map comp_def entry_at_def key_at_def value_at_def slot_def)
  ultimately show ?thesis by (simp add: occupied_slots_eq [OF assms] map_concat comp_def del: upt_Suc)
qed

section \<open>Rehashing\<close>

lemma insert_all:
  assumes "table_core L hash s" "distinct (map fst xs)" "\<And>k. k \<in> fst ` set xs \<Longrightarrow> table_map s k = None"
    and "rt_len s + length xs \<le> Suc (rt_mask s) * GROUP_SIZE L"
  shows "\<exists>u. foldM (\<lambda>(k, v) s. map_option snd (insert_no_check L s (hash k) k v)) xs s = Some u \<and>
    table_core L hash u \<and> table_map u = table_map s ++ map_of xs \<and>
    rt_mask u = rt_mask s \<and> rt_max_load u = rt_max_load s"
  using assms
proof (induction xs arbitrary: s)
  case (Cons x xs)
  obtain k v where x: "x = (k, v)" by fastforce
  have room: "rt_len s < Suc (rt_mask s) * GROUP_SIZE L" and new: "table_map s k = None"
    using Cons.prems x by auto
  obtain gi si u p where ins:
    "insert_no_check L s (hash k) k v = Some ((gi, si), fill_slot L u (hash k) gi si k v)"
    "u = mark_path L (overflow_channel (Tag L) (hash k)) s (group_index L s (hash k)) p"
    "table_core L hash (fill_slot L u (hash k) gi si k v)"
    "table_map (fill_slot L u (hash k) gi si k v) = (table_map s)(k \<mapsto> v)"
    by (rule insert_no_check_correct [OF Cons.prems(1) room new])
  let ?s = "fill_slot L u (hash k) gi si k v"
  have s': "rt_mask ?s = rt_mask s" "rt_len ?s = Suc (rt_len s)" "rt_max_load ?s = rt_max_load s"
    using ins(2) by simp_all
  have "\<exists>w. foldM (\<lambda>(k, v) s. map_option snd (insert_no_check L s (hash k) k v)) xs ?s = Some w \<and>
    table_core L hash w \<and> table_map w = table_map ?s ++ map_of xs \<and>
    rt_mask w = rt_mask ?s \<and> rt_max_load w = rt_max_load ?s"
    using Cons.prems s' ins(3,4) by (intro Cons.IH) (auto simp: x)
  moreover have "table_map ?s ++ map_of xs = table_map s ++ map_of (x # xs)"
  proof -
    have "k \<notin> dom (map_of xs)" using Cons.prems(2) by (simp add: x dom_map_of_conv_image_fst)
    then show ?thesis by (simp add: ins(4) x map_add_upd_left)
  qed
  ultimately show ?case using ins(1) s' by (simp add: x del: map_of.simps map_add_upd)
qed simp

theorem rehash_with_correct:
  assumes wf: "table_wf L hash t" and n: "groups_ok n" "rt_len t \<le> full_load L n"
  obtains u where "rehash_with L hash t n = Some u" "table_wf L hash u" "table_map u = table_map t"
    "rt_mask u = n - 1" "rt_max_load u = full_load L n" "rt_len u = rt_len t" "table_core L hash u"
proof -
  let ?r = "t\<lparr>rt_ctrl := EMPTY_SENTINEL, rt_buckets := [], rt_mask := 0, rt_len := 0, rt_max_load := 0\<rparr>"
  let ?t0 = "allocate L ?r n"
  have core0: "table_core L hash ?t0" using n(1) by (rule allocate_core) simp
  obtain u where u: "rehash_with L hash t n = Some u" "table_core L hash u" "table_map u = table_map t"
    "rt_mask u = n - 1" "rt_max_load u = full_load L n"
  proof (cases "rt_max_load t = 0")
    case True
    then show ?thesis
      using that core0 wf_no_load [OF wf True] by (simp add: rehash_with_def Let_def)
  next
    case False
    then have core: "table_core L hash t" using wf by (auto simp: table_wf_def unallocated_def)
    let ?f = "\<lambda>(k, v) s. map_option snd (insert_no_check L s (hash k) k v)"
    have len: "rt_len t = length (somes (rt_buckets t))" and kd: "keys_distinct (rt_buckets t)"
      using core by (simp_all add: table_core_def)
    have run: "rehash_with L hash t n = foldM ?f (somes (rt_buckets t)) ?t0"
      using False
      by (simp add: rehash_with_def Let_def foldM_map occupied_slots_def entry_at_def
          del: upt_Suc flip: occupied_entries [OF core] foldM_concat)
    have "full_load L n \<le> n * GROUP_SIZE L" using full_load_less [of n] n(1) by simp
    then have "length (somes (rt_buckets t)) \<le> Suc (n - 1) * GROUP_SIZE L"
      using n len groups_ok_pos [OF n(1)] by simp
    then obtain u where "foldM ?f (somes (rt_buckets t)) ?t0 = Some u" "table_core L hash u"
      "table_map u = map_of (somes (rt_buckets t))" "rt_mask u = n - 1" "rt_max_load u = full_load L n"
      using insert_all [OF core0, of "somes (rt_buckets t)"] kd by (auto simp: keys_distinct_def)
    then show ?thesis using that run by (simp add: table_map_def bucket_map_def)
  qed
  have "rt_len u = rt_len t"
    using len_card [OF wf] u(2,3) card_dom_bucket_map [of "rt_buckets u"]
    by (simp add: table_core_def table_map_def)
  moreover from this have "table_wf L hash u" using u n groups_ok_pos [OF n(1)] by (simp add: table_wf_def)
  ultimately show ?thesis using that u by blast
qed

end

end
