(* ===== verification/Overflow_Insert.thy ===== *)
theory Overflow_Insert
  imports Overflow_Ops
begin

text \<open>
  Insertion into the overflow-bit engine: \<^verbatim>\<open>insert_or_replace\<close> with its cold
  paths and growth, and the entry path \<^verbatim>\<open>find_for_entry\<close> followed by
  \<^verbatim>\<open>insert_at\<close> or \<^verbatim>\<open>ensure_capacity\<close> and \<^verbatim>\<open>insert_no_check\<close>.
\<close>

text \<open>
  The table may double its group count. The bound is the largest number of groups whose slot counts,
  load limits and doubling the \<^verbatim>\<open>usize\<close> arithmetic of the code computes exactly for every layout; the metadata
  of so many groups would take \<open>2 ^ 58\<close> bytes or more, beyond the address space of the targets.
\<close>

definition can_grow :: "('k, 'v) raw_table \<Rightarrow> bool" where
  "can_grow t \<longleftrightarrow> Suc (rt_mask t) < 2 ^ 54"

context overflow_layout
begin

lemma full_load_double: "2 * full_load L n \<le> full_load L (n * 2)"
proof -
  let ?x = "n * GROUP_SIZE L * LOAD_FACTOR_NUM L" and ?d = "LOAD_FACTOR_DEN L"
  have "?x div ?d * 2 * ?d \<le> ?x * 2"
    using div_times_less_eq_dividend [of ?x ?d] by (simp add: mult.commute mult.left_commute)
  then have "?x div ?d * 2 \<le> ?x * 2 div ?d"
    using less_trans [OF layout_simps(5,6)] by (simp add: less_eq_div_iff_mult_less_eq)
  then show ?thesis by (simp add: full_load_def max_load_for_capacity_def mult.commute mult.left_commute)
qed

lemma full_load_grow: "0 < n \<Longrightarrow> full_load L n < full_load L (n * 2)"
  using full_load_double [of n] full_load_pos [of n] by simp

lemma insert_no_check_wf:
  assumes core: "table_core L hash t" and room: "rt_len t < rt_max_load t" "rt_max_load t \<le> full_load L (Suc (rt_mask t))"
    and new: "table_map t k = None"
  obtains gi si u where "insert_no_check L t (hash k) k v = Some ((gi, si), u)"
    "table_wf L hash u" "table_map u = (table_map t)(k \<mapsto> v)" "at_slot L u gi si k v"
    "rt_mask u = rt_mask t" "rt_max_load u = rt_max_load t"
proof -
  have "rt_len t < Suc (rt_mask t) * GROUP_SIZE L"
    using room full_load_less [of "Suc (rt_mask t)"] by linarith
  then obtain gi si w p where ins:
    "insert_no_check L t (hash k) k v = Some ((gi, si), fill_slot L w (hash k) gi si k v)"
    "w = mark_path L (overflow_channel (Tag L) (hash k)) t (group_index L t (hash k)) p"
    "gi = probe_group L t (hash k) p" "si < GROUP_SIZE L"
    "table_core L hash (fill_slot L w (hash k) gi si k v)"
    "table_map (fill_slot L w (hash k) gi si k v) = (table_map t)(k \<mapsto> v)"
    using insert_no_check_correct [OF core _ new] by metis
  let ?u = "fill_slot L w (hash k) gi si k v"
  have gi: "gi \<le> rt_mask t" using probe_group_le [OF core_shape [OF core]] ins(3) by simp
  have "si < BUCKET_STRIDE L" using ins(4) layout_simps(4) by linarith
  then have "slot L ?u gi si = Some (k, v)"
    using slot_update [of w gi si si ?u "Some (k, v)" gi] core_shape [OF core] gi ins(2,4) by simp
  then have "at_slot L ?u gi si k v" using gi ins(2,4) by (simp add: at_slot_def)
  moreover have "table_wf L hash ?u" using ins(2,5) room by (simp add: table_wf_def)
  moreover have "rt_mask ?u = rt_mask t" "rt_max_load ?u = rt_max_load t" using ins(2) by simp_all
  ultimately show ?thesis using that ins(1,6) by blast
qed

lemma grow_correct:
  assumes wf: "table_wf L hash t" and "can_grow t"
  obtains u where "grow_and_rehash L hash t = Some u" "table_wf L hash u" "table_map u = table_map t"
    "table_core L hash u" "rt_len u < rt_max_load u" "rt_max_load u \<le> full_load L (Suc (rt_mask u))"
    "rt_len u = rt_len t"
proof -
  let ?n = "if rt_max_load t = 0 then 1 else (rt_mask t + 1) * 2"
  have n: "groups_ok ?n \<and> rt_len t < full_load L ?n"
  proof (cases "rt_max_load t = 0")
    case True
    then show ?thesis using wf_no_load [OF wf] full_load_pos [of 1] by simp
  next
    case False
    then have t: "table_shape L t" "rt_len t \<le> full_load L (Suc (rt_mask t))"
      using wf by (auto simp: table_wf_def unallocated_def dest: core_shape)
    then have "groups_ok (Suc (rt_mask t) * 2)"
      using assms(2) groups_ok_double [of "Suc (rt_mask t)"] by (simp add: table_shape_def can_grow_def)
    then show ?thesis using False t full_load_grow [of "Suc (rt_mask t)"] by simp
  qed
  then have ok: "groups_ok ?n" and le: "rt_len t \<le> full_load L ?n" by simp_all
  obtain u where "rehash_with L hash t ?n = Some u" "table_wf L hash u" "table_map u = table_map t"
    "rt_mask u = ?n - 1" "rt_max_load u = full_load L ?n" "rt_len u = rt_len t" "table_core L hash u"
    by (rule rehash_with_correct [OF wf ok le])
  then show ?thesis using that n by (simp add: grow_and_rehash_def split: if_splits)
qed

text \<open>The end of both cold paths: grow when full, then insert.\<close>

lemma grow_then_insert:
  assumes wf: "table_wf L hash t" and "can_grow t" and core: "table_core L hash t" and new: "table_map t k = None"
    and s: "s = grow_and_rehash L hash t \<or> rt_len t < rt_max_load t \<and> s = Some t"
  shows "\<exists>u. (case s of None \<Rightarrow> None
      | Some t' \<Rightarrow> map_option (\<lambda>(_, t''). (None, t'')) (insert_no_check L t' (hash k) k v)) = Some (None, u) \<and>
    table_wf L hash u \<and> table_map u = (table_map t)(k \<mapsto> v)"
proof -
  obtain w where w: "s = Some w" "table_core L hash w" "table_map w = table_map t"
    "rt_len w < rt_max_load w" "rt_max_load w \<le> full_load L (Suc (rt_mask w))"
    using s
  proof
    assume "s = grow_and_rehash L hash t"
    then show ?thesis using grow_correct [OF wf assms(2)] that by metis
  next
    assume "rt_len t < rt_max_load t \<and> s = Some t"
    then show ?thesis using that wf core by (auto simp: table_wf_def unallocated_def)
  qed
  obtain gi si u where "insert_no_check L w (hash k) k v = Some ((gi, si), u)"
    "table_wf L hash u" "table_map u = (table_map w)(k \<mapsto> v)"
    using insert_no_check_wf [OF w(2,4,5)] new w(3) by metis
  then show ?thesis using w by simp
qed

lemma replace_wf:
  assumes "table_wf L hash t" "table_core L hash t" "at_slot L t gi si k v"
  obtains u where "replace_value L t gi si w = (Some v, u)" "table_wf L hash u" "table_map u = (table_map t)(k \<mapsto> w)"
proof -
  note rep = replace_value_correct [OF assms(2,3), of w]
  have "rt_len t \<le> rt_max_load t" "rt_max_load t \<le> full_load L (Suc (rt_mask t))"
    using assms(1) by (auto simp: table_wf_def unallocated_def)
  then have "table_wf L hash (snd (replace_value L t gi si w))" using rep by (simp add: table_wf_def)
  then show ?thesis using that [of "snd (replace_value L t gi si w)"] rep by (simp add: prod_eq_iff)
qed

lemma insert_cold_correct:
  assumes wf: "table_wf L hash t" and "can_grow t" and load: "0 < rt_max_load t"
    and stops: "table_map t k = None \<Longrightarrow> lookup_stops L t (hash k)"
  shows "\<exists>u. insert_overflow L hash t (hash k) k v = Some (table_map t k, u) \<and>
      table_wf L hash u \<and> table_map u = (table_map t)(k \<mapsto> v)"
    and "rt_max_load t \<le> rt_len t \<Longrightarrow> \<exists>u. insert_at_capacity L hash t (hash k) k v = Some (table_map t k, u) \<and>
      table_wf L hash u \<and> table_map u = (table_map t)(k \<mapsto> v)"
proof -
  have core: "table_core L hash t" using wf load by (auto simp: table_wf_def unallocated_def)
  note defs = insert_overflow_def insert_at_capacity_def find_by_hash_eq_def
  show "\<exists>u. insert_overflow L hash t (hash k) k v = Some (table_map t k, u) \<and>
      table_wf L hash u \<and> table_map u = (table_map t)(k \<mapsto> v)"
    "rt_max_load t \<le> rt_len t \<Longrightarrow> \<exists>u. insert_at_capacity L hash t (hash k) k v = Some (table_map t k, u) \<and>
      table_wf L hash u \<and> table_map u = (table_map t)(k \<mapsto> v)"
  proof (atomize (full), cases "table_map t k")
    case None
    have f: "find_by_hash L t (hash k) (\<lambda>x. x = k) = Some None"
      using find_by_hash_absent [OF core, of "\<lambda>x. x = k"] None stops [OF None] by (auto simp: lookup_stops_def)
    show "(\<exists>u. insert_overflow L hash t (hash k) k v = Some (table_map t k, u) \<and>
      table_wf L hash u \<and> table_map u = (table_map t)(k \<mapsto> v)) \<and>
      (rt_max_load t \<le> rt_len t \<longrightarrow> (\<exists>u. insert_at_capacity L hash t (hash k) k v = Some (table_map t k, u) \<and>
      table_wf L hash u \<and> table_map u = (table_map t)(k \<mapsto> v)))"
      unfolding defs f option.case None
      by (intro conjI impI grow_then_insert [OF wf assms(2) core None]) auto
  next
    case (Some w)
    obtain gi si where f: "find_by_hash L t (hash k) (\<lambda>x. x = k) = Some (Some (gi, si))"
      and at: "at_slot L t gi si k w" using find_present [OF wf Some] by metis
    show "(\<exists>u. insert_overflow L hash t (hash k) k v = Some (table_map t k, u) \<and>
      table_wf L hash u \<and> table_map u = (table_map t)(k \<mapsto> v)) \<and>
      (rt_max_load t \<le> rt_len t \<longrightarrow> (\<exists>u. insert_at_capacity L hash t (hash k) k v = Some (table_map t k, u) \<and>
      table_wf L hash u \<and> table_map u = (table_map t)(k \<mapsto> v)))"
      unfolding defs f option.case prod.case Some
      using replace_wf [OF wf core at, of v] by metis
  qed
qed

text \<open>The fast path: the key or an empty slot in a home group without overflow.\<close>

lemma home_group:
  assumes core: "table_core L hash t"
  shows "group_find L t (group_index L t h) eq (tag_matches t h (group_index L t h)) = Some si \<Longrightarrow>
      \<exists>k v. at_slot L t (group_index L t h) si k v \<and> eq k"
    and "group_find L t (group_index L t (hash k)) (\<lambda>x. x = k) (tag_matches t (hash k) (group_index L t (hash k))) = None \<Longrightarrow>
      \<not> overflowed L t (hash k) (group_index L t (hash k)) \<Longrightarrow> table_map t k = None"
    and "reaches L t h (group_index L t h)"
proof -
  have gi: "group_index L t h \<le> rt_mask t" for h by (rule group_index_le [OF core_shape [OF core]])
  show "\<exists>k v. at_slot L t (group_index L t h) si k v \<and> eq k"
    if "group_find L t (group_index L t h) eq (tag_matches t h (group_index L t h)) = Some si"
    using group_find_Some [OF core gi that] gi by (auto simp: at_slot_def)
  show "table_map t k = None"
    if none: "group_find L t (group_index L t (hash k)) (\<lambda>x. x = k) (tag_matches t (hash k) (group_index L t (hash k))) = None"
      and no: "\<not> overflowed L t (hash k) (group_index L t (hash k))"
  proof (rule ccontr)
    assume "table_map t k \<noteq> None"
    then obtain gi si v where s: "gi \<le> rt_mask t" "si < GROUP_SIZE L" "slot L t gi si = Some (k, v)"
      using table_map_Some [OF core] by blast
    moreover have "si < BUCKET_STRIDE L" using s(2) layout_simps(4) by linarith
    ultimately have "reaches L t (hash k) gi" using slot_Some(3) [OF core] by blast
    then obtain p where p: "probe_group L t (hash k) p = gi"
      "\<forall>q<p. overflowed L t (hash k) (probe_group L t (hash k) q)"
      by (auto simp: reaches_def)
    then have "p = 0" using no by (cases p) (auto simp: probe_group_def dest: spec [of _ 0])
    then have "gi = group_index L t (hash k)" using p(1) by (simp add: probe_group_def)
    then show False using none group_find_present [OF core s] by simp
  qed
  show "reaches L t h (group_index L t h)"
    unfolding reaches_def by (intro exI [of _ 0]) (simp add: probe_group_def)
qed

theorem insert_allocated:
  assumes wf: "table_wf L hash t" and "can_grow t" and load: "0 < rt_max_load t"
    and stops: "table_map t k = None \<Longrightarrow> lookup_stops L t (hash k)"
  shows "\<exists>u. insert_or_replace L hash t k v = Some (table_map t k, u) \<and>
      table_wf L hash u \<and> table_map u = (table_map t)(k \<mapsto> v)"
proof (cases "rt_max_load t \<le> rt_len t")
  case True
  then show ?thesis
    using insert_cold_correct(2) [OF assms(1-3) _ True, where v = v] stops load
    by (simp add: insert_or_replace_def Let_def)
next
  case False
  have core: "table_core L hash t" using wf load by (auto simp: table_wf_def unallocated_def)
  have shape: "table_shape L t" using core_shape [OF core] .
  let ?h = "hash k" and ?gi = "group_index L t (hash k)"
  have gi: "?gi \<le> rt_mask t" by (rule group_index_le [OF shape])
  note unfold = insert_or_replace_def Let_def match_byte_and_empty_eq prod.case
  show ?thesis
  proof (cases "group_find L t ?gi (\<lambda>x. x = k) (tag_matches t ?h ?gi)")
    case (Some si)
    then obtain w where at: "at_slot L t ?gi si k w" using home_group(1) [OF core] by blast
    then have "table_map t k = Some w" using table_map_Some [OF core] by (auto simp: at_slot_def)
    then show ?thesis
      using False load Some replace_wf [OF wf core at, of v] by (simp add: unfold) metis
  next
    case None
    show ?thesis
    proof (cases "lowest_set_bit (match_empty (Grp L) (meta_group L t ?gi)) = None \<or> overflowed L t ?h ?gi")
      case True
      then have "insert_or_replace L hash t k v = insert_overflow L hash t ?h k v"
        using False load None by (auto simp: unfold overflowed_def split: option.splits)
      then show ?thesis using insert_cold_correct(1) [OF assms(1-3), where v = v] stops by simp
    next
      case no: False
      then obtain si where si: "lowest_set_bit (match_empty (Grp L) (meta_group L t ?gi)) = Some si"
        and ov: "\<not> overflowed L t ?h ?gi" by auto
      have new: "table_map t k = None" using home_group(2) [OF core None ov] .
      have "si < GROUP_SIZE L" "slot_tag L t ?gi si = EMPTY"
        using lowest_set_bit_Some [OF si] match_group(2) [OF shape gi] by simp_all
      then have "table_core L hash (fill_slot L t ?h ?gi si k v)"
        "table_map (fill_slot L t ?h ?gi si k v) = (table_map t)(k \<mapsto> v)"
        using fill_slot_correct [OF core gi] new home_group(3) [OF core] by blast+
      moreover have "rt_max_load t \<le> full_load L (Suc (rt_mask t))"
        using wf load by (auto simp: table_wf_def unallocated_def)
      moreover have "insert_or_replace L hash t k v = Some (None, fill_slot L t ?h ?gi si k v)"
        using False load None si ov by (simp add: unfold overflowed_def)
      ultimately show ?thesis using False new by (simp add: table_wf_def)
    qed
  qed
qed

theorem insert_or_replace_correct:
  assumes wf: "table_wf L hash t" and "can_grow t"
    and stops: "table_map t k = None \<Longrightarrow> 0 < rt_max_load t \<Longrightarrow> lookup_stops L t (hash k)"
  shows "\<exists>u. insert_or_replace L hash t k v = Some (table_map t k, u) \<and>
      table_wf L hash u \<and> table_map u = (table_map t)(k \<mapsto> v)"
proof (cases "rt_max_load t = 0")
  case True
  let ?t = "allocate L t 1"
  have empty: "rt_len t = 0" "table_map t = Map.empty" using wf_no_load [OF wf True] by simp_all
  have load: "0 < rt_max_load ?t" using full_load_pos [of 1] by simp
  have "lookup_stops L ?t h" for h
    using zero_ctrl(1) [OF allocate_shape, of 1 t _ 0] by (simp add: lookup_stops_def overflowed_def allocate_def)
  then have "\<exists>u. insert_or_replace L hash ?t k v = Some (table_map ?t k, u) \<and>
      table_wf L hash u \<and> table_map u = (table_map ?t)(k \<mapsto> v)"
    using load empty by (intro insert_allocated allocate_wf) (simp_all add: can_grow_def)
  moreover have "insert_or_replace L hash t k v = insert_or_replace L hash ?t k v"
    using True load by (simp add: insert_or_replace_def)
  ultimately show ?thesis using empty by simp
next
  case False
  then show ?thesis using insert_allocated [OF assms(1,2)] stops by simp
qed

end

end
