(* ===== verification/Overflow_Entry.thy ===== *)
theory Overflow_Entry
  imports Overflow_Insert
begin

text \<open>
  The entry path of the overflow-bit engine: \<^verbatim>\<open>find_or_locate\<close> searches for a key
  and remembers the first free slot; \<^verbatim>\<open>insert_at\<close> fills it later.
\<close>

text \<open>Setting a bit that is set already changes nothing.\<close>

lemma or_one_bit: "one_bit c \<Longrightarrow> b AND c \<noteq> 0 \<Longrightarrow> b OR c = b" for b c :: u8
proof (rule bit_eqI)
  fix n
  assume "one_bit c" "b AND c \<noteq> 0"
  then obtain i where i: "i < 8" "c = push_bit i 1" by (auto simp: one_bit_def)
  then have c: "bit c n \<longleftrightarrow> n = i" for n by (auto simp: bit_exp_iff possible_bit_word)
  have "bit b i"
  proof (rule ccontr)
    assume "\<not> bit b i"
    then have "b AND c = 0" by (intro bit_eqI) (auto simp: bit_and_iff c)
    then show False using \<open>b AND c \<noteq> 0\<close> by simp
  qed
  then show "bit (b OR c) n = bit b n" by (auto simp: bit_or_iff c)
qed

lemma set_overflow_idem: "one_bit ch \<Longrightarrow> has_overflow ov b gi ch \<Longrightarrow> set_overflow ov b gi ch = b"
proof -
  have "one_bit (push_bit (gi mod 8) 1)" unfolding one_bit_def by (intro exI [of _ "gi mod 8"]) simp
  then show "one_bit ch \<Longrightarrow> has_overflow ov b gi ch \<Longrightarrow> set_overflow ov b gi ch = b"
    by (cases ov) (simp_all add: or_one_bit)
qed

lemma set_overflow_bit_idem:
  "one_bit c \<Longrightarrow> has_overflow_bit L t gi c \<Longrightarrow> set_overflow_bit L t gi c = t"
  by (simp add: set_overflow_bit_def has_overflow_bit_def Let_def set_overflow_idem)

text \<open>What the entry path needs of a located slot.\<close>

definition mask_marked :: "'w::len layout \<Rightarrow> ('k, 'v) raw_table \<Rightarrow> u64 \<Rightarrow> u8 \<Rightarrow> bool" where
  "mask_marked L t h full_mask \<longleftrightarrow> (\<forall>q<8. bit full_mask q \<longrightarrow> overflowed L t h (probe_group L t h q))"

definition insertable :: "'w::len layout \<Rightarrow> ('k, 'v) raw_table \<Rightarrow> u64 \<Rightarrow> nat \<Rightarrow> nat \<Rightarrow> u8 \<Rightarrow> bool" where
  "insertable L t h gi si full_mask \<longleftrightarrow> gi \<le> rt_mask t \<and> si < GROUP_SIZE L \<and>
     slot_tag L t gi si = EMPTY \<and> reaches L t h gi \<and> mask_marked L t h full_mask"

context overflow_layout
begin

text \<open>
  The mask only names groups whose overflow bit the search has seen set, so
  \<^verbatim>\<open>insert_at\<close> rewrites bits that are set already.
\<close>

lemma set_overflow_bits_idle:
  assumes "\<And>q. bit msk q \<Longrightarrow> overflowed L t h (probe_group L t h (p + q))"
  shows "set_overflow_bits L (overflow_channel (Tag L) h) t (probe_group L t h p) p msk = t"
  using assms
proof (induction "unat msk" arbitrary: msk p rule: less_induct)
  case less
  let ?c = "overflow_channel (Tag L) h"
  have one: "one_bit ?c" by (rule tag_strategy_laws.channel_one_bit [OF tag_laws])
  show ?case
  proof (cases "msk = 0")
    case True
    then show ?thesis by (subst set_overflow_bits.simps) simp
  next
    case False
    then have lt: "unat (drop_bit 1 msk) < unat msk" by (simp add: drop_bit_Suc unat_div_distrib unat_gt_0)
    have step: "(if msk AND 1 \<noteq> 0 then set_overflow_bit L t (probe_group L t h p) ?c else t) = t"
      using set_overflow_bit_idem [OF one] less.prems [of 0]
      by (auto simp: overflowed_def and_one_eq odd_iff_mod_2_eq_one bit_0)
    have next_p: "next_group (rt_mask t) (probe_group L t h p) (p + 1) = probe_group L t h (Suc p)"
      by (simp add: probe_group_def)
    have "set_overflow_bits L ?c t (probe_group L t h (Suc p)) (Suc p) (drop_bit 1 msk) = t"
      using less.prems [of "Suc _"] by (intro less.hyps [OF lt]) (simp add: bit_drop_bit_eq)
    then show ?thesis
      using False step next_p by (subst set_overflow_bits.simps) (simp add: Let_def)
  qed
qed

lemma insert_at_eq:
  assumes "mask_marked L t h full_mask"
  shows "insert_at L t h gi si k v full_mask = fill_slot L t h gi si k v"
proof -
  have "overflowed L t h (probe_group L t h q)" if "bit full_mask q" for q
    using assms that bit_imp_le_length [OF that] by (simp add: mask_marked_def)
  then have "set_overflow_bits L (overflow_channel (Tag L) h) t (group_index L t h) 0 full_mask = t"
    using set_overflow_bits_idle [of full_mask t h 0] by (simp add: probe_group_def)
  then show ?thesis by (simp add: insert_at_def Let_def)
qed

theorem insert_at_correct:
  assumes wf: "table_wf L hash t" and core: "table_core L hash t" and room: "rt_len t < rt_max_load t"
    and new: "table_map t k = None" and ins: "insertable L t (hash k) gi si full_mask"
  shows "table_wf L hash (insert_at L t (hash k) gi si k v full_mask)"
    and "table_map (insert_at L t (hash k) gi si k v full_mask) = (table_map t)(k \<mapsto> v)"
    and "at_slot L (insert_at L t (hash k) gi si k v full_mask) gi si k v"
proof -
  let ?u = "fill_slot L t (hash k) gi si k v"
  have eq: "insert_at L t (hash k) gi si k v full_mask = ?u"
    using ins by (simp add: insertable_def insert_at_eq)
  have pos: "gi \<le> rt_mask t" "si < GROUP_SIZE L" "slot_tag L t gi si = EMPTY" "reaches L t (hash k) gi"
    using ins by (simp_all add: insertable_def)
  have "table_core L hash ?u" using fill_slot_correct(1) [OF core pos(1-3) new pos(4)] .
  moreover have "rt_max_load t \<le> full_load L (Suc (rt_mask t))"
    using wf room by (auto simp: table_wf_def unallocated_def)
  ultimately show "table_wf L hash (insert_at L t (hash k) gi si k v full_mask)"
    using room by (simp add: eq table_wf_def)
  show "table_map (insert_at L t (hash k) gi si k v full_mask) = (table_map t)(k \<mapsto> v)"
    using fill_slot_correct(2) [OF core pos(1-3) new pos(4)] by (simp add: eq)
  have "si < BUCKET_STRIDE L" using pos(2) layout_simps(4) by linarith
  then have "slot L ?u gi si = Some (k, v)"
    using slot_update [OF core_shape [OF core] pos(1,2), of si ?u "Some (k, v)" gi] by simp
  then show "at_slot L (insert_at L t (hash k) gi si k v full_mask) gi si k v"
    using pos by (simp add: eq at_slot_def)
qed

section \<open>The search\<close>

definition located :: "('k, 'v) raw_table \<Rightarrow> u64 \<Rightarrow> find_or_locate_result \<Rightarrow> bool" where
  "located t h r \<longleftrightarrow> (case r of Found gi si \<Rightarrow> False | InsertSlot gi si m \<Rightarrow> insertable L t h gi si m | NotFound \<Rightarrow> True)"

text \<open>The state of the loop before probe \<open>p\<close>.\<close>

definition search_state :: "('k, 'v) raw_table \<Rightarrow> u64 \<Rightarrow> nat \<Rightarrow> (nat \<times> nat) option \<Rightarrow> u8 \<Rightarrow> bool" where
  "search_state t h p first_empty full_mask \<longleftrightarrow>
     (\<forall>q<p. overflowed L t h (probe_group L t h q)) \<and> p \<le> rt_mask t \<and> mask_marked L t h full_mask \<and>
     (\<forall>g s. first_empty = Some (g, s) \<longrightarrow> g \<le> rt_mask t \<and> s < GROUP_SIZE L \<and> slot_tag L t g s = EMPTY \<and> reaches L t h g)"

definition search_empty :: "('k, 'v) raw_table \<Rightarrow> nat \<Rightarrow> nat \<Rightarrow> (nat \<times> nat) option \<Rightarrow> u8 \<Rightarrow> (nat \<times> nat) option \<times> u8" where
  "search_empty t gi p first_empty full_mask =
     (if first_empty = None
      then (case lowest_set_bit (match_empty (Grp L) (meta_group L t gi)) of
              Some si \<Rightarrow> (Some (gi, si), full_mask)
            | None \<Rightarrow> if p < 8 then (None, full_mask OR push_bit p 1) else (None, full_mask))
      else (first_empty, full_mask))"

lemma search_empty_first:
  assumes "table_shape L t" "search_state t h p fe m" "search_empty t (probe_group L t h p) p fe m = (fe', m')"
    and "fe' = Some (g, s)"
  shows "g \<le> rt_mask t \<and> s < GROUP_SIZE L \<and> slot_tag L t g s = EMPTY \<and> reaches L t h g"
proof (cases fe)
  case None
  then have si: "lowest_set_bit (match_empty (Grp L) (meta_group L t (probe_group L t h p))) = Some s"
    and g: "g = probe_group L t h p"
    using assms(3,4) by (auto simp: search_empty_def split: option.splits if_splits)
  have le: "g \<le> rt_mask t" using probe_group_le [OF assms(1)] g by simp
  moreover have "reaches L t h g" using assms(2) g by (auto simp: reaches_def search_state_def)
  ultimately show ?thesis
    using lowest_set_bit_Some [OF si] match_group(2) [OF assms(1) le] g by simp
next
  case (Some gs)
  then show ?thesis using assms by (auto simp: search_empty_def search_state_def)
qed

lemma search_empty_mask:
  assumes "search_state t h p fe m" "search_empty t (probe_group L t h p) p fe m = (fe', m')"
    and "\<And>q. q = p \<Longrightarrow> m' \<noteq> m \<Longrightarrow> overflowed L t h (probe_group L t h q)"
  shows "mask_marked L t h m'"
proof (cases "m' = m")
  case False
  then have m': "m' = m OR push_bit p 1" "p < 8"
    using assms(2) by (auto simp: search_empty_def split: option.splits if_splits)
  have "bit m' q \<longleftrightarrow> bit m q \<or> q = p" for q using m' by (auto simp: bit_or_iff bit_exp_iff possible_bit_word)
  then show ?thesis using assms(1,3) False by (auto simp: mask_marked_def search_state_def)
qed (use assms in \<open>simp add: search_state_def\<close>)

end

context overflow_layout
begin

lemma locate_unfold:
  "find_or_locate_overflow L t eq (tag (Tag L) h) (overflow_channel (Tag L) h) (probe_group L t h p) p fe m =
    (case group_find L t (probe_group L t h p) eq (tag_matches t h (probe_group L t h p)) of
       Some si \<Rightarrow> Some (Found (probe_group L t h p) si)
     | None \<Rightarrow>
        let (fe', m') = search_empty t (probe_group L t h p) p fe m in
        if overflowed L t h (probe_group L t h p)
        then find_or_locate_overflow L t eq (tag (Tag L) h) (overflow_channel (Tag L) h)
               (probe_group L t h (Suc p)) (Suc p) fe' m'
        else Some (case fe' of Some (g, s) \<Rightarrow> InsertSlot g s m' | None \<Rightarrow> NotFound))"
proof -
  have "next_group (rt_mask t) (probe_group L t h p) (p + 1) = probe_group L t h (Suc p)"
    by (simp add: probe_group_def)
  then show ?thesis
    by (subst find_or_locate_overflow.simps)
      (simp add: match_byte_and_empty_eq search_empty_def overflowed_def Let_def split: option.split)
qed

lemma find_or_locate_eq:
  "find_or_locate L t h eq =
    find_or_locate_overflow L t eq (tag (Tag L) h) (overflow_channel (Tag L) h) (probe_group L t h 0) 0 None 0"
  by (subst locate_unfold)
    (simp add: find_or_locate_def search_empty_def match_byte_and_empty_eq probe_group_def overflowed_def
      Let_def split: option.split)

lemma locate_absent:
  assumes core: "table_core L hash t" and absent: "\<And>k. eq k \<Longrightarrow> table_map t k = None"
    and P: "P \<le> rt_mask t" "\<not> overflowed L t h (probe_group L t h P)"
      "\<And>q. q < P \<Longrightarrow> overflowed L t h (probe_group L t h q)"
    and "p \<le> P" "search_state t h p fe m"
  shows "\<exists>r. find_or_locate_overflow L t eq (tag (Tag L) h) (overflow_channel (Tag L) h)
      (probe_group L t h p) p fe m = Some r \<and> located t h r"
  using assms(6,7)
proof (induction "P - p" arbitrary: p fe m)
  case 0
  have shape: "table_shape L t" using core_shape [OF core] .
  have p: "p = P" using 0 by simp
  obtain fe' m' where e: "search_empty t (probe_group L t h p) p fe m = (fe', m')" by fastforce
  have none: "group_find L t (probe_group L t h p) eq (tag_matches t h (probe_group L t h p)) = None"
    using group_find_unmapped [OF core probe_group_le [OF shape] absent] .
  show ?case
  proof (cases fe')
    case None
    then show ?thesis using none e P p by (subst locate_unfold) (simp add: located_def)
  next
    case (Some gs)
    obtain g s where gs: "gs = (g, s)" by fastforce
    have "m' = m" using e Some by (auto simp: search_empty_def split: if_splits option.splits)
    then have "insertable L t h g s m'"
      using search_empty_first [OF shape 0(3) e, of g s] Some gs 0(3)
      by (simp add: insertable_def search_state_def)
    then show ?thesis using none e P p Some gs by (subst locate_unfold) (simp add: located_def)
  qed
next
  case (Suc d)
  have shape: "table_shape L t" using core_shape [OF core] .
  have lt: "p < P" using Suc(2) by simp
  obtain fe' m' where e: "search_empty t (probe_group L t h p) p fe m = (fe', m')" by fastforce
  have none: "group_find L t (probe_group L t h p) eq (tag_matches t h (probe_group L t h p)) = None"
    using group_find_unmapped [OF core probe_group_le [OF shape] absent] .
  have st: "search_state t h (Suc p) fe' m'"
    unfolding search_state_def
    using search_empty_first [OF shape Suc.prems(2) e] search_empty_mask [OF Suc.prems(2) e] P lt by auto
  then have "\<exists>r. find_or_locate_overflow L t eq (tag (Tag L) h) (overflow_channel (Tag L) h)
      (probe_group L t h (Suc p)) (Suc p) fe' m' = Some r \<and> located t h r"
    using Suc.hyps(1) [of "Suc p"] Suc.hyps(2) lt by simp
  then show ?case using none e P(3) [OF lt] by (subst locate_unfold) simp
qed

lemma locate_present:
  assumes core: "table_core L hash t" and at: "at_slot L t gi si k v"
    and P: "P \<le> rt_mask t" "probe_group L t (hash k) P = gi"
      "\<And>q. q < P \<Longrightarrow> overflowed L t (hash k) (probe_group L t (hash k) q)" and "p \<le> P"
  shows "find_or_locate_overflow L t (\<lambda>x. x = k) (tag (Tag L) (hash k)) (overflow_channel (Tag L) (hash k))
      (probe_group L t (hash k) p) p fe m = Some (Found gi si)"
  using assms(6)
proof (induction "P - p" arbitrary: p fe m)
  case 0
  then have "p = P" by simp
  then show ?case
    using group_find_present [OF core, of gi si k v] at P
    by (subst locate_unfold) (simp add: at_slot_def)
next
  case (Suc d)
  have shape: "table_shape L t" using core_shape [OF core] .
  have lt: "p < P" using Suc(2) by simp
  obtain fe' m' where e: "search_empty t (probe_group L t (hash k) p) p fe m = (fe', m')" by fastforce
  have none: "group_find L t (probe_group L t (hash k) p) (\<lambda>x. x = k)
      (tag_matches t (hash k) (probe_group L t (hash k) p)) = None"
  proof (rule group_find_absent [OF core probe_group_le [OF shape]])
    fix s k' v' assume s: "s < GROUP_SIZE L" "slot L t (probe_group L t (hash k) p) s = Some (k', v')"
    have "probe_group L t (hash k) p \<noteq> gi" using probe_group_inj [OF shape, of p P] lt P by force
    then show "k' \<noteq> k"
      using slot_unique [OF core, of gi si k v "probe_group L t (hash k) p" s v'] at s probe_group_le [OF shape]
      by (auto simp: at_slot_def)
  qed
  then show ?case
    using Suc.hyps(1) [of "Suc p"] Suc.hyps(2) lt e P(3) [OF lt] by (subst locate_unfold) simp
qed

theorem find_or_locate_present:
  assumes wf: "table_wf L hash t" and "table_map t k = Some v"
  obtains gi si where "find_or_locate L t (hash k) (\<lambda>x. x = k) = Some (Found gi si)" "at_slot L t gi si k v"
proof -
  obtain gi si where core: "table_core L hash t" and at: "at_slot L t gi si k v"
    using find_present [OF assms] by metis
  have s: "gi \<le> rt_mask t" "si < GROUP_SIZE L" "slot L t gi si = Some (k, v)" using at by (simp_all add: at_slot_def)
  moreover have "si < BUCKET_STRIDE L" using s(2) layout_simps(4) by linarith
  ultimately have "reaches L t (hash k) gi" using slot_Some(3) [OF core] by blast
  then obtain P where P: "P \<le> rt_mask t" "probe_group L t (hash k) P = gi"
    "\<And>q. q < P \<Longrightarrow> overflowed L t (hash k) (probe_group L t (hash k) q)" by (auto simp: reaches_def)
  show ?thesis using that [OF _ at] locate_present [OF core at P, where p = 0] by (simp add: find_or_locate_eq)
qed

theorem find_or_locate_absent:
  assumes core: "table_core L hash t" and absent: "\<And>k. eq k \<Longrightarrow> table_map t k = None"
    and "lookup_stops L t h"
  shows "\<exists>r. find_or_locate L t h eq = Some r \<and> located t h r"
proof -
  have shape: "table_shape L t" using core_shape [OF core] .
  obtain g where "g \<le> rt_mask t" "\<not> overflowed L t h g" using assms(3) by (auto simp: lookup_stops_def)
  then obtain P' where P': "P' \<le> rt_mask t" "\<not> overflowed L t h (probe_group L t h P')"
    using probe_group_reaches [OF shape] by metis
  then obtain P where P: "P \<le> rt_mask t" "\<not> overflowed L t h (probe_group L t h P)"
    "\<And>q. q < P \<Longrightarrow> overflowed L t h (probe_group L t h q)"
    using exists_least_iff [of "\<lambda>p. \<not> overflowed L t h (probe_group L t h p)"]
    by (metis linorder_not_less le_trans)
  have "search_state t h 0 None 0" by (simp add: search_state_def mask_marked_def)
  then show ?thesis using locate_absent [OF core absent P, where p = 0] by (simp add: find_or_locate_eq)
qed

text \<open>The entry probe: the position of a present key, or a usable vacant slot.\<close>

theorem find_for_entry_present:
  assumes wf: "table_wf L hash t" and k: "table_map t k = Some v"
  obtains gi si where "find_for_entry L t (hash k) k = Some (ProbeFound gi si)" "at_slot L t gi si k v"
proof -
  obtain gi si where f: "find_by_hash L t (hash k) (\<lambda>x. x = k) = Some (Some (gi, si))"
    and core: "table_core L hash t" and at: "at_slot L t gi si k v"
    using find_present [OF assms] by metis
  let ?gi = "group_index L t (hash k)"
  have uniq: "g = gi \<and> s = si" if "at_slot L t g s k w" for g s w
    using slot_unique [OF core, of gi si k v g s w] at that by (simp add: at_slot_def)
  have loc: "find_or_locate L t (hash k) (\<lambda>x. x = k) = Some (Found gi si)"
    using find_or_locate_present [OF assms] uniq by metis
  have home: "si' = si \<and> ?gi = gi" if "group_find L t ?gi (\<lambda>x. x = k) (tag_matches t (hash k) ?gi) = Some si'" for si'
    using home_group(1) [OF core that] uniq by blast
  have "overflowed L t (hash k) ?gi" if "group_find L t ?gi (\<lambda>x. x = k) (tag_matches t (hash k) ?gi) = None"
    using home_group(2) [OF core that] k by auto
  then have "find_for_entry L t (hash k) k = Some (ProbeFound gi si)"
    using f loc home
    by (auto simp: find_for_entry_def find_by_hash_eq_def match_byte_and_empty_eq overflowed_def Let_def
        split: option.splits)
  then show ?thesis using that at by blast
qed

theorem find_for_entry_absent:
  assumes wf: "table_wf L hash t" and "sentinel_ok L" and k: "table_map t k = None" and stops: "lookup_stops L t (hash k)"
  obtains "find_for_entry L t (hash k) k = Some (ProbeVacant None)"
  | gi si m where "find_for_entry L t (hash k) k = Some (ProbeVacant (Some (gi, si, m)))"
      "insertable L t (hash k) gi si m" "table_core L hash t" "rt_len t < rt_max_load t"
proof (cases "rt_max_load t \<le> rt_len t")
  case True
  then show ?thesis
    using that(1) find_absent [OF assms(1,2), of "\<lambda>x. x = k"] k stops
    by (simp add: find_for_entry_def find_by_hash_eq_def)
next
  case False
  then have core: "table_core L hash t" using wf by (auto simp: table_wf_def unallocated_def)
  let ?gi = "group_index L t (hash k)"
  have gi: "?gi \<le> rt_mask t" by (rule group_index_le [OF core_shape [OF core]])
  have none: "group_find L t ?gi (\<lambda>x. x = k) (tag_matches t (hash k) ?gi) = None"
    using group_find_unmapped [OF core gi, of "\<lambda>x. x = k"] k by simp
  obtain r where r: "find_or_locate L t (hash k) (\<lambda>x. x = k) = Some r" "located t (hash k) r"
    using find_or_locate_absent [OF core _ stops, of "\<lambda>x. x = k"] k by auto
  show ?thesis
  proof (cases "lowest_set_bit (match_empty (Grp L) (meta_group L t ?gi)) = None \<or> overflowed L t (hash k) ?gi")
    case True
    then have "find_for_entry L t (hash k) k = Some (case r of Found gi si \<Rightarrow> ProbeFound gi si
        | InsertSlot gi si msk \<Rightarrow> ProbeVacant (Some (gi, si, msk)) | NotFound \<Rightarrow> ProbeVacant None)"
      using False none r(1)
      by (auto simp: find_for_entry_def match_byte_and_empty_eq overflowed_def Let_def split: option.splits)
    then show ?thesis
      using r(2) that False core by (auto simp: located_def split: find_or_locate_result.splits)
  next
    case no: False
    then obtain si where si: "lowest_set_bit (match_empty (Grp L) (meta_group L t ?gi)) = Some si"
      and ov: "\<not> overflowed L t (hash k) ?gi" by auto
    have "find_for_entry L t (hash k) k = Some (ProbeVacant (Some (?gi, si, 0)))"
      using False none si ov by (simp add: find_for_entry_def match_byte_and_empty_eq overflowed_def Let_def)
    moreover have "insertable L t (hash k) ?gi si 0"
      using lowest_set_bit_Some [OF si] match_group(2) [OF core_shape [OF core] gi] gi home_group(3) [OF core]
      by (simp add: insertable_def mask_marked_def)
    ultimately show ?thesis using that(2) core False by simp
  qed
qed

end

section \<open>Searches that do not end\<close>

context overflow_layout
begin

lemma locate_forever:
  assumes none: "\<And>q. group_find L t (probe_group L t h q) eq (tag_matches t h (probe_group L t h q)) = None"
    and all: "\<And>q. overflowed L t h (probe_group L t h q)"
  shows "find_or_locate L t h eq = None"
proof -
  let ?r = "tag (Tag L) h" and ?c = "overflow_channel (Tag L) h"
  let ?P = "\<lambda>l u e r' c' gi probe (fe :: (nat \<times> nat) option) (m :: u8) (res :: find_or_locate_result).
    \<not> (l = L \<and> u = t \<and> e = eq \<and> r' = ?r \<and> c' = ?c \<and> gi = probe_group L t h probe)"
  have "?P L t eq ?r ?c (probe_group L t h 0) 0 None 0 res"
    if "find_or_locate_overflow L t eq ?r ?c (probe_group L t h 0) 0 None 0 = Some res" for res
  proof (rule find_or_locate_overflow.raw_induct [where P = ?P, OF _ that])
    fix fl l u e r' c' gi probe fe m res
    assume IH: "\<And>l u e r' c' gi probe fe m res. fl l u e r' c' gi probe fe m = Some res \<Longrightarrow> ?P l u e r' c' gi probe fe m res"
      and body: "(let (matches, empties) = match_byte_and_empty (Grp l) (meta_group l u gi) r' in
        case group_find l u gi e matches of
          None \<Rightarrow>
            let (first_empty', full_mask') =
              (if fe = None
               then (case lowest_set_bit empties of
                       None \<Rightarrow> if probe < 8 then (None, m OR push_bit probe 1) else (None, m)
                     | Some si \<Rightarrow> (Some (gi, si), m))
               else (fe, m)) in
            if \<not> has_overflow_bit l u gi c'
            then Some (case first_empty' of None \<Rightarrow> NotFound | Some (ins_gi, ins_si) \<Rightarrow> InsertSlot ins_gi ins_si full_mask')
            else fl l u e r' c' (next_group (rt_mask u) gi (probe + 1)) (probe + 1) first_empty' full_mask'
        | Some si \<Rightarrow> Some (Found gi si)) = Some res"
    show "?P l u e r' c' gi probe fe m res"
    proof
      assume eqs: "l = L \<and> u = t \<and> e = eq \<and> r' = ?r \<and> c' = ?c \<and> gi = probe_group L t h probe"
      have "next_group (rt_mask t) (probe_group L t h probe) (probe + 1) = probe_group L t h (Suc probe)"
        by (simp add: probe_group_def)
      then have "\<exists>fe' m'. fl L t eq ?r ?c (probe_group L t h (Suc probe)) (Suc probe) fe' m' = Some res"
        using body none [of probe] all [of probe] eqs
        by (auto simp: match_byte_and_empty_eq overflowed_def Let_def split: prod.splits)
      then show False using IH by blast
    qed
  qed
  then show ?thesis unfolding find_or_locate_eq by (metis not_None_eq)
qed

text \<open>The key is absent and every group has its overflow bit: nothing returns.\<close>

lemma all_overflowed:
  assumes "table_core L hash t" "table_map t k = None" "\<not> lookup_stops L t h"
  shows "overflowed L t h (probe_group L t h q)"
    and "group_find L t (probe_group L t h q) (\<lambda>x. x = k) (tag_matches t h (probe_group L t h q)) = None"
  using assms probe_group_le [OF core_shape [OF assms(1)], of h q]
    group_find_unmapped [OF assms(1) probe_group_le [OF core_shape [OF assms(1)]], of "\<lambda>x. x = k"]
  by (auto simp: lookup_stops_def)

theorem search_diverges:
  assumes wf: "table_wf L hash t" and sent: "sentinel_ok L"
    and absent: "table_map t k = None" and no: "\<not> lookup_stops L t (hash k)"
  shows "find_by_hash L t (hash k) (\<lambda>x. x = k) = None" "find_for_entry L t (hash k) k = None"
    "0 < rt_max_load t \<Longrightarrow> insert_or_replace L hash t k v = None"
proof -
  show find: "find_by_hash L t (hash k) (\<lambda>x. x = k) = None"
    using find_absent [OF wf sent, of "\<lambda>x. x = k" "hash k"] absent no by simp
  have core: "table_core L hash t"
    using wf no find_unallocated(2) [OF sent] by (auto simp: table_wf_def)
  note all = all_overflowed [OF core absent no]
  have home: "probe_group L t (hash k) 0 = group_index L t (hash k)" by (simp add: probe_group_def)
  have "find_or_locate L t (hash k) (\<lambda>x. x = k) = None" using locate_forever all by blast
  then show "find_for_entry L t (hash k) k = None"
    using find all [of 0] home
    by (auto simp: find_for_entry_def find_by_hash_eq_def match_byte_and_empty_eq overflowed_def Let_def
        split: option.splits)
  show "insert_or_replace L hash t k v = None" if "0 < rt_max_load t"
    using find all [of 0] home that
    by (auto simp: insert_or_replace_def insert_at_capacity_def insert_overflow_def find_by_hash_eq_def
        match_byte_and_empty_eq overflowed_def Let_def split: option.splits)
qed

end

end
