(* ===== verification/Overflow_Manage.thy ===== *)
theory Overflow_Manage
  imports Overflow_Ops
begin

text \<open>
  Capacity management, clearing, iteration, consumption and cloning of the
  overflow-bit engine.
\<close>

text \<open>The \<^verbatim>\<open>usize\<close> arithmetic of \<^verbatim>\<open>groups_for_capacity\<close> does not overflow.\<close>

definition capacity_ok :: "'w::len layout \<Rightarrow> nat \<Rightarrow> bool" where
  "capacity_ok L c \<longleftrightarrow> c * LOAD_FACTOR_DEN L + LOAD_FACTOR_NUM L + GROUP_SIZE L \<le> 2 ^ 64"

context overflow_layout
begin

section \<open>Capacity\<close>

text \<open>Whatever the request, the group count is a power of two.\<close>

lemma groups_for_capacity_ok: "groups_ok (groups_for_capacity L c)"
proof -
  have "LOAD_FACTOR_DEN L \<le> GROUP_SIZE L * LOAD_FACTOR_NUM L" using valid by (simp add: valid_layout_def)
  then have "1 * LOAD_FACTOR_NUM L < GROUP_SIZE L * LOAD_FACTOR_NUM L" using layout_simps(6) by linarith
  then have "2 \<le> GROUP_SIZE L" unfolding mult_less_cancel2 by simp
  then show ?thesis unfolding groups_for_capacity_def Let_def by (rule usize_groups_ok)
qed

lemma groups_for_capacity_pow: "\<exists>k<64. groups_for_capacity L c = 2 ^ k"
proof -
  obtain k where k: "groups_for_capacity L c = 2 ^ k" using groups_for_capacity_ok [of c] by (auto simp: groups_ok_def)
  moreover have "groups_for_capacity L c < 2 ^ 64" by (simp add: groups_for_capacity_def Let_def usize_def)
  ultimately have "(2::nat) ^ k < 2 ^ 64" by simp
  then have "k < 64" by (rule power_less_imp_less_exp [rotated]) simp
  then show ?thesis using k by blast
qed

lemma groups_for_capacity_wraps:
  "LOAD_FACTOR_NUM L = 7 \<Longrightarrow> LOAD_FACTOR_DEN L = 8 \<Longrightarrow> groups_for_capacity L (2 ^ 61) = 1"
proof -
  assume "LOAD_FACTOR_NUM L = 7" "LOAD_FACTOR_DEN L = 8"
  moreover have slots: "usize (2 ^ 61 * 8 + 7 - 1) = 6" by (simp add: usize_def)
  moreover have one: "next_power_of_two 0 = 1" "usize 1 = 1"
    by (simp_all add: next_power_of_two_def npow2_from.simps [of "Suc 0" 0] usize_def)
  moreover have "usize (GROUP_SIZE L - 1) = GROUP_SIZE L - 1"
    using le_less_trans [OF layout_simps(8), of "2 ^ 64"] by (intro usize_exact) simp
  ultimately show ?thesis
    using layout_simps(2) by (simp add: groups_for_capacity_def Let_def slots one)
qed

text \<open>
  When the arithmetic does not overflow, it is the least one whose full load admits the
  capacity.
\<close>

lemma groups_for_capacity_exact:
  assumes "capacity_ok L c"
  shows "groups_for_capacity L c = next_power_of_two
    (((c * LOAD_FACTOR_DEN L + LOAD_FACTOR_NUM L - 1) div LOAD_FACTOR_NUM L + GROUP_SIZE L - 1) div GROUP_SIZE L)"
proof -
  let ?s = "(c * LOAD_FACTOR_DEN L + LOAD_FACTOR_NUM L - 1) div LOAD_FACTOR_NUM L"
  have s: "?s \<le> c * LOAD_FACTOR_DEN L + LOAD_FACTOR_NUM L - 1" by (rule div_le_dividend)
  have "usize (c * LOAD_FACTOR_DEN L + LOAD_FACTOR_NUM L - 1) = c * LOAD_FACTOR_DEN L + LOAD_FACTOR_NUM L - 1"
    "usize (?s + GROUP_SIZE L - 1) = ?s + GROUP_SIZE L - 1"
    using assms s layout_simps(2,5) unfolding capacity_ok_def by (intro usize_exact; linarith)+
  moreover have "usize n = n" if "groups_ok (usize n)" "n = next_power_of_two m" for n m
    using that next_power_of_two_pow [of m] groups_ok_pos [of "usize n"] usize_pow by auto
  ultimately show ?thesis using groups_for_capacity_ok [of c] unfolding groups_for_capacity_def Let_def by metis
qed

lemma min_groups_iff:
  "((c * LOAD_FACTOR_DEN L + LOAD_FACTOR_NUM L - 1) div LOAD_FACTOR_NUM L + GROUP_SIZE L - 1) div GROUP_SIZE L \<le> n
    \<longleftrightarrow> c \<le> full_load L n"
proof -
  have "0 < LOAD_FACTOR_DEN L" using less_trans [OF layout_simps(5,6)] .
  then show ?thesis
    unfolding ceil_div_le [OF layout_simps(2)] ceil_div_le [OF layout_simps(5)]
    by (simp add: full_load_def max_load_for_capacity_def less_eq_div_iff_mult_less_eq)
qed

lemma groups_for_capacity_enough: "capacity_ok L c \<Longrightarrow> c \<le> full_load L (groups_for_capacity L c)"
  unfolding groups_for_capacity_exact min_groups_iff [symmetric] by (rule next_power_of_two_ge)

lemma groups_for_capacity_least:
  "capacity_ok L c \<Longrightarrow> c \<le> full_load L (2 ^ m) \<Longrightarrow> groups_for_capacity L c \<le> 2 ^ m"
  unfolding groups_for_capacity_exact min_groups_iff [symmetric] by (rule next_power_of_two_least)

theorem with_capacity_correct:
  shows "table_wf L hash (with_capacity L c)" "table_map (with_capacity L c) = Map.empty"
    "rt_len (with_capacity L c) = 0" "capacity_ok L c \<Longrightarrow> c \<le> rt_max_load (with_capacity L c)"
  using groups_for_capacity_enough [of c]
  by (simp_all add: with_capacity_def allocate_wf [OF groups_for_capacity_ok])

lemma capacity_ok_less: "capacity_ok L c \<Longrightarrow> c < 2 ^ 64"
proof -
  assume cap: "capacity_ok L c"
  have "c \<le> c * LOAD_FACTOR_DEN L" using less_trans [OF layout_simps(5,6)] by simp
  then show ?thesis using cap layout_simps(5) unfolding capacity_ok_def by linarith
qed

theorem reserve_correct:
  assumes wf: "table_wf L hash t" and fits: "rt_len t + additional < 2 ^ 64"
  obtains u where "reserve L hash t additional = Some (Inr u)" "table_wf L hash u" "table_map u = table_map t"
    "capacity_ok L (rt_len t + additional) \<Longrightarrow>
      rt_len t + additional \<le> full_load L (Suc (rt_mask u)) \<or> additional = 0"
    "capacity_ok L (rt_len t + additional) \<Longrightarrow> rt_max_load t = full_load L (Suc (rt_mask t)) \<Longrightarrow>
      rt_len t + additional \<le> rt_max_load u"
proof -
  let ?n = "rt_len t + additional" and ?g = "groups_for_capacity L (rt_len t + additional)"
  have ok: "groups_ok ?g" by (rule groups_for_capacity_ok)
  note enough = groups_for_capacity_enough [of ?n]
  have g: "Suc (?g - 1) = ?g" using groups_ok_pos [OF ok] by simp
  have len: "rt_len t \<le> full_load L (Suc (rt_mask t))" "rt_max_load t \<le> full_load L (Suc (rt_mask t))"
    if "0 < rt_max_load t"
    using that wf by (auto simp: table_wf_def unallocated_def)
  consider (none) "rt_max_load t = 0" "additional = 0" | (alloc) "rt_max_load t = 0" "0 < additional"
    | (grow) "0 < rt_max_load t" "rt_max_load t < ?n" "rt_mask t + 1 < ?g"
    | (keep) "0 < rt_max_load t" "\<not> (rt_max_load t < ?n \<and> rt_mask t + 1 < ?g)" by linarith
  then show ?thesis
  proof cases
    case none
    then show ?thesis
      using that [of t] wf fits wf_no_load [OF wf] by (simp add: reserve_def)
  next
    case alloc
    have "rt_len t = 0" "table_map t = Map.empty" using wf_no_load [OF wf alloc(1)] by simp_all
    then show ?thesis
      using that [of "allocate L t ?g"] allocate_wf [OF ok, of t hash] fits alloc enough g by (simp add: reserve_def)
  next
    case grow
    have le: "rt_len t \<le> full_load L ?g"
      using len(1) [OF grow(1)] full_load_mono [of "Suc (rt_mask t)" ?g] grow(3) by simp
    obtain u where "rehash_with L hash t ?g = Some u" "table_wf L hash u" "table_map u = table_map t"
      "rt_mask u = ?g - 1" "rt_max_load u = full_load L ?g"
      using rehash_with_correct [OF wf ok le] by metis
    then show ?thesis using that [of u] fits grow enough g by (simp add: reserve_def Let_def)
  next
    case keep
    have "?n \<le> full_load L (Suc (rt_mask t))" if "capacity_ok L ?n"
    proof (cases "rt_max_load t < ?n")
      case True
      then have "?g \<le> Suc (rt_mask t)" using keep by simp
      then show ?thesis using enough [OF that] full_load_mono [of ?g "Suc (rt_mask t)"] by linarith
    qed (use len(2) [OF keep(1)] in simp)
    then show ?thesis using that [of t] wf fits keep by (auto simp: reserve_def Let_def)
  qed
qed

theorem shrink_to_fit_correct:
  assumes wf: "table_wf L hash t" and cap: "capacity_ok L (rt_len t)"
  obtains u where "shrink_to_fit L hash t = Some u" "table_wf L hash u" "table_map u = table_map t"
    "rt_mask u \<le> rt_mask t" "0 < rt_len t \<Longrightarrow> Suc (rt_mask u) \<le> groups_for_capacity L (rt_len t)"
proof (cases "rt_len t = 0")
  case True
  have "table_map t = Map.empty"
    using wf True by (cases rule: wf_cases) (auto simp: unallocated_def table_core_def table_map_def bucket_map_def)
  then show ?thesis using that [of raw_new] True by (simp add: shrink_to_fit_def)
next
  case False
  let ?g = "groups_for_capacity L (rt_len t)"
  note ok = groups_for_capacity_ok [of "rt_len t"]
  show ?thesis
  proof (cases "?g < rt_mask t + 1")
    case True
    obtain u where "rehash_with L hash t ?g = Some u" "table_wf L hash u" "table_map u = table_map t" "rt_mask u = ?g - 1"
      using rehash_with_correct [OF wf ok groups_for_capacity_enough [OF cap]] by metis
    then show ?thesis
      using that [of u] True False groups_ok_pos [OF ok] by (simp add: shrink_to_fit_def Let_def)
  next
    case no: False
    then show ?thesis using that [of t] wf False by (simp add: shrink_to_fit_def Let_def)
  qed
qed

section \<open>Clearing\<close>

theorem clear_correct:
  assumes wf: "table_wf L hash t"
  shows "table_wf L hash (clear L t)" "table_map (clear L t) = Map.empty" "rt_len (clear L t) = 0"
    "rt_mask (clear L t) = rt_mask t" "0 < rt_max_load t \<Longrightarrow> lookup_stops L (clear L t) h"
    "0 < rt_max_load t \<Longrightarrow> rt_max_load (clear L t) = full_load L (Suc (rt_mask t))"
    "0 < rt_max_load t \<Longrightarrow> rt_ctrl (clear L t) = replicate (length (rt_ctrl t)) 0"
    "0 < rt_max_load t \<Longrightarrow> gi \<le> rt_mask t \<Longrightarrow> \<not> has_overflow_bit L (clear L t) gi c"
    "rt_max_load t = 0 \<Longrightarrow> clear L t = t"
proof -
  let ?u = "clear L t"
  show none: "?u = t" if "rt_max_load t = 0" using that by (simp add: clear_def)
  have shape: "table_shape L t" if "0 < rt_max_load t"
    using wf that by (auto simp: table_wf_def unallocated_def dest: core_shape)
  have u: "rt_mask ?u = rt_mask t" "rt_len ?u = 0" "rt_max_load ?u = full_load L (Suc (rt_mask t))"
    "rt_buckets ?u = replicate (length (rt_buckets t)) None" "rt_ctrl ?u = replicate (length (rt_ctrl t)) 0"
    "table_shape L ?u" if "0 < rt_max_load t"
    using that shape by (simp_all add: clear_def full_load_def table_shape_def)
  have core: "table_core L hash ?u" if "0 < rt_max_load t"
    using empty_core [OF u(6,5,4,2)] that by blast
  note zero = zero_ctrl(1) [OF u(6,5)]
  show "lookup_stops L ?u h" if "0 < rt_max_load t"
    using zero [of 0] that by (auto simp: lookup_stops_def overflowed_def)
  show "\<not> has_overflow_bit L ?u gi c" if "0 < rt_max_load t" "gi \<le> rt_mask t" using zero that u(1) by simp
  show "rt_max_load ?u = full_load L (Suc (rt_mask t))" "rt_ctrl ?u = replicate (length (rt_ctrl t)) 0"
    if "0 < rt_max_load t" using u that by blast+
  have "table_wf L hash ?u \<and> table_map ?u = Map.empty \<and> rt_len ?u = 0 \<and> rt_mask ?u = rt_mask t"
  proof (cases "rt_max_load t = 0")
    case True
    then show ?thesis using none wf wf_no_load [OF wf True] by simp
  next
    case False
    then show ?thesis using u core by (simp add: table_wf_def table_map_def)
  qed
  then show "table_wf L hash ?u" "table_map ?u = Map.empty" "rt_len ?u = 0" "rt_mask ?u = rt_mask t" by auto
qed

end

end
