(* ===== verification/Overflow_Iter.thy ===== *)
theory Overflow_Iter
  imports Overflow_Ops
begin

text \<open>
  Iteration, consumption, dropping and cloning of the overflow-bit engine:
  every entry is visited exactly once, in index order.
\<close>

text \<open>What a slot iterator in a given state still has to yield.\<close>

definition pending :: "'w::len layout \<Rightarrow> ('k, 'v) raw_table \<Rightarrow> nat \<Rightarrow> 'w word \<Rightarrow> (nat \<times> nat) list" where
  "pending L t g m = map (Pair g) (mask_collect m) @
     concat (map (\<lambda>gi. map (Pair gi) (mask_collect (match_non_empty (Grp L) (meta_group L t gi))))
       [Suc g..<Suc (rt_mask t)])"

lemma mask_collect_next:
  "mask_next m = None \<Longrightarrow> mask_collect m = []"
  "mask_next m = Some (i, m') \<Longrightarrow> mask_collect m = i # mask_collect m'"
  by (simp_all add: mask_collect.simps [of m])

lemma slot_next_pending:
  "(case slot_next L t g m of None \<Rightarrow> pending L t g m = []
    | Some (p, g', m') \<Rightarrow> pending L t g m = p # pending L t g' m')"
proof (induction L t g m rule: slot_next.induct)
  case (1 L t g m)
  show ?case
  proof (cases "mask_next m")
    case (Some x)
    then show ?thesis
      by (subst slot_next.simps) (auto simp: pending_def mask_collect_next(2) split: prod.split)
  next
    case None
    show ?thesis
    proof (cases "rt_mask t < g + 1")
      case True
      then show ?thesis using None by (subst slot_next.simps) (simp add: pending_def mask_collect_next)
    next
      case False
      let ?m = "match_non_empty (Grp L) (meta_group L t (g + 1))"
      have "pending L t g m = pending L t (g + 1) ?m"
        using False None upt_conv_Cons [of "Suc g" "Suc (rt_mask t)"]
        by (simp add: pending_def mask_collect_next del: upt_Suc)
      then show ?thesis using 1 None False by (subst slot_next.simps) (auto split: option.splits)
    qed
  qed
qed

lemma slot_collect_pending: "slot_collect L t g m = pending L t g m"
proof (induction L t g m rule: slot_collect.induct)
  case (1 L t g m)
  then show ?case
    using slot_next_pending [of L t g m]
    by (subst slot_collect.simps) (auto split: option.splits)
qed

lemma pending_start: "pending L t 0 (match_non_empty (Grp L) (meta_group L t 0)) = occupied_slots L t"
  by (simp add: pending_def occupied_slots_def upt_conv_Cons del: upt_Suc)

text \<open>The consuming iterator takes the same steps.\<close>

definition take_out :: "'w::len layout \<Rightarrow> ('k, 'v) raw_table \<Rightarrow> nat \<times> nat \<Rightarrow> ('k, 'v) raw_table" where
  "take_out L t p =
    (let t1 = set_meta L (bucket_moved_out L t (fst p) (snd p)) (fst p) (snd p) EMPTY
     in t1\<lparr>rt_len := rt_len t1 - 1\<rparr>)"

lemma into_iter_next_eq:
  "into_iter_next L t g m =
    map_option (\<lambda>(p, st). (entry_at L t p, take_out L t p, st)) (slot_next L t g m)"
proof (induction L t g m rule: into_iter_next.induct)
  case (1 L t g m)
  show ?case
  proof (cases "mask_next m")
    case None
    then show ?thesis
      using 1 by (subst into_iter_next.simps, subst slot_next.simps) simp
  next
    case (Some x)
    then show ?thesis
      by (cases x) (simp add: into_iter_next.simps [of L t g m] slot_next.simps [of L t g m]
          entry_at_def take_out_def Let_def)
  qed
qed

context overflow_layout
begin

lemma occupied_slots_empty: "table_core L hash t \<Longrightarrow> rt_len t = 0 \<Longrightarrow> occupied_slots L t = []"
  using occupied_entries [of hash t] by (simp add: table_core_def)

lemma iter_slots_core:
  assumes "table_core L hash t" "rt_len t \<le> rt_max_load t"
  shows "iter_slots L t = occupied_slots L t"
proof (cases "rt_max_load t = 0")
  case True
  then have "occupied_slots L t = []" using assms occupied_slots_empty by simp
  moreover from this have "pending L t 0 0 = []"
    using pending_start [of L t] by (simp add: pending_def mask_collect_eq)
  ultimately show ?thesis using True by (simp add: iter_slots_def first_non_empty_mask_def slot_collect_pending)
next
  case False
  then show ?thesis by (simp add: iter_slots_def first_non_empty_mask_def slot_collect_pending pending_start)
qed

theorem iter_slots_correct:
  assumes "table_wf L hash t"
  shows "map (entry_at L t) (iter_slots L t) = somes (rt_buckets t)"
    and "distinct (iter_slots L t)" "length (iter_slots L t) = rt_len t"
proof -
  have "map (entry_at L t) (iter_slots L t) = somes (rt_buckets t) \<and> distinct (iter_slots L t)"
    using assms
  proof (cases rule: wf_cases)
    case Unallocated
    then show ?thesis
      by (simp add: unallocated_def iter_slots_def first_non_empty_mask_def slot_collect_pending
          pending_def mask_collect_eq)
  next
    case Allocated
    then show ?thesis
      using iter_slots_core [OF Allocated(1,2)] occupied_entries [OF Allocated(1)]
        distinct_occupied_slots [OF Allocated(1)] by simp
  qed
  then show "map (entry_at L t) (iter_slots L t) = somes (rt_buckets t)" "distinct (iter_slots L t)"
    by blast+
  then have "length (iter_slots L t) = length (somes (rt_buckets t))" by (metis length_map)
  also have "\<dots> = rt_len t" using assms by (cases rule: wf_cases) (auto simp: unallocated_def table_core_def)
  finally show "length (iter_slots L t) = rt_len t" .
qed

text \<open>Taking out an entry keeps the core invariant and the other entries.\<close>

lemma take_out_correct:
  assumes "table_core L hash t" "gi \<le> rt_mask t" "si < GROUP_SIZE L" "slot L t gi si \<noteq> None"
  shows "table_core L hash (take_out L t (gi, si))"
    and "Suc (rt_len (take_out L t (gi, si))) = rt_len t" "rt_mask (take_out L t (gi, si)) = rt_mask t"
    and "\<And>g s. g \<le> rt_mask t \<Longrightarrow> s < GROUP_SIZE L \<Longrightarrow> slot_tag L (take_out L t (gi, si)) g s = (if g = gi \<and> s = si then EMPTY else slot_tag L t g s)"
    and "\<And>g s. s < GROUP_SIZE L \<Longrightarrow> (g, s) \<noteq> (gi, si) \<Longrightarrow> entry_at L (take_out L t (gi, si)) (g, s) = entry_at L t (g, s)"
proof -
  obtain k v where at: "at_slot L t gi si k v" using assms by (auto simp: at_slot_def)
  let ?u = "erase_slot L (bucket_moved_out L t gi si) 0 gi si"
  note er = erase_slot_correct [OF assms(1) at, where h = 0]
  have eq: "take_out L t (gi, si) = ?u\<lparr>rt_max_load := rt_max_load t\<rparr>"
    by (simp add: take_out_def erase_slot_def Let_def)
  have core: "table_core L hash (u\<lparr>rt_max_load := m\<rparr>) \<longleftrightarrow> table_core L hash u" for u m
    by (simp add: table_core_def table_shape_def slots_ok_def slot_ok_def reaches_def probe_group_def
        overflowed_def cong: option.case_cong)
  show "table_core L hash (take_out L t (gi, si))" "Suc (rt_len (take_out L t (gi, si))) = rt_len t"
    "rt_mask (take_out L t (gi, si)) = rt_mask t"
    "\<And>g s. g \<le> rt_mask t \<Longrightarrow> s < GROUP_SIZE L \<Longrightarrow> slot_tag L (take_out L t (gi, si)) g s = (if g = gi \<and> s = si then EMPTY else slot_tag L t g s)"
    using er(1,3,4,7) by (simp_all add: eq core)
  show "entry_at L (take_out L t (gi, si)) (g, s) = entry_at L t (g, s)"
    if s: "s < GROUP_SIZE L" "(g, s) \<noteq> (gi, si)" for g s
  proof -
    have "s < BUCKET_STRIDE L" using s(1) layout_simps(4) by linarith
    then have "slot L (take_out L t (gi, si)) g s = slot L t g s"
      using slot_update [OF core_shape [OF assms(1)] assms(2,3), of s ?u None g] er(8) s by (auto simp: eq)
    then show ?thesis by (simp add: entry_at_def key_at_def value_at_def slot_def)
  qed
qed

end

context overflow_layout
begin

text \<open>The iterator's mask names occupied slots of its current group.\<close>

definition mask_occupied :: "('k, 'v) raw_table \<Rightarrow> nat \<Rightarrow> 'w word \<Rightarrow> bool" where
  "mask_occupied t g m \<longleftrightarrow> g \<le> rt_mask t \<and> (\<forall>i. bit m i \<longrightarrow> i < GROUP_SIZE L \<and> slot L t g i \<noteq> None)"

lemma mask_occupied_group:
  "table_core L hash t \<Longrightarrow> g \<le> rt_mask t \<Longrightarrow> mask_occupied t g (match_non_empty (Grp L) (meta_group L t g))"
  using match_group(3) [OF core_shape] slot_None unfolding mask_occupied_def by blast

lemma slot_next_occupied:
  assumes "table_core L hash t" "mask_occupied t g m" "slot_next L t g m = Some ((gi, si), g', m')"
  shows "gi = g' \<and> gi \<le> rt_mask t \<and> si < GROUP_SIZE L \<and> slot L t gi si \<noteq> None \<and> mask_occupied t g' m' \<and> \<not> bit m' si"
  using assms(2,3)
proof (induction "Suc (rt_mask t) - g" arbitrary: g m)
  case 0
  then show ?case by (simp add: mask_occupied_def)
next
  case (Suc d)
  show ?case
  proof (cases "m = 0")
    case True
    then have lt: "g < rt_mask t"
      and "slot_next L t (Suc g) (match_non_empty (Grp L) (meta_group L t (Suc g))) = Some ((gi, si), g', m')"
      using Suc.prems(2) by (subst (asm) slot_next.simps, simp add: mask_next_def split: if_splits)+
    moreover have "d = Suc (rt_mask t) - Suc g" using Suc.hyps(2) by simp
    ultimately show ?thesis
      using Suc.hyps(1) [of "Suc g"] mask_occupied_group [OF assms(1), of "Suc g"] by simp
  next
    case False
    then have "gi = g" "g' = g" "si = trailing_zeros m" "m' = m AND (m - 1)"
      using Suc.prems(2) by (subst (asm) slot_next.simps, simp add: mask_next_def)+
    then show ?thesis
      using Suc.prems(1) False trailing_zeros_bit [OF False] bit_clear_lowest [OF False]
      by (auto simp: mask_occupied_def)
  qed
qed

lemma pending_occupied:
  assumes "table_core L hash t" "mask_occupied t g m" "(gi, si) \<in> set (pending L t g m)"
  shows "si < GROUP_SIZE L"
  using assms match_group(3) [OF core_shape [OF assms(1)]]
  by (auto simp: pending_def mask_occupied_def mask_collect_eq less_Suc_eq_le simp del: upt_Suc)

lemma pending_take_out:
  assumes "table_core L hash t" "gi \<le> rt_mask t" "si < GROUP_SIZE L" "slot L t gi si \<noteq> None"
  shows "pending L (take_out L t (gi, si)) gi m = pending L t gi m"
proof -
  note out = take_out_correct [OF assms]
  have "match_non_empty (Grp L) (meta_group L (take_out L t (gi, si)) g) = match_non_empty (Grp L) (meta_group L t g)"
    if "gi < g" "g \<le> rt_mask t" for g
    using match_group(3) [OF core_shape [OF assms(1)]] match_group(3) [OF core_shape [OF out(1)]] that out(3,4)
    by (intro bit_eqI) auto
  then show ?thesis by (auto simp: pending_def out(3) intro!: arg_cong [where f = concat] map_cong)
qed

lemma into_iter_collect_eq:
  assumes "table_core L hash t" "mask_occupied t g m" "distinct (pending L t g m)"
  shows "fst (into_iter_collect L t g m) = map (entry_at L t) (pending L t g m) \<and>
    table_core L hash (snd (into_iter_collect L t g m)) \<and>
    rt_len (snd (into_iter_collect L t g m)) + length (pending L t g m) = rt_len t"
  using assms
proof (induction "length (pending L t g m)" arbitrary: t g m)
  case 0
  then have "slot_next L t g m = None"
    using slot_next_pending [of L t g m] by (auto split: option.splits)
  then show ?case using 0 by (subst (1 2 3) into_iter_collect.simps) (simp add: into_iter_next_eq)
next
  case (Suc n)
  obtain gi si g' m' where sn: "slot_next L t g m = Some ((gi, si), g', m')"
    using slot_next_pending [of L t g m] Suc(2) by (auto split: option.splits)
  have pend: "pending L t g m = (gi, si) # pending L t g' m'" using slot_next_pending [of L t g m] sn by simp
  have occ: "gi = g'" "gi \<le> rt_mask t" "si < GROUP_SIZE L" "slot L t gi si \<noteq> None" "mask_occupied t g' m'" "\<not> bit m' si"
    using slot_next_occupied [OF Suc.prems(1,2) sn] by auto
  let ?u = "take_out L t (gi, si)"
  note out = take_out_correct [OF Suc.prems(1) occ(2-4)]
  have pend_u: "pending L ?u g' m' = pending L t g' m'"
    using pending_take_out [OF Suc.prems(1) occ(2-4)] occ(1) by simp
  have occ_u: "mask_occupied ?u g' m'"
    unfolding mask_occupied_def
  proof (intro conjI allI impI)
    show "g' \<le> rt_mask ?u" using occ out(3) by simp
    fix i assume "bit m' i"
    then have i: "i < GROUP_SIZE L" "slot L t g' i \<noteq> None" "i \<noteq> si" using occ by (auto simp: mask_occupied_def)
    then show "i < GROUP_SIZE L" by simp
    have "slot_tag L ?u g' i \<noteq> EMPTY"
      using out(4) [of g' i] i slot_None [OF Suc.prems(1), of g' i] occ(1,2) by simp
    then show "slot L ?u g' i \<noteq> None" using slot_None [OF out(1), of g' i] i(1) occ(1,2) out(3) by simp
  qed
  have entries: "map (entry_at L ?u) (pending L t g' m') = map (entry_at L t) (pending L t g' m')"
  proof (rule map_cong [OF refl])
    fix p assume p: "p \<in> set (pending L t g' m')"
    then have "snd p < GROUP_SIZE L" using pending_occupied [OF Suc.prems(1) occ(5)] by (metis prod.collapse)
    moreover have "p \<noteq> (gi, si)" using p Suc.prems(3) pend by auto
    ultimately show "entry_at L ?u p = entry_at L t p" using out(5) by (metis prod.collapse)
  qed
  have "fst (into_iter_collect L ?u g' m') = map (entry_at L ?u) (pending L ?u g' m') \<and>
    table_core L hash (snd (into_iter_collect L ?u g' m')) \<and>
    rt_len (snd (into_iter_collect L ?u g' m')) + length (pending L ?u g' m') = rt_len ?u"
    using Suc.hyps(2) Suc.prems(3) pend pend_u by (intro Suc.hyps(1) out(1) occ_u) simp_all
  moreover have "into_iter_collect L t g m =
      (entry_at L t (gi, si) # fst (into_iter_collect L ?u g' m'), snd (into_iter_collect L ?u g' m'))"
    using sn by (subst into_iter_collect.simps) (simp add: into_iter_next_eq case_prod_beta Let_def)
  ultimately show ?case using pend pend_u entries out(2) by simp
qed

text \<open>A table without entries has no tag byte that the drop walk would act on.\<close>

lemma drop_slots_empty:
  assumes core: "table_core L hash t" and len: "rt_len t = 0"
  shows "drop_slots L t = []"
proof -
  have "somes (rt_buckets t) = []" using core len by (simp add: table_core_def)
  then have "occupied_slots L t = []" using occupied_entries [OF core] by (metis map_is_Nil_conv)
  moreover have "drop_slots L t = [] \<or> drop_slots L t = map (\<lambda>(g, s). bucket_index L g s) (occupied_slots L t)"
    by (simp add: drop_slots_def occupied_slots_def map_concat comp_def del: upt_Suc)
  ultimately show ?thesis by auto
qed

theorem into_iter_correct:
  assumes wf: "table_wf L hash t"
  shows "fst (into_iter L t) = somes (rt_buckets t)" "rt_len (snd (into_iter L t)) = 0"
    "table_map (snd (into_iter L t)) = Map.empty" "drop_slots L (snd (into_iter L t)) = []"
proof -
  have "fst (into_iter L t) = somes (rt_buckets t) \<and> rt_len (snd (into_iter L t)) = 0 \<and>
    table_map (snd (into_iter L t)) = Map.empty \<and> drop_slots L (snd (into_iter L t)) = []"
    using wf
  proof (cases rule: wf_cases)
    case Unallocated
    then have "slot_next L t 0 0 = None" by (subst slot_next.simps) (simp add: mask_next_def unallocated_def)
    then show ?thesis
      using Unallocated by (simp add: into_iter_def first_non_empty_mask_def unallocated_def table_map_def drop_slots_def
          into_iter_collect.simps [of L t] into_iter_next_eq)
  next
    case Allocated
    let ?m = "first_non_empty_mask L t"
    have pend: "pending L t 0 ?m = occupied_slots L t"
      using iter_slots_core [OF Allocated(1,2)] by (simp add: iter_slots_def slot_collect_pending)
    have "mask_occupied t 0 ?m"
      using mask_occupied_group [OF Allocated(1), of 0]
      by (simp add: first_non_empty_mask_def mask_occupied_def)
    moreover have "length (occupied_slots L t) = rt_len t"
      using occupied_entries [OF Allocated(1)] Allocated(1) by (metis length_map table_core_def)
    ultimately have run: "fst (into_iter L t) = somes (rt_buckets t)" "table_core L hash (snd (into_iter L t))"
      "rt_len (snd (into_iter L t)) = 0"
      using into_iter_collect_eq [OF Allocated(1), of 0 ?m] pend occupied_entries [OF Allocated(1)]
        distinct_occupied_slots [OF Allocated(1)]
      by (simp_all add: into_iter_def)
    then show ?thesis
      using drop_slots_empty [OF run(2,3)] by (simp add: table_core_def table_map_def bucket_map_def)
  qed
  then show "fst (into_iter L t) = somes (rt_buckets t)" "rt_len (snd (into_iter L t)) = 0"
    "table_map (snd (into_iter L t)) = Map.empty" "drop_slots L (snd (into_iter L t)) = []" by simp_all
qed

section \<open>Dropping\<close>

theorem drop_slots_correct:
  assumes wf: "table_wf L hash t"
  shows "distinct (drop_slots L t)"
    and "set (drop_slots L t) = {i. i < length (rt_buckets t) \<and> rt_buckets t ! i \<noteq> None}"
proof -
  have "distinct (drop_slots L t) \<and> set (drop_slots L t) = {i. i < length (rt_buckets t) \<and> rt_buckets t ! i \<noteq> None}"
  proof (cases "rt_max_load t = 0")
    case True
    have "length (somes (rt_buckets t)) = 0"
      using wf True by (cases rule: wf_cases) (auto simp: unallocated_def table_core_def)
    then show ?thesis using True by (auto simp: drop_slots_def length_somes_card)
  next
    case False
    then have core: "table_core L hash t" using wf by (auto simp: table_wf_def unallocated_def)
    have eq: "drop_slots L t = map (\<lambda>(g, s). bucket_index L g s) (occupied_slots L t)"
      using False by (simp add: drop_slots_def occupied_slots_def map_concat comp_def del: upt_Suc)
    have "b < BUCKET_STRIDE L" if "b < GROUP_SIZE L" for b using that layout_simps(4) by linarith
    then have "inj_on (\<lambda>(g, s). bucket_index L g s) (set (occupied_slots L t))"
      by (auto simp: inj_on_def set_occupied_slots [OF core] bucket_index_eq)
    then have "distinct (drop_slots L t)" by (simp add: eq distinct_map distinct_occupied_slots [OF core])
    moreover have "set (drop_slots L t) = {i. i < length (rt_buckets t) \<and> rt_buckets t ! i \<noteq> None}"
    proof (intro equalityI subsetI)
      fix i assume "i \<in> set (drop_slots L t)"
      then show "i \<in> {i. i < length (rt_buckets t) \<and> rt_buckets t ! i \<noteq> None}"
        using slot_index(2) [OF core_shape [OF core]] by (auto simp: eq set_occupied_slots [OF core] slot_def)
    next
      fix i assume i: "i \<in> {i. i < length (rt_buckets t) \<and> rt_buckets t ! i \<noteq> None}"
      then obtain g s where g: "g \<le> rt_mask t" "s < BUCKET_STRIDE L" "i = bucket_index L g s"
        using bucket_index_grid [OF core_shape [OF core]] by blast
      then have "(g, s) \<in> set (occupied_slots L t)"
        using i occupied_iff(2) [OF core g(1), of s] by (simp add: set_occupied_slots [OF core] slot_def)
      then show "i \<in> set (drop_slots L t)" using g(3) by (force simp: eq)
    qed
    ultimately show ?thesis by blast
  qed
  then show "distinct (drop_slots L t)"
    "set (drop_slots L t) = {i. i < length (rt_buckets t) \<and> rt_buckets t ! i \<noteq> None}" by simp_all
qed

section \<open>Cloning\<close>

lemma fold_writes:
  "length bs = length (rt_buckets s) \<Longrightarrow> (\<And>p. p \<in> set ps \<Longrightarrow> bs ! bucket_index L (fst p) (snd p) = Some (e p)) \<Longrightarrow>
   (\<And>p. p \<in> set ps \<Longrightarrow> bucket_index L (fst p) (snd p) < length bs) \<Longrightarrow>
   (\<And>i. i < length bs \<Longrightarrow> rt_buckets s ! i = bs ! i \<or> i \<in> (\<lambda>p. bucket_index L (fst p) (snd p)) ` set ps) \<Longrightarrow>
   fold (\<lambda>p s. bucket_write L s (fst p) (snd p) (fst (e p)) (snd (e p))) ps s = s\<lparr>rt_buckets := bs\<rparr>"
proof (induction ps arbitrary: s)
  case Nil
  then have "rt_buckets s = bs" by (simp add: list_eq_iff_nth_eq)
  then show ?case by simp
next
  case (Cons p ps)
  let ?s = "bucket_write L s (fst p) (snd p) (fst (e p)) (snd (e p))"
  have "fold (\<lambda>p s. bucket_write L s (fst p) (snd p) (fst (e p)) (snd (e p))) ps ?s = ?s\<lparr>rt_buckets := bs\<rparr>"
  proof (rule Cons.IH)
    show "rt_buckets ?s ! i = bs ! i \<or> i \<in> (\<lambda>p. bucket_index L (fst p) (snd p)) ` set ps"
      if "i < length bs" for i
      using Cons.prems(1) Cons.prems(2) [of p] Cons.prems(4) [OF that] that
      by (cases "i = bucket_index L (fst p) (snd p)") (auto simp: bucket_write_def)
  qed (use Cons.prems in \<open>auto simp: bucket_write_def\<close>)
  then show ?case by (simp add: bucket_write_def)
qed

theorem clone_table_eq:
  fixes t :: "('k, 'v) raw_table"
  assumes wf: "table_wf L hash t" and load: "0 < rt_max_load t"
  shows "clone_table L t = t"
proof -
  have core: "table_core L hash t" using wf load by (auto simp: table_wf_def unallocated_def)
  have shape: "table_shape L t" using core_shape [OF core] .
  let ?n = "rt_mask t + 1"
  let ?t1 = "(allocate L (raw_new :: ('k, 'v) raw_table) ?n)\<lparr>rt_ctrl := rt_ctrl t\<rparr>"
  have ctrl: "take (?n * META_STRIDE L + overflow_bytes_to_copy (Overflow L) ?n) (rt_ctrl t) @
      drop (?n * META_STRIDE L + overflow_bytes_to_copy (Overflow L) ?n) (rt_ctrl (allocate L (raw_new :: ('k, 'v) raw_table) ?n)) = rt_ctrl t"
    using shape by (cases "Overflow L") (simp_all add: table_shape_def allocate_def)
  have "fold (\<lambda>p s. bucket_write L s (fst p) (snd p) (fst (entry_at L t p)) (snd (entry_at L t p))) (occupied_slots L t) ?t1
      = ?t1\<lparr>rt_buckets := rt_buckets t\<rparr>"
  proof (rule fold_writes)
    show "length (rt_buckets t) = length (rt_buckets ?t1)" using shape by (simp add: table_shape_def)
    fix p assume "p \<in> set (occupied_slots L t)"
    then show "rt_buckets t ! bucket_index L (fst p) (snd p) = Some (entry_at L t p)"
      "bucket_index L (fst p) (snd p) < length (rt_buckets t)"
      using slot_index(2) [OF shape]
      by (auto simp: set_occupied_slots [OF core] slot_def entry_at_def key_at_def value_at_def)
  next
    fix i assume i: "i < length (rt_buckets t)"
    show "rt_buckets ?t1 ! i = rt_buckets t ! i \<or> i \<in> (\<lambda>p. bucket_index L (fst p) (snd p)) ` set (occupied_slots L t)"
    proof (cases "rt_buckets t ! i")
      case None
      then show ?thesis using i shape by (simp add: table_shape_def)
    next
      case (Some kv)
      then obtain g s where g: "g \<le> rt_mask t" "s < BUCKET_STRIDE L" "i = bucket_index L g s"
        using bucket_index_grid [OF shape i] by blast
      then have "(g, s) \<in> set (occupied_slots L t)"
        using Some occupied_iff(2) [OF core g(1), of s] by (simp add: set_occupied_slots [OF core] slot_def)
      then show ?thesis using g(3) by force
    qed
  qed
  moreover have "clone_table L t =
    (fold (\<lambda>p s. bucket_write L s (fst p) (snd p) (fst (entry_at L t p)) (snd (entry_at L t p))) (occupied_slots L t) ?t1)
      \<lparr>rt_len := rt_len t, rt_max_load := rt_max_load t\<rparr>"
    using load ctrl
    by (simp add: clone_table_def Let_def occupied_slots_def fold_pairs entry_at_def case_prod_unfold del: upt_Suc)
  ultimately show ?thesis
    using shape by (cases t) (simp add: allocate_def raw_new_def table_shape_def)
qed

end

end
