(* ===== verification/Overflow_Liveness.thy ===== *)
theory Overflow_Liveness
  imports Overflow_Entry Overflow_Manage Overflow_Iter
begin

text \<open>
  When a lookup returns. The probe loops have no bound: they end at the first
  group without the overflow bit of the key's channel. This theory shows when
  such a group exists, over all states a table can reach:
  \<^item> as long as nothing is removed, every group with an overflow bit is full, and
    the load factor leaves a group that is not;
  \<^item> with one overflow bit per group, the anti-drift decrement of \<^verbatim>\<open>max_load\<close> on
    removal pays for every slot freed in an overflowed group.
\<close>

section \<open>Free slots\<close>

definition free_slots :: "'w::len layout \<Rightarrow> ('k, 'v) raw_table \<Rightarrow> nat \<Rightarrow> nat" where
  "free_slots L t gi = card {si. si < GROUP_SIZE L \<and> slot_tag L t gi si = EMPTY}"

text \<open>Every group with an overflow bit, of any channel, is full.\<close>

definition overflow_full :: "'w::len layout \<Rightarrow> ('k, 'v) raw_table \<Rightarrow> bool" where
  "overflow_full L t \<longleftrightarrow>
    (\<forall>gi\<le>rt_mask t. \<forall>c. has_overflow_bit L t gi c \<longrightarrow> (\<forall>si<GROUP_SIZE L. slot_tag L t gi si \<noteq> EMPTY))"

text \<open>The free slots of overflowed groups are paid for by a lowered load limit.\<close>

definition drift_paid :: "'w::len layout \<Rightarrow> ('k, 'v) raw_table \<Rightarrow> bool" where
  "drift_paid L t \<longleftrightarrow>
    (\<Sum>gi\<in>{gi. gi \<le> rt_mask t \<and> has_overflow_bit L t gi 0}. free_slots L t gi) + rt_max_load t
      \<le> full_load L (Suc (rt_mask t))"

text \<open>What a state predicate must satisfy to survive insertions.\<close>

locale insert_invariant = overflow_layout L
  for L :: "'w::len layout" +
  fixes Q :: "('k, 'v) raw_table \<Rightarrow> bool"
  assumes mark_full: "table_shape L t \<Longrightarrow> gi \<le> rt_mask t \<Longrightarrow> (\<And>si. si < GROUP_SIZE L \<Longrightarrow> slot_tag L t gi si \<noteq> EMPTY) \<Longrightarrow>
      Q t \<Longrightarrow> Q (set_overflow_bit L t gi (overflow_channel (Tag L) h))"
    and fill_empty: "table_shape L t \<Longrightarrow> gi \<le> rt_mask t \<Longrightarrow> si < GROUP_SIZE L \<Longrightarrow> slot_tag L t gi si = EMPTY \<Longrightarrow>
      Q t \<Longrightarrow> Q (fill_slot L t h gi si k v)"
    and fresh: "groups_ok n \<Longrightarrow> Q (allocate L t n)"
    and replace: "table_shape L t \<Longrightarrow> rt_mask u = rt_mask t \<Longrightarrow> rt_ctrl u = rt_ctrl t \<Longrightarrow> rt_max_load u = rt_max_load t \<Longrightarrow> Q t \<Longrightarrow> Q u"
begin

lemma insert_loop:
  assumes "insert_no_check_loop L h k v t gi probe = Some r" "table_shape L t" "gi \<le> rt_mask t" "Q t"
  shows "Q (snd r) \<and> table_shape L (snd r)"
proof -
  let ?P = "\<lambda>l (h :: u64) k v t gi (probe :: nat) r. l = L \<longrightarrow> table_shape L t \<longrightarrow> gi \<le> rt_mask t \<longrightarrow> Q t \<longrightarrow>
    Q (snd r) \<and> table_shape L (snd r)"
  have "?P L h k v t gi probe r"
  proof (rule insert_no_check_loop.raw_induct [where P = ?P, OF _ assms(1)], intro impI)
    fix lp l h k v t gi probe r
    assume IH: "\<And>l h k v t gi probe r. lp l h k v t gi probe = Some r \<Longrightarrow> ?P l h k v t gi probe r"
      and body: "(case lowest_set_bit (match_empty (Grp l) (meta_group l t gi)) of
         None \<Rightarrow> lp l h k v (set_overflow_bit l t gi (overflow_channel (Tag l) h)) (next_group (rt_mask t) gi (probe + 1)) (probe + 1)
       | Some si \<Rightarrow> Some ((gi, si), fill_slot l t h gi si k v)) = Some r"
      and l: "l = L" and shape: "table_shape L t" and gi: "gi \<le> rt_mask t" and Q: "Q t"
    show "Q (snd r) \<and> table_shape L (snd r)"
    proof (cases "lowest_set_bit (match_empty (Grp L) (meta_group L t gi))")
      case (Some si)
      then have "si < GROUP_SIZE L" "slot_tag L t gi si = EMPTY"
        using lowest_set_bit_Some [OF Some] match_group(2) [OF shape gi] by simp_all
      then show ?thesis using fill_empty [OF shape gi _ _ Q] body Some l shape by auto
    next
      case None
      then have full: "slot_tag L t gi si \<noteq> EMPTY" if "si < GROUP_SIZE L" for si
        using match_group(2) [OF shape gi] that by (auto simp: lowest_set_bit_None)
      let ?u = "set_overflow_bit L t gi (overflow_channel (Tag L) h)"
      have "next_group (rt_mask t) gi (probe + 1) \<le> rt_mask t"
        using next_group_less [of "rt_mask t" gi "probe + 1"] shape by (simp add: table_shape_def less_Suc_eq_le)
      then show ?thesis
        using IH [of L h k v ?u "next_group (rt_mask t) gi (probe + 1)" "probe + 1" r] body None l
          mark_full [OF shape gi full Q] shape by simp
    qed
  qed
  then show ?thesis using assms by simp
qed

lemma insert_no_check_keeps:
  assumes "insert_no_check L t h k v = Some r" "table_shape L t" "Q t"
  shows "Q (snd r) \<and> table_shape L (snd r)"
  using insert_loop [OF assms(1) [unfolded insert_no_check_def] assms(2) group_index_le [OF assms(2)] assms(3)] .

lemma rehash_keeps:
  assumes "rehash_with L hash t n = Some u" "groups_ok n"
  shows "Q u"
proof (cases "rt_max_load t = 0")
  case True
  then show ?thesis using assms fresh by (auto simp: rehash_with_def Let_def)
next
  case False
  let ?t0 = "allocate L (t\<lparr>rt_ctrl := EMPTY_SENTINEL, rt_buckets := [], rt_mask := 0, rt_len := 0, rt_max_load := 0\<rparr>) n"
  let ?f = "\<lambda>gi si s. map_option snd (insert_no_check L s (hash (key_at L t gi si)) (key_at L t gi si) (value_at L t gi si))"
  have "Q u \<and> table_shape L u"
  proof (rule foldM_invariant [where I = "\<lambda>s. Q s \<and> table_shape L s"])
    show "foldM (\<lambda>gi. foldM (?f gi) (mask_collect (match_non_empty (Grp L) (meta_group L t gi)))) [0..<rt_mask t + 1] ?t0 = Some u"
      using assms False by (simp add: rehash_with_def Let_def)
    show "Q ?t0 \<and> table_shape L ?t0" using fresh [OF assms(2)] allocate_shape [OF assms(2)] by blast
    fix gi s s'
    assume I: "Q s \<and> table_shape L s"
      and run: "foldM (?f gi) (mask_collect (match_non_empty (Grp L) (meta_group L t gi))) s = Some s'"
    show "Q s' \<and> table_shape L s'"
      by (rule foldM_invariant [where I = "\<lambda>s. Q s \<and> table_shape L s", OF run I])
        (auto dest: insert_no_check_keeps)
  qed
  then show ?thesis ..
qed

lemma grow_keeps:
  assumes "grow_and_rehash L hash t = Some u" "table_wf L hash t" "can_grow t"
  shows "Q u"
proof -
  have "groups_ok (if rt_max_load t = 0 then 1 else (rt_mask t + 1) * 2)"
  proof (cases "rt_max_load t = 0")
    case False
    then have "groups_ok (Suc (rt_mask t))"
      using assms(2) by (auto simp: table_wf_def unallocated_def table_core_def table_shape_def)
    then show ?thesis using False assms(3) groups_ok_double [of "Suc (rt_mask t)"] by (simp add: can_grow_def)
  qed simp
  then show ?thesis using rehash_keeps assms(1) unfolding grow_and_rehash_def by blast
qed

end

context insert_invariant
begin

lemma replace_value_keeps:
  "table_shape L t \<Longrightarrow> Q t \<Longrightarrow> replace_value L t gi si w = (r, u) \<Longrightarrow> Q u"
  by (rule replace [of t]) (auto simp: replace_value_def value_write_def)

lemma allocated_shape: "table_wf L hash t \<Longrightarrow> 0 < rt_max_load t \<Longrightarrow> table_shape L t"
  by (auto simp: table_wf_def unallocated_def table_core_def)

lemma cold_keeps:
  assumes wf: "table_wf L hash t" and "can_grow t" and load: "0 < rt_max_load t" and Q: "Q t"
    and run: "insert_overflow L hash t h k v = Some (r, u) \<or> insert_at_capacity L hash t h k v = Some (r, u)"
  shows "Q u"
proof -
  have shape: "table_shape L t" using allocated_shape [OF wf load] .
  consider (rep) gi si where "replace_value L t gi si v = (r, u)"
    | (ins) s p where "s = t \<or> grow_and_rehash L hash t = Some s" "insert_no_check L s h k v = Some (p, u)"
    using run unfolding insert_overflow_def insert_at_capacity_def
    by (fastforce split: option.splits if_splits prod.splits)
  then show ?thesis
  proof cases
    case rep
    then show ?thesis using replace_value_keeps [OF shape Q] by blast
  next
    case ins
    have "Q s \<and> table_shape L s"
      using ins(1)
    proof
      assume g: "grow_and_rehash L hash t = Some s"
      have "table_shape L s" using grow_correct [OF wf assms(2)] g core_shape by (metis option.inject)
      then show ?thesis using grow_keeps [OF g wf assms(2)] by simp
    qed (use Q shape in simp)
    then show ?thesis using insert_no_check_keeps [OF ins(2)] by simp
  qed
qed

theorem insert_or_replace_keeps:
  assumes wf: "table_wf L hash t" and grow: "can_grow t" and Q: "0 < rt_max_load t \<Longrightarrow> Q t"
    and run: "insert_or_replace L hash t k v = Some (r, u)"
  shows "Q u"
proof -
  define t' where "t' = (if rt_max_load t = 0 then allocate L t 1 else t)"
  have t': "table_wf L hash t'" "can_grow t'" "0 < rt_max_load t'" "Q t'"
    using wf grow Q allocate_wf [of 1 t hash] wf_no_load [OF wf] full_load_pos [of 1] fresh [of 1 t]
    by (auto simp: t'_def can_grow_def)
  have shape: "table_shape L t'" using allocated_shape [OF t'(1,3)] .
  let ?h = "hash k" and ?gi = "group_index L t' (hash k)"
  have gi: "?gi \<le> rt_mask t'" by (rule group_index_le [OF shape])
  note run' = run [unfolded insert_or_replace_def Let_def match_byte_and_empty_eq prod.case, folded t'_def]
  consider (cold) "insert_overflow L hash t' ?h k v = Some (r, u) \<or> insert_at_capacity L hash t' ?h k v = Some (r, u)"
    | (rep) si where "replace_value L t' ?gi si v = (r, u)"
    | (fill) si where "lowest_set_bit (match_empty (Grp L) (meta_group L t' ?gi)) = Some si"
        "u = fill_slot L t' ?h ?gi si k v"
    using run' by (auto split: option.splits if_splits)
  then show ?thesis
  proof cases
    case cold
    then show ?thesis using cold_keeps [OF t'] by blast
  next
    case rep
    then show ?thesis using replace_value_keeps [OF shape t'(4)] by blast
  next
    case fill
    then show ?thesis
      using fill_empty [OF shape gi _ _ t'(4)] lowest_set_bit_Some [OF fill(1)] match_group(2) [OF shape gi] by simp
  qed
qed

lemma ensure_capacity_keeps:
  assumes "table_wf L hash t" "can_grow t" "0 < rt_max_load t \<Longrightarrow> Q t" "ensure_capacity L hash t = Some u"
  shows "Q u"
proof (cases "rt_max_load t \<le> rt_len t")
  case True
  then have "grow_and_rehash L hash t = Some u"
    using assms(4) by (simp add: ensure_capacity_def grow_and_rehash_def)
  then show ?thesis using grow_keeps assms(1,2) by blast
next
  case False
  then show ?thesis using assms(3,4) by (simp add: ensure_capacity_def)
qed

lemma reserve_keeps:
  assumes "reserve L hash t additional = Some (Inr u)"
  shows "u = t \<or> Q u"
  using assms groups_for_capacity_ok fresh [of "groups_for_capacity L (rt_len t + additional)" t]
    rehash_keeps [of hash t "groups_for_capacity L (rt_len t + additional)"]
  by (auto simp: reserve_def Let_def split: if_splits)

lemma shrink_keeps:
  assumes run: "shrink_to_fit L hash t = Some u"
  shows "u = t \<or> u = raw_new \<or> Q u"
proof (cases "rt_len t = 0")
  case False
  let ?g = "groups_for_capacity L (rt_len t)"
  show ?thesis
  proof (cases "?g < rt_mask t + 1")
    case True
    then show ?thesis
      using rehash_keeps [OF _ groups_for_capacity_ok] run False by (auto simp: shrink_to_fit_def Let_def)
  next
    case no: False
    then show ?thesis using run False by (simp add: shrink_to_fit_def Let_def)
  qed
qed (use run in \<open>simp add: shrink_to_fit_def\<close>)

lemma clear_keeps:
  assumes wf: "table_wf L hash t" and load: "0 < rt_max_load t"
  shows "Q (clear L t)"
proof (rule replace [OF allocate_shape])
  show ok: "groups_ok (Suc (rt_mask t))" using allocated_shape [OF assms] by (simp add: table_shape_def)
  show "Q (allocate L t (Suc (rt_mask t)))" by (rule fresh [OF ok])
qed (use load in \<open>simp_all add: clear_def full_load_def\<close>, simp add: allocate_def)

lemma insert_at_keeps:
  assumes "table_shape L t" "Q t" "insertable L t h gi si m"
  shows "Q (insert_at L t h gi si k v m)"
  using assms(3) fill_empty [OF assms(1) _ _ _ assms(2)] by (simp add: insertable_def insert_at_eq)

end

section \<open>The two invariants\<close>

lemma and_push_bit_ne_0: "b AND push_bit n 1 \<noteq> 0 \<longleftrightarrow> bit b n" for b :: "'a::len word"
  by (simp add: and_exp_eq_0_iff_not_bit)

context overflow_layout
begin

lemma has_overflow_set_overflow_other:
  assumes "table_shape L t" "gi \<le> rt_mask t" "g \<le> rt_mask t" "g \<noteq> gi"
  shows "has_overflow_bit L (set_overflow_bit L t gi c) g d = has_overflow_bit L t g d"
proof -
  let ?p = "\<lambda>g. overflow_ptr (Overflow L) (rt_mask t) g LENGTH('w)"
  have noteq: ?thesis if "?p g \<noteq> ?p gi"
    using that by (simp add: has_overflow_bit_def set_overflow_bit_def Let_def)
  show ?thesis
  proof (cases "Overflow L")
    case ByteSeparate
    then show ?thesis using assms(4) by (intro noteq) simp
  next
    case EmbeddedOverflow
    have "gi * LENGTH('w) + (LENGTH('w) - 1) \<noteq> g * LENGTH('w) + (LENGTH('w) - 1)" using assms(4) by simp
    then have "gi * LENGTH('w) + LENGTH('w) - 1 \<noteq> g * LENGTH('w) + LENGTH('w) - 1"
      using len_gt_0 [where 'a = 'w] by linarith
    then show ?thesis using EmbeddedOverflow by (intro noteq) simp
  next
    case BitSeparate
    show ?thesis
    proof (cases "g div 8 = gi div 8")
      case True
      then have "g mod 8 \<noteq> gi mod 8" using assms(4) by (metis div_mult_mod_eq)
      then show ?thesis
        using BitSeparate True overflow_index [OF assms(1,2)]
        by (simp only: has_overflow_bit_def set_overflow_bit_def Let_def)
          (simp add: and_exp_eq_0_iff_not_bit bit_or_iff bit_exp_iff possible_bit_word)
    qed (use BitSeparate in \<open>intro noteq, simp\<close>)
  qed
qed

lemma fill_slot_has_overflow:
  assumes "gi \<le> rt_mask t" "si < GROUP_SIZE L" "g \<le> rt_mask t"
  shows "has_overflow_bit L (fill_slot L t h gi si k v) g c = has_overflow_bit L t g c"
  using has_overflow_set_meta [OF assms] by (simp add: fill_slot_def Let_def)

lemma fresh_no_overflow:
  "groups_ok n \<Longrightarrow> gi \<le> rt_mask (allocate L t n) \<Longrightarrow> \<not> has_overflow_bit L (allocate L t n) gi c"
proof -
  have "rt_ctrl (allocate L t n) = replicate (n * META_STRIDE L + overflow_bytes_to_zero (Overflow L) n) 0"
    by (simp add: allocate_def)
  then show "groups_ok n \<Longrightarrow> gi \<le> rt_mask (allocate L t n) \<Longrightarrow> \<not> has_overflow_bit L (allocate L t n) gi c"
    using zero_ctrl(1) [OF allocate_shape] by blast
qed

end

sublocale overflow_layout \<subseteq> full: insert_invariant L "overflow_full L :: ('k, 'v) raw_table \<Rightarrow> bool"
proof
  fix t :: "('k, 'v) raw_table" and gi h
  assume t: "table_shape L t" "gi \<le> rt_mask t" "\<And>si. si < GROUP_SIZE L \<Longrightarrow> slot_tag L t gi si \<noteq> EMPTY" "overflow_full L t"
  show "overflow_full L (set_overflow_bit L t gi (overflow_channel (Tag L) h))"
    unfolding overflow_full_def
  proof (intro allI impI)
    fix g c s
    assume g: "g \<le> rt_mask (set_overflow_bit L t gi (overflow_channel (Tag L) h))" "s < GROUP_SIZE L"
      "has_overflow_bit L (set_overflow_bit L t gi (overflow_channel (Tag L) h)) g c"
    show "slot_tag L (set_overflow_bit L t gi (overflow_channel (Tag L) h)) g s \<noteq> EMPTY"
      using g t slot_tag_set_overflow [OF t(2), of g s] has_overflow_set_overflow_other [OF t(1,2), of g]
      by (cases "g = gi") (auto simp: overflow_full_def)
  qed
next
  fix t :: "('k, 'v) raw_table" and gi si h k v
  assume t: "table_shape L t" "gi \<le> rt_mask t" "si < GROUP_SIZE L" "slot_tag L t gi si = EMPTY" "overflow_full L t"
  show "overflow_full L (fill_slot L t h gi si k v)"
    using t(5) by (auto simp: overflow_full_def fill_slot_tag [OF t(1-3)] fill_slot_has_overflow [OF t(2,3)])
next
  show "overflow_full L (allocate L t n)" if "groups_ok n" for t :: "('k, 'v) raw_table" and n
    using fresh_no_overflow [OF that] by (auto simp: overflow_full_def)
next
  show "overflow_full L u" if "rt_mask u = rt_mask t" "rt_ctrl u = rt_ctrl t" "overflow_full L t"
    for t u :: "('k, 'v) raw_table"
    using that by (simp add: overflow_full_def has_overflow_bit_def slot_tag_def)
qed

context overflow_layout
begin

lemma free_slots_sum:
  assumes core: "table_core L hash t"
  shows "(\<Sum>gi\<le>rt_mask t. free_slots L t gi) + rt_len t = Suc (rt_mask t) * GROUP_SIZE L"
proof -
  let ?n = "rt_mask t" and ?S = "GROUP_SIZE L"
  let ?full = "\<lambda>gi. {si. si < ?S \<and> slot_tag L t gi si \<noteq> EMPTY}"
  have part: "free_slots L t gi + card (?full gi) = ?S" for gi
  proof -
    have "card ({si. si < ?S \<and> slot_tag L t gi si = EMPTY} \<union> ?full gi) = free_slots L t gi + card (?full gi)"
      unfolding free_slots_def by (rule card_Un_disjoint) auto
    moreover have "{si. si < ?S \<and> slot_tag L t gi si = EMPTY} \<union> ?full gi = {..<?S}" by auto
    ultimately show ?thesis by simp
  qed
  have "rt_len t = length (occupied_slots L t)"
    using occupied_entries [OF core] core by (metis length_map table_core_def)
  also have "\<dots> = card (set (occupied_slots L t))"
    using distinct_occupied_slots [OF core] by (simp add: distinct_card)
  also have "set (occupied_slots L t) = Sigma {..?n} ?full"
    by (auto simp: set_occupied_slots [OF core] slot_None [OF core, symmetric] simp del: not_None_eq)
  also have "card \<dots> = (\<Sum>gi\<le>?n. card (?full gi))" by (subst card_SigmaI) auto
  finally have "(\<Sum>gi\<le>?n. free_slots L t gi) + rt_len t = (\<Sum>gi\<le>?n. free_slots L t gi + card (?full gi))"
    by (simp add: sum.distrib)
  then show ?thesis by (simp add: part)
qed

text \<open>Without removals, every lookup ends.\<close>

theorem overflow_full_stops:
  assumes core: "table_core L hash t" and load: "rt_len t \<le> full_load L (Suc (rt_mask t))" and "overflow_full L t"
  shows "lookup_stops L t h"
proof -
  have "rt_len t < Suc (rt_mask t) * GROUP_SIZE L"
    using load full_load_less [of "Suc (rt_mask t)"] by linarith
  then obtain gi si where "gi \<le> rt_mask t" "si < GROUP_SIZE L" "slot_tag L t gi si = EMPTY"
    using exists_empty [OF core] by blast
  then have "\<not> overflowed L t h gi" using assms(3) by (auto simp: overflow_full_def overflowed_def)
  then show ?thesis using \<open>gi \<le> rt_mask t\<close> by (auto simp: lookup_stops_def)
qed

lemma free_slots_fill:
  assumes "table_shape L t" "gi \<le> rt_mask t" "si < GROUP_SIZE L" "slot_tag L t gi si = EMPTY"
  shows "free_slots L (fill_slot L t h gi si k v) g \<le> free_slots L t g"
  unfolding free_slots_def by (rule card_mono) (auto simp: fill_slot_tag [OF assms(1-3)] split: if_splits)

end

text \<open>Layouts with one overflow bit per group.\<close>

locale bit_layout = overflow_layout +
  assumes bit_separate: "Overflow L = BitSeparate"
begin

lemma channel_irrelevant: "has_overflow_bit L t gi c = has_overflow_bit L t gi 0"
  by (simp add: has_overflow_bit_def bit_separate)

lemma drift_paid_stops:
  assumes core: "table_core L hash t" and "rt_len t \<le> rt_max_load t" "drift_paid L t"
  shows "lookup_stops L t h"
proof (rule ccontr)
  assume "\<not> lookup_stops L t h"
  then have "{gi. gi \<le> rt_mask t \<and> has_overflow_bit L t gi 0} = {..rt_mask t}"
    using channel_irrelevant by (fastforce simp: lookup_stops_def overflowed_def)
  then show False
    using assms(2,3) free_slots_sum [OF core] full_load_less [of "Suc (rt_mask t)"]
    by (simp add: drift_paid_def)
qed

text \<open>A removal from an overflowed group always finds its home group overflowed.\<close>

lemma home_overflowed:
  assumes core: "table_core L hash t" and at: "at_slot L t gi si k v" and "has_overflow_bit L t gi 0"
  shows "overflowed L t (hash k) (group_index L t (hash k))"
proof -
  have s: "gi \<le> rt_mask t" "si < GROUP_SIZE L" "slot L t gi si = Some (k, v)" using at by (simp_all add: at_slot_def)
  moreover have "si < BUCKET_STRIDE L" using s(2) layout_simps(4) by linarith
  ultimately have "reaches L t (hash k) gi" using slot_Some(3) [OF core] by blast
  then obtain p where p: "probe_group L t (hash k) p = gi"
    "\<And>q. q < p \<Longrightarrow> overflowed L t (hash k) (probe_group L t (hash k) q)" by (auto simp: reaches_def)
  have home: "probe_group L t (hash k) 0 = group_index L t (hash k)" by (simp add: probe_group_def)
  show ?thesis
  proof (cases "p = 0")
    case True
    then show ?thesis
      using p(1) assms(3) channel_irrelevant [of t gi "overflow_channel (Tag L) (hash k)"] home
      by (simp add: overflowed_def)
  next
    case False
    then show ?thesis using p(2) [of 0] home by simp
  qed
qed

lemma erase_keeps_paid:
  assumes core: "table_core L hash t" and at: "at_slot L t gi si k v" and "rt_len t \<le> rt_max_load t" "drift_paid L t"
  shows "drift_paid L (erase_slot L (bucket_moved_out L t gi si) (hash k) gi si)"
proof -
  let ?u = "erase_slot L (bucket_moved_out L t gi si) (hash k) gi si"
  let ?O = "{gi. gi \<le> rt_mask t \<and> has_overflow_bit L t gi 0}"
  note er = erase_slot_correct [OF core at, where h = "hash k"]
  have pos: "gi \<le> rt_mask t" "si < GROUP_SIZE L" "slot L t gi si \<noteq> None" using at by (simp_all add: at_slot_def)
  have "has_overflow_bit L ?u g 0 = has_overflow_bit L t g 0" if "g \<le> rt_mask t" for g
    using er(6) [OF that, of 0] channel_irrelevant [of _ g "overflow_channel (Tag L) 0"]
    unfolding overflowed_def by metis
  then have O: "{g. g \<le> rt_mask ?u \<and> has_overflow_bit L ?u g 0} = ?O" using er(4) by auto
  have free: "free_slots L ?u g = (if g = gi then Suc (free_slots L t g) else free_slots L t g)" for g
  proof -
    have "{s. s < GROUP_SIZE L \<and> slot_tag L ?u g s = EMPTY} =
      (if g = gi then insert si {s. s < GROUP_SIZE L \<and> slot_tag L t g s = EMPTY} else {s. s < GROUP_SIZE L \<and> slot_tag L t g s = EMPTY})"
      using er(7) pos(2) by auto
    then show ?thesis using slot_None [OF core pos(1,2)] pos(3) by (simp add: free_slots_def)
  qed
  have fin: "finite ?O" by (rule finite_subset [of _ "{..rt_mask t}"]) auto
  show ?thesis
  proof (cases "gi \<in> ?O")
    case True
    then have "overflowed L t (hash k) (group_index L t (hash k))" using home_overflowed [OF core at] by simp
    then have "Suc (rt_max_load ?u) = rt_max_load t" using er(3,5) assms(3) by simp
    moreover have "(\<Sum>g\<in>?O. free_slots L ?u g) = Suc (\<Sum>g\<in>?O. free_slots L t g)"
      using sum.remove [OF fin True, of "free_slots L ?u"] sum.remove [OF fin True, of "free_slots L t"]
      by (simp add: free)
    ultimately show ?thesis using assms(4) er(4) unfolding drift_paid_def O by simp
  next
    case False
    then have "(\<Sum>g\<in>?O. free_slots L ?u g) = (\<Sum>g\<in>?O. free_slots L t g)"
      by (intro sum.cong) (auto simp: free)
    moreover have "rt_max_load ?u \<le> rt_max_load t" using er(5) by simp
    ultimately show ?thesis using assms(4) er(4) unfolding drift_paid_def O by simp
  qed
qed

end

sublocale bit_layout \<subseteq> paid: insert_invariant L "drift_paid L :: ('k, 'v) raw_table \<Rightarrow> bool"
proof
  fix t :: "('k, 'v) raw_table" and gi h
  assume t: "table_shape L t" "gi \<le> rt_mask t" "\<And>si. si < GROUP_SIZE L \<Longrightarrow> slot_tag L t gi si \<noteq> EMPTY" "drift_paid L t"
  let ?u = "set_overflow_bit L t gi (overflow_channel (Tag L) h)"
  have free: "free_slots L ?u g = free_slots L t g" if "g \<le> rt_mask t" for g
    using slot_tag_set_overflow [OF t(2) that] unfolding free_slots_def by (metis (no_types, lifting))
  have zero: "free_slots L t gi = 0" using t(3) by (auto simp: free_slots_def)
  have "(\<Sum>g\<in>{g. g \<le> rt_mask t \<and> has_overflow_bit L ?u g 0}. free_slots L ?u g)
      \<le> (\<Sum>g\<in>insert gi {g. g \<le> rt_mask t \<and> has_overflow_bit L t g 0}. free_slots L t g)"
  proof (rule order_trans [OF eq_refl sum_mono2])
    show "(\<Sum>g\<in>{g. g \<le> rt_mask t \<and> has_overflow_bit L ?u g 0}. free_slots L ?u g) =
      (\<Sum>g\<in>{g. g \<le> rt_mask t \<and> has_overflow_bit L ?u g 0}. free_slots L t g)"
      using free by (intro sum.cong) auto
    show "{g. g \<le> rt_mask t \<and> has_overflow_bit L ?u g 0} \<subseteq> insert gi {g. g \<le> rt_mask t \<and> has_overflow_bit L t g 0}"
      using has_overflow_set_overflow_other [OF t(1,2)] by auto
  qed auto
  also have "\<dots> = (\<Sum>g\<in>{g. g \<le> rt_mask t \<and> has_overflow_bit L t g 0}. free_slots L t g)"
    using zero by (simp add: sum.insert_if)
  finally show "drift_paid L ?u" using t(4) by (simp add: drift_paid_def)
next
  fix t :: "('k, 'v) raw_table" and gi si h k v
  assume t: "table_shape L t" "gi \<le> rt_mask t" "si < GROUP_SIZE L" "slot_tag L t gi si = EMPTY" "drift_paid L t"
  have "(\<Sum>g\<in>{g. g \<le> rt_mask t \<and> has_overflow_bit L t g 0}. free_slots L (fill_slot L t h gi si k v) g)
      \<le> (\<Sum>g\<in>{g. g \<le> rt_mask t \<and> has_overflow_bit L t g 0}. free_slots L t g)"
    by (rule sum_mono) (rule free_slots_fill [OF t(1-4)])
  moreover have "{g. g \<le> rt_mask t \<and> has_overflow_bit L (fill_slot L t h gi si k v) g 0} =
      {g. g \<le> rt_mask t \<and> has_overflow_bit L t g 0}"
    using fill_slot_has_overflow [OF t(2,3)] by auto
  ultimately show "drift_paid L (fill_slot L t h gi si k v)" using t(5) by (simp add: drift_paid_def)
next
  show "drift_paid L (allocate L t n)" if "groups_ok n" for t :: "('k, 'v) raw_table" and n
  proof -
    have "{gi. gi \<le> rt_mask (allocate L t n) \<and> has_overflow_bit L (allocate L t n) gi 0} = {}"
      using fresh_no_overflow [OF that] by auto
    then show ?thesis using groups_ok_pos [OF that] unfolding drift_paid_def by (simp only: sum.empty) simp
  qed
next
  show "drift_paid L u" if "rt_mask u = rt_mask t" "rt_ctrl u = rt_ctrl t" "rt_max_load u = rt_max_load t" "drift_paid L t"
    for t u :: "('k, 'v) raw_table"
    using that by (simp add: drift_paid_def has_overflow_bit_def free_slots_def slot_tag_def)
qed

end
