(* ===== verification/Overflow_Reachable.thy ===== *)
theory Overflow_Reachable
  imports Overflow_Liveness
begin

text \<open>
  The states a table can reach through its interface, as a step relation, and
  the invariants of all of them: well-formedness and that lookups end.
\<close>

inductive reachable :: "'w::len layout \<Rightarrow> ('k \<Rightarrow> u64) \<Rightarrow> bool \<Rightarrow> ('k, 'v) raw_table \<Rightarrow> bool"
  for L :: "'w::len layout" and hash :: "'k \<Rightarrow> u64" and removals :: bool where
  start: "reachable L hash removals (with_capacity L c)"
| insert: "reachable L hash removals t \<Longrightarrow> can_grow t \<Longrightarrow> insert_or_replace L hash t k v = Some (r, u) \<Longrightarrow>
    reachable L hash removals u"
| entry_at: "reachable L hash removals t \<Longrightarrow> find_for_entry L t (hash k) k = Some (ProbeVacant (Some (gi, si, m))) \<Longrightarrow>
    reachable L hash removals (insert_at L t (hash k) gi si k v m)"
| entry_grow: "reachable L hash removals t \<Longrightarrow> can_grow t \<Longrightarrow> find_for_entry L t (hash k) k = Some (ProbeVacant None) \<Longrightarrow>
    ensure_capacity L hash t = Some s \<Longrightarrow> insert_no_check L s (hash k) k v = Some (p, u) \<Longrightarrow>
    reachable L hash removals u"
| remove: "removals \<Longrightarrow> reachable L hash removals t \<Longrightarrow> remove_by_hash L t (hash k) (\<lambda>x. x = k) = Some (r, u) \<Longrightarrow>
    reachable L hash removals u"
| clear: "reachable L hash removals t \<Longrightarrow> reachable L hash removals (clear L t)"
| reserve: "reachable L hash removals t \<Longrightarrow> reserve L hash t additional = Some (Inr u) \<Longrightarrow> reachable L hash removals u"
| shrink: "reachable L hash removals t \<Longrightarrow> capacity_ok L (rt_len t) \<Longrightarrow> shrink_to_fit L hash t = Some u \<Longrightarrow> reachable L hash removals u"
| clone: "reachable L hash removals t \<Longrightarrow> reachable L hash removals (clone_table L t)"
| drain: "reachable L hash removals t \<Longrightarrow> reachable L hash removals (snd (drain L t))"

section \<open>Every reachable state is well-formed\<close>

locale safe_layout = overflow_layout +
  assumes sentinel: "sentinel_ok L"
begin

lemma allocated_core: "table_wf L hash t \<Longrightarrow> 0 < rt_max_load t \<Longrightarrow> table_core L hash t"
  by (auto simp: table_wf_def unallocated_def)

lemma ensure_capacity_room:
  assumes "table_wf L hash t" "can_grow t" "ensure_capacity L hash t = Some s"
  shows "table_core L hash s" "rt_len s < rt_max_load s" "rt_max_load s \<le> full_load L (Suc (rt_mask s))"
    "table_map s = table_map t"
proof -
  have "table_core L hash s \<and> rt_len s < rt_max_load s \<and> rt_max_load s \<le> full_load L (Suc (rt_mask s)) \<and> table_map s = table_map t"
  proof (cases "rt_max_load t \<le> rt_len t")
    case True
    then have "grow_and_rehash L hash t = Some s"
      using assms(3) by (simp add: ensure_capacity_def grow_and_rehash_def)
    then show ?thesis by (rule_tac grow_correct [OF assms(1,2)]) auto
  next
    case False
    then show ?thesis
      using assms allocated_core [OF assms(1)] by (auto simp: ensure_capacity_def table_wf_def unallocated_def)
  qed
  then show "table_core L hash s" "rt_len s < rt_max_load s" "rt_max_load s \<le> full_load L (Suc (rt_mask s))"
    "table_map s = table_map t" by simp_all
qed

lemma vacant_absent:
  assumes "table_wf L hash t" "find_for_entry L t (hash k) k = Some (ProbeVacant x)"
  shows "table_map t k = None"
proof (rule ccontr)
  assume "table_map t k \<noteq> None"
  then obtain v where "table_map t k = Some v" by blast
  then show False using find_for_entry_present [OF assms(1)] assms(2) by fastforce
qed

lemma vacant_slot:
  assumes wf: "table_wf L hash t" and run: "find_for_entry L t (hash k) k = Some (ProbeVacant (Some (gi, si, m)))"
  shows "table_core L hash t" "rt_len t < rt_max_load t" "table_map t k = None" "insertable L t (hash k) gi si m"
proof -
  show absent: "table_map t k = None" using vacant_absent [OF assms] .
  have st: "lookup_stops L t (hash k)" using search_diverges(2) [OF wf sentinel absent] run by auto
  show "table_core L hash t" "rt_len t < rt_max_load t" "insertable L t (hash k) gi si m"
    by (rule find_for_entry_absent [OF wf sentinel absent st]; use run in auto)+
qed

lemma wf_insert:
  assumes wf: "table_wf L hash t" and "can_grow t" and run: "insert_or_replace L hash t k v = Some (r, u)"
  shows "table_wf L hash u" "r = table_map t k" "table_map u = (table_map t)(k \<mapsto> v)"
proof -
  have "table_map t k = None \<Longrightarrow> 0 < rt_max_load t \<Longrightarrow> lookup_stops L t (hash k)"
    using search_diverges(3) [OF wf sentinel] run by force
  from insert_or_replace_correct [OF wf assms(2) this, of v]
  show "table_wf L hash u" "r = table_map t k" "table_map u = (table_map t)(k \<mapsto> v)" using run by auto
qed

lemma wf_entry_at:
  assumes "table_wf L hash t" "find_for_entry L t (hash k) k = Some (ProbeVacant (Some (gi, si, m)))"
  shows "table_wf L hash (insert_at L t (hash k) gi si k v m)"
  using insert_at_correct(1) [OF assms(1) vacant_slot [OF assms]] .

lemma wf_entry_grow:
  assumes wf: "table_wf L hash t" and "can_grow t" "find_for_entry L t (hash k) k = Some (ProbeVacant None)"
    and run: "ensure_capacity L hash t = Some s" "insert_no_check L s (hash k) k v = Some (p, u)"
  shows "table_wf L hash u"
proof -
  note s = ensure_capacity_room [OF wf assms(2) run(1)]
  have "table_map s k = None" using vacant_absent [OF wf assms(3)] s(4) by simp
  then show ?thesis by (rule insert_no_check_wf [OF s(1-3), where v = v]) (use run(2) in auto)
qed

lemma remove_absent_same:
  assumes wf: "table_wf L hash t" and absent: "table_map t k = None"
    and run: "remove_by_hash L t (hash k) (\<lambda>x. x = k) = Some (r, u)"
  shows "u = t"
proof (cases "lookup_stops L t (hash k)")
  case True
  then show ?thesis using remove_absent [OF wf sentinel, of "\<lambda>x. x = k"] absent run by simp
next
  case False
  then show ?thesis using search_diverges(1) [OF wf sentinel absent] run by (simp add: remove_by_hash_def)
qed

lemma wf_remove:
  assumes wf: "table_wf L hash t" and run: "remove_by_hash L t (hash k) (\<lambda>x. x = k) = Some (r, u)"
  shows "table_wf L hash u"
proof (cases "table_map t k")
  case None
  then show ?thesis using remove_absent_same [OF wf None run] wf by simp
next
  case (Some w)
  then show ?thesis by (rule remove_present [OF wf]) (use run in auto)
qed

lemma wf_manage:
  assumes wf: "table_wf L hash t"
  shows "table_wf L hash (clear L t)"
    and "reserve L hash t n = Some (Inr u) \<Longrightarrow> table_wf L hash u"
    and "capacity_ok L (rt_len t) \<Longrightarrow> shrink_to_fit L hash t = Some u \<Longrightarrow> table_wf L hash u"
    and "table_wf L hash (clone_table L t)"
proof -
  show "table_wf L hash (clear L t)" by (rule clear_correct(1) [OF wf])
  show "table_wf L hash u" if "reserve L hash t n = Some (Inr u)"
  proof -
    have "rt_len t + n < 2 ^ 64" using that by (simp add: reserve_def split: if_splits)
    then show ?thesis by (rule reserve_correct [OF wf]) (use that in auto)
  qed
  show "table_wf L hash u" if "capacity_ok L (rt_len t)" "shrink_to_fit L hash t = Some u"
    by (rule shrink_to_fit_correct [OF wf that(1)]) (use that(2) in auto)
  show "table_wf L hash (clone_table L t)"
    using clone_table_eq [OF wf] wf by (cases "rt_max_load t = 0") (simp_all add: clone_table_def)
qed

theorem reachable_wf: "reachable L hash removals t \<Longrightarrow> table_wf L hash t"
proof (induction rule: reachable.induct)
  case (start c)
  show ?case by (rule with_capacity_correct(1))
next
  case (drain t)
  then show ?case by (simp add: drain_def)
qed (auto intro: wf_insert(1) wf_entry_at wf_entry_grow wf_remove wf_manage)

end

section \<open>Reachable states where lookups end\<close>

text \<open>An invariant that makes lookups end, with or without removals.\<close>

locale live_invariant = safe_layout L + insert_invariant L Q
  for L :: "'w::len layout" and Q :: "('k, 'v) raw_table \<Rightarrow> bool" +
  fixes removals :: bool
  assumes stops: "table_core L hash t \<Longrightarrow> rt_len t \<le> rt_max_load t \<Longrightarrow> rt_max_load t \<le> full_load L (Suc (rt_mask t)) \<Longrightarrow>
      Q t \<Longrightarrow> lookup_stops L t h"
    and erase: "removals \<Longrightarrow> table_core L hash t \<Longrightarrow> rt_len t \<le> rt_max_load t \<Longrightarrow> at_slot L t gi si k v \<Longrightarrow> Q t \<Longrightarrow>
      Q (erase_slot L (bucket_moved_out L t gi si) (hash k) gi si)"
begin

lemma Q_allocated: "unallocated t \<or> Q t \<Longrightarrow> 0 < rt_max_load t \<Longrightarrow> Q t"
  by (auto simp: unallocated_def)

lemma remove_keeps:
  assumes wf: "table_wf L hash t" and "unallocated t \<or> Q t" "removals"
    and run: "remove_by_hash L t (hash k) (\<lambda>x. x = k) = Some (r, u)"
  shows "unallocated u \<or> Q u"
proof (cases "table_map t k")
  case None
  then show ?thesis using remove_absent_same [OF wf None run] assms(2) by simp
next
  case (Some w)
  obtain gi si where f: "find_by_hash L t (hash k) (\<lambda>x. x = k) = Some (Some (gi, si))"
    and core: "table_core L hash t" and at: "at_slot L t gi si k w" using find_present [OF wf Some] .
  then have u: "u = erase_slot L (bucket_moved_out L t gi si) (hash k) gi si"
    using run by (simp add: remove_by_hash_def)
  have "Suc (rt_len u) = rt_len t" using erase_slot_correct(3) [OF core at] u by simp
  then have load: "rt_len t \<le> rt_max_load t" "0 < rt_max_load t" using wf by (auto simp: table_wf_def unallocated_def)
  then show ?thesis using erase [OF assms(3) core load(1) at] Q_allocated [OF assms(2)] u by simp
qed

lemma manage_keeps:
  assumes wf: "table_wf L hash t" and Q: "unallocated t \<or> Q t"
  shows "unallocated (clear L t) \<or> Q (clear L t)"
    and "reserve L hash t n = Some (Inr u) \<Longrightarrow> unallocated u \<or> Q u"
    and "shrink_to_fit L hash t = Some u \<Longrightarrow> unallocated u \<or> Q u"
    and "unallocated (clone_table L t) \<or> Q (clone_table L t)"
proof -
  show "unallocated (clear L t) \<or> Q (clear L t)"
    using clear_keeps [OF wf] Q by (cases "rt_max_load t = 0") (simp_all add: clear_def)
  show "unallocated u \<or> Q u" if "reserve L hash t n = Some (Inr u)"
    using reserve_keeps [OF that] Q by auto
  show "unallocated u \<or> Q u" if "shrink_to_fit L hash t = Some u"
    using shrink_keeps [OF that] Q by auto
  show "unallocated (clone_table L t) \<or> Q (clone_table L t)"
    using clone_table_eq [OF wf] Q by (cases "rt_max_load t = 0") (simp_all add: clone_table_def)
qed

theorem reachable_Q: "reachable L hash removals t \<Longrightarrow> unallocated t \<or> Q t"
proof (induction rule: reachable.induct)
  case (start c)
  show ?case using fresh [OF groups_for_capacity_ok, of raw_new c] by (simp add: with_capacity_def)
next
  case (insert t k v r u)
  then show ?case using insert_or_replace_keeps [OF reachable_wf] Q_allocated by blast
next
  case (entry_at t k gi si m v)
  note vac = vacant_slot [OF reachable_wf [OF entry_at(1)] entry_at(2)]
  show ?case using insert_at_keeps [OF core_shape [OF vac(1)] _ vac(4)] Q_allocated [OF entry_at(3)] vac(2) by simp
next
  case (entry_grow t k s v p u)
  have "Q s" using ensure_capacity_keeps [OF reachable_wf [OF entry_grow(1)] entry_grow(2) Q_allocated [OF entry_grow(6)] entry_grow(4)] .
  then show ?case
    using insert_no_check_keeps [OF entry_grow(5) core_shape [OF ensure_capacity_room(1)
        [OF reachable_wf [OF entry_grow(1)] entry_grow(2,4)]]] by simp
next
  case (remove t k r u)
  then show ?case using remove_keeps [OF reachable_wf] by blast
next
  case (drain t)
  then show ?case by (simp add: drain_def)
qed (use reachable_wf manage_keeps in blast)+

text \<open>In such states every lookup returns.\<close>

theorem reachable_stops:
  fixes t :: "('k, 'v) raw_table"
  assumes "reachable L hash removals t"
  shows "lookup_stops L t h"
proof (cases "unallocated t")
  case True
  then show ?thesis by (rule find_unallocated(2) [OF sentinel])
next
  case False
  then have "table_core L hash t" "rt_len t \<le> rt_max_load t" "rt_max_load t \<le> full_load L (Suc (rt_mask t))" "Q t"
    using reachable_wf [OF assms] reachable_Q [OF assms] by (auto simp: table_wf_def)
  then show ?thesis by (rule stops)
qed

end

sublocale safe_layout \<subseteq> insert_only: live_invariant L "overflow_full L :: ('k, 'v) raw_table \<Rightarrow> bool" False
  by unfold_locales (auto intro: overflow_full_stops)

locale safe_bit_layout = bit_layout + safe_layout

sublocale safe_bit_layout \<subseteq> with_removals: live_invariant L "drift_paid L :: ('k, 'v) raw_table \<Rightarrow> bool" True
  by unfold_locales (auto intro: drift_paid_stops erase_keeps_paid)

context safe_layout
begin

lemma find_returns:
  assumes "table_wf L hash t" "lookup_stops L t (hash k)"
  shows "find_by_hash L t (hash k) (\<lambda>x. x = k) \<noteq> None"
proof (cases "table_map t k")
  case None
  then show ?thesis using find_absent [OF assms(1) sentinel, of "\<lambda>x. x = k" "hash k"] assms(2) by simp
next
  case (Some v)
  then show ?thesis by (rule find_present [OF assms(1)]) simp
qed

lemma insert_only_find:
  "reachable L hash False t \<Longrightarrow> find_by_hash L t (hash k) (\<lambda>x. x = k) \<noteq> None"
  by (rule find_returns [OF reachable_wf insert_only.reachable_stops])

end

context safe_bit_layout
begin

lemma removals_find:
  "reachable L hash True t \<Longrightarrow> find_by_hash L t (hash k) (\<lambda>x. x = k) \<noteq> None"
  by (rule find_returns [OF reachable_wf with_removals.reachable_stops])

end

section \<open>The crate's layouts\<close>

lemma sentinel_named:
  "sentinel_ok (SplitsiesLayout f)" "sentinel_ok (UfmLayout f)" "sentinel_ok (GapsLayout f)"
  "sentinel_ok (LowTag255_1bit f)" "sentinel_ok HighTag128_1bitAnd" "sentinel_ok HighTag128_8bitAnd"
  "sentinel_ok (Splitsies32Layout f)" "sentinel_ok (Ufm64Layout f)"
  by (simp_all add: sentinel_ok_def named_layout_defs separate_layout_defs embedded_layout_defs)

interpretation splitsies: safe_layout "SplitsiesLayout f" for f
  by unfold_locales (simp_all add: valid_named_layouts sentinel_named)

interpretation ufm: safe_layout "UfmLayout f" for f
  by unfold_locales (simp_all add: valid_named_layouts sentinel_named)

interpretation gaps: safe_layout "GapsLayout f" for f
  by unfold_locales (simp_all add: valid_named_layouts sentinel_named)

interpretation high128: safe_layout HighTag128_8bitAnd
  by unfold_locales (simp_all add: valid_named_layouts sentinel_named)

interpretation splitsies32: safe_layout "Splitsies32Layout f" for f
  by unfold_locales (simp_all add: valid_named_layouts sentinel_named)

interpretation ufm64: safe_layout "Ufm64Layout f" for f
  by unfold_locales (simp_all add: valid_named_layouts sentinel_named)

text \<open>The 64-slot layouts with separate overflow bytes are sound once allocated.\<close>

interpretation splitsies64: overflow_layout "Splitsies64Layout f" for f
  by unfold_locales (simp_all add: valid_named_layouts)

interpretation low255_1bit: safe_bit_layout "LowTag255_1bit f" for f
  by unfold_locales (simp_all add: valid_named_layouts sentinel_named, simp add: LowTag255_1bit_def Layout16_def)

interpretation high128_1bit: safe_bit_layout HighTag128_1bitAnd
  by unfold_locales (simp_all add: valid_named_layouts sentinel_named, simp add: HighTag128_1bitAnd_def Layout16And_def)

lemma safe_layoutI: "valid_layout L \<Longrightarrow> sentinel_ok L \<Longrightarrow> safe_layout L"
  by unfold_locales

lemma safe_bit_layoutI: "valid_layout L \<Longrightarrow> sentinel_ok L \<Longrightarrow> Overflow L = BitSeparate \<Longrightarrow> safe_bit_layout L"
  by unfold_locales

end
