(* ===== verification/Overflow_Properties.thy ===== *)
theory Overflow_Properties
  imports Overflow_Reachable
begin

text \<open>
  The properties of the overflow-bit engine, for every layout that satisfies
  \<open>valid_layout\<close>. Each follows from the lemmas of the locales of the
  preceding theories; each that has hypotheses is applied to a concrete table.
\<close>

section \<open>Sample tables\<close>

text \<open>
  A Splitsies table with two groups under the identity hash, and the same table
  with one entry.
\<close>

abbreviation sample_layout :: "16 layout" where
  "sample_layout \<equiv> SplitsiesLayout PureRust"

abbreviation (input) sample_hash :: "u64 \<Rightarrow> u64" where
  "sample_hash \<equiv> \<lambda>k. k"

definition sample0 :: "(u64, nat) raw_table" where
  "sample0 = with_capacity sample_layout 20"

definition sample1 :: "(u64, nat) raw_table" where
  "sample1 = snd (the (insert_or_replace sample_layout sample_hash sample0 5 7))"

lemma sample0_reachable: "reachable sample_layout sample_hash removals sample0"
  unfolding sample0_def by (rule reachable.start)

lemma sample0_facts:
  "table_wf sample_layout sample_hash sample0" "table_map sample0 = Map.empty" "can_grow sample0"
  "rt_max_load sample0 = 28" "rt_mask sample0 = 1" "rt_len sample0 = 0"
  "lookup_stops sample_layout sample0 h"
proof -
  show "table_wf sample_layout sample_hash sample0" "table_map sample0 = Map.empty" "rt_len sample0 = 0"
    unfolding sample0_def by (rule splitsies.with_capacity_correct)+
  show ml: "rt_max_load sample0 = 28" and m: "rt_mask sample0 = 1" by code_simp+
  show "can_grow sample0" using m by (simp add: can_grow_def)
  show "lookup_stops sample_layout sample0 h"
    by (rule splitsies.insert_only.reachable_stops [OF sample0_reachable])
qed

lemma sample1_insert:
  "insert_or_replace sample_layout sample_hash sample0 5 7 = Some (None, sample1)"
  "table_wf sample_layout sample_hash sample1" "table_map sample1 = [5 \<mapsto> 7]"
proof -
  obtain u where "insert_or_replace sample_layout sample_hash sample0 5 7 = Some (None, u)"
    "table_wf sample_layout sample_hash u" "table_map u = [5 \<mapsto> 7]"
    using splitsies.insert_or_replace_correct [OF sample0_facts(1,3), of 5 7] sample0_facts(2,7) by auto
  then show "insert_or_replace sample_layout sample_hash sample0 5 7 = Some (None, sample1)"
    "table_wf sample_layout sample_hash sample1" "table_map sample1 = [5 \<mapsto> 7]"
    by (simp_all add: sample1_def)
qed

lemma sample1_reachable: "reachable sample_layout sample_hash removals sample1"
  by (rule reachable.insert [OF sample0_reachable sample0_facts(3) sample1_insert(1)])

lemma sample1_facts:
  "rt_max_load sample1 = 28" "rt_mask sample1 = 1" "can_grow sample1" "rt_len sample1 = 1"
  "lookup_stops sample_layout sample1 h"
proof -
  show "rt_max_load sample1 = 28" and m: "rt_mask sample1 = 1" and "rt_len sample1 = 1" by code_simp+
  show "can_grow sample1" using m by (simp add: can_grow_def)
  show "lookup_stops sample_layout sample1 h"
    by (rule splitsies.insert_only.reachable_stops [OF sample1_reachable])
qed

section \<open>Operations as map operations\<close>

text \<open>
  C1. Insertion. On a well-formed table that may double its group count, and whose
  lookup of the key ends if the key is new (some group lacks the overflow bit of its
  channel, or the table is unallocated), \<^verbatim>\<open>insert_or_replace\<close> returns the value the key
  had, the new table is well-formed and its map is the old one updated at the key,
  whichever of its paths runs: replacing in the home group, filling a home slot, the
  overflow path, or growing first. C9 and C10 show that the condition on the lookup
  cannot be dropped; C7 and C8 give reachable states in which it holds.
\<close>

theorem insert_or_replace_refines:
  assumes "valid_layout L" "table_wf L hash t" "can_grow t"
    and "table_map t k = None \<Longrightarrow> 0 < rt_max_load t \<Longrightarrow> lookup_stops L t (hash k)"
  shows "\<exists>u. insert_or_replace L hash t k v = Some (table_map t k, u) \<and>
    table_wf L hash u \<and> table_map u = (table_map t)(k \<mapsto> v)"
  using overflow_layout.insert_or_replace_correct [OF overflow_layout.intro, OF assms] .

theorem insert_or_replace_refines_witness:
  "\<exists>u. insert_or_replace sample_layout sample_hash sample1 6 8 = Some (None, u) \<and>
    table_wf sample_layout sample_hash u \<and> table_map u = [5 \<mapsto> 7, 6 \<mapsto> 8]"
  using insert_or_replace_refines [OF valid_named_layouts(1) sample1_insert(2) sample1_facts(3), of 6 8]
    sample1_facts(5) sample1_insert(3) by simp

text \<open>
  C2. Lookup. \<^verbatim>\<open>find_by_hash\<close> returns the position of a key that is in the map; for
  a key that is not, it returns nothing found when some group lacks the overflow
  bit of the key's channel, and runs forever exactly when none does.
\<close>

theorem find_by_hash_exact:
  assumes "valid_layout L" "sentinel_ok L" "table_wf L hash t"
  shows "case table_map t k of
      Some v \<Rightarrow> \<exists>gi si. find_by_hash L t (hash k) (\<lambda>x. x = k) = Some (Some (gi, si)) \<and> at_slot L t gi si k v
    | None \<Rightarrow> find_by_hash L t (hash k) (\<lambda>x. x = k) = (if lookup_stops L t (hash k) then Some None else None)"
proof (cases "table_map t k")
  case None
  then show ?thesis
    using overflow_layout.find_absent [OF overflow_layout.intro, OF assms(1,3,2), of "\<lambda>x. x = k" "hash k"] by simp
next
  case (Some v)
  obtain gi si where "find_by_hash L t (hash k) (\<lambda>x. x = k) = Some (Some (gi, si))" "at_slot L t gi si k v"
    using overflow_layout.find_present [OF overflow_layout.intro, OF assms(1,3) Some] .
  then show ?thesis using Some by auto
qed

theorem find_by_hash_exact_witness:
  "(\<exists>gi si. find_by_hash sample_layout sample1 5 (\<lambda>x. x = 5) = Some (Some (gi, si)) \<and> at_slot sample_layout sample1 gi si 5 7) \<and>
   find_by_hash sample_layout sample1 6 (\<lambda>x. x = 6) = Some None"
  using find_by_hash_exact [OF valid_named_layouts(1) sentinel_named(1) sample1_insert(2), of 5]
    find_by_hash_exact [OF valid_named_layouts(1) sentinel_named(1) sample1_insert(2), of 6]
    sample1_facts(5) sample1_insert(3) by simp



text \<open>
  C4. Rehashing. \<^verbatim>\<open>rehash_with\<close> to a group count whose full load admits the entries
  returns, keeps the map, and yields a table of that group count with its full
  load limit: no entry is lost or duplicated, and none of its insertions loops.
\<close>

theorem rehash_with_refines:
  assumes "valid_layout L" "table_wf L hash t" "groups_ok n" "rt_len t \<le> full_load L n"
  shows "\<exists>u. rehash_with L hash t n = Some u \<and> table_wf L hash u \<and> table_map u = table_map t \<and>
    rt_len u = rt_len t \<and> num_groups u = n \<and> rt_max_load u = full_load L n"
proof -
  obtain u where "rehash_with L hash t n = Some u" "table_wf L hash u" "table_map u = table_map t"
    "rt_mask u = n - 1" "rt_max_load u = full_load L n" "rt_len u = rt_len t"
    using overflow_layout.rehash_with_correct [OF overflow_layout.intro, OF assms] .
  then show ?thesis using groups_ok_pos [OF assms(3)] by (simp add: num_groups_def)
qed

theorem rehash_with_refines_witness:
  "\<exists>u. rehash_with sample_layout sample_hash sample1 4 = Some u \<and> table_wf sample_layout sample_hash u \<and>
    table_map u = [5 \<mapsto> 7] \<and> rt_len u = 1 \<and> num_groups u = 4 \<and> rt_max_load u = 56"
proof -
  have n: "groups_ok 4" unfolding groups_ok_def by (rule exI [of _ 2]) simp
  have load: "full_load sample_layout 4 = 56"
    by (simp add: full_load_def max_load_for_capacity_def SplitsiesLayout_def Layout16_def)
  show ?thesis
    using rehash_with_refines [OF valid_named_layouts(1) sample1_insert(2) n] load sample1_facts(4) sample1_insert(3)
    by simp
qed

text \<open>
  C5. The entry path. \<^verbatim>\<open>find_for_entry\<close> finds the position of a key in the map. For
  a key that is not in it, whose lookup ends, it may name a slot; filling that
  slot with \<^verbatim>\<open>insert_at\<close> gives a well-formed table with the updated map and the
  entry at that position.
\<close>

theorem find_for_entry_insert_at:
  assumes "valid_layout L" "sentinel_ok L" "table_wf L hash t"
    and "table_map t k = None \<Longrightarrow> lookup_stops L t (hash k)"
  shows "\<exists>r. find_for_entry L t (hash k) k = Some r \<and>
    (case r of
       ProbeFound gi si \<Rightarrow> \<exists>v. table_map t k = Some v \<and> at_slot L t gi si k v
     | ProbeVacant None \<Rightarrow> table_map t k = None
     | ProbeVacant (Some (gi, si, m)) \<Rightarrow> table_map t k = None \<and>
         table_wf L hash (insert_at L t (hash k) gi si k v m) \<and>
         table_map (insert_at L t (hash k) gi si k v m) = (table_map t)(k \<mapsto> v) \<and>
         at_slot L (insert_at L t (hash k) gi si k v m) gi si k v)"
proof (cases "table_map t k")
  case (Some w)
  obtain gi si where "find_for_entry L t (hash k) k = Some (ProbeFound gi si)" "at_slot L t gi si k w"
    using overflow_layout.find_for_entry_present [OF overflow_layout.intro, OF assms(1,3) Some] .
  then show ?thesis using Some by simp
next
  case None
  show ?thesis
  proof (rule overflow_layout.find_for_entry_absent [OF overflow_layout.intro, OF assms(1,3,2) None assms(4)])
    assume "find_for_entry L t (hash k) k = Some (ProbeVacant None)"
    then show ?thesis using None by simp
  next
    fix gi si m
    assume run: "find_for_entry L t (hash k) k = Some (ProbeVacant (Some (gi, si, m)))"
      and slot: "insertable L t (hash k) gi si m" "table_core L hash t" "rt_len t < rt_max_load t"
    show ?thesis
      using run None overflow_layout.insert_at_correct [OF overflow_layout.intro, OF assms(1,3) slot(2,3) None slot(1)]
      by simp
  qed (use None in simp)
qed

theorem find_for_entry_insert_at_witness:
  "\<exists>r. find_for_entry sample_layout sample1 6 6 = Some r \<and>
    (case r of
       ProbeFound gi si \<Rightarrow> \<exists>v. table_map sample1 6 = Some v \<and> at_slot sample_layout sample1 gi si 6 v
     | ProbeVacant None \<Rightarrow> table_map sample1 6 = None
     | ProbeVacant (Some (gi, si, m)) \<Rightarrow> table_map sample1 6 = None \<and>
         table_wf sample_layout sample_hash (insert_at sample_layout sample1 6 gi si 6 8 m) \<and>
         table_map (insert_at sample_layout sample1 6 gi si 6 8 m) = (table_map sample1)(6 \<mapsto> 8) \<and>
         at_slot sample_layout (insert_at sample_layout sample1 6 gi si 6 8 m) gi si 6 8)"
  using find_for_entry_insert_at [OF valid_named_layouts(1) sentinel_named(1) sample1_insert(2) sample1_facts(5), of 6 8] .

section \<open>Reachable states\<close>

text \<open>
  C6. Every state a table can reach from \<^verbatim>\<open>new\<close> or \<^verbatim>\<open>with_capacity\<close> by insertions,
  the entry path, removals, \<^verbatim>\<open>clear\<close>, \<^verbatim>\<open>reserve\<close>, \<^verbatim>\<open>shrink_to_fit\<close>, cloning and
  draining is well-formed, and its length field is the size of its map.
\<close>

theorem reachable_table_wf:
  assumes "valid_layout L" "sentinel_ok L" "reachable L hash removals t"
  shows "table_wf L hash t \<and> rt_len t = card (dom (table_map t))"
  using safe_layout.reachable_wf [OF safe_layoutI, OF assms]
    overflow_layout.len_card [OF overflow_layout.intro, OF assms(1)] by blast

theorem reachable_table_wf_witness:
  "table_wf sample_layout sample_hash sample1 \<and> rt_len sample1 = card (dom (table_map sample1))"
  using reachable_table_wf [OF valid_named_layouts(1) sentinel_named(1) sample1_reachable] .

text \<open>
  C7. Without removals, every lookup ends in every reachable state: the overflow
  bit of a group is only set when the group is full, and the load factor leaves a
  group that is not.
\<close>

theorem insert_only_lookups_end:
  assumes "valid_layout L" "sentinel_ok L" "reachable L hash False t"
  shows "find_by_hash L t (hash k) (\<lambda>x. x = k) \<noteq> None"
  using safe_layout.insert_only_find [OF safe_layoutI, OF assms] .

theorem insert_only_lookups_end_witness: "find_by_hash sample_layout sample1 9 (\<lambda>x. x = 9) \<noteq> None"
  using insert_only_lookups_end [OF valid_named_layouts(1) sentinel_named(1) sample1_reachable, of 9] .

text \<open>
  C8. With one overflow bit per group, every lookup ends in every reachable state,
  removals included: the anti-drift decrement of \<^verbatim>\<open>max_load\<close> counts every slot freed
  in an overflowed group, so the table grows before all groups overflow.
\<close>

theorem one_bit_lookups_end:
  assumes "valid_layout L" "sentinel_ok L" "Overflow L = BitSeparate" "reachable L hash True t"
  shows "find_by_hash L t (hash k) (\<lambda>x. x = k) \<noteq> None"
  using safe_bit_layout.removals_find [OF safe_bit_layoutI, OF assms] .

theorem one_bit_lookups_end_witness:
  "find_by_hash HighTag128_1bitAnd (with_capacity HighTag128_1bitAnd 20 :: (u64, nat) raw_table) 9 (\<lambda>x. x = 9) \<noteq> None"
proof -
  have "reachable HighTag128_1bitAnd sample_hash True (with_capacity HighTag128_1bitAnd 20 :: (u64, nat) raw_table)"
    by (rule reachable.start)
  moreover have "Overflow HighTag128_1bitAnd = BitSeparate" by (simp add: HighTag128_1bitAnd_def Layout16And_def)
  ultimately show ?thesis
    using one_bit_lookups_end [OF valid_named_layouts(5) sentinel_named(5), where hash = sample_hash and k = 9] by blast
qed

section \<open>Capacity\<close>

text \<open>
  C11. \<^verbatim>\<open>groups_for_capacity\<close> always is a power of two below \<open>2 ^ 64\<close>. For a capacity whose
  \<^verbatim>\<open>usize\<close> arithmetic does not overflow, it is the least one whose full load admits the
  capacity: rounding twice and then to a power of two wastes nothing and is enough. For other
  capacities the arithmetic wraps: with the load factor 7/8 the request \<open>2 ^ 61\<close> gets one group.
\<close>

theorem groups_for_capacity_least_pow:
  assumes "valid_layout L"
  shows "(\<exists>k<64. groups_for_capacity L c = 2 ^ k) \<and>
    (capacity_ok L c \<longrightarrow> c \<le> full_load L (groups_for_capacity L c) \<and>
      (\<forall>m. c \<le> full_load L (2 ^ m) \<longrightarrow> groups_for_capacity L c \<le> 2 ^ m)) \<and>
    (LOAD_FACTOR_NUM L = 7 \<longrightarrow> LOAD_FACTOR_DEN L = 8 \<longrightarrow> groups_for_capacity L (2 ^ 61) = 1)"
  using overflow_layout.groups_for_capacity_enough [OF overflow_layout.intro, OF assms]
    overflow_layout.groups_for_capacity_least [OF overflow_layout.intro, OF assms]
    overflow_layout.groups_for_capacity_pow [OF overflow_layout.intro, OF assms]
    overflow_layout.groups_for_capacity_wraps [OF overflow_layout.intro, OF assms]
  by blast

theorem groups_for_capacity_least_pow_witness:
  "20 \<le> full_load sample_layout (groups_for_capacity sample_layout 20) \<and>
   (\<exists>k<64. groups_for_capacity sample_layout 20 = 2 ^ k) \<and>
   groups_for_capacity sample_layout 20 \<le> 2 ^ 1 \<and> groups_for_capacity sample_layout (2 ^ 61) = 1"
proof -
  have "20 \<le> full_load sample_layout (2 ^ 1)" by code_simp
  moreover have "capacity_ok sample_layout 20" "LOAD_FACTOR_NUM sample_layout = 7" "LOAD_FACTOR_DEN sample_layout = 8"
    by (simp_all add: capacity_ok_def SplitsiesLayout_def Layout16_def)
  ultimately show ?thesis using groups_for_capacity_least_pow [OF valid_named_layouts(1), where c = 20] by blast
qed



text \<open>
  C13. \<^verbatim>\<open>shrink_to_fit\<close> returns, keeps the map and never adds groups; a table with
  entries ends with at most the groups its entries need. The number of entries is one
  on which the capacity arithmetic does not overflow.
\<close>

theorem shrink_to_fit_refines:
  assumes "valid_layout L" "table_wf L hash t" "capacity_ok L (rt_len t)"
  shows "\<exists>u. shrink_to_fit L hash t = Some u \<and> table_wf L hash u \<and> table_map u = table_map t \<and>
    num_groups u \<le> num_groups t \<and> (0 < rt_len t \<longrightarrow> num_groups u \<le> groups_for_capacity L (rt_len t))"
  by (rule overflow_layout.shrink_to_fit_correct [OF overflow_layout.intro, OF assms]) (auto simp: num_groups_def)

theorem shrink_to_fit_refines_witness:
  "\<exists>u. shrink_to_fit sample_layout sample_hash sample1 = Some u \<and> table_wf sample_layout sample_hash u \<and>
    table_map u = [5 \<mapsto> 7] \<and> num_groups u = 1"
proof -
  have "groups_for_capacity sample_layout 1 = 1" by code_simp
  moreover have "capacity_ok sample_layout (rt_len sample1)"
    by (simp add: capacity_ok_def sample1_facts(4) SplitsiesLayout_def Layout16_def)
  ultimately show ?thesis
    using shrink_to_fit_refines [OF valid_named_layouts(1) sample1_insert(2)] sample1_facts(4) sample1_insert(3)
    by (auto simp: num_groups_def)
qed

text \<open>
  C14. \<^verbatim>\<open>clear\<close> empties the map, sets the length to 0 and keeps the group count. On a table with a positive
  load limit it zeroes every metadata and overflow byte, so no group has an overflow bit in any
  channel and every lookup ends, and restores the full load limit; a table whose load limit is 0, which has no
  entries, is left as it is.
\<close>

theorem clear_refines:
  assumes "valid_layout L" "table_wf L hash t"
  shows "table_wf L hash (clear L t) \<and> table_map (clear L t) = Map.empty \<and> rt_len (clear L t) = 0 \<and>
    num_groups (clear L t) = num_groups t \<and>
    (is_allocated t \<longrightarrow> rt_ctrl (clear L t) = replicate (length (rt_ctrl t)) 0 \<and>
      (\<forall>gi c. gi < num_groups t \<longrightarrow> \<not> has_overflow_bit L (clear L t) gi c) \<and> lookup_stops L (clear L t) h \<and>
      rt_max_load (clear L t) = full_load L (num_groups t)) \<and>
    (\<not> is_allocated t \<longrightarrow> clear L t = t)"
  using overflow_layout.clear_correct [OF overflow_layout.intro, OF assms]
  by (simp add: num_groups_def is_allocated_def less_Suc_eq_le)

theorem clear_refines_witness:
  "table_wf sample_layout sample_hash (clear sample_layout sample1) \<and> table_map (clear sample_layout sample1) = Map.empty \<and>
   num_groups (clear sample_layout sample1) = 2 \<and> rt_max_load (clear sample_layout sample1) = full_load sample_layout 2 \<and>
   rt_ctrl (clear sample_layout sample1) = replicate (length (rt_ctrl sample1)) 0 \<and>
   \<not> has_overflow_bit sample_layout (clear sample_layout sample1) 1 4 \<and>
   lookup_stops sample_layout (clear sample_layout sample1) 9"
proof -
  have "num_groups sample1 = 2" "is_allocated sample1" by (simp_all add: num_groups_def is_allocated_def sample1_facts)
  then show ?thesis using clear_refines [OF valid_named_layouts(1) sample1_insert(2), of 9] by simp
qed

section \<open>Iteration, consumption and cloning\<close>

text \<open>
  C15. \<^verbatim>\<open>iter_slots\<close> yields as many positions as the table has entries, each once, and
  the entries at them are the table's map.
\<close>

theorem iter_slots_complete:
  assumes "valid_layout L" "table_wf L hash t"
  shows "distinct (iter_slots L t) \<and> length (iter_slots L t) = rt_len t \<and>
    map_of (map (entry_at L t) (iter_slots L t)) = table_map t"
  using overflow_layout.iter_slots_correct [OF overflow_layout.intro, OF assms]
  by (simp add: table_map_def bucket_map_def)

theorem iter_slots_complete_witness:
  "distinct (iter_slots sample_layout sample1) \<and> length (iter_slots sample_layout sample1) = 1 \<and>
   map_of (map (entry_at sample_layout sample1) (iter_slots sample_layout sample1)) = [5 \<mapsto> 7]"
  using iter_slots_complete [OF valid_named_layouts(1) sample1_insert(2)] sample1_facts(4) sample1_insert(3) by simp

text \<open>
  C16. Consuming a table with \<^verbatim>\<open>into_iter\<close> moves out every entry exactly once, in index
  order, although the walk clears tag bytes behind it; the remaining table is empty, and
  the walk over the tag bytes that drops it afterwards acts on no bucket, so nothing is dropped twice.
\<close>

theorem into_iter_complete:
  assumes "valid_layout L" "table_wf L hash t"
  shows "fst (into_iter L t) = map (entry_at L t) (iter_slots L t) \<and>
    map_of (fst (into_iter L t)) = table_map t \<and> rt_len (snd (into_iter L t)) = 0 \<and>
    table_map (snd (into_iter L t)) = Map.empty \<and> drop_slots L (snd (into_iter L t)) = []"
  using overflow_layout.into_iter_correct [OF overflow_layout.intro, OF assms]
    overflow_layout.iter_slots_correct(1) [OF overflow_layout.intro, OF assms]
  by (simp add: table_map_def bucket_map_def)

theorem into_iter_complete_witness:
  "fst (into_iter sample_layout sample1) = map (entry_at sample_layout sample1) (iter_slots sample_layout sample1) \<and>
   map_of (fst (into_iter sample_layout sample1)) = [5 \<mapsto> 7] \<and> rt_len (snd (into_iter sample_layout sample1)) = 0 \<and>
   table_map (snd (into_iter sample_layout sample1)) = Map.empty \<and>
   drop_slots sample_layout (snd (into_iter sample_layout sample1)) = []"
  using into_iter_complete [OF valid_named_layouts(1) sample1_insert(2)] sample1_insert(3) by metis

text \<open>
  C17. \<^verbatim>\<open>clear\<close> and \<^verbatim>\<open>drop\<close> run the destructor of every initialised bucket exactly once
  and of no other bucket.
\<close>

theorem drop_slots_exact:
  assumes "valid_layout L" "table_wf L hash t"
  shows "distinct (drop_slots L t) \<and>
    set (drop_slots L t) = {i. i < length (rt_buckets t) \<and> rt_buckets t ! i \<noteq> None}"
  using overflow_layout.drop_slots_correct [OF overflow_layout.intro, OF assms] by blast

theorem drop_slots_exact_witness:
  "distinct (drop_slots sample_layout sample1) \<and>
   set (drop_slots sample_layout sample1) = {i. i < length (rt_buckets sample1) \<and> rt_buckets sample1 ! i \<noteq> None}"
  using drop_slots_exact [OF valid_named_layouts(1) sample1_insert(2)] .

text \<open>
  C18. Cloning an allocated table reproduces it, metadata, overflow bits, buckets and
  load limit: the bulk copy of the bytes and the slot-wise clone of the buckets agree.
\<close>

theorem clone_table_same:
  assumes "valid_layout L" "table_wf L hash t" "is_allocated t"
  shows "clone_table L t = t"
  using overflow_layout.clone_table_eq [OF overflow_layout.intro, OF assms(1,2)] assms(3)
  by (simp add: is_allocated_def)

theorem clone_table_same_witness: "clone_table sample_layout sample1 = sample1"
proof -
  have "is_allocated sample1" by (simp add: is_allocated_def sample1_facts)
  then show ?thesis using clone_table_same [OF valid_named_layouts(1) sample1_insert(2)] by simp
qed

text \<open>
  C19. The \<^verbatim>\<open>full_mask\<close> of a located slot is redundant: the search only passes groups
  whose overflow bit is set, so \<^verbatim>\<open>insert_at\<close> sets no bit that is not set already and
  does exactly what filling the slot does.
\<close>

theorem insert_at_mask_redundant:
  assumes "valid_layout L" "sentinel_ok L" "table_wf L hash t"
    and "find_for_entry L t (hash k) k = Some (ProbeVacant (Some (gi, si, m)))"
  shows "insert_at L t (hash k) gi si k v m = fill_slot L t (hash k) gi si k v"
proof -
  have "mask_marked L t (hash k) m"
    using safe_layout.vacant_slot(4) [OF safe_layoutI, OF assms] by (simp add: insertable_def)
  then show ?thesis by (rule overflow_layout.insert_at_eq [OF overflow_layout.intro, OF assms(1)])
qed

theorem insert_at_mask_redundant_witness:
  "insert_at sample_layout sample1 6 0 1 6 8 0 = fill_slot sample_layout sample1 6 0 1 6 8"
proof -
  have "find_for_entry sample_layout sample1 6 6 = Some (ProbeVacant (Some (0, 1, 0)))" by code_simp
  then show ?thesis
    using insert_at_mask_redundant [OF valid_named_layouts(1) sentinel_named(1) sample1_insert(2)] by blast
qed

end
