(* ===== verification/Overflow_Hang.thy ===== *)
theory Overflow_Hang
  imports Overflow_Properties
begin

text \<open>
  Lookups that never return. With eight overflow channels per group, removals free
  slots without clearing the channel bits and without lowering \<^verbatim>\<open>max_load\<close>, as long
  as the removed keys' own channel is not overflowed. A short sequence of
  operations then sets one channel's bit in every group of a table that is far
  from its load limit.
\<close>

section \<open>A sequence of operations\<close>

datatype table_op = OpInsert u64 | OpRemove u64

fun run_op :: "table_op \<Rightarrow> (u64, unit) raw_table \<Rightarrow> (u64, unit) raw_table option" where
  "run_op (OpInsert k) t =
    (if rt_mask t < 100 then map_option snd (insert_or_replace sample_layout sample_hash t k ()) else None)"
| "run_op (OpRemove k) t = map_option snd (remove_by_hash sample_layout t k (\<lambda>x. x = k))"

lemma run_op_reachable:
  assumes "reachable sample_layout sample_hash True t" "run_op op t = Some u"
  shows "reachable sample_layout sample_hash True u"
proof (cases op)
  case (OpInsert k)
  then obtain r where "rt_mask t < 100" "insert_or_replace sample_layout sample_hash t k () = Some (r, u)"
    using assms(2) by (auto split: if_splits)
  then show ?thesis using reachable.insert [OF assms(1), of k "()" r u] by (simp add: can_grow_def)
next
  case (OpRemove k)
  then obtain r where "remove_by_hash sample_layout t k (\<lambda>x. x = k) = Some (r, u)" using assms(2) by auto
  then show ?thesis using reachable.remove [OF TrueI assms(1), of k r u] by simp
qed

text \<open>
  Group 0 is filled with keys of channel 0, one key of channel 1 overflows it, and
  the group is emptied again; then the same with group 1, whose keys have the top
  bit set.
\<close>

definition hang_ops :: "table_op list" where
  "hang_ops = map (\<lambda>i. OpInsert (8 * of_nat i)) [0..<16] @ [OpInsert 1] @
     map (\<lambda>i. OpRemove (8 * of_nat i)) [0..<15] @
     map (\<lambda>i. OpInsert (0x8000000000000000 + 8 * of_nat i)) [0..<15] @ [OpInsert 0x8000000000000001]"

definition hang_table :: "(u64, unit) raw_table" where
  "hang_table = the (foldM run_op hang_ops (with_capacity sample_layout 20))"

lemma hang_run:
  "case foldM run_op hang_ops (with_capacity sample_layout 20) of
     None \<Rightarrow> False
   | Some t \<Rightarrow> rt_mask t = 1 \<and> rt_len t = 18 \<and> rt_max_load t = 28 \<and>
       has_overflow_bit sample_layout t 0 2 \<and> has_overflow_bit sample_layout t 1 2 \<and> table_map t 9 = None"
  by code_simp

lemma hang_table_reachable: "reachable sample_layout sample_hash True hang_table"
proof (rule foldM_invariant [where I = "reachable sample_layout sample_hash True"])
  show "foldM run_op hang_ops (with_capacity sample_layout 20) = Some hang_table"
    using hang_run by (auto simp: hang_table_def split: option.splits)
  show "reachable sample_layout sample_hash True (with_capacity sample_layout 20)"
    by (rule reachable.start)
qed (blast intro: run_op_reachable)

lemma hang_table_facts:
  "rt_len hang_table = 18" "rt_max_load hang_table = 28" "table_map hang_table 9 = None"
  "\<not> lookup_stops sample_layout hang_table 9"
proof -
  have run: "rt_mask hang_table = 1 \<and> rt_len hang_table = 18 \<and> rt_max_load hang_table = 28 \<and>
      has_overflow_bit sample_layout hang_table 0 2 \<and> has_overflow_bit sample_layout hang_table 1 2 \<and>
      table_map hang_table 9 = None"
    using hang_run by (auto simp: hang_table_def split: option.splits)
  then show "rt_len hang_table = 18" "rt_max_load hang_table = 28" "table_map hang_table 9 = None" by simp_all
  have "overflow_channel (Tag sample_layout) 9 = 2" by code_simp
  then show "\<not> lookup_stops sample_layout hang_table 9"
    using run by (auto simp: lookup_stops_def overflowed_def le_Suc_eq)
qed

section \<open>The property\<close>

text \<open>
  C9. When an absent key's channel is set in every group, no operation that looks the
  key up returns: neither \<^verbatim>\<open>find_by_hash\<close>, nor \<^verbatim>\<open>find_for_entry\<close>, nor
  \<^verbatim>\<open>insert_or_replace\<close> on an allocated table. The loops have no bound on the probe
  count.
\<close>

theorem unbounded_probe:
  assumes "valid_layout L" "sentinel_ok L" "table_wf L hash t" "table_map t k = None" "\<not> lookup_stops L t (hash k)"
  shows "find_by_hash L t (hash k) (\<lambda>x. x = k) = None \<and> find_for_entry L t (hash k) k = None \<and>
    (0 < rt_max_load t \<longrightarrow> insert_or_replace L hash t k v = None)"
  using overflow_layout.search_diverges [OF overflow_layout.intro, OF assms(1,3,2,4,5)] by blast

theorem unbounded_probe_witness:
  "find_by_hash sample_layout hang_table 9 (\<lambda>x. x = 9) = None \<and> find_for_entry sample_layout hang_table 9 9 = None \<and>
    insert_or_replace sample_layout sample_hash hang_table 9 () = None"
  using unbounded_probe [of sample_layout sample_hash hang_table 9 "()"] valid_named_layouts(1) sentinel_named(1)
    splitsies.reachable_wf [OF hang_table_reachable] hang_table_facts by simp

text \<open>
  C10. Such a state is reachable in a Splitsies table: 18 entries under a load limit
  of 28, and the lookup of a key that is not in the table runs forever.
\<close>

theorem splitsies_lookup_can_hang:
  "\<exists>t :: (u64, unit) raw_table. reachable (SplitsiesLayout PureRust) (\<lambda>k. k) True t \<and>
     rt_len t = 18 \<and> rt_max_load t = 28 \<and> table_map t 9 = None \<and>
     find_by_hash (SplitsiesLayout PureRust) t 9 (\<lambda>x. x = 9) = None"
  using hang_table_reachable hang_table_facts splitsies.reachable_wf [OF hang_table_reachable]
    splitsies.search_diverges(1) [where hash = sample_hash and t = hang_table and k = 9] sentinel_named(1)
  by (intro exI [of _ hang_table]) simp

end
