(* ===== verification/Tomb_Table.thy ===== *)
theory Tomb_Table
  imports Table_Api
begin

text \<open>
  The tombstone hash table engine, \<^verbatim>\<open>RawTable<K, V, T, S>\<close> of
  \<^verbatim>\<open>src/in_place_overflow/raw/mod.rs\<close>: the state and every operation.

  A metadata byte is \<^const>\<open>EMPTY\<close>, \<^const>\<open>TOMBSTONE\<close> or the tag of the entry in
  its slot; a lookup ends at the first group with an \<^const>\<open>EMPTY\<close> byte. The
  constants of the module and its type parameters are the record
  \<open>tomb_design\<close>: the SIMD group (through its width), \<^verbatim>\<open>T::reduced_hash\<close>, the shift of
  \<^verbatim>\<open>bucket_index\<close> and the group index. \<^verbatim>\<open>in_place_overflow\<close> is the design with 16
  slots that masks the low hash bits.

  \<^verbatim>\<open>growth_left\<close> is a \<^verbatim>\<open>usize\<close> that is decremented without a check: the
  subtraction wraps in the model.
\<close>

record (overloaded) 'w tomb_design =
  td_group :: "'w itself"
  td_shift :: nat
  reduced_hash :: "u64 \<Rightarrow> u8"
  td_index :: "nat \<Rightarrow> u64 \<Rightarrow> nat"

definition index_and :: "nat \<Rightarrow> u64 \<Rightarrow> nat" where
  "index_and msk h = unat h AND msk"

definition InPlaceOverflow :: "(u64 \<Rightarrow> u8) \<Rightarrow> 16 tomb_design" where
  "InPlaceOverflow T = \<lparr>td_group = TYPE(16), td_shift = 4, reduced_hash = T, td_index = index_and\<rparr>"

record ('k, 'v) tomb_table =
  tt_mask :: nat
  tt_ctrl :: "u8 list"
  tt_buckets :: "('k, 'v) bucket_array"
  tt_len :: nat
  tt_growth_left :: nat
  tt_max_load :: nat

definition usize_sub :: "nat \<Rightarrow> nat \<Rightarrow> nat" where
  "usize_sub a b = (if b \<le> a then a - b else a + 2 ^ 64 - b)"

definition tomb_max_load :: "nat \<Rightarrow> nat" where
  "tomb_max_load capacity = capacity * 7 div 8"

section \<open>Construction and addressing\<close>

definition tomb_new :: "'w::len tomb_design \<Rightarrow> ('k, 'v) tomb_table" where
  "tomb_new D = \<lparr>tt_mask = 0, tt_ctrl = replicate LENGTH('w) 0, tt_buckets = [], tt_len = 0,
    tt_growth_left = 0, tt_max_load = 0\<rparr>"

definition tomb_num_groups :: "('k, 'v) tomb_table \<Rightarrow> nat" where
  "tomb_num_groups t = tt_mask t + 1"

definition tomb_is_allocated :: "('k, 'v) tomb_table \<Rightarrow> bool" where
  "tomb_is_allocated t \<longleftrightarrow> 0 < tt_max_load t"

definition tomb_capacity :: "'w::len tomb_design \<Rightarrow> ('k, 'v) tomb_table \<Rightarrow> nat" where
  "tomb_capacity D t = (if tomb_is_allocated t then tomb_num_groups t * LENGTH('w) else 0)"

text \<open>As in the overflow-bit engine, the arithmetic on the requested capacity wraps.\<close>

definition tomb_groups_for_capacity :: "'w::len tomb_design \<Rightarrow> nat \<Rightarrow> nat" where
  "tomb_groups_for_capacity D capacity =
    (let min_slots = usize (capacity * 8 + 7 - 1) div 7;
         min_groups = usize (min_slots + LENGTH('w) - 1) div LENGTH('w)
     in usize (next_power_of_two min_groups))"

definition tomb_allocate :: "'w::len tomb_design \<Rightarrow> ('k, 'v) tomb_table \<Rightarrow> nat \<Rightarrow> ('k, 'v) tomb_table" where
  "tomb_allocate D t num_groups = t\<lparr>
     tt_ctrl := replicate (num_groups * LENGTH('w)) 0,
     tt_buckets := replicate (num_groups * LENGTH('w)) None,
     tt_mask := num_groups - 1,
     tt_max_load := tomb_max_load (num_groups * LENGTH('w)),
     tt_growth_left := tomb_max_load (num_groups * LENGTH('w))\<rparr>"

definition tomb_with_capacity :: "'w::len tomb_design \<Rightarrow> nat \<Rightarrow> ('k, 'v) tomb_table" where
  "tomb_with_capacity D capacity =
    (if capacity = 0 then tomb_new D
     else tomb_allocate D (tomb_new D) (tomb_groups_for_capacity D capacity))"

definition tomb_group_index :: "'w::len tomb_design \<Rightarrow> ('k, 'v) tomb_table \<Rightarrow> u64 \<Rightarrow> nat" where
  "tomb_group_index D t h = td_index D (tt_mask t) h"

definition tomb_meta :: "'w::len tomb_design \<Rightarrow> ('k, 'v) tomb_table \<Rightarrow> nat \<Rightarrow> u8 list" where
  "tomb_meta D t gi = take LENGTH('w) (drop (gi * LENGTH('w)) (tt_ctrl t))"

definition tomb_bucket_index :: "'w::len tomb_design \<Rightarrow> nat \<Rightarrow> nat \<Rightarrow> nat" where
  "tomb_bucket_index D gi si = push_bit (td_shift D) gi OR si"

definition tomb_key_at :: "'w::len tomb_design \<Rightarrow> ('k, 'v) tomb_table \<Rightarrow> nat \<Rightarrow> nat \<Rightarrow> 'k" where
  "tomb_key_at D t gi si = fst (the (tt_buckets t ! tomb_bucket_index D gi si))"

definition tomb_value_at :: "'w::len tomb_design \<Rightarrow> ('k, 'v) tomb_table \<Rightarrow> nat \<Rightarrow> nat \<Rightarrow> 'v" where
  "tomb_value_at D t gi si = snd (the (tt_buckets t ! tomb_bucket_index D gi si))"

text \<open>\<^verbatim>\<open>Group::set_meta\<close>, \<^verbatim>\<open>S::write\<close> and \<^verbatim>\<open>S::read\<close>, which moves the pair out.\<close>

definition tomb_set_meta ::
  "'w::len tomb_design \<Rightarrow> ('k, 'v) tomb_table \<Rightarrow> nat \<Rightarrow> nat \<Rightarrow> u8 \<Rightarrow> ('k, 'v) tomb_table" where
  "tomb_set_meta D t gi si x = t\<lparr>tt_ctrl := (tt_ctrl t)[gi * LENGTH('w) + si := x]\<rparr>"

definition tomb_write ::
  "'w::len tomb_design \<Rightarrow> ('k, 'v) tomb_table \<Rightarrow> nat \<Rightarrow> nat \<Rightarrow> ('k \<times> 'v) option \<Rightarrow> ('k, 'v) tomb_table" where
  "tomb_write D t gi si x = t\<lparr>tt_buckets := (tt_buckets t)[tomb_bucket_index D gi si := x]\<rparr>"

definition tomb_replace_value ::
  "'w::len tomb_design \<Rightarrow> ('k, 'v) tomb_table \<Rightarrow> nat \<Rightarrow> nat \<Rightarrow> 'v \<Rightarrow> 'v option \<times> ('k, 'v) tomb_table" where
  "tomb_replace_value D t gi si v =
    (Some (tomb_value_at D t gi si), tomb_write D t gi si (Some (tomb_key_at D t gi si, v)))"

section \<open>Lookup and removal\<close>

definition tomb_group_find ::
  "'w::len tomb_design \<Rightarrow> ('k, 'v) tomb_table \<Rightarrow> nat \<Rightarrow> ('k \<Rightarrow> bool) \<Rightarrow> u8 \<Rightarrow> nat option" where
  "tomb_group_find D t gi eq reduced =
    mask_find (\<lambda>si. eq (tomb_key_at D t gi si)) (tomb_match_byte (tomb_meta D t gi) reduced :: 'w word)"

definition tomb_first ::
  "'w::len tomb_design \<Rightarrow> ('k, 'v) tomb_table \<Rightarrow> nat \<Rightarrow> u8 \<Rightarrow> nat option" where
  "tomb_first D t gi x = lowest_set_bit (tomb_match_byte (tomb_meta D t gi) x :: 'w word)"

definition tomb_first_empty ::
  "'w::len tomb_design \<Rightarrow> ('k, 'v) tomb_table \<Rightarrow> nat \<Rightarrow> nat option" where
  "tomb_first_empty D t gi = lowest_set_bit (tomb_match_empty (tomb_meta D t gi) :: 'w word)"

definition tomb_any_empty :: "'w::len tomb_design \<Rightarrow> ('k, 'v) tomb_table \<Rightarrow> nat \<Rightarrow> bool" where
  "tomb_any_empty D t gi = any_set (tomb_match_empty (tomb_meta D t gi) :: 'w word)"

partial_function (option) tomb_find_loop ::
  "'w::len tomb_design \<Rightarrow> ('k, 'v) tomb_table \<Rightarrow> u8 \<Rightarrow> ('k \<Rightarrow> bool) \<Rightarrow> nat \<Rightarrow> nat \<Rightarrow> (nat \<times> nat) option option" where
  [code]: "tomb_find_loop D t reduced eq gi probe =
    (case tomb_group_find D t gi eq reduced of
       Some si \<Rightarrow> Some (Some (gi, si))
     | None \<Rightarrow>
         if tomb_any_empty D t gi then Some None
         else tomb_find_loop D t reduced eq (next_group (tt_mask t) gi (probe + 1)) (probe + 1))"

definition tomb_find_by_hash ::
  "'w::len tomb_design \<Rightarrow> ('k, 'v) tomb_table \<Rightarrow> u64 \<Rightarrow> ('k \<Rightarrow> bool) \<Rightarrow> (nat \<times> nat) option option" where
  "tomb_find_by_hash D t h eq = tomb_find_loop D t (reduced_hash D h) eq (tomb_group_index D t h) 0"

definition tomb_find_with_hash ::
  "'w::len tomb_design \<Rightarrow> ('k, 'v) tomb_table \<Rightarrow> 'k \<Rightarrow> u64 \<Rightarrow> (nat \<times> nat) option option" where
  "tomb_find_with_hash D t key h = tomb_find_by_hash D t h (\<lambda>k. k = key)"

definition tomb_find ::
  "'w::len tomb_design \<Rightarrow> ('k \<Rightarrow> u64) \<Rightarrow> ('k, 'v) tomb_table \<Rightarrow> 'k \<Rightarrow> (nat \<times> nat) option option" where
  "tomb_find D hash t key = tomb_find_by_hash D t (hash key) (\<lambda>k. k = key)"

definition tomb_erase_slot ::
  "'w::len tomb_design \<Rightarrow> ('k, 'v) tomb_table \<Rightarrow> nat \<Rightarrow> nat \<Rightarrow> ('k, 'v) tomb_table" where
  "tomb_erase_slot D t gi si =
    (let t1 = tomb_set_meta D t gi si TOMBSTONE in t1\<lparr>tt_len := usize_sub (tt_len t1) 1\<rparr>)"

definition tomb_remove_by_hash ::
  "'w::len tomb_design \<Rightarrow> ('k, 'v) tomb_table \<Rightarrow> u64 \<Rightarrow> ('k \<Rightarrow> bool) \<Rightarrow> (('k \<times> 'v) option \<times> ('k, 'v) tomb_table) option" where
  "tomb_remove_by_hash D t h eq =
    (case tomb_find_by_hash D t h eq of
       None \<Rightarrow> None
     | Some None \<Rightarrow> Some (None, t)
     | Some (Some (gi, si)) \<Rightarrow>
         Some (Some (tomb_key_at D t gi si, tomb_value_at D t gi si),
               tomb_erase_slot D (tomb_write D t gi si None) gi si))"

definition tomb_remove ::
  "'w::len tomb_design \<Rightarrow> ('k \<Rightarrow> u64) \<Rightarrow> ('k, 'v) tomb_table \<Rightarrow> 'k \<Rightarrow> ('v option \<times> ('k, 'v) tomb_table) option" where
  "tomb_remove D hash t key =
    (if \<not> tomb_is_allocated t then Some (None, t)
     else case tomb_find_with_hash D t key (hash key) of
            None \<Rightarrow> None
          | Some None \<Rightarrow> Some (None, t)
          | Some (Some (gi, si)) \<Rightarrow>
              Some (Some (tomb_value_at D t gi si), tomb_erase_slot D (tomb_write D t gi si None) gi si))"

definition tomb_get ::
  "'w::len tomb_design \<Rightarrow> ('k \<Rightarrow> u64) \<Rightarrow> ('k, 'v) tomb_table \<Rightarrow> 'k \<Rightarrow> 'v option option" where
  "tomb_get D hash t key =
    map_option (map_option (\<lambda>(gi, si). tomb_value_at D t gi si)) (tomb_find D hash t key)"

section \<open>Insertion\<close>

text \<open>Writing the tag and the pair of a slot.\<close>

definition tomb_put ::
  "'w::len tomb_design \<Rightarrow> ('k, 'v) tomb_table \<Rightarrow> u64 \<Rightarrow> nat \<Rightarrow> nat \<Rightarrow> 'k \<Rightarrow> 'v \<Rightarrow> ('k, 'v) tomb_table" where
  "tomb_put D t h gi si key value =
    tomb_write D (tomb_set_meta D t gi si (reduced_hash D h)) gi si (Some (key, value))"

partial_function (option) tomb_insert_after_resize_loop ::
  "'w::len tomb_design \<Rightarrow> ('k, 'v) tomb_table \<Rightarrow> u64 \<Rightarrow> 'k \<Rightarrow> 'v \<Rightarrow> nat \<Rightarrow> nat \<Rightarrow> ('k, 'v) tomb_table option" where
  [code]: "tomb_insert_after_resize_loop D t h key value gi probe =
    (case tomb_first_empty D t gi of
       Some si \<Rightarrow> Some (tomb_put D t h gi si key value)
     | None \<Rightarrow> tomb_insert_after_resize_loop D t h key value (next_group (tt_mask t) gi (probe + 1)) (probe + 1))"

definition tomb_insert_after_resize ::
  "'w::len tomb_design \<Rightarrow> ('k, 'v) tomb_table \<Rightarrow> u64 \<Rightarrow> 'k \<Rightarrow> 'v \<Rightarrow> ('k, 'v) tomb_table option" where
  "tomb_insert_after_resize D t h key value =
    tomb_insert_after_resize_loop D t h key value (tomb_group_index D t h) 0"

partial_function (option) tomb_insert_no_check_loop ::
  "'w::len tomb_design \<Rightarrow> ('k, 'v) tomb_table \<Rightarrow> u64 \<Rightarrow> 'k \<Rightarrow> 'v \<Rightarrow> nat \<Rightarrow> nat \<Rightarrow> (nat \<times> nat) option
    \<Rightarrow> ((nat \<times> nat) \<times> ('k, 'v) tomb_table) option" where
  [code]: "tomb_insert_no_check_loop D t h key value gi probe first_tombstone =
    (let first_tombstone' =
       (if first_tombstone = None then map_option (Pair gi) (tomb_first D t gi TOMBSTONE) else first_tombstone) in
     case tomb_first_empty D t gi of
       Some si \<Rightarrow>
         let (ins_gi, ins_si, decrement) =
               (case first_tombstone' of Some (tgi, tsi) \<Rightarrow> (tgi, tsi, False) | None \<Rightarrow> (gi, si, True));
             t1 = tomb_put D t h ins_gi ins_si key value;
             t2 = t1\<lparr>tt_len := tt_len t1 + 1\<rparr>;
             t3 = (if decrement then t2\<lparr>tt_growth_left := usize_sub (tt_growth_left t2) 1\<rparr> else t2)
         in Some ((ins_gi, ins_si), t3)
     | None \<Rightarrow>
         tomb_insert_no_check_loop D t h key value (next_group (tt_mask t) gi (probe + 1)) (probe + 1)
           first_tombstone')"

definition tomb_insert_no_check ::
  "'w::len tomb_design \<Rightarrow> ('k, 'v) tomb_table \<Rightarrow> u64 \<Rightarrow> 'k \<Rightarrow> 'v \<Rightarrow> ((nat \<times> nat) \<times> ('k, 'v) tomb_table) option" where
  "tomb_insert_no_check D t h key value =
    tomb_insert_no_check_loop D t h key value (tomb_group_index D t h) 0 None"

definition tomb_insert_at ::
  "'w::len tomb_design \<Rightarrow> ('k, 'v) tomb_table \<Rightarrow> u64 \<Rightarrow> nat \<Rightarrow> nat \<Rightarrow> 'k \<Rightarrow> 'v \<Rightarrow> u8 \<Rightarrow> ('k, 'v) tomb_table" where
  "tomb_insert_at D t h gi si key value full_mask =
    (let old_meta = tt_ctrl t ! (gi * LENGTH('w) + si);
         t1 = tomb_put D t h gi si key value;
         t2 = (if old_meta = EMPTY then t1\<lparr>tt_growth_left := usize_sub (tt_growth_left t1) 1\<rparr> else t1)
     in t2\<lparr>tt_len := tt_len t2 + 1\<rparr>)"

section \<open>Find or locate\<close>

datatype probe_result = PFound nat nat | PInsertSlot nat nat u8 | PNotFound

partial_function (option) tomb_find_or_locate_overflow ::
  "'w::len tomb_design \<Rightarrow> ('k, 'v) tomb_table \<Rightarrow> ('k \<Rightarrow> bool) \<Rightarrow> u8 \<Rightarrow> nat \<Rightarrow> nat \<Rightarrow> (nat \<times> nat) option
    \<Rightarrow> probe_result option" where
  [code]: "tomb_find_or_locate_overflow D t eq reduced gi probe first_available =
    (case tomb_group_find D t gi eq reduced of
       Some si \<Rightarrow> Some (PFound gi si)
     | None \<Rightarrow>
         let first_available' =
           (if first_available = None
            then (case tomb_first D t gi TOMBSTONE of
                    Some tsi \<Rightarrow> Some (gi, tsi)
                  | None \<Rightarrow> map_option (Pair gi) (tomb_first_empty D t gi))
            else first_available) in
         if tomb_any_empty D t gi
         then Some (case first_available' of Some (ins_gi, ins_si) \<Rightarrow> PInsertSlot ins_gi ins_si 0 | None \<Rightarrow> PNotFound)
         else tomb_find_or_locate_overflow D t eq reduced (next_group (tt_mask t) gi (probe + 1)) (probe + 1)
                first_available')"

definition tomb_find_or_locate ::
  "'w::len tomb_design \<Rightarrow> ('k, 'v) tomb_table \<Rightarrow> u64 \<Rightarrow> ('k \<Rightarrow> bool) \<Rightarrow> probe_result option" where
  "tomb_find_or_locate D t h eq =
    (let reduced = reduced_hash D h; gi = tomb_group_index D t h in
     case tomb_group_find D t gi eq reduced of
       Some si \<Rightarrow> Some (PFound gi si)
     | None \<Rightarrow>
       (case tomb_first_empty D t gi of
          Some si \<Rightarrow>
            (case tomb_first D t gi TOMBSTONE of
               Some tsi \<Rightarrow> Some (PInsertSlot gi tsi 0)
             | None \<Rightarrow> Some (PInsertSlot gi si 0))
        | None \<Rightarrow>
            tomb_find_or_locate_overflow D t eq reduced (next_group (tt_mask t) gi 1) 1
              (map_option (Pair gi) (tomb_first D t gi TOMBSTONE))))"

section \<open>Rehashing\<close>

definition tomb_occupied :: "'w::len tomb_design \<Rightarrow> ('k, 'v) tomb_table \<Rightarrow> nat \<Rightarrow> 'w word" where
  "tomb_occupied D t gi = tomb_match_occupied (tomb_meta D t gi)"

definition tomb_rehash_with ::
  "'w::len tomb_design \<Rightarrow> ('k \<Rightarrow> u64) \<Rightarrow> ('k, 'v) tomb_table \<Rightarrow> nat \<Rightarrow> ('k, 'v) tomb_table option" where
  "tomb_rehash_with D hash t new_num_groups =
    (let was_allocated = tomb_is_allocated t;
         old_num_groups = tomb_num_groups t;
         old_len = tt_len t;
         t0 = tomb_allocate D (t\<lparr>tt_ctrl := replicate LENGTH('w) 0, tt_buckets := [], tt_mask := 0,
                                 tt_len := 0, tt_max_load := 0\<rparr>) new_num_groups
     in if \<not> was_allocated then Some t0
        else map_option (\<lambda>s. s\<lparr>tt_len := old_len, tt_growth_left := usize_sub (tt_growth_left s) old_len\<rparr>)
             (foldM (\<lambda>gi. foldM (\<lambda>si s.
                 let key = tomb_key_at D t gi si; value = tomb_value_at D t gi si
                 in tomb_insert_after_resize D s (hash key) key value)
                 (mask_collect (tomb_occupied D t gi)))
               [0..<old_num_groups] t0))"

definition tomb_grow_or_rehash ::
  "'w::len tomb_design \<Rightarrow> ('k \<Rightarrow> u64) \<Rightarrow> ('k, 'v) tomb_table \<Rightarrow> ('k, 'v) tomb_table option" where
  "tomb_grow_or_rehash D hash t =
    tomb_rehash_with D hash t
      (if \<not> tomb_is_allocated t then 1
       else if tomb_max_load (tomb_num_groups t * LENGTH('w)) \<le> tt_len t then tomb_num_groups t * 2
       else tomb_num_groups t)"

definition tomb_ensure_capacity ::
  "'w::len tomb_design \<Rightarrow> ('k \<Rightarrow> u64) \<Rightarrow> ('k, 'v) tomb_table \<Rightarrow> ('k, 'v) tomb_table option" where
  "tomb_ensure_capacity D hash t = (if tt_growth_left t = 0 then tomb_grow_or_rehash D hash t else Some t)"

text \<open>
  \<^verbatim>\<open>insert_with_rehash\<close> returns a reference to the value in the table and whether the
  key is new; the reference is the slot it points to.
\<close>

definition tomb_insert_with_rehash ::
  "'w::len tomb_design \<Rightarrow> ('k \<Rightarrow> u64) \<Rightarrow> ('k, 'v) tomb_table \<Rightarrow> 'k \<Rightarrow> 'v
    \<Rightarrow> (((nat \<times> nat) \<times> bool) \<times> ('k, 'v) tomb_table) option" where
  "tomb_insert_with_rehash D hash t0 key value =
    (let t = (if \<not> tomb_is_allocated t0 then tomb_allocate D t0 1 else t0); h = hash key in
     case tomb_find_with_hash D t key h of
       None \<Rightarrow> None
     | Some (Some (gi, si)) \<Rightarrow> Some (((gi, si), False), t)
     | Some None \<Rightarrow>
         (case (if tt_growth_left t = 0 then tomb_grow_or_rehash D hash t else Some t) of
            None \<Rightarrow> None
          | Some t' \<Rightarrow> map_option (\<lambda>(p, t''). ((p, True), t'')) (tomb_insert_no_check D t' h key value)))"

section \<open>Insert or replace, entry probe\<close>

definition tomb_insert_or_replace ::
  "'w::len tomb_design \<Rightarrow> ('k \<Rightarrow> u64) \<Rightarrow> ('k, 'v) tomb_table \<Rightarrow> 'k \<Rightarrow> 'v \<Rightarrow> ('v option \<times> ('k, 'v) tomb_table) option" where
  "tomb_insert_or_replace D hash t0 key value =
    (let t = (if \<not> tomb_is_allocated t0 then tomb_allocate D t0 1 else t0); h = hash key in
     if tt_growth_left t = 0 then
       (case tomb_find_by_hash D t h (\<lambda>k. k = key) of
          None \<Rightarrow> None
        | Some (Some (gi, si)) \<Rightarrow> Some (tomb_replace_value D t gi si value)
        | Some None \<Rightarrow>
            (case tomb_grow_or_rehash D hash t of
               None \<Rightarrow> None
             | Some t' \<Rightarrow> map_option (\<lambda>(_, t''). (None, t'')) (tomb_insert_no_check D t' h key value)))
     else
       let gi = tomb_group_index D t h in
       case tomb_group_find D t gi (\<lambda>k. k = key) (reduced_hash D h) of
         Some si \<Rightarrow> Some (tomb_replace_value D t gi si value)
       | None \<Rightarrow>
         (case tomb_first_empty D t gi of
            Some si \<Rightarrow>
              let t1 = tomb_put D t h gi si key value
              in Some (None, t1\<lparr>tt_len := tt_len t1 + 1, tt_growth_left := usize_sub (tt_growth_left t1) 1\<rparr>)
          | None \<Rightarrow>
            (case tomb_find_by_hash D t h (\<lambda>k. k = key) of
               None \<Rightarrow> None
             | Some (Some (gi, si)) \<Rightarrow> Some (tomb_replace_value D t gi si value)
             | Some None \<Rightarrow>
                 (case (if tt_growth_left t = 0 then tomb_grow_or_rehash D hash t else Some t) of
                    None \<Rightarrow> None
                  | Some t' \<Rightarrow> map_option (\<lambda>(_, t''). (None, t'')) (tomb_insert_no_check D t' h key value)))))"

definition tomb_find_for_entry ::
  "'w::len tomb_design \<Rightarrow> ('k, 'v) tomb_table \<Rightarrow> u64 \<Rightarrow> 'k \<Rightarrow> entry_probe option" where
  "tomb_find_for_entry D t h key =
    (if tt_growth_left t = 0 then
       (case tomb_find_by_hash D t h (\<lambda>k. k = key) of
          None \<Rightarrow> None
        | Some (Some (gi, si)) \<Rightarrow> Some (ProbeFound gi si)
        | Some None \<Rightarrow> Some (ProbeVacant None))
     else
       let gi = tomb_group_index D t h in
       case tomb_group_find D t gi (\<lambda>k. k = key) (reduced_hash D h) of
         Some si \<Rightarrow> Some (ProbeFound gi si)
       | None \<Rightarrow>
         (case tomb_first_empty D t gi of
            Some si \<Rightarrow> Some (ProbeVacant (Some (gi, si, 0)))
          | None \<Rightarrow>
              map_option (\<lambda>r. case r of
                  PFound gi si \<Rightarrow> ProbeFound gi si
                | PInsertSlot gi si msk \<Rightarrow> ProbeVacant (Some (gi, si, msk))
                | PNotFound \<Rightarrow> ProbeVacant None) (tomb_find_or_locate D t h (\<lambda>k. k = key))))"

section \<open>Capacity management\<close>

definition tomb_clear :: "'w::len tomb_design \<Rightarrow> ('k, 'v) tomb_table \<Rightarrow> ('k, 'v) tomb_table" where
  "tomb_clear D t =
    (if \<not> tomb_is_allocated t then t
     else t\<lparr>tt_ctrl := replicate (tomb_num_groups t * LENGTH('w)) 0,
            tt_buckets := replicate (length (tt_buckets t)) None,
            tt_len := 0,
            tt_growth_left := tomb_max_load (tomb_num_groups t * LENGTH('w))\<rparr>)"

definition tomb_reserve ::
  "'w::len tomb_design \<Rightarrow> ('k \<Rightarrow> u64) \<Rightarrow> ('k, 'v) tomb_table \<Rightarrow> nat \<Rightarrow> (panic + ('k, 'v) tomb_table) option" where
  "tomb_reserve D hash t additional =
    (if 2 ^ 64 \<le> tt_len t + additional then Some (Inl CapacityOverflow)
     else let needed = tt_len t + additional in
       if \<not> tomb_is_allocated t then
         Some (Inr (if 0 < additional then tomb_allocate D t (tomb_groups_for_capacity D needed) else t))
       else if tomb_max_load (tomb_num_groups t * LENGTH('w)) < needed
               \<and> tomb_num_groups t < tomb_groups_for_capacity D needed then
         map_option Inr (tomb_rehash_with D hash t (tomb_groups_for_capacity D needed))
       else Some (Inr t))"

definition tomb_shrink_to_fit ::
  "'w::len tomb_design \<Rightarrow> ('k \<Rightarrow> u64) \<Rightarrow> ('k, 'v) tomb_table \<Rightarrow> ('k, 'v) tomb_table option" where
  "tomb_shrink_to_fit D hash t =
    (if tt_len t = 0 then Some (tomb_new D)
     else let min_groups = tomb_groups_for_capacity D (tt_len t) in
       if min_groups < tomb_num_groups t then tomb_rehash_with D hash t min_groups else Some t)"

section \<open>Iteration, cloning and dropping\<close>

function tomb_slot_next ::
  "'w::len tomb_design \<Rightarrow> ('k, 'v) tomb_table \<Rightarrow> nat \<Rightarrow> 'w word \<Rightarrow> ((nat \<times> nat) \<times> nat \<times> 'w word) option" where
  "tomb_slot_next D t g current_mask =
    (case mask_next current_mask of
       Some (si, m') \<Rightarrow> Some ((g, si), g, m')
     | None \<Rightarrow>
         if tt_mask t < g + 1 then None
         else tomb_slot_next D t (g + 1) (tomb_occupied D t (g + 1)))"
  by pat_completeness auto
termination
  by (relation "measure (\<lambda>(D, t, g, m). Suc (tt_mask t) - g)") auto

declare tomb_slot_next.simps [simp del]

lemma tomb_slot_next_decreases:
  "tomb_slot_next D t g m = Some (p, g', m') \<Longrightarrow> g' = g \<and> unat m' < unat m \<or> g < g' \<and> g' \<le> tt_mask t"
proof (induction D t g m arbitrary: p g' m' rule: tomb_slot_next.induct)
  case (1 D t g m)
  then show ?case
    by (subst (asm) (2) tomb_slot_next.simps)
      (fastforce simp: mask_next_def clear_lowest_less split: if_splits option.splits)
qed

function tomb_slot_collect ::
  "'w::len tomb_design \<Rightarrow> ('k, 'v) tomb_table \<Rightarrow> nat \<Rightarrow> 'w word \<Rightarrow> (nat \<times> nat) list" where
  "tomb_slot_collect D t g current_mask =
    (case tomb_slot_next D t g current_mask of
       None \<Rightarrow> []
     | Some (p, g', m') \<Rightarrow> p # tomb_slot_collect D t g' m')"
  by pat_completeness auto
termination
  by (relation "measures [\<lambda>(D, t, g, m). Suc (tt_mask t) - g, \<lambda>(D, t, g, m). unat m]")
    (auto dest!: tomb_slot_next_decreases)

declare tomb_slot_collect.simps [simp del]

definition tomb_first_mask :: "'w::len tomb_design \<Rightarrow> ('k, 'v) tomb_table \<Rightarrow> 'w word" where
  "tomb_first_mask D t = (if \<not> tomb_is_allocated t then 0 else tomb_occupied D t 0)"

definition tomb_iter_slots :: "'w::len tomb_design \<Rightarrow> ('k, 'v) tomb_table \<Rightarrow> (nat \<times> nat) list" where
  "tomb_iter_slots D t = tomb_slot_collect D t 0 (tomb_first_mask D t)"

function tomb_into_iter_next ::
  "'w::len tomb_design \<Rightarrow> ('k, 'v) tomb_table \<Rightarrow> nat \<Rightarrow> 'w word
    \<Rightarrow> (('k \<times> 'v) \<times> ('k, 'v) tomb_table \<times> nat \<times> 'w word) option" where
  "tomb_into_iter_next D t g current_mask =
    (case mask_next current_mask of
       Some (si, m') \<Rightarrow>
         let kv = (tomb_key_at D t g si, tomb_value_at D t g si);
             t1 = tomb_set_meta D (tomb_write D t g si None) g si EMPTY
         in Some (kv, t1\<lparr>tt_len := usize_sub (tt_len t1) 1\<rparr>, g, m')
     | None \<Rightarrow>
         if tt_mask t < g + 1 then None
         else tomb_into_iter_next D t (g + 1) (tomb_occupied D t (g + 1)))"
  by pat_completeness auto
termination
  by (relation "measure (\<lambda>(D, t, g, m). Suc (tt_mask t) - g)") auto

declare tomb_into_iter_next.simps [simp del]

lemma tomb_into_iter_next_decreases:
  "tomb_into_iter_next D t g m = Some (kv, t', g', m') \<Longrightarrow>
   tt_mask t' = tt_mask t \<and> (g' = g \<and> unat m' < unat m \<or> g < g' \<and> g' \<le> tt_mask t)"
proof (induction D t g m arbitrary: kv t' g' m' rule: tomb_into_iter_next.induct)
  case (1 D t g m)
  then show ?case
    by (subst (asm) (2) tomb_into_iter_next.simps)
      (fastforce simp: mask_next_def clear_lowest_less Let_def tomb_set_meta_def tomb_write_def
        split: if_splits option.splits)
qed

function tomb_into_iter_collect ::
  "'w::len tomb_design \<Rightarrow> ('k, 'v) tomb_table \<Rightarrow> nat \<Rightarrow> 'w word \<Rightarrow> ('k \<times> 'v) list \<times> ('k, 'v) tomb_table" where
  "tomb_into_iter_collect D t g current_mask =
    (case tomb_into_iter_next D t g current_mask of
       None \<Rightarrow> ([], t)
     | Some (kv, t', g', m') \<Rightarrow>
         let (kvs, t'') = tomb_into_iter_collect D t' g' m' in (kv # kvs, t''))"
  by pat_completeness auto
termination
  by (relation "measures [\<lambda>(D, t, g, m). Suc (tt_mask t) - g, \<lambda>(D, t, g, m). unat m]")
    (auto dest!: tomb_into_iter_next_decreases)

declare tomb_into_iter_collect.simps [simp del]

definition tomb_into_iter :: "'w::len tomb_design \<Rightarrow> ('k, 'v) tomb_table \<Rightarrow> ('k \<times> 'v) list \<times> ('k, 'v) tomb_table" where
  "tomb_into_iter D t = tomb_into_iter_collect D t 0 (tomb_first_mask D t)"

definition tomb_drain :: "'w::len tomb_design \<Rightarrow> ('k, 'v) tomb_table \<Rightarrow> ('k \<times> 'v) list \<times> ('k, 'v) tomb_table" where
  "tomb_drain D t = (fst (tomb_into_iter D t), tomb_new D)"

text \<open>The bucket indices that \<^verbatim>\<open>clear\<close> and \<^verbatim>\<open>drop\<close> pass to \<^verbatim>\<open>S::drop_slot\<close>, in order.\<close>

definition tomb_drop_slots :: "'w::len tomb_design \<Rightarrow> ('k, 'v) tomb_table \<Rightarrow> nat list" where
  "tomb_drop_slots D t =
    (if \<not> tomb_is_allocated t then []
     else concat (map (\<lambda>gi. map (tomb_bucket_index D gi) (mask_collect (tomb_occupied D t gi)))
            [0..<tomb_num_groups t]))"

definition tomb_clone :: "'w::len tomb_design \<Rightarrow> ('k, 'v) tomb_table \<Rightarrow> ('k, 'v) tomb_table" where
  "tomb_clone D t =
    (if \<not> tomb_is_allocated t then tomb_new D
     else
       let n = tomb_num_groups t;
           t0 = tomb_allocate D (tomb_new D) n;
           t1 = t0\<lparr>tt_ctrl := take (n * LENGTH('w)) (tt_ctrl t)\<rparr>;
           t2 = fold (\<lambda>gi. fold (\<lambda>si s.
                    tomb_write D s gi si (Some (tomb_key_at D t gi si, tomb_value_at D t gi si)))
                  (mask_collect (tomb_occupied D t gi))) [0..<n] t1
       in t2\<lparr>tt_len := tt_len t, tt_growth_left := tt_growth_left t\<rparr>)"

end
