(* ===== verification/Tomb_Correct.thy ===== *)
theory Tomb_Correct
  imports Tomb_Table
begin

text \<open>
  Correctness of the tombstone engine. Metadata bytes and buckets have the same
  flat index, so the invariant speaks of flat indices: a bucket holds an entry
  exactly where the byte is neither \<^const>\<open>EMPTY\<close> nor \<^const>\<open>TOMBSTONE\<close>, and every
  group before an entry's group on its probe path has no \<^const>\<open>EMPTY\<close> byte. The
  growth counter accounts for every slot that is not \<^const>\<open>EMPTY\<close>, so an
  \<^const>\<open>EMPTY\<close> byte always remains and every probe loop ends.
\<close>

section \<open>The invariant\<close>

definition tomb_tag :: "'w::len tomb_design \<Rightarrow> ('k, 'v) tomb_table \<Rightarrow> nat \<Rightarrow> nat \<Rightarrow> u8" where
  "tomb_tag D t gi si = tt_ctrl t ! (gi * LENGTH('w) + si)"

definition tomb_slot :: "'w::len tomb_design \<Rightarrow> ('k, 'v) tomb_table \<Rightarrow> nat \<Rightarrow> nat \<Rightarrow> ('k \<times> 'v) option" where
  "tomb_slot D t gi si = tt_buckets t ! (gi * LENGTH('w) + si)"

definition tomb_map :: "('k, 'v) tomb_table \<Rightarrow> 'k \<rightharpoonup> 'v" where
  "tomb_map t = bucket_map (tt_buckets t)"

definition tomb_probe :: "'w::len tomb_design \<Rightarrow> ('k, 'v) tomb_table \<Rightarrow> u64 \<Rightarrow> nat \<Rightarrow> nat" where
  "tomb_probe D t h p = probe_seq (tt_mask t) (tomb_group_index D t h) p"

definition tomb_full :: "'w::len tomb_design \<Rightarrow> ('k, 'v) tomb_table \<Rightarrow> nat \<Rightarrow> bool" where
  "tomb_full D t gi \<longleftrightarrow> (\<forall>si<LENGTH('w). tomb_tag D t gi si \<noteq> EMPTY)"

definition tomb_reaches :: "'w::len tomb_design \<Rightarrow> ('k, 'v) tomb_table \<Rightarrow> u64 \<Rightarrow> nat \<Rightarrow> bool" where
  "tomb_reaches D t h gi \<longleftrightarrow>
    (\<exists>p\<le>tt_mask t. tomb_probe D t h p = gi \<and> (\<forall>q<p. tomb_full D t (tomb_probe D t h q)))"

definition tomb_ctrl_ok :: "'w::len tomb_design \<Rightarrow> ('k, 'v) tomb_table \<Rightarrow> bool" where
  "tomb_ctrl_ok D t \<longleftrightarrow> groups_ok (Suc (tt_mask t)) \<and> length (tt_ctrl t) = Suc (tt_mask t) * LENGTH('w)"

definition tomb_entry_ok :: "'w::len tomb_design \<Rightarrow> ('k \<Rightarrow> u64) \<Rightarrow> ('k, 'v) tomb_table \<Rightarrow> nat \<Rightarrow> bool" where
  "tomb_entry_ok D hash t i \<longleftrightarrow>
    (case tt_buckets t ! i of
       None \<Rightarrow> tt_ctrl t ! i = EMPTY \<or> tt_ctrl t ! i = TOMBSTONE
     | Some (k, v) \<Rightarrow> tt_ctrl t ! i = reduced_hash D (hash k) \<and> tomb_reaches D t (hash k) (i div LENGTH('w)))"

definition tomb_content :: "'w::len tomb_design \<Rightarrow> ('k \<Rightarrow> u64) \<Rightarrow> ('k, 'v) tomb_table \<Rightarrow> bool" where
  "tomb_content D hash t \<longleftrightarrow>
    tomb_ctrl_ok D t \<and> length (tt_buckets t) = length (tt_ctrl t) \<and>
    (\<forall>i<length (tt_ctrl t). tomb_entry_ok D hash t i) \<and> keys_distinct (tt_buckets t)"

definition tombs :: "('k, 'v) tomb_table \<Rightarrow> nat" where
  "tombs t = length (filter (\<lambda>b. b = TOMBSTONE) (tt_ctrl t))"

definition tomb_counts :: "'w::len tomb_design \<Rightarrow> ('k, 'v) tomb_table \<Rightarrow> bool" where
  "tomb_counts D t \<longleftrightarrow>
    tt_len t = length (somes (tt_buckets t)) \<and> tt_growth_left t + tt_len t + tombs t = tt_max_load t \<and>
    tt_max_load t = tomb_max_load (length (tt_ctrl t))"

definition tomb_wf :: "'w::len tomb_design \<Rightarrow> ('k \<Rightarrow> u64) \<Rightarrow> ('k, 'v) tomb_table \<Rightarrow> bool" where
  "tomb_wf D hash t \<longleftrightarrow> t = tomb_new D \<or> tomb_content D hash t \<and> tomb_counts D t"

definition valid_design :: "'w::len tomb_design \<Rightarrow> bool" where
  "valid_design D \<longleftrightarrow>
    LENGTH('w) = 2 ^ td_shift D \<and> 2 \<le> LENGTH('w) \<and> LENGTH('w) \<le> 64 \<and>
    (\<forall>h. reduced_hash D h \<noteq> EMPTY \<and> reduced_hash D h \<noteq> TOMBSTONE) \<and>
    (\<forall>msk h. groups_ok (Suc msk) \<longrightarrow> td_index D msk h \<le> msk)"

lemma index_and_le: "groups_ok (Suc msk) \<Longrightarrow> index_and msk h \<le> msk"
  using and_pred_groups [of "Suc msk" "unat h"] by (simp add: index_and_def less_Suc_eq_le [symmetric])

lemma EMPTY_TOMBSTONE [simp]: "EMPTY \<noteq> TOMBSTONE" "TOMBSTONE \<noteq> EMPTY"
  by (simp_all add: EMPTY_def TOMBSTONE_def)

section \<open>Addressing\<close>

locale tomb_layout =
  fixes D :: "'w::len tomb_design"
  assumes valid: "valid_design D"
begin

lemma width: "LENGTH('w) = 2 ^ td_shift D" "2 \<le> LENGTH('w)" "LENGTH('w) \<le> 64"
  using valid by (simp_all add: valid_design_def)

lemma reduced [simp]: "reduced_hash D h \<noteq> EMPTY" "reduced_hash D h \<noteq> TOMBSTONE"
  "EMPTY \<noteq> reduced_hash D h" "TOMBSTONE \<noteq> reduced_hash D h"
  using valid unfolding valid_design_def by metis+

lemma bucket_index_add [simp]: "si < LENGTH('w) \<Longrightarrow> tomb_bucket_index D gi si = gi * LENGTH('w) + si"
proof -
  assume si: "si < LENGTH('w)"
  have "push_bit (td_shift D) gi AND si = 0"
  proof (rule bit_eqI)
    fix n
    have "bit si n \<Longrightarrow> n < td_shift D"
      using si width(1) by (metis bit_take_bit_iff take_bit_nat_eq_self)
    then show "bit (push_bit (td_shift D) gi AND si) n \<longleftrightarrow> bit (0::nat) n"
      by (auto simp: bit_and_iff bit_push_bit_iff)
  qed
  then have "push_bit (td_shift D) gi + si = push_bit (td_shift D) gi OR si"
    by (rule disjunctive_add_eq_or)
  then show ?thesis by (simp add: tomb_bucket_index_def push_bit_eq_mult width(1))
qed

lemma group_index_le: "tomb_ctrl_ok D t \<Longrightarrow> tomb_group_index D t h \<le> tt_mask t"
  using valid by (simp add: tomb_ctrl_ok_def tomb_group_index_def valid_design_def)

lemma probe_le: "tomb_ctrl_ok D t \<Longrightarrow> tomb_probe D t h p \<le> tt_mask t"
  using probe_seq_less [of "tt_mask t" "tomb_group_index D t h" p] group_index_le [of t h]
  by (simp add: tomb_probe_def tomb_ctrl_ok_def less_Suc_eq_le)

lemma probe_finds:
  assumes "tomb_ctrl_ok D t" "gi \<le> tt_mask t"
  obtains p where "p \<le> tt_mask t" "tomb_probe D t h p = gi"
  using probe_seq_reaches [of "tt_mask t" "tomb_group_index D t h" gi] assms group_index_le [of t h]
  by (auto simp: tomb_probe_def tomb_ctrl_ok_def less_Suc_eq_le)

lemma probe_inj:
  assumes "tomb_ctrl_ok D t" "p \<le> tt_mask t" "q \<le> tt_mask t" "tomb_probe D t h p = tomb_probe D t h q"
  shows "p = q"
proof -
  have "inj_on (probe_seq (tt_mask t) (tomb_group_index D t h)) {..<Suc (tt_mask t)}"
    using probe_seq_inj group_index_le assms(1) by (auto simp: tomb_ctrl_ok_def less_Suc_eq_le)
  then show ?thesis using assms by (auto simp: tomb_probe_def dest: inj_onD)
qed

lemma flat_less: "tomb_ctrl_ok D t \<Longrightarrow> gi \<le> tt_mask t \<Longrightarrow> si < LENGTH('w) \<Longrightarrow> gi * LENGTH('w) + si < length (tt_ctrl t)"
  using grid_less [of gi "Suc (tt_mask t)" si "LENGTH('w)"] by (simp add: tomb_ctrl_ok_def)

lemma flat_grid:
  assumes "tomb_ctrl_ok D t" "i < length (tt_ctrl t)"
  obtains gi si where "gi \<le> tt_mask t" "si < LENGTH('w)" "i = gi * LENGTH('w) + si" "i div LENGTH('w) = gi"
proof
  show "i div LENGTH('w) \<le> tt_mask t" "i mod LENGTH('w) < LENGTH('w)"
    "i = i div LENGTH('w) * LENGTH('w) + i mod LENGTH('w)"
    using assms less_mult_imp_div_less [of i "Suc (tt_mask t)" "LENGTH('w)"]
    by (simp_all add: tomb_ctrl_ok_def)
qed simp

lemma flat_div: "si < LENGTH('w) \<Longrightarrow> (gi * LENGTH('w) + si) div LENGTH('w) = gi"
  by simp

section \<open>Matches of a group\<close>

lemma length_meta: "tomb_ctrl_ok D t \<Longrightarrow> gi \<le> tt_mask t \<Longrightarrow> length (tomb_meta D t gi) = LENGTH('w)"
proof -
  assume a: "tomb_ctrl_ok D t" "gi \<le> tt_mask t"
  have "gi * LENGTH('w) \<le> tt_mask t * LENGTH('w)" using a(2) by (rule mult_le_mono1)
  moreover have "LENGTH('w) + tt_mask t * LENGTH('w) \<le> length (tt_ctrl t)"
    using a(1) by (simp add: tomb_ctrl_ok_def)
  ultimately have "LENGTH('w) \<le> length (tt_ctrl t) - gi * LENGTH('w)" by linarith
  then show ?thesis by (simp add: tomb_meta_def)
qed

lemma nth_meta:
  "tomb_ctrl_ok D t \<Longrightarrow> gi \<le> tt_mask t \<Longrightarrow> si < LENGTH('w) \<Longrightarrow> tomb_meta D t gi ! si = tomb_tag D t gi si"
  using length_meta [of t gi] by (simp add: tomb_meta_def tomb_tag_def)

lemma match_meta:
  assumes "tomb_ctrl_ok D t" "gi \<le> tt_mask t"
  shows "bit (tomb_match_byte (tomb_meta D t gi) x :: 'w word) i \<longleftrightarrow> i < LENGTH('w) \<and> tomb_tag D t gi i = x"
    and "bit (tomb_match_empty (tomb_meta D t gi) :: 'w word) i \<longleftrightarrow> i < LENGTH('w) \<and> tomb_tag D t gi i = EMPTY"
    and "bit (tomb_occupied D t gi) i \<longleftrightarrow>
      i < LENGTH('w) \<and> tomb_tag D t gi i \<noteq> EMPTY \<and> tomb_tag D t gi i \<noteq> TOMBSTONE"
  using length_meta [OF assms] nth_meta [OF assms, of i]
  by (auto simp: table_simps tomb_occupied_def)

lemma first_empty_Some:
  assumes "tomb_ctrl_ok D t" "gi \<le> tt_mask t" "tomb_first_empty D t gi = Some si"
  shows "si < LENGTH('w)" "tomb_tag D t gi si = EMPTY"
  using assms lowest_set_bit_Some match_meta(2) unfolding tomb_first_empty_def by blast+

lemma first_empty_None:
  "tomb_ctrl_ok D t \<Longrightarrow> gi \<le> tt_mask t \<Longrightarrow> tomb_first_empty D t gi = None \<longleftrightarrow> tomb_full D t gi"
  using match_meta(2) unfolding tomb_first_empty_def lowest_set_bit_None tomb_full_def by blast

lemma any_empty: "tomb_ctrl_ok D t \<Longrightarrow> gi \<le> tt_mask t \<Longrightarrow> tomb_any_empty D t gi \<longleftrightarrow> \<not> tomb_full D t gi"
  using first_empty_None [of t gi]
  by (simp add: tomb_any_empty_def tomb_first_empty_def any_set_def lowest_set_bit_def split: if_splits)

lemma first_Some:
  assumes "tomb_ctrl_ok D t" "gi \<le> tt_mask t" "tomb_first D t gi x = Some si"
  shows "si < LENGTH('w)" "tomb_tag D t gi si = x"
  using assms lowest_set_bit_Some match_meta(1) unfolding tomb_first_def by blast+

end

section \<open>Slots and the map\<close>

context tomb_layout
begin

lemma content_ctrl: "tomb_content D hash t \<Longrightarrow> tomb_ctrl_ok D t"
  by (simp add: tomb_content_def)

lemma entry_ok:
  assumes "tomb_content D hash t" "gi \<le> tt_mask t" "si < LENGTH('w)"
  shows "tomb_entry_ok D hash t (gi * LENGTH('w) + si)"
  using assms flat_less [OF content_ctrl [OF assms(1)]] by (simp add: tomb_content_def)

lemma slot_Some:
  assumes "tomb_content D hash t" "gi \<le> tt_mask t" "si < LENGTH('w)" "tomb_slot D t gi si = Some (k, v)"
  shows "tomb_tag D t gi si = reduced_hash D (hash k)" "tomb_reaches D t (hash k) gi"
  using entry_ok [OF assms(1-3)] assms(3,4) by (simp_all add: tomb_entry_ok_def tomb_slot_def tomb_tag_def)

lemma slot_None:
  assumes "tomb_content D hash t" "gi \<le> tt_mask t" "si < LENGTH('w)"
  shows "tomb_slot D t gi si = None \<longleftrightarrow> tomb_tag D t gi si = EMPTY \<or> tomb_tag D t gi si = TOMBSTONE"
proof (cases "tomb_slot D t gi si")
  case None
  then show ?thesis
    using entry_ok [OF assms] by (simp add: tomb_entry_ok_def tomb_slot_def tomb_tag_def)
next
  case (Some kv)
  then show ?thesis using slot_Some(1) [OF assms] by (cases kv) auto
qed

lemma map_Some:
  assumes "tomb_content D hash t"
  shows "tomb_map t k = Some v \<longleftrightarrow> (\<exists>gi\<le>tt_mask t. \<exists>si<LENGTH('w). tomb_slot D t gi si = Some (k, v))"
proof -
  have kd: "keys_distinct (tt_buckets t)" and len: "length (tt_buckets t) = length (tt_ctrl t)"
    using assms by (simp_all add: tomb_content_def)
  have "(\<exists>i<length (tt_ctrl t). tt_buckets t ! i = Some (k, v)) \<longleftrightarrow>
    (\<exists>gi\<le>tt_mask t. \<exists>si<LENGTH('w). tt_buckets t ! (gi * LENGTH('w) + si) = Some (k, v))"
    by (auto elim!: flat_grid [OF content_ctrl [OF assms]] intro: flat_less [OF content_ctrl [OF assms]])
  then show ?thesis unfolding tomb_map_def bucket_map_Some_iff [OF kd] len tomb_slot_def .
qed

lemma map_None:
  assumes "tomb_content D hash t"
  shows "tomb_map t k = None \<longleftrightarrow> (\<forall>gi\<le>tt_mask t. \<forall>si<LENGTH('w). \<forall>v. tomb_slot D t gi si \<noteq> Some (k, v))"
  using map_Some [OF assms, of k] by (metis not_None_eq)

lemma slot_unique:
  assumes "tomb_content D hash t"
    and "gi \<le> tt_mask t" "si < LENGTH('w)" "tomb_slot D t gi si = Some (k, v)"
    and "g \<le> tt_mask t" "s < LENGTH('w)" "tomb_slot D t g s = Some (k, w)"
  shows "g = gi \<and> s = si"
proof -
  have "g * LENGTH('w) + s = gi * LENGTH('w) + si"
    using assms flat_less [OF content_ctrl [OF assms(1)]] keys_distinct_nth [of "tt_buckets t"]
    unfolding tomb_content_def tomb_slot_def by metis
  then show ?thesis using grid_inj assms(3,6) by blast
qed

lemma key_at_entry:
  "si < LENGTH('w) \<Longrightarrow> tomb_slot D t gi si = Some (k, v) \<Longrightarrow> tomb_key_at D t gi si = k"
  "si < LENGTH('w) \<Longrightarrow> tomb_slot D t gi si = Some (k, v) \<Longrightarrow> tomb_value_at D t gi si = v"
  by (simp_all add: tomb_slot_def tomb_key_at_def tomb_value_at_def)

section \<open>Lookup\<close>

lemma group_find_Some:
  assumes "tomb_content D hash t" "gi \<le> tt_mask t"
    and "tomb_group_find D t gi eq (reduced_hash D h) = Some si"
  shows "si < LENGTH('w)" "\<exists>k v. tomb_slot D t gi si = Some (k, v) \<and> eq k"
proof -
  have si: "si < LENGTH('w)" "tomb_tag D t gi si = reduced_hash D h" "eq (tomb_key_at D t gi si)"
    using assms mask_find_Some match_meta(1) [OF content_ctrl] unfolding tomb_group_find_def by blast+
  then show "si < LENGTH('w)" by simp
  have "tomb_slot D t gi si \<noteq> None" using slot_None [OF assms(1,2) si(1)] si(2) by simp
  then show "\<exists>k v. tomb_slot D t gi si = Some (k, v) \<and> eq k"
    using si(1,3) key_at_entry(1) by (metis not_None_eq prod.exhaust)
qed

lemma group_find_absent:
  assumes "tomb_content D hash t" "gi \<le> tt_mask t"
    and "\<And>si k v. si < LENGTH('w) \<Longrightarrow> tomb_slot D t gi si = Some (k, v) \<Longrightarrow> \<not> eq k"
  shows "tomb_group_find D t gi eq (reduced_hash D h) = None"
  using group_find_Some [OF assms(1,2)] assms(3) by (metis not_None_eq)

lemma group_find_unmapped:
  assumes "tomb_content D hash t" "gi \<le> tt_mask t" "\<And>k. eq k \<Longrightarrow> tomb_map t k = None"
  shows "tomb_group_find D t gi eq (reduced_hash D h) = None"
  using group_find_absent [OF assms(1,2)] assms(2,3) map_None [OF assms(1)] by blast

lemma group_find_present:
  assumes "tomb_content D hash t" "gi \<le> tt_mask t" "si < LENGTH('w)" "tomb_slot D t gi si = Some (k, v)"
  shows "tomb_group_find D t gi (\<lambda>x. x = k) (reduced_hash D (hash k)) = Some si"
proof (cases "tomb_group_find D t gi (\<lambda>x. x = k) (reduced_hash D (hash k))")
  case None
  have "bit (tomb_match_byte (tomb_meta D t gi) (reduced_hash D (hash k)) :: 'w word) si"
    using match_meta(1) [OF content_ctrl [OF assms(1)] assms(2)] assms(3) slot_Some(1) [OF assms] by simp
  then have "tomb_key_at D t gi si \<noteq> k" using None by (simp add: tomb_group_find_def mask_find_None)
  then show ?thesis using key_at_entry(1) [OF assms(3,4)] by simp
next
  case (Some s)
  have "s < LENGTH('w)" using group_find_Some(1) [OF assms(1,2) Some] .
  moreover obtain w where "tomb_slot D t gi s = Some (k, w)"
    using group_find_Some(2) [OF assms(1,2) Some] by blast
  ultimately show ?thesis using slot_unique [OF assms assms(2)] Some by simp
qed

text \<open>The loop passes over full groups without a match.\<close>

lemma find_loop_skip:
  assumes "\<And>q. q < d \<Longrightarrow> tomb_group_find D t (tomb_probe D t h q) eq r = None"
    and "\<And>q. q < d \<Longrightarrow> tomb_full D t (tomb_probe D t h q)" and ok: "tomb_ctrl_ok D t"
  shows "tomb_find_loop D t r eq (tomb_group_index D t h) 0 = tomb_find_loop D t r eq (tomb_probe D t h d) d"
  using assms(1,2)
proof (induction d)
  case 0
  then show ?case by (simp add: tomb_probe_def)
next
  case (Suc d)
  then have "tomb_find_loop D t r eq (tomb_group_index D t h) 0 = tomb_find_loop D t r eq (tomb_probe D t h d) d"
    by simp
  also have "\<dots> = tomb_find_loop D t r eq (tomb_probe D t h (Suc d)) (Suc d)"
    using Suc.prems [of d] any_empty [OF ok probe_le [OF ok]]
    by (subst tomb_find_loop.simps) (simp add: tomb_probe_def)
  finally show ?case .
qed

theorem find_present:
  assumes "tomb_content D hash t" "gi \<le> tt_mask t" "si < LENGTH('w)" "tomb_slot D t gi si = Some (k, v)"
  shows "tomb_find_by_hash D t (hash k) (\<lambda>x. x = k) = Some (Some (gi, si))"
proof -
  let ?h = "hash k" and ?eq = "\<lambda>x. x = k"
  note ok = content_ctrl [OF assms(1)]
  obtain p where p: "p \<le> tt_mask t" "tomb_probe D t ?h p = gi"
    "\<And>q. q < p \<Longrightarrow> tomb_full D t (tomb_probe D t ?h q)"
    using slot_Some(2) [OF assms] by (auto simp: tomb_reaches_def)
  have skip: "tomb_group_find D t (tomb_probe D t ?h q) ?eq (reduced_hash D ?h) = None" if "q < p" for q
  proof (rule group_find_absent [OF assms(1) probe_le [OF ok]])
    fix s k' v' assume s: "s < LENGTH('w)" "tomb_slot D t (tomb_probe D t ?h q) s = Some (k', v')"
    have "tomb_probe D t ?h q \<noteq> gi" using probe_inj [OF ok, of q p] that p by force
    then show "k' \<noteq> k" using slot_unique [OF assms probe_le [OF ok] s(1)] s(2) by blast
  qed
  have "tomb_find_by_hash D t ?h ?eq = tomb_find_loop D t (reduced_hash D ?h) ?eq gi p"
    using find_loop_skip [OF skip p(3) ok] p(2) by (simp add: tomb_find_by_hash_def)
  also have "\<dots> = Some (Some (gi, si))"
    by (subst tomb_find_loop.simps) (simp add: group_find_present [OF assms])
  finally show ?thesis .
qed

text \<open>A first group with an \<^const>\<open>EMPTY\<close> byte on every probe path, once there is one at all.\<close>

lemma first_gap:
  assumes "tomb_ctrl_ok D t" "EMPTY \<in> set (tt_ctrl t)"
  obtains p where "p \<le> tt_mask t" "\<not> tomb_full D t (tomb_probe D t h p)"
    "\<And>q. q < p \<Longrightarrow> tomb_full D t (tomb_probe D t h q)"
proof -
  obtain i where i: "i < length (tt_ctrl t)" "tt_ctrl t ! i = EMPTY" using assms(2) by (metis in_set_conv_nth)
  obtain gi si where g: "gi \<le> tt_mask t" "si < LENGTH('w)" "i = gi * LENGTH('w) + si"
    using flat_grid [OF assms(1) i(1)] by metis
  have "\<not> tomb_full D t gi" using i g by (auto simp: tomb_full_def tomb_tag_def)
  then obtain p0 where p0: "p0 \<le> tt_mask t" "\<not> tomb_full D t (tomb_probe D t h p0)"
    using probe_finds [OF assms(1) g(1), of h] by metis
  define p where "p = (LEAST p. \<not> tomb_full D t (tomb_probe D t h p))"
  have "\<not> tomb_full D t (tomb_probe D t h p)" unfolding p_def by (rule LeastI [of "\<lambda>p. \<not> tomb_full D t (tomb_probe D t h p)", OF p0(2)])
  moreover have "p \<le> p0" unfolding p_def by (rule Least_le [of "\<lambda>p. \<not> tomb_full D t (tomb_probe D t h p)", OF p0(2)])
  moreover have "tomb_full D t (tomb_probe D t h q)" if "q < p" for q
    using not_less_Least that unfolding p_def by blast
  ultimately show ?thesis using that p0(1) by (meson le_trans)
qed

theorem find_absent:
  assumes "tomb_content D hash t" "EMPTY \<in> set (tt_ctrl t)" "\<And>k. eq k \<Longrightarrow> tomb_map t k = None"
  shows "tomb_find_by_hash D t h eq = Some None"
proof -
  note ok = content_ctrl [OF assms(1)]
  obtain p where p: "\<not> tomb_full D t (tomb_probe D t h p)" "\<And>q. q < p \<Longrightarrow> tomb_full D t (tomb_probe D t h q)"
    using first_gap [OF ok assms(2), of h] by metis
  have skip: "tomb_group_find D t (tomb_probe D t h q) eq (reduced_hash D h) = None" for q
    using group_find_unmapped [OF assms(1) probe_le [OF ok] assms(3)] .
  have "tomb_find_by_hash D t h eq = tomb_find_loop D t (reduced_hash D h) eq (tomb_probe D t h p) p"
    using find_loop_skip [OF skip p(2) ok] by (simp add: tomb_find_by_hash_def)
  also have "\<dots> = Some None"
    using p(1) any_empty [OF ok probe_le [OF ok]] by (subst tomb_find_loop.simps) (simp add: skip)
  finally show ?thesis .
qed

end

end
