(* ===== verification/Tomb_Ops.thy ===== *)
theory Tomb_Ops
  imports Tomb_Correct
begin

text \<open>
  Insertion, removal and rehashing of the tombstone engine as operations on
  finite maps, and what they do to the counters.
\<close>

lemma length_filter_update:
  assumes "i < length xs"
  shows "length (filter P (xs[i := x])) + of_bool (P (xs ! i)) = length (filter P xs) + of_bool (P x)"
proof -
  have "filter P xs = filter P (take i xs) @ filter P [xs ! i] @ filter P (drop (Suc i) xs)"
    using id_take_nth_drop [OF assms] by (metis filter_append append_Cons append_Nil)
  moreover have "filter P (xs[i := x]) = filter P (take i xs) @ filter P [x] @ filter P (drop (Suc i) xs)"
    using upd_conv_take_nth_drop [OF assms, of x] by (metis filter_append append_Cons append_Nil)
  ultimately show ?thesis by simp
qed

lemma usize_sub_simps [simp]: "b \<le> a \<Longrightarrow> usize_sub a b = a - b" "usize_sub (Suc a) (Suc 0) = a"
  by (simp_all add: usize_sub_def)

text \<open>A slot an insertion of a key with hash \<open>h\<close> may use.\<close>

definition tomb_available :: "'w::len tomb_design \<Rightarrow> ('k, 'v) tomb_table \<Rightarrow> u64 \<Rightarrow> nat \<Rightarrow> nat \<Rightarrow> bool" where
  "tomb_available D t h gi si \<longleftrightarrow> gi \<le> tt_mask t \<and> si < LENGTH('w) \<and>
     (tomb_tag D t gi si = EMPTY \<or> tomb_tag D t gi si = TOMBSTONE) \<and> tomb_reaches D t h gi"

definition tomb_at :: "'w::len tomb_design \<Rightarrow> ('k, 'v) tomb_table \<Rightarrow> nat \<Rightarrow> nat \<Rightarrow> 'k \<Rightarrow> 'v \<Rightarrow> bool" where
  "tomb_at D t gi si k v \<longleftrightarrow> gi \<le> tt_mask t \<and> si < LENGTH('w) \<and> tomb_slot D t gi si = Some (k, v)"

lemma tomb_put_simps [simp]:
  "tt_mask (tomb_put D t h gi si k v) = tt_mask t" "tt_len (tomb_put D t h gi si k v) = tt_len t"
  "tt_growth_left (tomb_put D t h gi si k v) = tt_growth_left t"
  "tt_max_load (tomb_put D t h gi si k v) = tt_max_load t"
  "length (tt_ctrl (tomb_put D t h gi si k v)) = length (tt_ctrl t)"
  "length (tt_buckets (tomb_put D t h gi si k v)) = length (tt_buckets t)"
  by (simp_all add: tomb_put_def tomb_write_def tomb_set_meta_def)

lemma tomb_allocate_simps [simp]:
  "tt_mask (tomb_allocate D t n) = n - 1" "tt_len (tomb_allocate D t n) = tt_len t"
  "tt_ctrl (tomb_allocate D t n) = replicate (n * LENGTH('w)) 0"
  "tt_buckets (tomb_allocate D t n) = replicate (n * LENGTH('w)) None"
  "tt_growth_left (tomb_allocate D t n) = tomb_max_load (n * LENGTH('w))"
  "tt_max_load (tomb_allocate D t n) = tomb_max_load (n * LENGTH('w))"
  for D :: "'w::len tomb_design"
  by (simp_all add: tomb_allocate_def)

lemma tomb_new_simps [simp]:
  "tt_mask (tomb_new D) = 0" "tt_len (tomb_new D) = 0" "tt_buckets (tomb_new D) = []"
  "tt_growth_left (tomb_new D) = 0" "tt_max_load (tomb_new D) = 0" "tomb_map (tomb_new D) = Map.empty"
  "tt_ctrl (tomb_new D) = replicate LENGTH('w) 0"
  for D :: "'w::len tomb_design"
  by (simp_all add: tomb_new_def tomb_map_def)

text \<open>The counters do not matter for the content.\<close>

lemma tomb_content_counters [simp]:
  "tomb_content D hash (t\<lparr>tt_len := n\<rparr>) \<longleftrightarrow> tomb_content D hash t"
  "tomb_content D hash (t\<lparr>tt_growth_left := n\<rparr>) \<longleftrightarrow> tomb_content D hash t"
  "tomb_content D hash (t\<lparr>tt_max_load := n\<rparr>) \<longleftrightarrow> tomb_content D hash t"
  by (simp_all add: tomb_content_def tomb_ctrl_ok_def tomb_entry_ok_def tomb_reaches_def tomb_probe_def
      tomb_group_index_def tomb_full_def tomb_tag_def cong: option.case_cong)

lemma tomb_map_counters [simp]:
  "tomb_map (t\<lparr>tt_len := n\<rparr>) = tomb_map t" "tomb_map (t\<lparr>tt_growth_left := n\<rparr>) = tomb_map t"
  "tomb_map (t\<lparr>tt_ctrl := c\<rparr>) = tomb_map t"
  by (simp_all add: tomb_map_def)

context tomb_layout
begin

section \<open>Writing one slot\<close>

lemma max_load_less: "0 < n \<Longrightarrow> tomb_max_load n < n"
  by (simp add: tomb_max_load_def less_mult_imp_div_less)

lemma max_load_pos: "0 < n \<Longrightarrow> 0 < tomb_max_load (n * LENGTH('w))"
proof -
  assume "0 < n"
  then have "8 \<le> n * LENGTH('w) * 7"
    using width(2) mult_le_mono [of 1 n 2 "LENGTH('w)"] by simp
  then show ?thesis by (simp add: tomb_max_load_def div_greater_zero_iff)
qed

lemma tag_set:
  assumes "tomb_ctrl_ok D t" "gi \<le> tt_mask t" "si < LENGTH('w)" "s < LENGTH('w)"
  shows "tomb_tag D (t\<lparr>tt_ctrl := (tt_ctrl t)[gi * LENGTH('w) + si := x]\<rparr>) g s =
    (if g = gi \<and> s = si then x else tomb_tag D t g s)"
  using flat_less [OF assms(1-3)] grid_inj [OF assms(4,3), of g gi]
  by (auto simp: tomb_tag_def nth_list_update)

lemma reaches_mono:
  assumes "tomb_reaches D t h gi" "tomb_ctrl_ok D t" "tt_mask u = tt_mask t"
    and "\<And>g. g \<le> tt_mask t \<Longrightarrow> tomb_full D t g \<Longrightarrow> tomb_full D u g"
  shows "tomb_reaches D u h gi"
  using assms probe_le [OF assms(2)]
  by (auto simp: tomb_reaches_def tomb_probe_def tomb_group_index_def)

text \<open>
  Writing a byte that is not \<^const>\<open>EMPTY\<close> with a bucket that fits it keeps the
  other entries reachable; the cases are filling a slot and erasing it.
\<close>

lemma write_content:
  fixes x :: u8
  assumes content: "tomb_content D hash t" and g: "gi \<le> tt_mask t" "si < LENGTH('w)" and x: "x \<noteq> EMPTY"
    and u: "u = t\<lparr>tt_ctrl := (tt_ctrl t)[gi * LENGTH('w) + si := x], tt_buckets := (tt_buckets t)[gi * LENGTH('w) + si := b]\<rparr>"
    and kd: "keys_distinct (tt_buckets u)"
    and b: "case b of None \<Rightarrow> x = TOMBSTONE | Some (k, v) \<Rightarrow> x = reduced_hash D (hash k) \<and> tomb_reaches D t (hash k) gi"
  shows "tomb_content D hash u"
proof -
  let ?i = "gi * LENGTH('w) + si"
  note ok = content_ctrl [OF content]
  have i: "?i < length (tt_ctrl t)" by (rule flat_less [OF ok g])
  have tag: "s < LENGTH('w) \<Longrightarrow> tomb_tag D u g' s = (if g' = gi \<and> s = si then x else tomb_tag D t g' s)" for g' s
    using tag_set [OF ok g, of s x g'] by (simp add: u tomb_tag_def)
  have full: "tomb_full D t g' \<Longrightarrow> tomb_full D u g'" for g'
    using x by (auto simp: tomb_full_def tag)
  have mask: "tt_mask u = tt_mask t" by (simp add: u)
  have reach: "tomb_reaches D t h g' \<Longrightarrow> tomb_reaches D u h g'" for h g'
    using reaches_mono [OF _ ok mask] full by blast
  have len: "length (tt_buckets t) = length (tt_ctrl t)" and entries: "\<And>j. j < length (tt_ctrl t) \<Longrightarrow> tomb_entry_ok D hash t j"
    using content by (simp_all add: tomb_content_def)
  have "tomb_entry_ok D hash u j" if j: "j < length (tt_ctrl u)" for j
  proof (cases "j = ?i")
    case True
    then show ?thesis
      using b reach i len g(2) by (auto simp: tomb_entry_ok_def u [THEN arg_cong [where f = tt_ctrl]]
          u [THEN arg_cong [where f = tt_buckets]] split: option.splits)
  next
    case False
    have "tomb_entry_ok D hash t j" using entries j by (simp add: u)
    moreover have "tt_buckets u ! j = tt_buckets t ! j" "tt_ctrl u ! j = tt_ctrl t ! j"
      using False by (simp_all add: u)
    ultimately show ?thesis using reach by (auto simp: tomb_entry_ok_def split: option.splits)
  qed
  then show ?thesis using ok len kd by (simp add: tomb_content_def tomb_ctrl_ok_def u)
qed

lemma tombs_update:
  assumes "i < length (tt_ctrl t)"
  shows "tombs (t\<lparr>tt_ctrl := (tt_ctrl t)[i := x], tt_buckets := bs\<rparr>) + of_bool (tt_ctrl t ! i = TOMBSTONE) =
    tombs t + of_bool (x = TOMBSTONE)"
  using length_filter_update [OF assms, of "\<lambda>b. b = TOMBSTONE" x] by (simp add: tombs_def)

lemma put_correct:
  assumes "tomb_content D hash t" "tomb_available D t (hash k) gi si" "tomb_map t k = None"
    and u_def: "u = tomb_put D t (hash k) gi si k v"
  shows "tomb_content D hash u" "tomb_map u = (tomb_map t)(k \<mapsto> v)" "tomb_at D u gi si k v"
    "length (somes (tt_buckets u)) = Suc (length (somes (tt_buckets t)))"
    "tombs u + of_bool (tomb_tag D t gi si = TOMBSTONE) = tombs t"
proof -
  let ?i = "gi * LENGTH('w) + si"
  have g: "gi \<le> tt_mask t" "si < LENGTH('w)" and r: "tomb_reaches D t (hash k) gi"
    and free: "tomb_slot D t gi si = None"
    using assms(2) slot_None [OF assms(1)] by (auto simp: tomb_available_def)
  have i: "?i < length (tt_ctrl t)" "?i < length (tt_buckets t)"
    using flat_less [OF content_ctrl [OF assms(1)] g] assms(1) by (simp_all add: tomb_content_def)
  have u: "u = t\<lparr>tt_ctrl := (tt_ctrl t)[?i := reduced_hash D (hash k)], tt_buckets := (tt_buckets t)[?i := Some (k, v)]\<rparr>"
    using g by (simp add: u_def tomb_put_def tomb_write_def tomb_set_meta_def)
  have kd: "keys_distinct (tt_buckets t)" using assms(1) by (simp add: tomb_content_def)
  note ins = bucket_insert [OF kd i(2) free [unfolded tomb_slot_def] assms(3) [unfolded tomb_map_def], of v]
  show "tomb_content D hash u"
    by (rule write_content [OF assms(1) g _ u]) (use ins r in \<open>auto simp: u\<close>)
  show "tomb_map u = (tomb_map t)(k \<mapsto> v)" "length (somes (tt_buckets u)) = Suc (length (somes (tt_buckets t)))"
    using ins by (simp_all add: u tomb_map_def)
  show "tomb_at D u gi si k v" using g i by (simp add: tomb_at_def tomb_slot_def u)
  show "tombs u + of_bool (tomb_tag D t gi si = TOMBSTONE) = tombs t"
    using tombs_update [OF i(1), where x = "reduced_hash D (hash k)"] by (simp add: u tomb_tag_def)
qed

lemma erase_correct:
  assumes "tomb_content D hash t" "tomb_at D t gi si k v"
    and u_def: "u = tomb_erase_slot D (tomb_write D t gi si None) gi si"
  shows "tomb_content D hash u" "tomb_map u = (tomb_map t)(k := None)"
    "Suc (length (somes (tt_buckets u))) = length (somes (tt_buckets t))"
    "tombs u = Suc (tombs t)" "tt_len u = usize_sub (tt_len t) 1" "tt_growth_left u = tt_growth_left t"
    "tt_max_load u = tt_max_load t" "tt_mask u = tt_mask t" "length (tt_ctrl u) = length (tt_ctrl t)"
proof -
  let ?i = "gi * LENGTH('w) + si"
  let ?w = "t\<lparr>tt_ctrl := (tt_ctrl t)[?i := TOMBSTONE], tt_buckets := (tt_buckets t)[?i := None]\<rparr>"
  have g: "gi \<le> tt_mask t" "si < LENGTH('w)" and s: "tomb_slot D t gi si = Some (k, v)"
    using assms(2) by (auto simp: tomb_at_def)
  have i: "?i < length (tt_ctrl t)" "?i < length (tt_buckets t)"
    using flat_less [OF content_ctrl [OF assms(1)] g] assms(1) by (simp_all add: tomb_content_def)
  have u: "u = ?w\<lparr>tt_len := usize_sub (tt_len t) 1\<rparr>"
    using g by (simp add: u_def tomb_erase_slot_def tomb_write_def tomb_set_meta_def Let_def)
  have kd: "keys_distinct (tt_buckets t)" using assms(1) by (simp add: tomb_content_def)
  note rem = bucket_remove [OF kd i(2) s [unfolded tomb_slot_def]]
  have "tomb_content D hash ?w"
    by (rule write_content [OF assms(1) g _ refl]) (use rem in auto)
  then show "tomb_content D hash u" by (simp add: u)
  show "tomb_map u = (tomb_map t)(k := None)" "Suc (length (somes (tt_buckets u))) = length (somes (tt_buckets t))"
    using rem by (simp_all add: u tomb_map_def)
  have "tt_ctrl t ! ?i \<noteq> TOMBSTONE" using slot_Some(1) [OF assms(1) g s] by (simp add: tomb_tag_def)
  then show "tombs u = Suc (tombs t)"
    using tombs_update [OF i(1), where x = TOMBSTONE] by (simp add: u tombs_def)
qed (simp_all add: u_def tomb_erase_slot_def tomb_write_def tomb_set_meta_def Let_def)

lemma replace_correct:
  assumes "tomb_content D hash t" "tomb_at D t gi si k v"
    and u_def: "u = snd (tomb_replace_value D t gi si w)"
  shows "fst (tomb_replace_value D t gi si w) = Some v" "tomb_content D hash u" "tomb_map u = (tomb_map t)(k \<mapsto> w)"
    "length (somes (tt_buckets u)) = length (somes (tt_buckets t))" "tombs u = tombs t" "tt_len u = tt_len t"
    "tt_growth_left u = tt_growth_left t" "tt_max_load u = tt_max_load t" "tt_ctrl u = tt_ctrl t" "tt_mask u = tt_mask t"
proof -
  let ?i = "gi * LENGTH('w) + si"
  have g: "gi \<le> tt_mask t" "si < LENGTH('w)" and s: "tomb_slot D t gi si = Some (k, v)"
    using assms(2) by (auto simp: tomb_at_def)
  have i: "?i < length (tt_ctrl t)" "?i < length (tt_buckets t)"
    using flat_less [OF content_ctrl [OF assms(1)] g] assms(1) by (simp_all add: tomb_content_def)
  have u: "u = t\<lparr>tt_ctrl := (tt_ctrl t)[?i := tt_ctrl t ! ?i], tt_buckets := (tt_buckets t)[?i := Some (k, w)]\<rparr>"
    using g s by (simp add: u_def tomb_replace_value_def tomb_write_def key_at_entry)
  have kd: "keys_distinct (tt_buckets t)" using assms(1) by (simp add: tomb_content_def)
  note rep = bucket_replace [OF kd i(2) s [unfolded tomb_slot_def], of w]
  have tag: "tt_ctrl t ! ?i = reduced_hash D (hash k)" using slot_Some(1) [OF assms(1) g s] by (simp add: tomb_tag_def)
  show "tomb_content D hash u"
    by (rule write_content [OF assms(1) g _ u]) (use rep tag slot_Some(2) [OF assms(1) g s] in \<open>auto simp: u\<close>)
  show "fst (tomb_replace_value D t gi si w) = Some v"
    using key_at_entry(2) [OF g(2) s] by (simp add: tomb_replace_value_def)
  show "tomb_map u = (tomb_map t)(k \<mapsto> w)" "length (somes (tt_buckets u)) = length (somes (tt_buckets t))"
    using rep by (simp_all add: u tomb_map_def)
qed (simp_all add: u_def tomb_replace_value_def tomb_write_def tombs_def)

end

section \<open>An \<^const>\<open>EMPTY\<close> byte always remains\<close>

context tomb_layout
begin

lemma empty_remains:
  assumes "tomb_content D hash t" "length (somes (tt_buckets t)) + tombs t < length (tt_ctrl t)"
  shows "EMPTY \<in> set (tt_ctrl t)"
proof (rule ccontr)
  assume no: "EMPTY \<notin> set (tt_ctrl t)"
  have occ: "tt_ctrl t ! i \<noteq> TOMBSTONE \<longleftrightarrow> tt_buckets t ! i \<noteq> None" if "i < length (tt_ctrl t)" for i
  proof -
    have "tt_ctrl t ! i \<noteq> EMPTY" using no that nth_mem by metis
    moreover have "tomb_entry_ok D hash t i" using assms(1) that by (simp add: tomb_content_def)
    ultimately show ?thesis by (auto simp: tomb_entry_ok_def split: option.splits)
  qed
  have "length (filter (\<lambda>b. b \<noteq> TOMBSTONE) (tt_ctrl t)) = length (somes (tt_buckets t))"
    using occ assms(1) unfolding length_somes_card length_filter_conv_card tomb_content_def
    by (intro arg_cong [where f = card]) auto
  then have "length (tt_ctrl t) = length (somes (tt_buckets t)) + tombs t"
    using sum_length_filter_compl [of "\<lambda>b. b = TOMBSTONE" "tt_ctrl t"] by (simp add: tombs_def)
  then show False using assms(2) by simp
qed

lemma counts_empty:
  assumes "tomb_content D hash t" "tomb_counts D t"
  shows "EMPTY \<in> set (tt_ctrl t)"
proof (rule empty_remains [OF assms(1)])
  have "0 < length (tt_ctrl t)" using content_ctrl [OF assms(1)] by (simp add: tomb_ctrl_ok_def)
  then show "length (somes (tt_buckets t)) + tombs t < length (tt_ctrl t)"
    using assms(2) max_load_less [of "length (tt_ctrl t)"] by (simp add: tomb_counts_def)
qed

section \<open>Insertion into an available slot\<close>

lemma insert_at_eq:
  "tomb_insert_at D t h gi si k v m =
    (let u = tomb_put D t h gi si k v in
     u\<lparr>tt_len := tt_len t + 1,
       tt_growth_left := (if tomb_tag D t gi si = EMPTY then usize_sub (tt_growth_left t) 1 else tt_growth_left t)\<rparr>)"
  by (simp add: tomb_insert_at_def tomb_tag_def Let_def)

theorem insert_at_correct:
  assumes "tomb_content D hash t" "tomb_counts D t" "tomb_available D t (hash k) gi si" "tomb_map t k = None"
    and "0 < tt_growth_left t"
  shows "tomb_content D hash (tomb_insert_at D t (hash k) gi si k v m)"
    "tomb_counts D (tomb_insert_at D t (hash k) gi si k v m)"
    "tomb_map (tomb_insert_at D t (hash k) gi si k v m) = (tomb_map t)(k \<mapsto> v)"
    "tomb_at D (tomb_insert_at D t (hash k) gi si k v m) gi si k v"
proof -
  let ?u = "tomb_put D t (hash k) gi si k v"
  note put = put_correct [OF assms(1,3,4) refl, of v]
  have tag: "tomb_tag D t gi si = EMPTY \<or> tomb_tag D t gi si = TOMBSTONE"
    using assms(3) by (simp add: tomb_available_def)
  show "tomb_content D hash (tomb_insert_at D t (hash k) gi si k v m)"
    "tomb_map (tomb_insert_at D t (hash k) gi si k v m) = (tomb_map t)(k \<mapsto> v)"
    "tomb_at D (tomb_insert_at D t (hash k) gi si k v m) gi si k v"
    using put(1-3) by (simp_all add: insert_at_eq Let_def tomb_at_def tomb_slot_def)
  show "tomb_counts D (tomb_insert_at D t (hash k) gi si k v m)"
    using put(4,5) tag assms(2,5) by (auto simp: insert_at_eq Let_def tomb_counts_def tombs_def)
qed

text \<open>The probe of \<^verbatim>\<open>insert_no_check\<close> ends at an available slot.\<close>

lemma reaches_probe:
  assumes "p \<le> tt_mask t" "\<And>q. q < p \<Longrightarrow> tomb_full D t (tomb_probe D t h q)"
  shows "tomb_reaches D t h (tomb_probe D t h p)"
  using assms by (auto simp: tomb_reaches_def)

lemma insert_no_check_loop_correct:
  assumes ok: "tomb_ctrl_ok D t" and pe: "pe \<le> tt_mask t" "\<not> tomb_full D t (tomb_probe D t h pe)"
    "\<And>q. q < pe \<Longrightarrow> tomb_full D t (tomb_probe D t h q)"
    and "p \<le> pe" "\<And>g s. ft = Some (g, s) \<Longrightarrow> tomb_available D t h g s \<and> tomb_tag D t g s = TOMBSTONE"
  shows "\<exists>gi si. tomb_insert_no_check_loop D t h k v (tomb_probe D t h p) p ft =
      Some ((gi, si), tomb_insert_at D t h gi si k v 0) \<and> tomb_available D t h gi si"
  using assms(5,6)
proof (induction "pe - p" arbitrary: p ft)
  case 0
  let ?g = "tomb_probe D t h p" and ?ft = "if ft = None then map_option (Pair (tomb_probe D t h p)) (tomb_first D t (tomb_probe D t h p) TOMBSTONE) else ft"
  have p: "p = pe" using 0 by simp
  note gle = probe_le [OF ok, of h p]
  obtain si where si: "tomb_first_empty D t ?g = Some si"
    using first_empty_None [OF ok gle] pe(2) p by auto
  have r: "tomb_reaches D t h ?g" by (rule reaches_probe) (use pe p in auto)
  have ft: "tomb_available D t h g s \<and> tomb_tag D t g s = TOMBSTONE" if "?ft = Some (g, s)" for g s
    using that 0(3) first_Some [OF ok gle] gle r by (auto simp: tomb_available_def split: if_splits)
  show ?case
  proof (cases "?ft")
    case None
    then show ?thesis
      using si first_empty_Some [OF ok gle si] gle r
      by (subst tomb_insert_no_check_loop.simps)
        (auto simp: tomb_available_def insert_at_eq Let_def split: if_splits)
  next
    case (Some gs)
    obtain g s where gs: "gs = (g, s)" by fastforce
    have av: "tomb_available D t h g s" "tomb_tag D t g s = TOMBSTONE" using ft Some gs by auto
    show ?thesis
      using si Some gs av
      by (subst tomb_insert_no_check_loop.simps) (auto simp: insert_at_eq Let_def split: if_splits)
  qed
next
  case (Suc d)
  let ?g = "tomb_probe D t h p" and ?ft = "if ft = None then map_option (Pair (tomb_probe D t h p)) (tomb_first D t (tomb_probe D t h p) TOMBSTONE) else ft"
  have p: "p < pe" using Suc by simp
  note gle = probe_le [OF ok, of h p]
  have none: "tomb_first_empty D t ?g = None" using first_empty_None [OF ok gle] pe(3) p by simp
  have r: "tomb_reaches D t h ?g" by (rule reaches_probe) (use pe p in auto)
  have ft: "tomb_available D t h g s \<and> tomb_tag D t g s = TOMBSTONE" if "?ft = Some (g, s)" for g s
    using that Suc.prems(2) first_Some [OF ok gle] gle r by (auto simp: tomb_available_def split: if_splits)
  have "tomb_insert_no_check_loop D t h k v ?g p ft =
    tomb_insert_no_check_loop D t h k v (tomb_probe D t h (Suc p)) (Suc p) ?ft"
    using none by (subst tomb_insert_no_check_loop.simps) (simp add: tomb_probe_def)
  then show ?case using Suc.hyps(1) [of "Suc p" ?ft] Suc.hyps(2) p ft by simp
qed

theorem insert_no_check_correct:
  assumes "tomb_content D hash t" "EMPTY \<in> set (tt_ctrl t)"
  obtains gi si where "tomb_insert_no_check D t h k v = Some ((gi, si), tomb_insert_at D t h gi si k v 0)"
    "tomb_available D t h gi si"
proof -
  note ok = content_ctrl [OF assms(1)]
  obtain p where p: "p \<le> tt_mask t" "\<not> tomb_full D t (tomb_probe D t h p)"
    "\<And>q. q < p \<Longrightarrow> tomb_full D t (tomb_probe D t h q)"
    using first_gap [OF ok assms(2), of h] by metis
  have "\<exists>gi si. tomb_insert_no_check_loop D t h k v (tomb_probe D t h 0) 0 None =
      Some ((gi, si), tomb_insert_at D t h gi si k v 0) \<and> tomb_available D t h gi si"
    by (rule insert_no_check_loop_correct [OF ok p]) auto
  then show ?thesis using that by (auto simp: tomb_insert_no_check_def tomb_probe_def)
qed

theorem insert_after_resize_correct:
  assumes "tomb_content D hash t" "EMPTY \<in> set (tt_ctrl t)"
  obtains gi si where "tomb_insert_after_resize D t h k v = Some (tomb_put D t h gi si k v)"
    "tomb_available D t h gi si" "tomb_tag D t gi si = EMPTY"
proof -
  note ok = content_ctrl [OF assms(1)]
  obtain p where p: "p \<le> tt_mask t" "\<not> tomb_full D t (tomb_probe D t h p)"
    "\<And>q. q < p \<Longrightarrow> tomb_full D t (tomb_probe D t h q)"
    using first_gap [OF ok assms(2), of h] by metis
  have skip: "tomb_insert_after_resize_loop D t h k v (tomb_probe D t h 0) 0 =
    tomb_insert_after_resize_loop D t h k v (tomb_probe D t h d) d" if "d \<le> p" for d
    using that
  proof (induction d)
    case (Suc d)
    have "tomb_first_empty D t (tomb_probe D t h d) = None"
      using first_empty_None [OF ok probe_le [OF ok]] p(3) Suc.prems by simp
    then have "tomb_insert_after_resize_loop D t h k v (tomb_probe D t h d) d =
      tomb_insert_after_resize_loop D t h k v (tomb_probe D t h (Suc d)) (Suc d)"
      by (subst tomb_insert_after_resize_loop.simps) (simp add: tomb_probe_def)
    then show ?case using Suc by simp
  qed simp
  obtain si where si: "tomb_first_empty D t (tomb_probe D t h p) = Some si"
    using first_empty_None [OF ok probe_le [OF ok]] p(2) by auto
  have "tomb_insert_after_resize_loop D t h k v (tomb_probe D t h 0) 0 =
    Some (tomb_put D t h (tomb_probe D t h p) si k v)"
    using tomb_insert_after_resize_loop.simps [of D t h k v "tomb_probe D t h p" p] si skip [OF order_refl]
    by simp
  then show ?thesis
    using that [of "tomb_probe D t h p" si] first_empty_Some [OF ok probe_le [OF ok] si] probe_le [OF ok]
      reaches_probe [OF p(1,3)]
    by (auto simp: tomb_insert_after_resize_def tomb_probe_def tomb_available_def)
qed

end

end
