(* ===== verification/Tomb_Manage.thy ===== *)
theory Tomb_Manage
  imports Tomb_Ops
begin

text \<open>
  The public operations of the tombstone engine on well-formed tables:
  rehashing, insertion, the entry probe, removal and capacity management.
\<close>

definition tomb_occupied_slots :: "'w::len tomb_design \<Rightarrow> ('k, 'v) tomb_table \<Rightarrow> (nat \<times> nat) list" where
  "tomb_occupied_slots D t =
    concat (map (\<lambda>gi. map (Pair gi) (mask_collect (tomb_occupied D t gi))) [0..<Suc (tt_mask t)])"

definition tomb_entry :: "'w::len tomb_design \<Rightarrow> ('k, 'v) tomb_table \<Rightarrow> nat \<times> nat \<Rightarrow> 'k \<times> 'v" where
  "tomb_entry D t p = (tomb_key_at D t (fst p) (snd p), tomb_value_at D t (fst p) (snd p))"

text \<open>The table may double its group count, with the bound of the overflow-bit engine.\<close>

definition tomb_can_grow :: "('k, 'v) tomb_table \<Rightarrow> bool" where
  "tomb_can_grow t \<longleftrightarrow> Suc (tt_mask t) < 2 ^ 54"

context tomb_layout
begin

section \<open>Walking the occupied slots\<close>

lemma group_slots:
  assumes "tomb_content D hash t" "gi \<le> tt_mask t"
  shows "mask_collect (tomb_occupied D t gi) = filter (\<lambda>si. tomb_slot D t gi si \<noteq> None) [0..<LENGTH('w)]" (is "?l = ?r")
proof (rule sorted_distinct_set_unique)
  have "tomb_slot D t gi si \<noteq> None \<longleftrightarrow> tomb_tag D t gi si \<noteq> EMPTY \<and> tomb_tag D t gi si \<noteq> TOMBSTONE"
    if "si < LENGTH('w)" for si
    using slot_None [OF assms that] by (cases "tomb_slot D t gi si") simp_all
  then show "set ?l = set ?r"
    using match_meta(3) [OF content_ctrl [OF assms(1)] assms(2)]
    by (auto simp del: not_None_eq simp: mask_collect_eq)
  show "sorted ?r" by (rule sorted_wrt_filter) simp
qed (simp_all add: mask_collect_eq)

lemma occupied_slots_eq:
  assumes "tomb_content D hash t"
  shows "tomb_occupied_slots D t = concat (map (\<lambda>gi. map (Pair gi)
    (filter (\<lambda>si. tomb_slot D t gi si \<noteq> None) [0..<LENGTH('w)])) [0..<Suc (tt_mask t)])"
  unfolding tomb_occupied_slots_def using group_slots [OF assms]
  by (intro arg_cong [where f = concat] map_cong) auto

lemma set_occupied_slots:
  assumes "tomb_content D hash t"
  shows "set (tomb_occupied_slots D t) = {(gi, si). gi \<le> tt_mask t \<and> si < LENGTH('w) \<and> tomb_slot D t gi si \<noteq> None}"
  by (auto simp: occupied_slots_eq [OF assms] less_Suc_eq_le image_iff simp del: upt_Suc)

lemma distinct_occupied_slots:
  assumes "tomb_content D hash t"
  shows "distinct (tomb_occupied_slots D t)"
  unfolding occupied_slots_eq [OF assms] by (rule distinct_concat_pairs) auto

lemma occupied_entries:
  assumes "tomb_content D hash t"
  shows "map (tomb_entry D t) (tomb_occupied_slots D t) = somes (tt_buckets t)"
proof -
  let ?n = "Suc (tt_mask t)" and ?b = "LENGTH('w)"
  have "tt_buckets t = map ((!) (tt_buckets t)) [0..<?n * ?b]"
    using assms map_nth [of "tt_buckets t"] by (simp add: tomb_content_def tomb_ctrl_ok_def)
  also have "\<dots> = concat (map (\<lambda>gi. map (tomb_slot D t gi) [0..<?b]) [0..<?n])"
    unfolding upt_grid tomb_slot_def map_concat map_map comp_def ..
  finally have "somes (tt_buckets t) = concat (map (\<lambda>gi. somes (map (tomb_slot D t gi) [0..<?b])) [0..<?n])"
    by (simp add: somes_def filter_concat map_concat comp_def)
  moreover have "somes (map (tomb_slot D t gi) [0..<?b]) =
      map (\<lambda>si. tomb_entry D t (gi, si)) (filter (\<lambda>si. tomb_slot D t gi si \<noteq> None) [0..<?b])" for gi
    by (auto simp: somes_def filter_map comp_def tomb_entry_def tomb_key_at_def tomb_value_at_def tomb_slot_def)
  ultimately show ?thesis by (simp add: occupied_slots_eq [OF assms] map_concat comp_def del: upt_Suc)
qed

section \<open>Well-formed tables\<close>

lemma wf_cases:
  assumes "tomb_wf D hash t"
  obtains (Unallocated) "t = tomb_new D" | (Allocated) "tomb_content D hash t" "tomb_counts D t"
  using assms by (auto simp: tomb_wf_def)

lemma content_length: "tomb_content D hash t \<Longrightarrow> length (tt_ctrl t) = Suc (tt_mask t) * LENGTH('w)"
  "tomb_content D hash t \<Longrightarrow> groups_ok (Suc (tt_mask t))"
  by (simp_all add: tomb_content_def tomb_ctrl_ok_def)

lemma wf_allocated:
  assumes "tomb_wf D hash t"
  shows "tomb_is_allocated t \<longleftrightarrow> tomb_content D hash t \<and> tomb_counts D t"
    and "\<not> tomb_is_allocated t \<longleftrightarrow> t = tomb_new D"
proof -
  have alloc: "tomb_is_allocated t" if "tomb_content D hash t" "tomb_counts D t"
    using that max_load_pos [of "Suc (tt_mask t)"] content_length(1) [OF that(1)]
    by (simp add: tomb_is_allocated_def tomb_counts_def)
  have new: "\<not> tomb_is_allocated (tomb_new D)" by (simp add: tomb_is_allocated_def)
  show "tomb_is_allocated t \<longleftrightarrow> tomb_content D hash t \<and> tomb_counts D t"
    "\<not> tomb_is_allocated t \<longleftrightarrow> t = tomb_new D"
    using assms alloc new unfolding tomb_wf_def by blast+
qed

lemma wf_len_card: "tomb_wf D hash t \<Longrightarrow> tt_len t = card (dom (tomb_map t))"
  by (erule wf_cases)
    (simp_all add: tomb_counts_def tomb_map_def tomb_content_def card_dom_bucket_map)

lemma allocate_correct:
  assumes "groups_ok n"
  shows "tomb_content D hash (tomb_allocate D t n)" "tombs (tomb_allocate D t n) = 0"
    "tomb_map (tomb_allocate D t n) = Map.empty" "somes (tt_buckets (tomb_allocate D t n)) = []"
    "tt_len t = 0 \<Longrightarrow> tomb_counts D (tomb_allocate D t n)"
proof -
  show "tomb_content D hash (tomb_allocate D t n)"
    using assms groups_ok_pos [OF assms] EMPTY_def
    by (simp add: tomb_content_def tomb_ctrl_ok_def tomb_entry_ok_def)
  show "tombs (tomb_allocate D t n) = 0" by (simp add: tombs_def TOMBSTONE_def filter_replicate)
  then show "tt_len t = 0 \<Longrightarrow> tomb_counts D (tomb_allocate D t n)" by (simp add: tomb_counts_def)
qed (simp_all add: tomb_map_def)

text \<open>Lookup on well-formed tables, the unallocated one included.\<close>

lemma new_ctrl_ok: "tomb_ctrl_ok D (tomb_new D)"
  by (simp add: tomb_ctrl_ok_def)

lemma find_new:
  assumes t: "t = tomb_new D"
  shows "tomb_find_by_hash D t h eq = Some None"
proof -
  have ok: "tomb_ctrl_ok D t" by (simp add: t new_ctrl_ok)
  have gi: "tomb_group_index D t h = 0" using group_index_le [OF ok, of h] by (simp add: t)
  have tag: "tomb_tag D t 0 i = EMPTY" if "i < LENGTH('w)" for i
    using that by (simp add: t tomb_tag_def EMPTY_def)
  have "tomb_group_find D t 0 eq (reduced_hash D h) = None"
    unfolding tomb_group_find_def mask_find_None match_meta(1) [OF ok le0] using tag by (metis reduced(3))
  moreover have "tomb_any_empty D t 0"
    using any_empty [OF ok, of 0] tag width(2) by (auto simp: tomb_full_def intro: exI [of _ 0])
  ultimately show ?thesis by (simp add: tomb_find_by_hash_def gi tomb_find_loop.simps)
qed

theorem find_correct:
  assumes "tomb_wf D hash t"
  shows "tomb_map t k = Some v \<Longrightarrow>
      \<exists>gi si. tomb_find_by_hash D t (hash k) (\<lambda>x. x = k) = Some (Some (gi, si)) \<and> tomb_at D t gi si k v"
    and "(\<And>k. eq k \<Longrightarrow> tomb_map t k = None) \<Longrightarrow> tomb_find_by_hash D t h eq = Some None"
proof -
  show "\<exists>gi si. tomb_find_by_hash D t (hash k) (\<lambda>x. x = k) = Some (Some (gi, si)) \<and> tomb_at D t gi si k v"
    if m: "tomb_map t k = Some v" using assms
  proof (cases rule: wf_cases)
    case Allocated
    then obtain gi si where "gi \<le> tt_mask t" "si < LENGTH('w)" "tomb_slot D t gi si = Some (k, v)"
      using m map_Some [OF Allocated(1), of k v] by auto
    then show ?thesis using find_present [OF Allocated(1)] unfolding tomb_at_def by blast
  qed (use m in auto)
  show "tomb_find_by_hash D t h eq = Some None" if "\<And>k. eq k \<Longrightarrow> tomb_map t k = None" using assms
  proof (cases rule: wf_cases)
    case Unallocated
    then show ?thesis by (rule find_new)
  next
    case Allocated
    then show ?thesis using find_absent [OF Allocated(1) counts_empty [OF Allocated]] that by blast
  qed
qed

section \<open>Rehashing\<close>

lemma insert_all:
  assumes "tomb_content D hash s" "tombs s = 0" "distinct (map fst xs)"
    "\<And>k. k \<in> fst ` set xs \<Longrightarrow> tomb_map s k = None"
    and "length (somes (tt_buckets s)) + length xs < length (tt_ctrl s)"
  shows "\<exists>u. foldM (\<lambda>(k, v) s. tomb_insert_after_resize D s (hash k) k v) xs s = Some u \<and>
    tomb_content D hash u \<and> tomb_map u = tomb_map s ++ map_of xs \<and> tombs u = 0 \<and>
    tt_mask u = tt_mask s \<and> tt_growth_left u = tt_growth_left s \<and> tt_max_load u = tt_max_load s \<and>
    length (tt_ctrl u) = length (tt_ctrl s)"
  using assms
proof (induction xs arbitrary: s)
  case (Cons x xs)
  obtain k v where x: "x = (k, v)" by fastforce
  have new: "tomb_map s k = None" using Cons.prems x by simp
  have "EMPTY \<in> set (tt_ctrl s)"
    by (rule empty_remains [OF Cons.prems(1)]) (use Cons.prems(2,5) in simp)
  then obtain gi si where ins: "tomb_insert_after_resize D s (hash k) k v = Some (tomb_put D s (hash k) gi si k v)"
    "tomb_available D s (hash k) gi si" "tomb_tag D s gi si = EMPTY"
    by (rule insert_after_resize_correct [OF Cons.prems(1)])
  let ?s = "tomb_put D s (hash k) gi si k v"
  note put = put_correct [OF Cons.prems(1) ins(2) new refl, of v]
  have "\<exists>u. foldM (\<lambda>(k, v) s. tomb_insert_after_resize D s (hash k) k v) xs ?s = Some u \<and>
    tomb_content D hash u \<and> tomb_map u = tomb_map ?s ++ map_of xs \<and> tombs u = 0 \<and>
    tt_mask u = tt_mask ?s \<and> tt_growth_left u = tt_growth_left ?s \<and> tt_max_load u = tt_max_load ?s \<and>
    length (tt_ctrl u) = length (tt_ctrl ?s)"
    using Cons.prems put ins(3) by (intro Cons.IH) (auto simp: x)
  moreover have "tomb_map ?s ++ map_of xs = tomb_map s ++ map_of (x # xs)"
  proof -
    have "k \<notin> dom (map_of xs)" using Cons.prems(3) by (simp add: x dom_map_of_conv_image_fst)
    then show ?thesis by (simp add: put(2) x map_add_upd_left)
  qed
  ultimately show ?case using ins(1) by (simp add: x del: map_of.simps map_add_upd)
qed simp

lemma rehash_run:
  assumes "tomb_content D hash t" "tomb_is_allocated t"
  shows "tomb_rehash_with D hash t n = map_option (\<lambda>s. s\<lparr>tt_len := tt_len t,
      tt_growth_left := usize_sub (tt_growth_left s) (tt_len t)\<rparr>)
    (foldM (\<lambda>(k, v) s. tomb_insert_after_resize D s (hash k) k v) (somes (tt_buckets t))
      (tomb_allocate D (t\<lparr>tt_ctrl := replicate LENGTH('w) 0, tt_buckets := [], tt_mask := 0, tt_len := 0,
        tt_max_load := 0\<rparr>) n))"
  using assms(2)
  by (simp add: tomb_rehash_with_def Let_def foldM_map tomb_occupied_slots_def tomb_entry_def
      tomb_num_groups_def del: upt_Suc flip: occupied_entries [OF assms(1)] foldM_concat)

theorem rehash_correct:
  assumes wf: "tomb_wf D hash t" and n: "groups_ok n" "tt_len t \<le> tomb_max_load (n * LENGTH('w))"
  obtains u where "tomb_rehash_with D hash t n = Some u" "tomb_content D hash u" "tomb_counts D u"
    "tomb_map u = tomb_map t" "tt_mask u = n - 1" "tt_len u = tt_len t" "tombs u = 0"
    "tt_growth_left u = tomb_max_load (n * LENGTH('w)) - tt_len t"
proof -
  let ?r = "t\<lparr>tt_ctrl := replicate LENGTH('w) 0, tt_buckets := [], tt_mask := 0, tt_len := 0, tt_max_load := 0\<rparr>"
  let ?t0 = "tomb_allocate D ?r n"
  note alloc = allocate_correct(1) [OF n(1), of hash ?r] allocate_correct(2-5) [OF n(1), of ?r]
  show ?thesis using wf
  proof (cases rule: wf_cases)
    case Unallocated
    then show ?thesis
      using that [of ?t0] alloc by (simp add: tomb_rehash_with_def tomb_is_allocated_def Let_def)
  next
    case Allocated
    let ?xs = "somes (tt_buckets t)" and ?f = "\<lambda>(k, v) s. tomb_insert_after_resize D s (hash k) k v"
    have len: "tt_len t = length ?xs" using Allocated(2) by (simp add: tomb_counts_def)
    have isal: "tomb_is_allocated t" using wf_allocated(1) [OF wf] Allocated by simp
    note run = rehash_run [OF Allocated(1) isal, of n]
    have "0 < n * LENGTH('w)" using groups_ok_pos [OF n(1)] by simp
    then have "length ?xs < n * LENGTH('w)" using max_load_less n(2) len by (metis le_less_trans)
    then have room: "length (somes (tt_buckets ?t0)) + length ?xs < length (tt_ctrl ?t0)" by simp
    have dist: "distinct (map fst ?xs)" using Allocated(1) by (simp add: tomb_content_def keys_distinct_def)
    obtain u where u: "foldM ?f ?xs ?t0 = Some u" "tomb_content D hash u" "tomb_map u = map_of ?xs" "tombs u = 0"
      "tt_mask u = n - 1" "tt_growth_left u = tomb_max_load (n * LENGTH('w))"
      "tt_max_load u = tomb_max_load (n * LENGTH('w))" "length (tt_ctrl u) = n * LENGTH('w)"
      using insert_all [OF alloc(1,2) dist _ room] alloc(3) by auto
    have map: "tomb_map u = tomb_map t" using u(3) by (simp add: tomb_map_def bucket_map_def)
    have "length (somes (tt_buckets u)) = length ?xs"
      using map u(2) Allocated(1) card_dom_bucket_map unfolding tomb_map_def tomb_content_def by metis
    then show ?thesis
      using that [of "u\<lparr>tt_len := tt_len t, tt_growth_left := usize_sub (tt_growth_left u) (tt_len t)\<rparr>"]
        run u map len n(2) by (simp add: tomb_counts_def tombs_def)
  qed
qed

end

context tomb_layout
begin

section \<open>Growing and inserting\<close>

lemma max_load_double: "0 < n \<Longrightarrow> tomb_max_load (n * LENGTH('w)) < tomb_max_load (n * 2 * LENGTH('w))"
proof -
  assume "0 < n"
  have twice: "2 * (x div 8) \<le> 2 * x div 8" for x :: nat by presburger
  have "2 * (n * LENGTH('w) * 7 div 8) \<le> n * 2 * LENGTH('w) * 7 div 8"
    using twice [of "n * LENGTH('w) * 7"] by (simp add: ac_simps)
  then show ?thesis using max_load_pos [OF \<open>0 < n\<close>] unfolding tomb_max_load_def by linarith
qed

lemma counts_len_le: "tomb_counts D t \<Longrightarrow> tt_len t \<le> tomb_max_load (length (tt_ctrl t))"
  by (simp add: tomb_counts_def)

lemma wf_groups_ok: "tomb_wf D hash t \<Longrightarrow> groups_ok (tomb_num_groups t)"
  by (erule wf_cases) (simp_all add: tomb_num_groups_def content_length(2))

definition grown_groups :: "('k, 'v) tomb_table \<Rightarrow> nat" where
  "grown_groups t =
    (if \<not> tomb_is_allocated t then 1
     else if tomb_max_load (tomb_num_groups t * LENGTH('w)) \<le> tt_len t then tomb_num_groups t * 2
     else tomb_num_groups t)"

lemma grown_groups_ok:
  assumes wf: "tomb_wf D hash t" and grow: "tomb_can_grow t"
  shows "groups_ok (grown_groups t)" "tt_len t < tomb_max_load (grown_groups t * LENGTH('w))"
proof -
  have "groups_ok (grown_groups t) \<and> tt_len t < tomb_max_load (grown_groups t * LENGTH('w))"
  proof (cases "tomb_is_allocated t")
    case False
    then have "t = tomb_new D" using wf_allocated(2) [OF wf] by simp
    then show ?thesis using max_load_pos [of 1] by (simp add: grown_groups_def tomb_is_allocated_def)
  next
    case True
    then have c: "tomb_content D hash t" "tomb_counts D t" using wf_allocated(1) [OF wf] by auto
    have "tt_len t \<le> tomb_max_load (tomb_num_groups t * LENGTH('w))"
      using counts_len_le [OF c(2)] content_length(1) [OF c(1)] by (simp add: tomb_num_groups_def)
    moreover have "groups_ok (tomb_num_groups t)" "groups_ok (tomb_num_groups t * 2)"
      using wf_groups_ok [OF wf] groups_ok_double [of "Suc (tt_mask t)"] grow
      by (simp_all add: tomb_num_groups_def tomb_can_grow_def)
    ultimately show ?thesis
      using True max_load_double [of "tomb_num_groups t"] by (auto simp: grown_groups_def tomb_num_groups_def)
  qed
  then show "groups_ok (grown_groups t)" "tt_len t < tomb_max_load (grown_groups t * LENGTH('w))" by auto
qed

lemma grow_or_rehash_eq: "tomb_grow_or_rehash D hash t = tomb_rehash_with D hash t (grown_groups t)"
  by (simp add: tomb_grow_or_rehash_def grown_groups_def)

theorem grow_or_rehash_correct:
  assumes wf: "tomb_wf D hash t" and grow: "tomb_can_grow t"
  obtains u where "tomb_grow_or_rehash D hash t = Some u" "tomb_content D hash u" "tomb_counts D u"
    "tomb_map u = tomb_map t" "0 < tt_growth_left u" "tombs u = 0" "tt_len u = tt_len t"
    "tomb_num_groups u = grown_groups t"
proof -
  note n = grown_groups_ok [OF assms]
  obtain u where u: "tomb_rehash_with D hash t (grown_groups t) = Some u" "tomb_content D hash u" "tomb_counts D u"
    "tomb_map u = tomb_map t" "tt_mask u = grown_groups t - 1" "tt_len u = tt_len t" "tombs u = 0"
    "tt_growth_left u = tomb_max_load (grown_groups t * LENGTH('w)) - tt_len t"
    by (rule rehash_correct [OF wf n(1) less_imp_le [OF n(2)]])
  show ?thesis
    using that [OF _ u(2-4) _ u(7,6)] u(1,5,8) n(2) groups_ok_pos [OF n(1)]
    by (simp add: grow_or_rehash_eq tomb_num_groups_def)
qed

lemma insert_new:
  assumes "tomb_content D hash t" "tomb_counts D t" "0 < tt_growth_left t" "tomb_map t k = None"
  obtains gi si u where "tomb_insert_no_check D t (hash k) k v = Some ((gi, si), u)"
    "tomb_content D hash u" "tomb_counts D u" "tomb_map u = (tomb_map t)(k \<mapsto> v)" "tomb_at D u gi si k v"
proof -
  obtain gi si where ins:
    "tomb_insert_no_check D t (hash k) k v = Some ((gi, si), tomb_insert_at D t (hash k) gi si k v 0)"
    "tomb_available D t (hash k) gi si"
    by (rule insert_no_check_correct [OF assms(1) counts_empty [OF assms(1,2)]])
  show ?thesis using that [OF ins(1)] insert_at_correct [OF assms(1,2) ins(2) assms(4,3)] by blast
qed

lemma replace_wf:
  assumes "tomb_content D hash t" "tomb_counts D t" "tomb_at D t gi si k v"
  shows "\<exists>u. tomb_replace_value D t gi si w = (Some v, u) \<and> tomb_content D hash u \<and> tomb_counts D u \<and>
    tomb_map u = (tomb_map t)(k \<mapsto> w) \<and> tt_mask u = tt_mask t"
  using replace_correct [OF assms(1,3) refl, of w] assms(2)
  by (cases "tomb_replace_value D t gi si w") (auto simp: tomb_counts_def)

text \<open>Growing if needed, then inserting a new key.\<close>

lemma ensure_and_insert:
  assumes wf: "tomb_wf D hash t" and "tomb_can_grow t" "tomb_map t k = None"
    and "tt_growth_left t \<noteq> 0 \<Longrightarrow> tomb_is_allocated t"
  shows "\<exists>t' p u. (if tt_growth_left t = 0 then tomb_grow_or_rehash D hash t else Some t) = Some t' \<and>
    tomb_insert_no_check D t' (hash k) k v = Some (p, u) \<and> tomb_content D hash u \<and> tomb_counts D u \<and>
    tomb_map u = (tomb_map t)(k \<mapsto> v) \<and> tomb_at D u (fst p) (snd p) k v"
proof (cases "tt_growth_left t = 0")
  case True
  obtain t' where t': "tomb_grow_or_rehash D hash t = Some t'" "tomb_content D hash t'" "tomb_counts D t'"
    "tomb_map t' = tomb_map t" "0 < tt_growth_left t'"
    by (rule grow_or_rehash_correct [OF wf assms(2)])
  have "tomb_map t' k = None" using t'(4) assms(3) by simp
  then obtain gi si u where "tomb_insert_no_check D t' (hash k) k v = Some ((gi, si), u)"
    "tomb_content D hash u" "tomb_counts D u" "tomb_map u = (tomb_map t')(k \<mapsto> v)" "tomb_at D u gi si k v"
    by (rule insert_new [OF t'(2,3,5)])
  then show ?thesis using True t' by auto
next
  case False
  then have c: "tomb_content D hash t" "tomb_counts D t" "0 < tt_growth_left t"
    using wf_allocated(1) [OF wf] assms(4) by auto
  obtain gi si u where "tomb_insert_no_check D t (hash k) k v = Some ((gi, si), u)"
    "tomb_content D hash u" "tomb_counts D u" "tomb_map u = (tomb_map t)(k \<mapsto> v)" "tomb_at D u gi si k v"
    by (rule insert_new [OF c assms(3)])
  then show ?thesis using False by auto
qed

text \<open>Both insertions first allocate one group if there is none.\<close>

lemma allocate_first:
  assumes wf: "tomb_wf D hash t0" and "tomb_can_grow t0"
    and t: "t = (if \<not> tomb_is_allocated t0 then tomb_allocate D t0 1 else t0)"
  shows "tomb_content D hash t" "tomb_counts D t" "tomb_map t = tomb_map t0" "tomb_can_grow t" "tomb_wf D hash t"
    "tomb_is_allocated t"
proof -
  have "tomb_content D hash t \<and> tomb_counts D t \<and> tomb_map t = tomb_map t0 \<and> tomb_can_grow t"
  proof (cases "tomb_is_allocated t0")
    case True
    then show ?thesis using wf_allocated(1) [OF wf] assms(2) t by simp
  next
    case False
    then have "t0 = tomb_new D" using wf_allocated(2) [OF wf] by simp
    then show ?thesis
      using allocate_correct(1) [of 1 hash t0] allocate_correct(3,5) [of 1 t0] False t by (simp add: tomb_can_grow_def)
  qed
  then show "tomb_content D hash t" "tomb_counts D t" "tomb_map t = tomb_map t0" "tomb_can_grow t" "tomb_wf D hash t"
    by (auto simp: tomb_wf_def)
  then show "tomb_is_allocated t" using wf_allocated(1) by blast
qed

theorem insert_or_replace_correct:
  assumes wf: "tomb_wf D hash t0" and "tomb_can_grow t0"
  shows "\<exists>u. tomb_insert_or_replace D hash t0 k v = Some (tomb_map t0 k, u) \<and> tomb_wf D hash u \<and>
    tomb_map u = (tomb_map t0)(k \<mapsto> v)"
proof -
  define t where "t = (if \<not> tomb_is_allocated t0 then tomb_allocate D t0 1 else t0)"
  note first = allocate_first [OF assms t_def]
  note ok = content_ctrl [OF first(1)]
  let ?h = "hash k" and ?g = "tomb_group_index D t (hash k)"
  have run: "tomb_insert_or_replace D hash t0 k v =
    (if tt_growth_left t = 0 then
       (case tomb_find_by_hash D t ?h (\<lambda>x. x = k) of
          None \<Rightarrow> None
        | Some (Some (gi, si)) \<Rightarrow> Some (tomb_replace_value D t gi si v)
        | Some None \<Rightarrow>
            (case tomb_grow_or_rehash D hash t of
               None \<Rightarrow> None
             | Some t' \<Rightarrow> map_option (\<lambda>(_, t''). (None, t'')) (tomb_insert_no_check D t' ?h k v)))
     else
       case tomb_group_find D t ?g (\<lambda>x. x = k) (reduced_hash D ?h) of
         Some si \<Rightarrow> Some (tomb_replace_value D t ?g si v)
       | None \<Rightarrow>
         (case tomb_first_empty D t ?g of
            Some si \<Rightarrow> Some (None, tomb_insert_at D t ?h ?g si k v 0)
          | None \<Rightarrow>
            (case tomb_find_by_hash D t ?h (\<lambda>x. x = k) of
               None \<Rightarrow> None
             | Some (Some (gi, si)) \<Rightarrow> Some (tomb_replace_value D t gi si v)
             | Some None \<Rightarrow>
                 (case (if tt_growth_left t = 0 then tomb_grow_or_rehash D hash t else Some t) of
                    None \<Rightarrow> None
                  | Some t' \<Rightarrow> map_option (\<lambda>(_, t''). (None, t'')) (tomb_insert_no_check D t' ?h k v)))))"
    using first_empty_Some(2) [OF ok group_index_le [OF ok]]
    by (simp add: tomb_insert_or_replace_def Let_def insert_at_eq flip: t_def split: option.split)
  show ?thesis
  proof (cases "tomb_map t k")
    case (Some w)
    obtain gi si where f: "tomb_find_by_hash D t ?h (\<lambda>x. x = k) = Some (Some (gi, si))" and at: "tomb_at D t gi si k w"
      using find_correct(1) [OF first(5) Some] by blast
    obtain u where u: "tomb_replace_value D t gi si v = (Some w, u)" "tomb_wf D hash u" "tomb_map u = (tomb_map t)(k \<mapsto> v)"
      using replace_wf [OF first(1,2) at, of v] by (auto simp: tomb_wf_def)
    have home: "(?g, si') = (gi, si)" if gf: "tomb_group_find D t ?g (\<lambda>x. x = k) (reduced_hash D ?h) = Some si'" for si'
    proof -
      obtain w' where "tomb_slot D t ?g si' = Some (k, w')"
        using group_find_Some(2) [OF first(1) group_index_le [OF ok] gf] by blast
      moreover have "si' < LENGTH('w)" by (rule group_find_Some(1) [OF first(1) group_index_le [OF ok] gf])
      ultimately show ?thesis
        using slot_unique [OF first(1)] at group_index_le [OF ok] unfolding tomb_at_def by blast
    qed
    have nogap: "tomb_first_empty D t ?g = None" if nf: "tomb_group_find D t ?g (\<lambda>x. x = k) (reduced_hash D ?h) = None"
    proof (rule ccontr)
      assume "tomb_first_empty D t ?g \<noteq> None"
      then have "tomb_find_by_hash D t ?h (\<lambda>x. x = k) = Some None"
        using nf any_empty [OF ok group_index_le [OF ok]] first_empty_None [OF ok group_index_le [OF ok]]
        by (simp add: tomb_find_by_hash_def tomb_find_loop.simps)
      then show False using f by simp
    qed
    have "tomb_insert_or_replace D hash t0 k v = Some (Some w, u)"
      unfolding run using f u(1) home nogap
      by (auto split: option.split)
    then show ?thesis using u first(3) Some by simp
  next
    case None
    have f: "tomb_find_by_hash D t ?h (\<lambda>x. x = k) = Some None"
      by (rule find_correct(2) [OF first(5)]) (use None in simp)
    have gf: "tomb_group_find D t ?g (\<lambda>x. x = k) (reduced_hash D ?h) = None"
      by (rule group_find_unmapped [OF first(1) group_index_le [OF ok]]) (use None in simp)
    obtain t' p u where ins: "(if tt_growth_left t = 0 then tomb_grow_or_rehash D hash t else Some t) = Some t'"
      "tomb_insert_no_check D t' ?h k v = Some (p, u)" "tomb_wf D hash u" "tomb_map u = (tomb_map t)(k \<mapsto> v)"
      using ensure_and_insert [OF first(5,4) None first(6)] unfolding tomb_wf_def by blast
    show ?thesis
    proof (cases "tt_growth_left t = 0 \<or> tomb_first_empty D t ?g = None")
      case True
      then have "tomb_insert_or_replace D hash t0 k v = Some (None, u)"
        unfolding run using f gf ins(1,2) by (auto split: if_splits)
      then show ?thesis using ins(3,4) first(3) None by simp
    next
      case False
      then obtain si where si: "tomb_first_empty D t ?g = Some si" and growth: "0 < tt_growth_left t" by auto
      have "tomb_available D t ?h ?g si"
        using first_empty_Some [OF ok group_index_le [OF ok] si] group_index_le [OF ok] reaches_probe [of 0 t ?h]
        by (simp add: tomb_available_def tomb_probe_def)
      note ia = insert_at_correct [OF first(1,2) this None growth, of v 0]
      have "tomb_insert_or_replace D hash t0 k v = Some (None, tomb_insert_at D t ?h ?g si k v 0)"
        unfolding run using gf si growth by simp
      then show ?thesis using ia(1-3) first(3) None by (simp add: tomb_wf_def)
    qed
  qed
qed

end

end
