(* ===== verification/Tomb_Entry.thy ===== *)
theory Tomb_Entry
  imports Tomb_Manage
begin

text \<open>
  The remaining operations of the tombstone engine on well-formed tables: the
  entry probe, removal, capacity management.
\<close>

text \<open>The \<^verbatim>\<open>usize\<close> arithmetic of \<^verbatim>\<open>groups_for_capacity\<close> does not overflow.\<close>

definition tomb_capacity_ok :: "'w::len tomb_design \<Rightarrow> nat \<Rightarrow> bool" where
  "tomb_capacity_ok D c \<longleftrightarrow> c * 8 + 7 + LENGTH('w) \<le> 2 ^ 64"

context tomb_layout
begin

section \<open>Insertion returning a reference\<close>

theorem insert_with_rehash_correct:
  assumes wf: "tomb_wf D hash t0" and "tomb_can_grow t0"
  shows "\<exists>gi si u w. tomb_insert_with_rehash D hash t0 k v = Some (((gi, si), tomb_map t0 k = None), u) \<and>
    tomb_wf D hash u \<and> tomb_at D u gi si k w \<and> w = (case tomb_map t0 k of None \<Rightarrow> v | Some w \<Rightarrow> w) \<and>
    tomb_map u = (tomb_map t0)(k \<mapsto> w)"
proof -
  define t where "t = (if \<not> tomb_is_allocated t0 then tomb_allocate D t0 1 else t0)"
  note first = allocate_first [OF assms t_def]
  show ?thesis
  proof (cases "tomb_map t k")
    case (Some w)
    obtain gi si where f: "tomb_find_by_hash D t (hash k) (\<lambda>x. x = k) = Some (Some (gi, si))" and at: "tomb_at D t gi si k w"
      using find_correct(1) [OF first(5) Some] by blast
    have "(tomb_map t0)(k \<mapsto> w) = tomb_map t0" using Some first(3) by (simp add: fun_upd_idem)
    then show ?thesis
      using f at first(3,5) Some
      by (simp add: tomb_insert_with_rehash_def tomb_find_with_hash_def Let_def flip: t_def)
  next
    case None
    have f: "tomb_find_by_hash D t (hash k) (\<lambda>x. x = k) = Some None"
      by (rule find_correct(2) [OF first(5)]) (use None in simp)
    obtain t' gi si u where ins: "(if tt_growth_left t = 0 then tomb_grow_or_rehash D hash t else Some t) = Some t'"
      "tomb_insert_no_check D t' (hash k) k v = Some ((gi, si), u)" "tomb_wf D hash u" "tomb_map u = (tomb_map t)(k \<mapsto> v)"
      "tomb_at D u gi si k v"
      using ensure_and_insert [OF first(5,4) None first(6), of v] unfolding tomb_wf_def by auto
    then show ?thesis
      using f first(3) None
      by (simp add: tomb_insert_with_rehash_def tomb_find_with_hash_def Let_def flip: t_def)
  qed
qed

section \<open>The entry probe\<close>

lemma locate_correct:
  assumes content: "tomb_content D hash t" and pe: "pe \<le> tt_mask t" "\<not> tomb_full D t (tomb_probe D t h pe)"
    "\<And>q. q < pe \<Longrightarrow> tomb_full D t (tomb_probe D t h q)" and absent: "\<And>k. eq k \<Longrightarrow> tomb_map t k = None"
    and "p \<le> pe" "\<And>g s. fa = Some (g, s) \<Longrightarrow> tomb_available D t h g s"
  shows "\<exists>gi si. tomb_find_or_locate_overflow D t eq (reduced_hash D h) (tomb_probe D t h p) p fa =
      Some (PInsertSlot gi si 0) \<and> tomb_available D t h gi si"
  using assms(6,7)
proof (induction "pe - p" arbitrary: p fa)
  case 0
  note ok = content_ctrl [OF content]
  have p: "p = pe" using 0 by simp
  note gle = probe_le [OF ok, of h p]
  obtain si where si: "tomb_first_empty D t (tomb_probe D t h p) = Some si" "tomb_any_empty D t (tomb_probe D t h p)"
    using first_empty_None [OF ok gle] any_empty [OF ok gle] pe(2) p by auto
  have r: "tomb_reaches D t h (tomb_probe D t h p)" by (rule reaches_probe) (use pe p in auto)
  have gf: "tomb_group_find D t (tomb_probe D t h p) eq (reduced_hash D h) = None"
    by (rule group_find_unmapped [OF content gle absent])
  show ?case
    using 0(3) si first_empty_Some [OF ok gle si(1)] first_Some [OF ok gle] gle r gf
    by (subst tomb_find_or_locate_overflow.simps) (fastforce simp: tomb_available_def Let_def split: option.splits)
next
  case (Suc d)
  note ok = content_ctrl [OF content]
  let ?fa = "if fa = None then case tomb_first D t (tomb_probe D t h p) TOMBSTONE of
      Some tsi \<Rightarrow> Some (tomb_probe D t h p, tsi)
    | None \<Rightarrow> map_option (Pair (tomb_probe D t h p)) (tomb_first_empty D t (tomb_probe D t h p)) else fa"
  have p: "p < pe" using Suc by simp
  note gle = probe_le [OF ok, of h p]
  have r: "tomb_reaches D t h (tomb_probe D t h p)" by (rule reaches_probe) (use pe p in auto)
  have gf: "tomb_group_find D t (tomb_probe D t h p) eq (reduced_hash D h) = None"
    by (rule group_find_unmapped [OF content gle absent])
  have fa: "tomb_available D t h g s" if "?fa = Some (g, s)" for g s
    using that Suc.prems(2) first_Some [OF ok gle] first_empty_Some [OF ok gle] gle r
    by (auto simp: tomb_available_def split: if_splits option.splits)
  have "\<not> tomb_any_empty D t (tomb_probe D t h p)" using any_empty [OF ok gle] pe(3) p by simp
  then have "tomb_find_or_locate_overflow D t eq (reduced_hash D h) (tomb_probe D t h p) p fa =
    tomb_find_or_locate_overflow D t eq (reduced_hash D h) (tomb_probe D t h (Suc p)) (Suc p) ?fa"
    using gf by (subst tomb_find_or_locate_overflow.simps) (simp add: tomb_probe_def Let_def)
  then show ?case using Suc.hyps(1) [of "Suc p" ?fa] Suc.hyps(2) p fa by simp
qed

lemma locate_present:
  assumes content: "tomb_content D hash t" and at: "tomb_at D t gi si k v"
    and pe: "pe \<le> tt_mask t" "tomb_probe D t (hash k) pe = gi"
    "\<And>q. q < pe \<Longrightarrow> tomb_full D t (tomb_probe D t (hash k) q)" and "p \<le> pe"
  shows "tomb_find_or_locate_overflow D t (\<lambda>x. x = k) (reduced_hash D (hash k)) (tomb_probe D t (hash k) p) p fa =
      Some (PFound gi si)"
  using assms(6)
proof (induction "pe - p" arbitrary: p fa)
  case 0
  then have p: "p = pe" by simp
  have "tomb_group_find D t (tomb_probe D t (hash k) p) (\<lambda>x. x = k) (reduced_hash D (hash k)) = Some si"
    using group_find_present [OF content, of gi si k v] at pe(2) p by (simp add: tomb_at_def)
  then show ?case using pe(2) p by (subst tomb_find_or_locate_overflow.simps) simp
next
  case (Suc d)
  note ok = content_ctrl [OF content]
  have p: "p < pe" using Suc by simp
  note gle = probe_le [OF ok, of "hash k" p]
  have "tomb_probe D t (hash k) p \<noteq> gi" using probe_inj [OF ok, of p pe "hash k"] p pe(1,2) by force
  then have gf: "tomb_group_find D t (tomb_probe D t (hash k) p) (\<lambda>x. x = k) (reduced_hash D (hash k)) = None"
    using slot_unique [OF content] at gle unfolding tomb_at_def by (intro group_find_absent [OF content gle]) blast
  have "\<not> tomb_any_empty D t (tomb_probe D t (hash k) p)" using any_empty [OF ok gle] pe(3) p by simp
  then show ?case
    using gf Suc.hyps(1) [of "Suc p"] Suc.hyps(2) p
    by (subst tomb_find_or_locate_overflow.simps) (simp add: tomb_probe_def Let_def)
qed

theorem find_or_locate_absent:
  assumes content: "tomb_content D hash t" and "EMPTY \<in> set (tt_ctrl t)" and absent: "\<And>k. eq k \<Longrightarrow> tomb_map t k = None"
  obtains gi si where "tomb_find_or_locate D t h eq = Some (PInsertSlot gi si 0)" "tomb_available D t h gi si"
proof -
  note ok = content_ctrl [OF content]
  let ?g = "tomb_group_index D t h"
  note gle = group_index_le [OF ok, of h]
  have r: "tomb_reaches D t h ?g" using reaches_probe [of 0 t h] by (simp add: tomb_probe_def)
  have gf: "tomb_group_find D t ?g eq (reduced_hash D h) = None" by (rule group_find_unmapped [OF content gle absent])
  obtain p where p: "p \<le> tt_mask t" "\<not> tomb_full D t (tomb_probe D t h p)"
    "\<And>q. q < p \<Longrightarrow> tomb_full D t (tomb_probe D t h q)"
    using first_gap [OF ok assms(2), of h] by metis
  show ?thesis
  proof (cases "tomb_first_empty D t ?g")
    case (Some si)
    show ?thesis
    proof (cases "tomb_first D t ?g TOMBSTONE")
      case None
      then show ?thesis
        using that [of ?g si] Some gf gle r first_empty_Some [OF ok gle Some]
        by (simp add: tomb_find_or_locate_def tomb_available_def Let_def)
    next
      case ts: (Some tsi)
      then show ?thesis
        using that [of ?g tsi] Some gf gle r first_Some [OF ok gle ts]
        by (simp add: tomb_find_or_locate_def tomb_available_def Let_def)
    qed
  next
    case None
    then have "tomb_full D t (tomb_probe D t h 0)" using first_empty_None [OF ok gle] by (simp add: tomb_probe_def)
    then have "1 \<le> p" using p(2) by (cases p) auto
    let ?fa = "map_option (Pair ?g) (tomb_first D t ?g TOMBSTONE)"
    have "\<exists>gi si. tomb_find_or_locate_overflow D t eq (reduced_hash D h) (tomb_probe D t h 1) 1 ?fa =
      Some (PInsertSlot gi si 0) \<and> tomb_available D t h gi si"
      by (rule locate_correct [OF content p absent \<open>1 \<le> p\<close>])
        (use first_Some [OF ok gle] gle r in \<open>auto simp: tomb_available_def\<close>)
    then show ?thesis
      using that None gf by (auto simp: tomb_find_or_locate_def tomb_probe_def Let_def)
  qed
qed

theorem find_or_locate_present:
  assumes content: "tomb_content D hash t" and at: "tomb_at D t gi si k v"
    and home: "tomb_group_find D t (tomb_group_index D t (hash k)) (\<lambda>x. x = k) (reduced_hash D (hash k)) = None"
  shows "tomb_find_or_locate D t (hash k) (\<lambda>x. x = k) = Some (PFound gi si)"
proof -
  note ok = content_ctrl [OF content]
  let ?g = "tomb_group_index D t (hash k)"
  have r: "tomb_reaches D t (hash k) gi" using slot_Some(2) [OF content, of gi si k v] at by (simp add: tomb_at_def)
  then obtain p where p: "p \<le> tt_mask t" "tomb_probe D t (hash k) p = gi"
    "\<And>q. q < p \<Longrightarrow> tomb_full D t (tomb_probe D t (hash k) q)" by (auto simp: tomb_reaches_def)
  have "p \<noteq> 0"
  proof
    assume "p = 0"
    then have "gi = ?g" using p(2) by (simp add: tomb_probe_def)
    then show False using home group_find_present [OF content, of gi si k v] at by (simp add: tomb_at_def)
  qed
  then have "1 \<le> p" "tomb_full D t (tomb_probe D t (hash k) 0)" using p(3) by auto
  then have "tomb_first_empty D t ?g = None"
    using first_empty_None [OF ok group_index_le [OF ok]] by (simp add: tomb_probe_def)
  then show ?thesis
    using home locate_present [OF content at p \<open>1 \<le> p\<close>]
    by (simp add: tomb_find_or_locate_def tomb_probe_def Let_def)
qed

theorem find_for_entry_correct:
  assumes wf: "tomb_wf D hash t"
  shows "tomb_map t k = Some v \<Longrightarrow> \<exists>gi si. tomb_find_for_entry D t (hash k) k = Some (ProbeFound gi si) \<and> tomb_at D t gi si k v"
    and "tomb_map t k = None \<Longrightarrow> tomb_find_for_entry D t (hash k) k = Some (ProbeVacant None) \<and> tt_growth_left t = 0 \<or>
      (\<exists>gi si. tomb_find_for_entry D t (hash k) k = Some (ProbeVacant (Some (gi, si, 0))) \<and>
        tomb_available D t (hash k) gi si \<and> tomb_content D hash t \<and> tomb_counts D t \<and> 0 < tt_growth_left t)"
proof -
  let ?g = "tomb_group_index D t (hash k)" and ?gf = "tomb_group_find D t (tomb_group_index D t (hash k)) (\<lambda>x. x = k) (reduced_hash D (hash k))"
  have alloc: "tomb_content D hash t \<and> tomb_counts D t" if "tt_growth_left t \<noteq> 0"
    using wf that by (auto simp: tomb_wf_def)
  show "\<exists>gi si. tomb_find_for_entry D t (hash k) k = Some (ProbeFound gi si) \<and> tomb_at D t gi si k v"
    if m: "tomb_map t k = Some v"
  proof -
    obtain gi si where f: "tomb_find_by_hash D t (hash k) (\<lambda>x. x = k) = Some (Some (gi, si))" and at: "tomb_at D t gi si k v"
      using find_correct(1) [OF wf m] by blast
    show ?thesis
    proof (cases "tt_growth_left t = 0")
      case True
      then show ?thesis using f at by (simp add: tomb_find_for_entry_def)
    next
      case False
      then have c: "tomb_content D hash t" using alloc by blast
      note ok = content_ctrl [OF c]
      note gle = group_index_le [OF ok, of "hash k"]
      show ?thesis
      proof (cases ?gf)
        case (Some s)
        then have "s < LENGTH('w)" "\<exists>w. tomb_slot D t ?g s = Some (k, w)"
          using group_find_Some [OF c gle Some] by auto
        then have "?g = gi \<and> s = si" using slot_unique [OF c] at gle unfolding tomb_at_def by blast
        then show ?thesis using Some False at by (simp add: tomb_find_for_entry_def)
      next
        case None
        have "tomb_first_empty D t ?g = None"
        proof (rule ccontr)
          assume "tomb_first_empty D t ?g \<noteq> None"
          then have "tomb_find_by_hash D t (hash k) (\<lambda>x. x = k) = Some None"
            using None any_empty [OF ok gle] first_empty_None [OF ok gle]
            by (simp add: tomb_find_by_hash_def tomb_find_loop.simps)
          then show False using f by simp
        qed
        then show ?thesis
          using find_or_locate_present [OF c at None] None False at by (simp add: tomb_find_for_entry_def)
      qed
    qed
  qed
  show "tomb_find_for_entry D t (hash k) k = Some (ProbeVacant None) \<and> tt_growth_left t = 0 \<or>
      (\<exists>gi si. tomb_find_for_entry D t (hash k) k = Some (ProbeVacant (Some (gi, si, 0))) \<and>
        tomb_available D t (hash k) gi si \<and> tomb_content D hash t \<and> tomb_counts D t \<and> 0 < tt_growth_left t)"
    if m: "tomb_map t k = None"
  proof (cases "tt_growth_left t = 0")
    case True
    have "tomb_find_by_hash D t (hash k) (\<lambda>x. x = k) = Some None"
      by (rule find_correct(2) [OF wf]) (use m in simp)
    then show ?thesis using True by (simp add: tomb_find_for_entry_def)
  next
    case False
    then have c: "tomb_content D hash t" "tomb_counts D t" using alloc by auto
    note ok = content_ctrl [OF c(1)]
    note gle = group_index_le [OF ok, of "hash k"]
    have gf: "?gf = None" by (rule group_find_unmapped [OF c(1) gle]) (use m in simp)
    have r: "tomb_reaches D t (hash k) ?g" using reaches_probe [of 0 t "hash k"] by (simp add: tomb_probe_def)
    show ?thesis
    proof (cases "tomb_first_empty D t ?g")
      case (Some si)
      then show ?thesis
        using False gf c gle r first_empty_Some [OF ok gle Some]
        by (simp add: tomb_find_for_entry_def tomb_available_def)
    next
      case None
      obtain gi si where "tomb_find_or_locate D t (hash k) (\<lambda>x. x = k) = Some (PInsertSlot gi si 0)"
        "tomb_available D t (hash k) gi si"
        by (rule find_or_locate_absent [OF c(1) counts_empty [OF c], of "\<lambda>x. x = k" "hash k"]) (use m in auto)
      then show ?thesis using None gf False c by (simp add: tomb_find_for_entry_def)
    qed
  qed
qed

end

context tomb_layout
begin

section \<open>Removal and clearing\<close>

lemma erase_wf:
  assumes "tomb_content D hash t" "tomb_counts D t" "tomb_at D t gi si k v"
  shows "tomb_wf D hash (tomb_erase_slot D (tomb_write D t gi si None) gi si)"
proof -
  note er = erase_correct [OF assms(1,3) refl]
  have "tt_len t = length (somes (tt_buckets t))" using assms(2) by (simp add: tomb_counts_def)
  then have "0 < tt_len t" using er(3) by linarith
  then show ?thesis using er(1,3-9) assms(2) by (auto simp: tomb_wf_def tomb_counts_def)
qed

lemma wf_at:
  assumes "tomb_wf D hash t" "tomb_at D t gi si k v" "tomb_map t k = Some v"
  shows "tomb_content D hash t" "tomb_counts D t"
  using assms by (auto simp: tomb_wf_def)

theorem remove_by_hash_correct:
  assumes wf: "tomb_wf D hash t"
  shows "tomb_map t k = Some v \<Longrightarrow> \<exists>u. tomb_remove_by_hash D t (hash k) (\<lambda>x. x = k) = Some (Some (k, v), u) \<and>
      tomb_wf D hash u \<and> tomb_map u = (tomb_map t)(k := None) \<and> tt_mask u = tt_mask t"
    and "tomb_map t k = None \<Longrightarrow> tomb_remove_by_hash D t (hash k) (\<lambda>x. x = k) = Some (None, t)"
proof -
  show "\<exists>u. tomb_remove_by_hash D t (hash k) (\<lambda>x. x = k) = Some (Some (k, v), u) \<and>
      tomb_wf D hash u \<and> tomb_map u = (tomb_map t)(k := None) \<and> tt_mask u = tt_mask t" if m: "tomb_map t k = Some v"
  proof -
    obtain gi si where f: "tomb_find_by_hash D t (hash k) (\<lambda>x. x = k) = Some (Some (gi, si))" and at: "tomb_at D t gi si k v"
      using find_correct(1) [OF wf m] by blast
    note c = wf_at [OF wf at m]
    show ?thesis
      using f at erase_correct(2,8) [OF c(1) at refl] erase_wf [OF c at]
      by (simp add: tomb_remove_by_hash_def tomb_at_def key_at_entry)
  qed
  show "tomb_remove_by_hash D t (hash k) (\<lambda>x. x = k) = Some (None, t)" if m: "tomb_map t k = None"
  proof -
    have "tomb_find_by_hash D t (hash k) (\<lambda>x. x = k) = Some None"
      by (rule find_correct(2) [OF wf]) (use m in simp)
    then show ?thesis by (simp add: tomb_remove_by_hash_def)
  qed
qed

lemma remove_eq:
  assumes wf: "tomb_wf D hash t"
  shows "tomb_remove D hash t k = map_option (\<lambda>(r, u). (map_option snd r, u)) (tomb_remove_by_hash D t (hash k) (\<lambda>x. x = k))"
proof (cases "tomb_is_allocated t")
  case True
  then show ?thesis
    by (auto simp: tomb_remove_def tomb_remove_by_hash_def tomb_find_with_hash_def split: option.splits)
next
  case False
  then have "t = tomb_new D" using wf_allocated(2) [OF wf] by simp
  then show ?thesis
    using False remove_by_hash_correct(2) [OF wf, of k] by (simp add: tomb_remove_def)
qed

theorem clear_correct:
  assumes wf: "tomb_wf D hash t"
  shows "tomb_wf D hash (tomb_clear D t)" "tomb_map (tomb_clear D t) = Map.empty"
    "tt_mask (tomb_clear D t) = tt_mask t" "tt_len (tomb_clear D t) = 0"
    "tomb_is_allocated t \<Longrightarrow> tt_growth_left (tomb_clear D t) = tt_max_load t"
proof -
  have "tomb_wf D hash (tomb_clear D t) \<and> tomb_map (tomb_clear D t) = Map.empty \<and>
    tt_mask (tomb_clear D t) = tt_mask t \<and> tt_len (tomb_clear D t) = 0 \<and>
    (tomb_is_allocated t \<longrightarrow> tt_growth_left (tomb_clear D t) = tt_max_load t)"
    using wf
  proof (cases rule: wf_cases)
    case Unallocated
    then show ?thesis by (simp add: tomb_clear_def tomb_is_allocated_def tomb_wf_def)
  next
    case Allocated
    let ?n = "Suc (tt_mask t)"
    have isal: "tomb_is_allocated t" using wf_allocated(1) [OF wf] Allocated by simp
    have len: "length (tt_buckets t) = ?n * LENGTH('w)" "tt_max_load t = tomb_max_load (?n * LENGTH('w))"
      using Allocated content_length(1) [OF Allocated(1)] by (simp_all add: tomb_content_def tomb_counts_def)
    have eq: "tomb_clear D t = (tomb_allocate D t ?n)\<lparr>tt_len := 0\<rparr>"
      using isal len by (simp add: tomb_clear_def tomb_allocate_def tomb_num_groups_def)
    note al = allocate_correct(1) [OF content_length(2) [OF Allocated(1)], of hash t]
      allocate_correct(2-4) [OF content_length(2) [OF Allocated(1)], of t]
    have "tomb_counts D ((tomb_allocate D t ?n)\<lparr>tt_len := 0\<rparr>)"
      using al(2,4) by (simp add: tomb_counts_def tombs_def)
    then show ?thesis unfolding eq using al(1,3) len(2) by (simp add: tomb_wf_def)
  qed
  then show "tomb_wf D hash (tomb_clear D t)" "tomb_map (tomb_clear D t) = Map.empty"
    "tt_mask (tomb_clear D t) = tt_mask t" "tt_len (tomb_clear D t) = 0"
    "tomb_is_allocated t \<Longrightarrow> tt_growth_left (tomb_clear D t) = tt_max_load t" by auto
qed

section \<open>Capacity management\<close>

lemma groups_for_capacity_ok: "groups_ok (tomb_groups_for_capacity D c)"
  unfolding tomb_groups_for_capacity_def Let_def by (rule usize_groups_ok [OF width(2)])

lemma groups_for_capacity_exact:
  assumes "tomb_capacity_ok D c"
  shows "tomb_groups_for_capacity D c = next_power_of_two (((c * 8 + 7 - 1) div 7 + LENGTH('w) - 1) div LENGTH('w))"
proof -
  let ?s = "(c * 8 + 7 - 1) div 7"
  have s: "?s \<le> c * 8 + 7 - 1" by (rule div_le_dividend)
  have "usize (c * 8 + 7 - 1) = c * 8 + 7 - 1" "usize (?s + LENGTH('w) - 1) = ?s + LENGTH('w) - 1"
    using assms s len_gt_0 [where 'a = 'w] unfolding tomb_capacity_ok_def by (intro usize_exact; linarith)+
  moreover have "usize n = n" if "groups_ok (usize n)" "n = next_power_of_two m" for n m
    using that next_power_of_two_pow [of m] groups_ok_pos [of "usize n"] usize_pow by auto
  ultimately show ?thesis using groups_for_capacity_ok [of c] unfolding tomb_groups_for_capacity_def Let_def by metis
qed

lemma groups_for_capacity_iff:
  "((c * 8 + 7 - 1) div 7 + LENGTH('w) - 1) div LENGTH('w) \<le> n \<longleftrightarrow> c \<le> tomb_max_load (n * LENGTH('w))"
  unfolding ceil_div_le [OF len_gt_0] using ceil_div_le [of 7 "c * 8" "n * LENGTH('w)"]
  by (simp add: tomb_max_load_def less_eq_div_iff_mult_less_eq)

lemma groups_for_capacity_enough:
  "tomb_capacity_ok D c \<Longrightarrow> c \<le> tomb_max_load (tomb_groups_for_capacity D c * LENGTH('w))"
  unfolding groups_for_capacity_exact groups_for_capacity_iff [symmetric] by (rule next_power_of_two_ge)

text \<open>In a table that may grow, the arithmetic on its length does not overflow.\<close>

lemma wf_len_le:
  assumes "tomb_wf D hash t"
  shows "tt_len t \<le> tomb_max_load (tomb_num_groups t * LENGTH('w))"
  using assms
proof (cases rule: wf_cases)
  case Allocated
  then have "tt_max_load t = tomb_max_load (tomb_num_groups t * LENGTH('w))" "tt_len t \<le> tt_max_load t"
    using content_length(1) [OF Allocated(1)] by (simp_all add: tomb_counts_def tomb_num_groups_def)
  then show ?thesis by simp
qed (simp_all add: tomb_new_def)

lemma can_grow_capacity:
  assumes "tomb_wf D hash t" "tomb_can_grow t"
  shows "tomb_capacity_ok D (tt_len t)"
proof -
  have "tt_len t * 8 \<le> tomb_max_load (tomb_num_groups t * LENGTH('w)) * 8" using wf_len_le [OF assms(1)] by simp
  also have "\<dots> \<le> tomb_num_groups t * LENGTH('w) * 7" by (simp add: tomb_max_load_def)
  also have "\<dots> \<le> 2 ^ 54 * 64 * 7"
    using assms(2) width(3) unfolding tomb_can_grow_def tomb_num_groups_def by (intro mult_le_mono) auto
  finally show ?thesis using width(3) by (simp add: tomb_capacity_ok_def)
qed

theorem with_capacity_correct:
  shows "tomb_wf D hash (tomb_with_capacity D c)" "tomb_map (tomb_with_capacity D c) = Map.empty"
    "tomb_capacity_ok D c \<Longrightarrow> c \<le> tt_growth_left (tomb_with_capacity D c)"
  using groups_for_capacity_enough [of c] groups_for_capacity_ok
    allocate_correct(1) [of "tomb_groups_for_capacity D c" hash "tomb_new D"]
    allocate_correct(3,5) [of "tomb_groups_for_capacity D c" "tomb_new D"]
  by (auto simp: tomb_with_capacity_def tomb_wf_def)

theorem ensure_capacity_correct:
  assumes "tomb_wf D hash t" "tomb_can_grow t"
  shows "\<exists>u. tomb_ensure_capacity D hash t = Some u \<and> tomb_content D hash u \<and> tomb_counts D u \<and>
    tomb_map u = tomb_map t \<and> 0 < tt_growth_left u"
proof (cases "tt_growth_left t = 0")
  case True
  obtain u where "tomb_grow_or_rehash D hash t = Some u" "tomb_content D hash u" "tomb_counts D u"
    "tomb_map u = tomb_map t" "0 < tt_growth_left u" by (rule grow_or_rehash_correct [OF assms])
  then show ?thesis using True by (simp add: tomb_ensure_capacity_def)
next
  case False
  then show ?thesis using assms(1) by (auto simp: tomb_ensure_capacity_def tomb_wf_def)
qed

theorem reserve_correct:
  assumes wf: "tomb_wf D hash t"
  shows "2 ^ 64 \<le> tt_len t + additional \<Longrightarrow> tomb_reserve D hash t additional = Some (Inl CapacityOverflow)"
    and "tt_len t + additional < 2 ^ 64 \<Longrightarrow>
      \<exists>u. tomb_reserve D hash t additional = Some (Inr u) \<and> tomb_wf D hash u \<and> tomb_map u = tomb_map t \<and>
        (tomb_capacity_ok D (tt_len t + additional) \<longrightarrow> tt_len t + additional \<le> tt_max_load u)"
proof -
  show "2 ^ 64 \<le> tt_len t + additional \<Longrightarrow> tomb_reserve D hash t additional = Some (Inl CapacityOverflow)"
    by (simp add: tomb_reserve_def)
  assume fits: "tt_len t + additional < 2 ^ 64"
  let ?n = "tt_len t + additional" and ?g = "tomb_groups_for_capacity D (tt_len t + additional)"
  note ok = groups_for_capacity_ok [of ?n] and enough = groups_for_capacity_enough [of ?n]
  have mono: "tomb_max_load (m * LENGTH('w)) \<le> tomb_max_load (n * LENGTH('w))" if "m \<le> n" for m n
    using that unfolding tomb_max_load_def by (intro div_le_mono mult_le_mono) auto
  show "\<exists>u. tomb_reserve D hash t additional = Some (Inr u) \<and> tomb_wf D hash u \<and> tomb_map u = tomb_map t \<and>
        (tomb_capacity_ok D ?n \<longrightarrow> ?n \<le> tt_max_load u)" using wf
  proof (cases rule: wf_cases)
    case Unallocated
    then show ?thesis
      using fits enough allocate_correct(1) [OF ok, of hash t] allocate_correct(3,5) [OF ok, of t]
      by (auto simp: tomb_reserve_def tomb_is_allocated_def tomb_wf_def Let_def)
  next
    case Allocated
    have isal: "tomb_is_allocated t" using wf_allocated(1) [OF wf] Allocated by simp
    have ml: "tt_max_load t = tomb_max_load (tomb_num_groups t * LENGTH('w))"
      using Allocated(2) content_length(1) [OF Allocated(1)] by (simp add: tomb_counts_def tomb_num_groups_def)
    show ?thesis
    proof (cases "tt_max_load t < ?n \<and> tomb_num_groups t < ?g")
      case True
      have "tt_len t \<le> tomb_max_load (?g * LENGTH('w))"
        using wf_len_le [OF wf] mono [of "tomb_num_groups t" ?g] True by linarith
      then obtain u where u: "tomb_rehash_with D hash t ?g = Some u" "tomb_content D hash u" "tomb_counts D u"
        "tomb_map u = tomb_map t" "tt_mask u = ?g - 1"
        using rehash_correct [OF wf ok] by metis
      have "tomb_wf D hash u" "tt_max_load u = tomb_max_load (?g * LENGTH('w))"
        using u(2,3,5) content_length(1) [OF u(2)] groups_ok_pos [OF ok] by (simp_all add: tomb_wf_def tomb_counts_def)
      then show ?thesis
        using True isal ml fits enough u(1,4) by (simp add: tomb_reserve_def Let_def)
    next
      case False
      have "?n \<le> tt_max_load t" if "tomb_capacity_ok D ?n"
        using False enough [OF that] mono [of ?g "tomb_num_groups t"] ml by linarith
      then show ?thesis using False isal ml fits wf by (auto simp: tomb_reserve_def Let_def)
    qed
  qed
qed

theorem shrink_to_fit_correct:
  assumes wf: "tomb_wf D hash t" and cap: "tomb_capacity_ok D (tt_len t)"
  shows "\<exists>u. tomb_shrink_to_fit D hash t = Some u \<and> tomb_wf D hash u \<and> tomb_map u = tomb_map t \<and>
    tt_mask u \<le> tt_mask t"
proof (cases "tt_len t = 0")
  case True
  have "finite (dom (tomb_map t))" by (simp add: tomb_map_def dom_bucket_map)
  then have "tomb_map t = Map.empty" using wf_len_card [OF wf] True by simp
  then show ?thesis using True by (simp add: tomb_shrink_to_fit_def tomb_wf_def)
next
  case False
  let ?g = "tomb_groups_for_capacity D (tt_len t)"
  show ?thesis
  proof (cases "?g < tomb_num_groups t")
    case True
    obtain u where "tomb_rehash_with D hash t ?g = Some u" "tomb_content D hash u" "tomb_counts D u"
      "tomb_map u = tomb_map t" "tt_mask u = ?g - 1"
      using rehash_correct [OF wf groups_for_capacity_ok groups_for_capacity_enough [OF cap]] by metis
    then show ?thesis using False True by (auto simp: tomb_shrink_to_fit_def tomb_wf_def tomb_num_groups_def)
  next
    case no: False
    then show ?thesis using False wf by (simp add: tomb_shrink_to_fit_def Let_def)
  qed
qed

end

end
