(* ===== verification/Tomb_Iter.thy ===== *)
theory Tomb_Iter
  imports Tomb_Entry
begin

text \<open>
  Iteration, consumption, dropping and cloning of the tombstone engine. The
  consuming iterator writes \<^const>\<open>EMPTY\<close> behind it, which breaks the probe paths of
  the entries it has not reached; its correctness rests only on the order of the
  walk.
\<close>

definition tomb_pending :: "'w::len tomb_design \<Rightarrow> ('k, 'v) tomb_table \<Rightarrow> nat \<Rightarrow> 'w word \<Rightarrow> (nat \<times> nat) list" where
  "tomb_pending D t g m = map (Pair g) (mask_collect m) @
     concat (map (\<lambda>gi. map (Pair gi) (mask_collect (tomb_occupied D t gi))) [Suc g..<Suc (tt_mask t)])"

definition tomb_take_out :: "'w::len tomb_design \<Rightarrow> nat \<times> nat \<Rightarrow> ('k, 'v) tomb_table \<Rightarrow> ('k, 'v) tomb_table" where
  "tomb_take_out D p t =
    (let t1 = tomb_set_meta D (tomb_write D t (fst p) (snd p) None) (fst p) (snd p) EMPTY
     in t1\<lparr>tt_len := usize_sub (tt_len t1) 1\<rparr>)"

lemma collect_next:
  "mask_next m = None \<Longrightarrow> mask_collect m = []"
  "mask_next m = Some (i, m') \<Longrightarrow> mask_collect m = i # mask_collect m'"
  by (simp_all add: mask_collect.simps [of m])

lemma tomb_slot_next_pending:
  "(case tomb_slot_next D t g m of None \<Rightarrow> tomb_pending D t g m = []
    | Some (p, g', m') \<Rightarrow> tomb_pending D t g m = p # tomb_pending D t g' m' \<and> fst p = g')"
proof (induction D t g m rule: tomb_slot_next.induct)
  case (1 D t g m)
  show ?case
  proof (cases "mask_next m")
    case (Some x)
    then show ?thesis
      by (subst tomb_slot_next.simps) (auto simp: tomb_pending_def collect_next(2) split: prod.split)
  next
    case None
    show ?thesis
    proof (cases "tt_mask t < g + 1")
      case True
      then show ?thesis using None by (subst tomb_slot_next.simps) (simp add: tomb_pending_def collect_next)
    next
      case False
      have "tomb_pending D t g m = tomb_pending D t (g + 1) (tomb_occupied D t (g + 1))"
        using False None upt_conv_Cons [of "Suc g" "Suc (tt_mask t)"]
        by (simp add: tomb_pending_def collect_next del: upt_Suc)
      then show ?thesis using 1 None False by (subst tomb_slot_next.simps) (auto split: option.splits)
    qed
  qed
qed

lemma tomb_slot_collect_pending: "tomb_slot_collect D t g m = tomb_pending D t g m"
proof (induction D t g m rule: tomb_slot_collect.induct)
  case (1 D t g m)
  then show ?case
    using tomb_slot_next_pending [of D t g m]
    by (subst tomb_slot_collect.simps) (auto split: option.splits)
qed

lemma tomb_pending_start: "tomb_pending D t 0 (tomb_occupied D t 0) = tomb_occupied_slots D t"
  by (simp add: tomb_pending_def tomb_occupied_slots_def upt_conv_Cons del: upt_Suc)

lemma tomb_pending_width: "p \<in> set (tomb_pending D t g m) \<Longrightarrow> snd p < LENGTH('w)"
  for D :: "'w::len tomb_design"
  by (auto simp: tomb_pending_def mask_collect_eq dest: bit_imp_le_length)

lemma tomb_pending_distinct: "distinct (tomb_pending D t g m)"
proof -
  have "distinct (concat (map (\<lambda>gi. map (Pair gi) (mask_collect (tomb_occupied D t gi))) [Suc g..<Suc (tt_mask t)]))"
    by (rule distinct_concat_pairs) (simp_all add: mask_collect_eq)
  then show ?thesis
    by (auto simp: tomb_pending_def mask_collect_eq distinct_map inj_on_def simp del: upt_Suc)
qed

lemma tomb_into_iter_next_eq:
  "tomb_into_iter_next D t g m =
    map_option (\<lambda>(p, st). (tomb_entry D t p, tomb_take_out D p t, st)) (tomb_slot_next D t g m)"
proof (induction D t g m rule: tomb_into_iter_next.induct)
  case (1 D t g m)
  show ?case
  proof (cases "mask_next m")
    case None
    then show ?thesis using 1 by (subst tomb_into_iter_next.simps, subst tomb_slot_next.simps) simp
  next
    case (Some x)
    then show ?thesis
      by (cases x) (simp add: tomb_into_iter_next.simps [of D t g m] tomb_slot_next.simps [of D t g m]
          tomb_entry_def tomb_take_out_def Let_def)
  qed
qed

context tomb_layout
begin

lemma take_out_simps:
  assumes "s < LENGTH('w)"
  shows "tt_mask (tomb_take_out D (g, s) t) = tt_mask t"
    "tt_buckets (tomb_take_out D (g, s) t) = (tt_buckets t)[g * LENGTH('w) + s := None]"
    "tt_ctrl (tomb_take_out D (g, s) t) = (tt_ctrl t)[g * LENGTH('w) + s := EMPTY]"
    "tt_len (tomb_take_out D (g, s) t) = usize_sub (tt_len t) 1"
  using assms by (simp_all add: tomb_take_out_def tomb_set_meta_def tomb_write_def Let_def)

lemma pending_take_out:
  assumes "s < LENGTH('w)"
  shows "tomb_pending D (tomb_take_out D (g, s) t) g m = tomb_pending D t g m"
proof -
  have "tomb_meta D (tomb_take_out D (g, s) t) g' = tomb_meta D t g'" if "g < g'" for g'
    using grid_less [OF that assms] by (simp add: tomb_meta_def take_out_simps [OF assms])
  then show ?thesis
    by (auto simp: tomb_pending_def tomb_occupied_def take_out_simps [OF assms] intro!: arg_cong [where f = concat] map_cong)
qed

lemma entry_take_out:
  assumes "s < LENGTH('w)" "snd q < LENGTH('w)" "q \<noteq> (g, s)"
  shows "tomb_entry D (tomb_take_out D (g, s) t) q = tomb_entry D t q"
proof -
  have "fst q * LENGTH('w) + snd q \<noteq> g * LENGTH('w) + s"
    using grid_inj [OF assms(2,1)] assms(3) by (metis prod.collapse)
  then show ?thesis
    using assms(2) by (simp add: tomb_entry_def tomb_key_at_def tomb_value_at_def take_out_simps [OF assms(1)])
qed

lemma into_iter_collect_eq:
  "tomb_into_iter_collect D t g m =
    (map (tomb_entry D t) (tomb_pending D t g m), fold (tomb_take_out D) (tomb_pending D t g m) t)"
proof (induction "length (tomb_pending D t g m)" arbitrary: t g m)
  case 0
  then have "tomb_slot_next D t g m = None"
    using tomb_slot_next_pending [of D t g m] by (auto split: option.splits)
  then show ?case using 0 by (subst tomb_into_iter_collect.simps) (simp add: tomb_into_iter_next_eq)
next
  case (Suc n)
  obtain si g' m' where sn: "tomb_slot_next D t g m = Some ((g', si), g', m')"
    and pend: "tomb_pending D t g m = (g', si) # tomb_pending D t g' m'"
    using tomb_slot_next_pending [of D t g m] Suc(2) by (auto split: option.splits)
  have si: "si < LENGTH('w)" using tomb_pending_width [of "(g', si)" D t g m] pend by simp
  let ?u = "tomb_take_out D (g', si) t"
  have fresh: "(g', si) \<notin> set (tomb_pending D t g' m')"
    using tomb_pending_distinct [of D t g m] pend by simp
  have ents: "map (tomb_entry D ?u) (tomb_pending D t g' m') = map (tomb_entry D t) (tomb_pending D t g' m')"
  proof (rule map_cong [OF refl])
    fix q assume q: "q \<in> set (tomb_pending D t g' m')"
    show "tomb_entry D ?u q = tomb_entry D t q"
      by (rule entry_take_out [OF si tomb_pending_width [OF q]]) (use q fresh in auto)
  qed
  have "tomb_into_iter_collect D ?u g' m' =
    (map (tomb_entry D ?u) (tomb_pending D ?u g' m'), fold (tomb_take_out D) (tomb_pending D ?u g' m') ?u)"
    using Suc.hyps pend by (intro Suc.hyps(1)) (simp add: pending_take_out [OF si])
  then show ?case
    using sn ents by (subst tomb_into_iter_collect.simps)
      (simp add: tomb_into_iter_next_eq pending_take_out [OF si] pend)
qed

end

context tomb_layout
begin

section \<open>Iteration\<close>

theorem iter_slots_correct:
  assumes wf: "tomb_wf D hash t"
  shows "map (tomb_entry D t) (tomb_iter_slots D t) = somes (tt_buckets t)" "distinct (tomb_iter_slots D t)"
    "length (tomb_iter_slots D t) = tt_len t" "tomb_is_allocated t \<Longrightarrow> tomb_iter_slots D t = tomb_occupied_slots D t"
proof -
  have alloc: "tomb_iter_slots D t = tomb_occupied_slots D t" if "tomb_is_allocated t"
    using that by (simp add: tomb_iter_slots_def tomb_first_mask_def tomb_slot_collect_pending tomb_pending_start)
  then show "tomb_is_allocated t \<Longrightarrow> tomb_iter_slots D t = tomb_occupied_slots D t" .
  have "map (tomb_entry D t) (tomb_iter_slots D t) = somes (tt_buckets t) \<and> tt_len t = length (somes (tt_buckets t))"
    using wf
  proof (cases rule: wf_cases)
    case Unallocated
    then show ?thesis
      by (simp add: tomb_iter_slots_def tomb_first_mask_def tomb_is_allocated_def tomb_slot_collect_pending
          tomb_pending_def mask_collect_eq)
  next
    case Allocated
    then have "tomb_is_allocated t" using wf_allocated(1) [OF wf] by simp
    then show ?thesis using alloc occupied_entries [OF Allocated(1)] Allocated(2) by (simp add: tomb_counts_def)
  qed
  then show "map (tomb_entry D t) (tomb_iter_slots D t) = somes (tt_buckets t)" "length (tomb_iter_slots D t) = tt_len t"
    by (auto dest: arg_cong [where f = length])
  show "distinct (tomb_iter_slots D t)"
    by (simp add: tomb_iter_slots_def tomb_slot_collect_pending tomb_pending_distinct)
qed

section \<open>Consumption\<close>

lemma fold_take_out:
  fixes ps :: "(nat \<times> nat) list"
  assumes "\<forall>p\<in>set ps. snd p < LENGTH('w)"
  shows "tt_buckets (fold (tomb_take_out D) ps t) = fold (\<lambda>p bs. bs[fst p * LENGTH('w) + snd p := None]) ps (tt_buckets t) \<and>
    tt_ctrl (fold (tomb_take_out D) ps t) = fold (\<lambda>p bs. bs[fst p * LENGTH('w) + snd p := EMPTY]) ps (tt_ctrl t) \<and>
    tt_mask (fold (tomb_take_out D) ps t) = tt_mask t \<and>
    (length ps \<le> tt_len t \<longrightarrow> tt_len (fold (tomb_take_out D) ps t) = tt_len t - length ps)"
  using assms
proof (induction ps arbitrary: t)
  case (Cons p ps)
  then have s: "snd p < LENGTH('w)" by simp
  note simps = take_out_simps [OF s, of "fst p" t, unfolded prod.collapse]
  show ?case using Cons.IH [of "tomb_take_out D p t"] Cons.prems by (auto simp: simps)
qed simp

theorem into_iter_correct:
  assumes wf: "tomb_wf D hash t"
  shows "fst (tomb_into_iter D t) = somes (tt_buckets t)" "tt_len (snd (tomb_into_iter D t)) = 0"
    "somes (tt_buckets (snd (tomb_into_iter D t))) = []" "tomb_drop_slots D (snd (tomb_into_iter D t)) = []"
proof -
  let ?ps = "tomb_iter_slots D t" and ?f = "\<lambda>p. fst p * LENGTH('w) + snd p"
  have run: "tomb_into_iter D t = (map (tomb_entry D t) ?ps, fold (tomb_take_out D) ?ps t)"
    by (simp add: tomb_into_iter_def into_iter_collect_eq tomb_iter_slots_def tomb_slot_collect_pending)
  have wd: "p \<in> set ?ps \<Longrightarrow> snd p < LENGTH('w)" for p
    unfolding tomb_iter_slots_def tomb_slot_collect_pending by (rule tomb_pending_width)
  let ?u = "fold (tomb_take_out D) ?ps t"
  have out: "tt_buckets ?u = fold (\<lambda>p bs. bs[?f p := None]) ?ps (tt_buckets t)" "tt_mask ?u = tt_mask t"
    "tt_ctrl ?u = fold (\<lambda>p bs. bs[?f p := EMPTY]) ?ps (tt_ctrl t)" "length ?ps \<le> tt_len t \<longrightarrow> tt_len ?u = tt_len t - length ?ps"
    using fold_take_out [of ?ps t] wd by blast+
  show "fst (tomb_into_iter D t) = somes (tt_buckets t)" by (simp add: run iter_slots_correct(1) [OF wf])
  show "tt_len (snd (tomb_into_iter D t)) = 0" using out(4) iter_slots_correct(3) [OF wf] by (simp add: run)
  have "somes (tt_buckets ?u) = [] \<and> tomb_drop_slots D ?u = []" using wf
  proof (cases rule: wf_cases)
    case Unallocated
    then have "?ps = []" using iter_slots_correct(3) [OF wf] by simp
    then show ?thesis using Unallocated by (simp add: tomb_drop_slots_def tomb_is_allocated_def)
  next
    case Allocated
    have isal: "tomb_is_allocated t" using wf_allocated(1) [OF wf] Allocated by simp
    have ps: "set ?ps = {(gi, si). gi \<le> tt_mask t \<and> si < LENGTH('w) \<and> tomb_slot D t gi si \<noteq> None}"
      using iter_slots_correct(4) [OF wf isal] set_occupied_slots [OF Allocated(1)] by simp
    note ok = content_ctrl [OF Allocated(1)]
    have cover: "i \<in> ?f ` set ?ps" if i: "i < length (tt_ctrl t)" "tt_buckets t ! i \<noteq> None" for i
    proof -
      obtain g s where g: "g \<le> tt_mask t" "s < LENGTH('w)" "i = g * LENGTH('w) + s" by (rule flat_grid [OF ok i(1)]) blast
      then have "(g, s) \<in> set ?ps" using i(2) ps by (simp add: tomb_slot_def)
      then show ?thesis using g(3) by force
    qed
    have len: "length (tt_buckets t) = length (tt_ctrl t)" using Allocated(1) by (simp add: tomb_content_def)
    let ?none = "map (\<lambda>_. None) (tt_buckets t)"
    have "fold (\<lambda>p bs. bs[?f p := None]) ?ps (tt_buckets t) = ?none"
    proof (rule fold_list_update)
      fix i assume "i < length ?none"
      then show "tt_buckets t ! i = ?none ! i \<or> i \<in> ?f ` set ?ps"
        using cover [of i] len by (cases "tt_buckets t ! i") auto
    qed (use len ps flat_less [OF ok] in auto)
    then have "somes (tt_buckets ?u) = []" using out(1) by (simp add: somes_def)
    moreover have "tomb_drop_slots D ?u = []"
    proof -
      let ?cs = "map (\<lambda>b. if b = TOMBSTONE then TOMBSTONE else EMPTY) (tt_ctrl t)"
      have ctrl: "tt_ctrl ?u = ?cs"
        unfolding out(3)
      proof (rule fold_list_update)
        fix i assume i: "i < length ?cs"
        have "tomb_entry_ok D hash t i" using Allocated(1) i by (simp add: tomb_content_def)
        then show "tt_ctrl t ! i = ?cs ! i \<or> i \<in> ?f ` set ?ps"
          using cover [of i] i by (cases "tt_buckets t ! i") (auto simp: tomb_entry_ok_def)
      next
        fix p assume "p \<in> set ?ps"
        then have p: "fst p \<le> tt_mask t" "snd p < LENGTH('w)" "tomb_slot D t (fst p) (snd p) \<noteq> None"
          using ps by auto
        then have "tomb_tag D t (fst p) (snd p) \<noteq> TOMBSTONE"
          using slot_None [OF Allocated(1) p(1,2)] by simp
        then show "?cs ! ?f p = EMPTY" using flat_less [OF ok p(1,2)] by (simp add: tomb_tag_def)
      qed simp
      have oku: "tomb_ctrl_ok D ?u" using ok ctrl out(2) by (simp add: tomb_ctrl_ok_def)
      have "mask_collect (tomb_occupied D ?u g) = []" if g: "g \<le> tt_mask t" for g
      proof -
        have "tomb_tag D ?u g s = EMPTY \<or> tomb_tag D ?u g s = TOMBSTONE" if "s < LENGTH('w)" for s
          using flat_less [OF ok g that] by (simp add: tomb_tag_def ctrl)
        then have "{i. bit (tomb_occupied D ?u g) i} = {}" using match_meta(3) [OF oku, of g] g out(2) by auto
        then show ?thesis by (metis mask_collect_eq set_set_bits_of set_empty)
      qed
      then show ?thesis by (simp add: tomb_drop_slots_def tomb_num_groups_def out(2))
    qed
    ultimately show ?thesis by blast
  qed
  then show "somes (tt_buckets (snd (tomb_into_iter D t))) = []" "tomb_drop_slots D (snd (tomb_into_iter D t)) = []"
    by (simp_all add: run)
qed

section \<open>Dropping and cloning\<close>

theorem drop_slots_correct:
  assumes wf: "tomb_wf D hash t"
  shows "distinct (tomb_drop_slots D t)"
    "set (tomb_drop_slots D t) = {i. i < length (tt_buckets t) \<and> tt_buckets t ! i \<noteq> None}"
proof -
  have "distinct (tomb_drop_slots D t) \<and>
    set (tomb_drop_slots D t) = {i. i < length (tt_buckets t) \<and> tt_buckets t ! i \<noteq> None}"
    using wf
  proof (cases rule: wf_cases)
    case Unallocated
    then show ?thesis by (simp add: tomb_drop_slots_def tomb_is_allocated_def)
  next
    case Allocated
    note ok = content_ctrl [OF Allocated(1)] and occ = set_occupied_slots [OF Allocated(1)]
    have len: "length (tt_buckets t) = length (tt_ctrl t)" using Allocated(1) by (simp add: tomb_content_def)
    have isal: "tomb_is_allocated t" using wf_allocated(1) [OF wf] Allocated by simp
    have "tomb_drop_slots D t = map (\<lambda>(g, s). tomb_bucket_index D g s) (tomb_occupied_slots D t)"
      using isal by (simp add: tomb_drop_slots_def tomb_occupied_slots_def tomb_num_groups_def map_concat comp_def del: upt_Suc)
    then have eq: "tomb_drop_slots D t = map (\<lambda>(g, s). g * LENGTH('w) + s) (tomb_occupied_slots D t)"
      using occ by simp
    have "inj_on (\<lambda>(g, s). g * LENGTH('w) + s) (set (tomb_occupied_slots D t))"
      by (auto simp: inj_on_def occ grid_inj)
    then have "distinct (tomb_drop_slots D t)" by (simp add: eq distinct_map distinct_occupied_slots [OF Allocated(1)])
    moreover have "i \<in> set (tomb_drop_slots D t) \<longleftrightarrow> i < length (tt_buckets t) \<and> tt_buckets t ! i \<noteq> None" for i
    proof
      assume "i \<in> set (tomb_drop_slots D t)"
      then show "i < length (tt_buckets t) \<and> tt_buckets t ! i \<noteq> None"
        using flat_less [OF ok] len by (auto simp: eq occ tomb_slot_def)
    next
      assume i: "i < length (tt_buckets t) \<and> tt_buckets t ! i \<noteq> None"
      then obtain g s where "g \<le> tt_mask t" "s < LENGTH('w)" "i = g * LENGTH('w) + s"
        using flat_grid [OF ok, of i] len by auto
      then show "i \<in> set (tomb_drop_slots D t)" using i by (force simp: eq occ tomb_slot_def)
    qed
    ultimately show ?thesis by blast
  qed
  then show "distinct (tomb_drop_slots D t)"
    "set (tomb_drop_slots D t) = {i. i < length (tt_buckets t) \<and> tt_buckets t ! i \<noteq> None}" by auto
qed

lemma fold_writes:
  "fold (\<lambda>p s. s\<lparr>tt_buckets := (tt_buckets s)[f p := e p]\<rparr>) ps s =
    s\<lparr>tt_buckets := fold (\<lambda>p bs. bs[f p := e p]) ps (tt_buckets s)\<rparr>"
  by (induction ps arbitrary: s) simp_all

theorem clone_correct:
  assumes wf: "tomb_wf D hash t"
  shows "tomb_clone D t = t"
  using wf
proof (cases rule: wf_cases)
  case Unallocated
  then show ?thesis by (simp add: tomb_clone_def tomb_is_allocated_def)
next
  case Allocated
  note ok = content_ctrl [OF Allocated(1)] and occ = set_occupied_slots [OF Allocated(1)]
  have isal: "tomb_is_allocated t" using wf_allocated(1) [OF wf] Allocated by simp
  let ?n = "Suc (tt_mask t)" and ?f = "\<lambda>p. tomb_bucket_index D (fst p) (snd p)"
  have len: "length (tt_buckets t) = ?n * LENGTH('w)" "length (tt_ctrl t) = ?n * LENGTH('w)"
    using Allocated(1) content_length(1) [OF Allocated(1)] by (simp_all add: tomb_content_def)
  let ?t1 = "(tomb_allocate D (tomb_new D) ?n)\<lparr>tt_ctrl := tt_ctrl t\<rparr>"
  have "fold (\<lambda>p bs. bs[?f p := Some (tomb_entry D t p)]) (tomb_occupied_slots D t) (replicate (?n * LENGTH('w)) None) = tt_buckets t"
  proof (rule fold_list_update)
    fix p assume "p \<in> set (tomb_occupied_slots D t)"
    then show "tt_buckets t ! ?f p = Some (tomb_entry D t p)"
      by (auto simp: occ tomb_slot_def tomb_entry_def tomb_key_at_def tomb_value_at_def)
  next
    fix i assume i: "i < length (tt_buckets t)"
    then obtain g s where g: "g \<le> tt_mask t" "s < LENGTH('w)" "i = g * LENGTH('w) + s"
      using flat_grid [OF ok, of i] len by auto
    show "replicate (?n * LENGTH('w)) None ! i = tt_buckets t ! i \<or> i \<in> ?f ` set (tomb_occupied_slots D t)"
    proof (cases "tt_buckets t ! i")
      case None
      then show ?thesis using i len by simp
    next
      case (Some kv)
      then have "(g, s) \<in> set (tomb_occupied_slots D t)" using g by (simp add: occ tomb_slot_def)
      then show ?thesis using g by force
    qed
  qed (simp add: len)
  then have "fold (\<lambda>p s. tomb_write D s (fst p) (snd p) (Some (tomb_entry D t p))) (tomb_occupied_slots D t) ?t1 =
      ?t1\<lparr>tt_buckets := tt_buckets t\<rparr>"
    unfolding tomb_write_def fold_writes by simp
  moreover have "tomb_clone D t = (fold (\<lambda>p s. tomb_write D s (fst p) (snd p) (Some (tomb_entry D t p))) (tomb_occupied_slots D t) ?t1)
      \<lparr>tt_len := tt_len t, tt_growth_left := tt_growth_left t\<rparr>"
    using isal len by (simp add: tomb_clone_def Let_def tomb_occupied_slots_def tomb_num_groups_def fold_pairs tomb_entry_def
        case_prod_unfold del: upt_Suc)
  ultimately show ?thesis
    using Allocated(2) len by (cases t) (simp add: tomb_allocate_def tomb_new_def tomb_counts_def)
qed

end

end
