(* ===== verification/Generic_Map.thy ===== *)
theory Generic_Map
  imports Table_Api
begin

text \<open>
  The map over any table engine, \<^verbatim>\<open>GenericMap<K, V, S, R>\<close> of \<^verbatim>\<open>src/generic_map.rs\<close>,
  and its raw entries, \<^verbatim>\<open>src/raw_entry.rs\<close>. A borrowed key is the key itself
  (\<^verbatim>\<open>Borrow\<close> requires equal hashes and equality), a mutable reference into the map is the
  slot it points to, and a closure that is called repeatedly has its state threaded
  through.
\<close>

record ('t, 'k) generic_map =
  gm_table :: 't
  gm_hash :: "'k \<Rightarrow> u64"

section \<open>Constructors and queries\<close>

definition gm_with_hasher :: "('t, 'k, 'v) raw_table_api \<Rightarrow> ('k \<Rightarrow> u64) \<Rightarrow> ('t, 'k) generic_map" where
  "gm_with_hasher R hash_builder = \<lparr>gm_table = ra_new R, gm_hash = hash_builder\<rparr>"

definition gm_with_capacity_and_hasher ::
  "('t, 'k, 'v) raw_table_api \<Rightarrow> nat \<Rightarrow> ('k \<Rightarrow> u64) \<Rightarrow> ('t, 'k) generic_map" where
  "gm_with_capacity_and_hasher R capacity hash_builder =
    \<lparr>gm_table = ra_with_capacity R capacity, gm_hash = hash_builder\<rparr>"

definition gm_len :: "('t, 'k, 'v) raw_table_api \<Rightarrow> ('t, 'k) generic_map \<Rightarrow> nat" where
  "gm_len R m = ra_len R (gm_table m)"

definition gm_is_empty :: "('t, 'k, 'v) raw_table_api \<Rightarrow> ('t, 'k) generic_map \<Rightarrow> bool" where
  "gm_is_empty R m = is_empty R (gm_table m)"

definition gm_capacity :: "('t, 'k, 'v) raw_table_api \<Rightarrow> ('t, 'k) generic_map \<Rightarrow> nat" where
  "gm_capacity R m = ra_capacity R (gm_table m)"

definition gm_clear :: "('t, 'k, 'v) raw_table_api \<Rightarrow> ('t, 'k) generic_map \<Rightarrow> ('t, 'k) generic_map" where
  "gm_clear R m = m\<lparr>gm_table := ra_clear R (gm_table m)\<rparr>"

section \<open>Lookup, insertion and removal\<close>

definition gm_find :: "('t, 'k, 'v) raw_table_api \<Rightarrow> ('t, 'k) generic_map \<Rightarrow> 'k \<Rightarrow> (nat \<times> nat) option option" where
  "gm_find R m key = ra_find_by_hash R (gm_table m) (gm_hash m key) (\<lambda>k. k = key)"

definition gm_get :: "('t, 'k, 'v) raw_table_api \<Rightarrow> ('t, 'k) generic_map \<Rightarrow> 'k \<Rightarrow> 'v option option" where
  "gm_get R m key = map_option (map_option (\<lambda>(gi, si). ra_value R (gm_table m) gi si)) (gm_find R m key)"

definition gm_get_key_value ::
  "('t, 'k, 'v) raw_table_api \<Rightarrow> ('t, 'k) generic_map \<Rightarrow> 'k \<Rightarrow> ('k \<times> 'v) option option" where
  "gm_get_key_value R m key =
    map_option (map_option (\<lambda>(gi, si). (ra_key R (gm_table m) gi si, ra_value R (gm_table m) gi si))) (gm_find R m key)"

text \<open>\<^verbatim>\<open>get_mut\<close> returns a mutable reference: the slot. \<open>gm_write_ref\<close> stores through it.\<close>

definition gm_get_mut :: "('t, 'k, 'v) raw_table_api \<Rightarrow> ('t, 'k) generic_map \<Rightarrow> 'k \<Rightarrow> (nat \<times> nat) option option" where
  "gm_get_mut R m key = gm_find R m key"

definition gm_write_ref ::
  "('t, 'k, 'v) raw_table_api \<Rightarrow> ('t, 'k) generic_map \<Rightarrow> nat \<times> nat \<Rightarrow> 'v \<Rightarrow> ('t, 'k) generic_map" where
  "gm_write_ref R m p v =
    m\<lparr>gm_table := ra_write R (gm_table m) (fst p) (snd p) (Some (ra_key R (gm_table m) (fst p) (snd p), v))\<rparr>"

definition gm_contains_key :: "('t, 'k, 'v) raw_table_api \<Rightarrow> ('t, 'k) generic_map \<Rightarrow> 'k \<Rightarrow> bool option" where
  "gm_contains_key R m key = map_option (\<lambda>r. r \<noteq> None) (gm_get R m key)"

definition gm_index :: "('t, 'k, 'v) raw_table_api \<Rightarrow> ('t, 'k) generic_map \<Rightarrow> 'k \<Rightarrow> (panic + 'v) option" where
  "gm_index R m key =
    map_option (\<lambda>r. case r of Some v \<Rightarrow> Inr v | None \<Rightarrow> Inl NoEntryForKey) (gm_get R m key)"

definition gm_insert ::
  "('t, 'k, 'v) raw_table_api \<Rightarrow> ('t, 'k) generic_map \<Rightarrow> 'k \<Rightarrow> 'v \<Rightarrow> ('v option \<times> ('t, 'k) generic_map) option" where
  "gm_insert R m key value =
    map_option (\<lambda>(r, t). (r, m\<lparr>gm_table := t\<rparr>)) (ra_insert_or_replace R (gm_hash m) (gm_table m) key value)"

definition gm_remove_entry ::
  "('t, 'k, 'v) raw_table_api \<Rightarrow> ('t, 'k) generic_map \<Rightarrow> 'k \<Rightarrow> (('k \<times> 'v) option \<times> ('t, 'k) generic_map) option" where
  "gm_remove_entry R m key =
    map_option (\<lambda>(r, t). (r, m\<lparr>gm_table := t\<rparr>))
      (ra_remove_by_hash R (gm_table m) (gm_hash m key) (\<lambda>k. k = key))"

definition gm_remove ::
  "('t, 'k, 'v) raw_table_api \<Rightarrow> ('t, 'k) generic_map \<Rightarrow> 'k \<Rightarrow> ('v option \<times> ('t, 'k) generic_map) option" where
  "gm_remove R m key =
    map_option (\<lambda>(r, t). (map_option snd r, m\<lparr>gm_table := t\<rparr>))
      (ra_remove_by_hash R (gm_table m) (gm_hash m key) (\<lambda>k. k = key))"

section \<open>Entries\<close>

datatype 'k map_entry = Occupied 'k "nat \<times> nat" | Vacant 'k u64 "(nat \<times> nat \<times> u8) option"

definition gm_entry ::
  "('t, 'k, 'v) raw_table_api \<Rightarrow> ('t, 'k) generic_map \<Rightarrow> 'k
    \<Rightarrow> (panic + 'k map_entry \<times> ('t, 'k) generic_map) option" where
  "gm_entry R m key =
    (case (if \<not> ra_is_allocated R (gm_table m) then ra_reserve R (gm_hash m) (gm_table m) 1
           else Some (Inr (gm_table m))) of
       None \<Rightarrow> None
     | Some (Inl p) \<Rightarrow> Some (Inl p)
     | Some (Inr t) \<Rightarrow>
         let h = gm_hash m key in
         map_option (\<lambda>r. Inr (case r of
             ProbeFound gi si \<Rightarrow> Occupied key (gi, si)
           | ProbeVacant slot \<Rightarrow> Vacant key h slot, m\<lparr>gm_table := t\<rparr>)) (ra_find_for_entry R t h key))"

text \<open>\<^verbatim>\<open>VacantEntry::insert\<close> returns a reference to the new value.\<close>

definition gm_vacant_insert ::
  "('t, 'k, 'v) raw_table_api \<Rightarrow> ('t, 'k) generic_map \<Rightarrow> 'k \<Rightarrow> u64 \<Rightarrow> (nat \<times> nat \<times> u8) option \<Rightarrow> 'v
    \<Rightarrow> ((nat \<times> nat) \<times> ('t, 'k) generic_map) option" where
  "gm_vacant_insert R m key h slot value =
    (case slot of
       Some (gi, si, full_mask) \<Rightarrow>
         Some ((gi, si), m\<lparr>gm_table := ra_insert_at R (gm_table m) h gi si key value full_mask\<rparr>)
     | None \<Rightarrow>
         (case ra_ensure_capacity R (gm_hash m) (gm_table m) of
            None \<Rightarrow> None
          | Some t \<Rightarrow> map_option (\<lambda>(p, t'). (p, m\<lparr>gm_table := t'\<rparr>)) (ra_insert_no_check R t h key value)))"

definition gm_or_insert_with_key ::
  "('t, 'k, 'v) raw_table_api \<Rightarrow> 'k map_entry \<times> ('t, 'k) generic_map \<Rightarrow> ('k \<Rightarrow> 'v)
    \<Rightarrow> ((nat \<times> nat) \<times> ('t, 'k) generic_map) option" where
  "gm_or_insert_with_key R e dflt =
    (case e of
       (Occupied key p, m) \<Rightarrow> Some (p, m)
     | (Vacant key h slot, m) \<Rightarrow> gm_vacant_insert R m key h slot (dflt key))"

definition gm_or_insert ::
  "('t, 'k, 'v) raw_table_api \<Rightarrow> 'k map_entry \<times> ('t, 'k) generic_map \<Rightarrow> 'v
    \<Rightarrow> ((nat \<times> nat) \<times> ('t, 'k) generic_map) option" where
  "gm_or_insert R e dflt =
    (case e of
       (Occupied key p, m) \<Rightarrow> Some (p, m)
     | (Vacant key h slot, m) \<Rightarrow> gm_vacant_insert R m key h slot dflt)"

text \<open>The closure of \<^verbatim>\<open>or_insert_with\<close> takes no argument; it is called for a vacant entry only.\<close>

definition gm_or_insert_with ::
  "('t, 'k, 'v) raw_table_api \<Rightarrow> 'k map_entry \<times> ('t, 'k) generic_map \<Rightarrow> (unit \<Rightarrow> 'v)
    \<Rightarrow> ((nat \<times> nat) \<times> ('t, 'k) generic_map) option" where
  "gm_or_insert_with R e dflt =
    (case e of
       (Occupied key p, m) \<Rightarrow> Some (p, m)
     | (Vacant key h slot, m) \<Rightarrow> gm_vacant_insert R m key h slot (dflt ()))"

definition gm_or_default ::
  "('t, 'k, 'v) raw_table_api \<Rightarrow> 'v \<Rightarrow> 'k map_entry \<times> ('t, 'k) generic_map
    \<Rightarrow> ((nat \<times> nat) \<times> ('t, 'k) generic_map) option" where
  "gm_or_default R default_value e = gm_or_insert_with R e (\<lambda>_. default_value)"

primrec gm_entry_key :: "'k map_entry \<Rightarrow> 'k" where
  "gm_entry_key (Occupied key p) = key"
| "gm_entry_key (Vacant key h slot) = key"

definition gm_and_modify ::
  "('t, 'k, 'v) raw_table_api \<Rightarrow> 'k map_entry \<times> ('t, 'k) generic_map \<Rightarrow> ('v \<Rightarrow> 'v)
    \<Rightarrow> 'k map_entry \<times> ('t, 'k) generic_map" where
  "gm_and_modify R e f =
    (case e of
       (Occupied key p, m) \<Rightarrow>
         (Occupied key p, gm_write_ref R m p (f (ra_value R (gm_table m) (fst p) (snd p))))
     | (Vacant key h slot, m) \<Rightarrow> (Vacant key h slot, m))"

text \<open>\<^verbatim>\<open>OccupiedEntry::insert\<close>: replaces the value and returns the old one.\<close>

definition gm_occupied_insert ::
  "('t, 'k, 'v) raw_table_api \<Rightarrow> ('t, 'k) generic_map \<Rightarrow> nat \<times> nat \<Rightarrow> 'v \<Rightarrow> 'v \<times> ('t, 'k) generic_map" where
  "gm_occupied_insert R m p value = (ra_value R (gm_table m) (fst p) (snd p), gm_write_ref R m p value)"

definition gm_try_insert ::
  "('t, 'k, 'v) raw_table_api \<Rightarrow> ('t, 'k) generic_map \<Rightarrow> 'k \<Rightarrow> 'v
    \<Rightarrow> (panic + ('k \<times> 'v + unit) \<times> ('t, 'k) generic_map) option" where
  "gm_try_insert R m key value =
    (case gm_entry R m key of
       None \<Rightarrow> None
     | Some (Inl p) \<Rightarrow> Some (Inl p)
     | Some (Inr (Occupied k p, m')) \<Rightarrow> Some (Inr (Inl (k, value), m'))
     | Some (Inr (Vacant k h slot, m')) \<Rightarrow>
         map_option (\<lambda>(p, m''). Inr (Inr (), m'')) (gm_vacant_insert R m' k h slot value))"

section \<open>Iteration\<close>

definition gm_slot_entry :: "('t, 'k, 'v) raw_table_api \<Rightarrow> 't \<Rightarrow> nat \<times> nat \<Rightarrow> 'k \<times> 'v" where
  "gm_slot_entry R t p = (ra_key R t (fst p) (snd p), ra_value R t (fst p) (snd p))"

definition gm_iter :: "('t, 'k, 'v) raw_table_api \<Rightarrow> ('t, 'k) generic_map \<Rightarrow> ('k \<times> 'v) list" where
  "gm_iter R m = map (gm_slot_entry R (gm_table m)) (ra_iter_slots R (gm_table m))"

text \<open>\<^verbatim>\<open>iter_mut\<close> yields each key with a reference to its value.\<close>

definition gm_iter_mut :: "('t, 'k, 'v) raw_table_api \<Rightarrow> ('t, 'k) generic_map \<Rightarrow> ('k \<times> nat \<times> nat) list" where
  "gm_iter_mut R m = map (\<lambda>p. (ra_key R (gm_table m) (fst p) (snd p), p)) (ra_iter_slots R (gm_table m))"

definition gm_keys :: "('t, 'k, 'v) raw_table_api \<Rightarrow> ('t, 'k) generic_map \<Rightarrow> 'k list" where
  "gm_keys R m = map fst (gm_iter R m)"

definition gm_values :: "('t, 'k, 'v) raw_table_api \<Rightarrow> ('t, 'k) generic_map \<Rightarrow> 'v list" where
  "gm_values R m = map snd (gm_iter R m)"

definition gm_values_mut :: "('t, 'k, 'v) raw_table_api \<Rightarrow> ('t, 'k) generic_map \<Rightarrow> (nat \<times> nat) list" where
  "gm_values_mut R m = map snd (gm_iter_mut R m)"

fun gm_retain_loop ::
  "('t, 'k, 'v) raw_table_api \<Rightarrow> ('k \<Rightarrow> u64) \<Rightarrow> ('s \<Rightarrow> 'k \<Rightarrow> 'v \<Rightarrow> bool \<times> 'v \<times> 's) \<Rightarrow> (nat \<times> nat) list
    \<Rightarrow> 's \<Rightarrow> 't \<Rightarrow> 's \<times> 't" where
  "gm_retain_loop R hash f [] s t = (s, t)"
| "gm_retain_loop R hash f ((gi, si) # positions) s t =
    (let key = ra_key R t gi si;
         (keep, value, s') = f s key (ra_value R t gi si);
         t1 = ra_write R t gi si (Some (key, value))
     in if \<not> keep then gm_retain_loop R hash f positions s' (ra_erase_slot R (ra_write R t1 gi si None) (hash key) gi si)
        else gm_retain_loop R hash f positions s' t1)"

definition gm_retain ::
  "('t, 'k, 'v) raw_table_api \<Rightarrow> ('t, 'k) generic_map \<Rightarrow> ('s \<Rightarrow> 'k \<Rightarrow> 'v \<Rightarrow> bool \<times> 'v \<times> 's) \<Rightarrow> 's
    \<Rightarrow> 's \<times> ('t, 'k) generic_map" where
  "gm_retain R m f s =
    (if \<not> ra_is_allocated R (gm_table m) then (s, m)
     else let (s', t) = gm_retain_loop R (gm_hash m) f (occupied_positions R (gm_table m)) s (gm_table m)
          in (s', m\<lparr>gm_table := t\<rparr>))"

definition gm_into_iter :: "('t, 'k, 'v) raw_table_api \<Rightarrow> ('t, 'k) generic_map \<Rightarrow> ('k \<times> 'v) list" where
  "gm_into_iter R m = fst (ra_into_iter R (gm_table m))"

definition gm_into_keys :: "('t, 'k, 'v) raw_table_api \<Rightarrow> ('t, 'k) generic_map \<Rightarrow> 'k list" where
  "gm_into_keys R m = map fst (gm_into_iter R m)"

definition gm_into_values :: "('t, 'k, 'v) raw_table_api \<Rightarrow> ('t, 'k) generic_map \<Rightarrow> 'v list" where
  "gm_into_values R m = map snd (gm_into_iter R m)"

definition gm_drain ::
  "('t, 'k, 'v) raw_table_api \<Rightarrow> ('t, 'k) generic_map \<Rightarrow> ('k \<times> 'v) list \<times> ('t, 'k) generic_map" where
  "gm_drain R m = (let (kvs, t) = ra_drain R (gm_table m) in (kvs, m\<lparr>gm_table := t\<rparr>))"

section \<open>Capacity and trait implementations\<close>

definition gm_reserve ::
  "('t, 'k, 'v) raw_table_api \<Rightarrow> ('t, 'k) generic_map \<Rightarrow> nat \<Rightarrow> (panic + ('t, 'k) generic_map) option" where
  "gm_reserve R m additional =
    map_option (map_sum id (\<lambda>t. m\<lparr>gm_table := t\<rparr>)) (ra_reserve R (gm_hash m) (gm_table m) additional)"

definition gm_shrink_to_fit ::
  "('t, 'k, 'v) raw_table_api \<Rightarrow> ('t, 'k) generic_map \<Rightarrow> ('t, 'k) generic_map option" where
  "gm_shrink_to_fit R m = map_option (\<lambda>t. m\<lparr>gm_table := t\<rparr>) (ra_shrink_to_fit R (gm_hash m) (gm_table m))"

definition gm_extend ::
  "('t, 'k, 'v) raw_table_api \<Rightarrow> ('t, 'k) generic_map \<Rightarrow> ('k \<times> 'v) list \<Rightarrow> ('t, 'k) generic_map option" where
  "gm_extend R m kvs = foldM (\<lambda>(k, v) m. map_option snd (gm_insert R m k v)) kvs m"

text \<open>\<^verbatim>\<open>from_iter\<close> takes the lower bound of the iterator's size hint and the default hasher.\<close>

definition gm_from_iter ::
  "('t, 'k, 'v) raw_table_api \<Rightarrow> ('k \<Rightarrow> u64) \<Rightarrow> nat \<Rightarrow> ('k \<times> 'v) list \<Rightarrow> ('t, 'k) generic_map option" where
  "gm_from_iter R hash_builder lower kvs =
    foldM (\<lambda>(k, v) m. map_option snd (gm_insert R m k v)) kvs (gm_with_capacity_and_hasher R lower hash_builder)"

definition gm_clone :: "('t, 'k, 'v) raw_table_api \<Rightarrow> ('t, 'k) generic_map \<Rightarrow> ('t, 'k) generic_map" where
  "gm_clone R m = \<lparr>gm_table = ra_clone R (gm_table m), gm_hash = gm_hash m\<rparr>"

text \<open>\<^verbatim>\<open>Iterator::all\<close> stops at the first entry that differs.\<close>

fun gm_all_equal ::
  "('t, 'k, 'v) raw_table_api \<Rightarrow> ('k \<times> 'v) list \<Rightarrow> ('t, 'k) generic_map \<Rightarrow> bool option" where
  "gm_all_equal R [] other = Some True"
| "gm_all_equal R ((k, v) # kvs) other =
    (case gm_get R other k of
       None \<Rightarrow> None
     | Some r \<Rightarrow> if r = Some v then gm_all_equal R kvs other else Some False)"

definition gm_eq ::
  "('t, 'k, 'v) raw_table_api \<Rightarrow> ('t, 'k) generic_map \<Rightarrow> ('t, 'k) generic_map \<Rightarrow> bool option" where
  "gm_eq R m other =
    (if gm_len R m \<noteq> gm_len R other then Some False else gm_all_equal R (gm_iter R m) other)"

section \<open>Raw entries\<close>

definition raw_from_hash ::
  "('t, 'k, 'v) raw_table_api \<Rightarrow> ('t, 'k) generic_map \<Rightarrow> u64 \<Rightarrow> ('k \<Rightarrow> bool) \<Rightarrow> ('k \<times> 'v) option option" where
  "raw_from_hash R m h is_match =
    map_option (map_option (gm_slot_entry R (gm_table m))) (ra_find_by_hash R (gm_table m) h is_match)"

definition raw_from_key_hashed_nocheck ::
  "('t, 'k, 'v) raw_table_api \<Rightarrow> ('t, 'k) generic_map \<Rightarrow> u64 \<Rightarrow> 'k \<Rightarrow> ('k \<times> 'v) option option" where
  "raw_from_key_hashed_nocheck R m h k = raw_from_hash R m h (\<lambda>stored. stored = k)"

definition raw_from_key ::
  "('t, 'k, 'v) raw_table_api \<Rightarrow> ('t, 'k) generic_map \<Rightarrow> 'k \<Rightarrow> ('k \<times> 'v) option option" where
  "raw_from_key R m k = raw_from_key_hashed_nocheck R m (gm_hash m k) k"

text \<open>A mutable raw entry keeps the slot and the hash it was found with, or the hash only.\<close>

datatype raw_entry_mut = RawOccupied nat nat u64 | RawVacant u64

definition raw_mut_from_hash ::
  "('t, 'k, 'v) raw_table_api \<Rightarrow> ('t, 'k) generic_map \<Rightarrow> u64 \<Rightarrow> ('k \<Rightarrow> bool) \<Rightarrow> raw_entry_mut option" where
  "raw_mut_from_hash R m h is_match =
    map_option (\<lambda>r. case r of Some (gi, si) \<Rightarrow> RawOccupied gi si h | None \<Rightarrow> RawVacant h)
      (ra_find_by_hash R (gm_table m) h is_match)"

definition raw_mut_from_key_hashed_nocheck ::
  "('t, 'k, 'v) raw_table_api \<Rightarrow> ('t, 'k) generic_map \<Rightarrow> u64 \<Rightarrow> 'k \<Rightarrow> raw_entry_mut option" where
  "raw_mut_from_key_hashed_nocheck R m h k = raw_mut_from_hash R m h (\<lambda>stored. stored = k)"

definition raw_mut_from_key ::
  "('t, 'k, 'v) raw_table_api \<Rightarrow> ('t, 'k) generic_map \<Rightarrow> 'k \<Rightarrow> raw_entry_mut option" where
  "raw_mut_from_key R m k = raw_mut_from_key_hashed_nocheck R m (gm_hash m k) k"

definition raw_insert_hashed_nocheck ::
  "('t, 'k, 'v) raw_table_api \<Rightarrow> ('t, 'k) generic_map \<Rightarrow> u64 \<Rightarrow> 'k \<Rightarrow> 'v
    \<Rightarrow> ((nat \<times> nat) \<times> ('t, 'k) generic_map) option" where
  "raw_insert_hashed_nocheck R m h key value =
    (case ra_ensure_capacity R (gm_hash m) (gm_table m) of
       None \<Rightarrow> None
     | Some t \<Rightarrow> map_option (\<lambda>(p, t'). (p, m\<lparr>gm_table := t'\<rparr>)) (ra_insert_no_check R t h key value))"

definition raw_vacant_insert ::
  "('t, 'k, 'v) raw_table_api \<Rightarrow> ('t, 'k) generic_map \<Rightarrow> 'k \<Rightarrow> 'v \<Rightarrow> ((nat \<times> nat) \<times> ('t, 'k) generic_map) option" where
  "raw_vacant_insert R m key value = raw_insert_hashed_nocheck R m (gm_hash m key) key value"

definition raw_or_insert_with ::
  "('t, 'k, 'v) raw_table_api \<Rightarrow> raw_entry_mut \<Rightarrow> ('t, 'k) generic_map \<Rightarrow> (unit \<Rightarrow> 'k \<times> 'v)
    \<Rightarrow> ((nat \<times> nat) \<times> ('t, 'k) generic_map) option" where
  "raw_or_insert_with R e m dflt =
    (case e of
       RawOccupied gi si h \<Rightarrow> Some ((gi, si), m)
     | RawVacant h \<Rightarrow> let (k, v) = dflt () in raw_vacant_insert R m k v)"

definition raw_or_insert ::
  "('t, 'k, 'v) raw_table_api \<Rightarrow> raw_entry_mut \<Rightarrow> ('t, 'k) generic_map \<Rightarrow> 'k \<Rightarrow> 'v
    \<Rightarrow> ((nat \<times> nat) \<times> ('t, 'k) generic_map) option" where
  "raw_or_insert R e m default_key default_value =
    (case e of
       RawOccupied gi si h \<Rightarrow> Some ((gi, si), m)
     | RawVacant h \<Rightarrow> raw_vacant_insert R m default_key default_value)"

text \<open>The closure of \<^verbatim>\<open>and_modify\<close> may change the key as well.\<close>

definition raw_and_modify ::
  "('t, 'k, 'v) raw_table_api \<Rightarrow> raw_entry_mut \<Rightarrow> ('t, 'k) generic_map \<Rightarrow> ('k \<Rightarrow> 'v \<Rightarrow> 'k \<times> 'v)
    \<Rightarrow> ('t, 'k) generic_map" where
  "raw_and_modify R e m f =
    (case e of
       RawOccupied gi si h \<Rightarrow>
         m\<lparr>gm_table := ra_write R (gm_table m) gi si (Some (f (ra_key R (gm_table m) gi si) (ra_value R (gm_table m) gi si)))\<rparr>
     | RawVacant h \<Rightarrow> m)"

definition raw_insert_key ::
  "('t, 'k, 'v) raw_table_api \<Rightarrow> ('t, 'k) generic_map \<Rightarrow> nat \<times> nat \<Rightarrow> 'k \<Rightarrow> 'k \<times> ('t, 'k) generic_map" where
  "raw_insert_key R m p key =
    (let t = gm_table m in
     (ra_key R t (fst p) (snd p),
      m\<lparr>gm_table := ra_write R t (fst p) (snd p) (Some (key, ra_value R t (fst p) (snd p)))\<rparr>))"

definition raw_remove_entry ::
  "('t, 'k, 'v) raw_table_api \<Rightarrow> ('t, 'k) generic_map \<Rightarrow> nat \<Rightarrow> nat \<Rightarrow> u64 \<Rightarrow> ('k \<times> 'v) \<times> ('t, 'k) generic_map" where
  "raw_remove_entry R m gi si h =
    (let t = gm_table m in
     ((ra_key R t gi si, ra_value R t gi si),
      m\<lparr>gm_table := ra_erase_slot R (ra_write R t gi si None) h gi si\<rparr>))"

definition raw_remove ::
  "('t, 'k, 'v) raw_table_api \<Rightarrow> ('t, 'k) generic_map \<Rightarrow> nat \<Rightarrow> nat \<Rightarrow> u64 \<Rightarrow> 'v \<times> ('t, 'k) generic_map" where
  "raw_remove R m gi si h = (let (kv, m') = raw_remove_entry R m gi si h in (snd kv, m'))"

text \<open>The accessors of an occupied raw entry read the slot; \<^verbatim>\<open>insert\<close> replaces its value.\<close>

definition raw_get_key_value ::
  "('t, 'k, 'v) raw_table_api \<Rightarrow> ('t, 'k) generic_map \<Rightarrow> nat \<times> nat \<Rightarrow> 'k \<times> 'v" where
  "raw_get_key_value R m p = (ra_key R (gm_table m) (fst p) (snd p), ra_value R (gm_table m) (fst p) (snd p))"

definition raw_insert_value ::
  "('t, 'k, 'v) raw_table_api \<Rightarrow> ('t, 'k) generic_map \<Rightarrow> nat \<times> nat \<Rightarrow> 'v \<Rightarrow> 'v \<times> ('t, 'k) generic_map" where
  "raw_insert_value R m p v =
    (ra_value R (gm_table m) (fst p) (snd p),
     m\<lparr>gm_table := ra_write R (gm_table m) (fst p) (snd p) (Some (ra_key R (gm_table m) (fst p) (snd p), v))\<rparr>)"

end
