(* ===== verification/Generic_Laws.thy ===== *)
theory Generic_Laws
  imports Generic_Map
begin

text \<open>
  What a map relies on of its table, the locale \<open>table_contract\<close>, and what the map
  then does. The contract has the table's invariant \<open>wf\<close>, the map \<open>content\<close> it
  represents, the entry \<open>at\<close> a slot, and two side conditions: \<open>stops\<close>, that the
  lookup of an absent key with a hash ends, and \<open>grows\<close>, that the table may double.
\<close>

locale table_contract =
  fixes R :: "('t, 'k, 'v) raw_table_api" and hash :: "'k \<Rightarrow> u64"
    and wf :: "'t \<Rightarrow> bool" and content :: "'t \<Rightarrow> 'k \<rightharpoonup> 'v"
    and at :: "'t \<Rightarrow> nat \<Rightarrow> nat \<Rightarrow> 'k \<Rightarrow> 'v \<Rightarrow> bool"
    and stops :: "'t \<Rightarrow> u64 \<Rightarrow> bool" and grows :: "'t \<Rightarrow> bool"
  assumes new: "wf (ra_new R) \<and> content (ra_new R) = Map.empty"
    and with_capacity: "wf (ra_with_capacity R c) \<and> content (ra_with_capacity R c) = Map.empty"
    and len: "wf t \<Longrightarrow> ra_len R t = card (dom (content t))"
    and clear: "wf t \<Longrightarrow> wf (ra_clear R t) \<and> content (ra_clear R t) = Map.empty"
    and at_entry: "wf t \<Longrightarrow> at t gi si k v \<Longrightarrow> content t k = Some v \<and> ra_key R t gi si = k \<and> ra_value R t gi si = v"
    and store: "wf t \<Longrightarrow> at t gi si k v \<Longrightarrow>
      wf (ra_write R t gi si (Some (k, w))) \<and> content (ra_write R t gi si (Some (k, w))) = (content t)(k \<mapsto> w) \<and>
      at (ra_write R t gi si (Some (k, w))) gi si k w \<and> (grows t \<longrightarrow> grows (ra_write R t gi si (Some (k, w))))"
    and store_other: "wf t \<Longrightarrow> at t gi si k v \<Longrightarrow> at t g s k' v' \<Longrightarrow> (g, s) \<noteq> (gi, si) \<Longrightarrow>
      at (ra_write R t gi si (Some (k, w))) g s k' v'"
    and erase: "wf t \<Longrightarrow> at t gi si k v \<Longrightarrow>
      wf (ra_erase_slot R (ra_write R t gi si None) (hash k) gi si) \<and>
      content (ra_erase_slot R (ra_write R t gi si None) (hash k) gi si) = (content t)(k := None)"
    and erase_other: "wf t \<Longrightarrow> at t gi si k v \<Longrightarrow> at t g s k' v' \<Longrightarrow> (g, s) \<noteq> (gi, si) \<Longrightarrow>
      at (ra_erase_slot R (ra_write R t gi si None) (hash k) gi si) g s k' v'"
    and find_hit: "wf t \<Longrightarrow> content t k = Some v \<Longrightarrow>
      \<exists>gi si. ra_find_by_hash R t (hash k) (\<lambda>x. x = k) = Some (Some (gi, si)) \<and> at t gi si k v"
    and find_miss: "wf t \<Longrightarrow> content t k = None \<Longrightarrow> stops t (hash k) \<Longrightarrow>
      ra_find_by_hash R t (hash k) (\<lambda>x. x = k) = Some None"
    and unallocated_empty: "wf t \<Longrightarrow> \<not> ra_is_allocated R t \<Longrightarrow> content t = Map.empty"
    and insert: "wf t \<Longrightarrow> grows t \<Longrightarrow> (content t k = None \<Longrightarrow> stops t (hash k)) \<Longrightarrow>
      \<exists>u. ra_insert_or_replace R hash t k v = Some (content t k, u) \<and> wf u \<and> content u = (content t)(k \<mapsto> v)"
    and remove_hit: "wf t \<Longrightarrow> content t k = Some v \<Longrightarrow>
      \<exists>u. ra_remove_by_hash R t (hash k) (\<lambda>x. x = k) = Some (Some (k, v), u) \<and> wf u \<and> content u = (content t)(k := None)"
    and remove_miss: "wf t \<Longrightarrow> content t k = None \<Longrightarrow> stops t (hash k) \<Longrightarrow>
      ra_remove_by_hash R t (hash k) (\<lambda>x. x = k) = Some (None, t)"
    and entry_hit: "wf t \<Longrightarrow> content t k = Some v \<Longrightarrow>
      \<exists>gi si. ra_find_for_entry R t (hash k) k = Some (ProbeFound gi si) \<and> at t gi si k v"
    and entry_miss: "wf t \<Longrightarrow> content t k = None \<Longrightarrow> stops t (hash k) \<Longrightarrow>
      \<exists>slot. ra_find_for_entry R t (hash k) k = Some (ProbeVacant slot)"
    and vacant_at: "wf t \<Longrightarrow> content t k = None \<Longrightarrow> stops t (hash k) \<Longrightarrow>
      ra_find_for_entry R t (hash k) k = Some (ProbeVacant (Some (gi, si, msk))) \<Longrightarrow>
      wf (ra_insert_at R t (hash k) gi si k v msk) \<and>
      content (ra_insert_at R t (hash k) gi si k v msk) = (content t)(k \<mapsto> v) \<and>
      at (ra_insert_at R t (hash k) gi si k v msk) gi si k v"
    and vacant_grow: "wf t \<Longrightarrow> grows t \<Longrightarrow> content t k = None \<Longrightarrow>
      \<exists>s gi si u. ra_ensure_capacity R hash t = Some s \<and> ra_insert_no_check R s (hash k) k v = Some ((gi, si), u) \<and>
        wf u \<and> content u = (content t)(k \<mapsto> v) \<and> at u gi si k v"
    and reserve_first: "wf t \<Longrightarrow> \<not> ra_is_allocated R t \<Longrightarrow>
      \<exists>u. ra_reserve R hash t 1 = Some (Inr u) \<and> wf u \<and> content u = content t \<and> grows u \<and> stops u h"
    and reserve: "wf t \<Longrightarrow> ra_len R t + n < 2 ^ 64 \<Longrightarrow>
      \<exists>u. ra_reserve R hash t n = Some (Inr u) \<and> wf u \<and> content u = content t"
    and reserve_panics: "wf t \<Longrightarrow> 2 ^ 64 \<le> ra_len R t + n \<Longrightarrow> ra_reserve R hash t n = Some (Inl CapacityOverflow)"
    and shrink: "wf t \<Longrightarrow> grows t \<Longrightarrow> \<exists>u. ra_shrink_to_fit R hash t = Some u \<and> wf u \<and> content u = content t"
    and iter: "wf t \<Longrightarrow> distinct (ra_iter_slots R t) \<and> length (ra_iter_slots R t) = ra_len R t \<and>
      map_of (map (\<lambda>p. (ra_key R t (fst p) (snd p), ra_value R t (fst p) (snd p))) (ra_iter_slots R t)) = content t \<and>
      (\<forall>(gi, si) \<in> set (ra_iter_slots R t). \<exists>k v. at t gi si k v)"
    and into_iter: "wf t \<Longrightarrow> fst (ra_into_iter R t) =
      map (\<lambda>p. (ra_key R t (fst p) (snd p), ra_value R t (fst p) (snd p))) (ra_iter_slots R t)"
    and drain: "wf t \<Longrightarrow> fst (ra_drain R t) = fst (ra_into_iter R t) \<and> snd (ra_drain R t) = ra_new R"
    and clone: "wf t \<Longrightarrow> wf (ra_clone R t) \<and> content (ra_clone R t) = content t"
begin

definition gm_ok :: "('t, 'k) generic_map \<Rightarrow> bool" where
  "gm_ok m \<longleftrightarrow> wf (gm_table m) \<and> gm_hash m = hash"

definition gm_content :: "('t, 'k) generic_map \<Rightarrow> 'k \<rightharpoonup> 'v" where
  "gm_content m = content (gm_table m)"

text \<open>A key whose lookup ends: one that is present, or whose hash lets the probe stop.\<close>

definition key_stops :: "('t, 'k) generic_map \<Rightarrow> 'k \<Rightarrow> bool" where
  "key_stops m k \<longleftrightarrow> (gm_content m k = None \<longrightarrow> stops (gm_table m) (hash k))"

lemma gm_okD: "gm_ok m \<Longrightarrow> wf (gm_table m)" "gm_ok m \<Longrightarrow> gm_hash m = hash"
  by (simp_all add: gm_ok_def)

lemma gm_ok_update: "gm_ok m \<Longrightarrow> wf t \<Longrightarrow> gm_ok (m\<lparr>gm_table := t\<rparr>) \<and> gm_content (m\<lparr>gm_table := t\<rparr>) = content t"
  by (simp add: gm_ok_def gm_content_def)

section \<open>Lookup, insertion and removal\<close>

lemma find_correct:
  assumes "gm_ok m" "key_stops m k"
  shows "case gm_content m k of
      None \<Rightarrow> gm_find R m k = Some None
    | Some v \<Rightarrow> \<exists>gi si. gm_find R m k = Some (Some (gi, si)) \<and> at (gm_table m) gi si k v"
  using assms find_hit [of "gm_table m" k] find_miss [of "gm_table m" k]
  by (simp add: gm_ok_def gm_find_def gm_content_def key_stops_def split: option.split)

lemma get_correct:
  assumes "gm_ok m" "key_stops m k"
  shows "gm_get R m k = Some (gm_content m k)"
    and "gm_get_key_value R m k = Some (map_option (Pair k) (gm_content m k))"
    and "gm_contains_key R m k = Some (k \<in> dom (gm_content m))"
    and "gm_index R m k = Some (case gm_content m k of Some v \<Rightarrow> Inr v | None \<Rightarrow> Inl NoEntryForKey)"
proof -
  have f: "gm_get R m k = Some (gm_content m k) \<and>
    gm_get_key_value R m k = Some (map_option (Pair k) (gm_content m k))"
    using find_correct [OF assms] at_entry [OF gm_okD(1) [OF assms(1)]]
    by (cases "gm_content m k") (auto simp: gm_get_def gm_get_key_value_def)
  then show "gm_get R m k = Some (gm_content m k)"
    "gm_get_key_value R m k = Some (map_option (Pair k) (gm_content m k))"
    by simp_all
  then show "gm_contains_key R m k = Some (k \<in> dom (gm_content m))"
    "gm_index R m k = Some (case gm_content m k of Some v \<Rightarrow> Inr v | None \<Rightarrow> Inl NoEntryForKey)"
    by (auto simp: gm_contains_key_def gm_index_def domIff)
qed

lemma get_mut_correct:
  assumes "gm_ok m" "gm_content m k = Some v"
  shows "\<exists>p. gm_get_mut R m k = Some (Some p) \<and> gm_ok (gm_write_ref R m p w) \<and>
    gm_content (gm_write_ref R m p w) = (gm_content m)(k \<mapsto> w)"
proof -
  obtain gi si where f: "gm_find R m k = Some (Some (gi, si))" "at (gm_table m) gi si k v"
    using find_correct [OF assms(1), of k] assms(2) by (auto simp: key_stops_def)
  have k: "ra_key R (gm_table m) gi si = k" using at_entry [OF gm_okD(1) [OF assms(1)] f(2)] by simp
  show ?thesis
    using store [OF gm_okD(1) [OF assms(1)] f(2), of w] f(1) k assms(1)
    by (intro exI [of _ "(gi, si)"]) (simp add: gm_get_mut_def gm_write_ref_def gm_ok_def gm_content_def)
qed

lemma insert_correct:
  assumes "gm_ok m" "grows (gm_table m)" "key_stops m k"
  shows "\<exists>u. gm_insert R m k v = Some (gm_content m k, u) \<and> gm_ok u \<and> gm_content u = (gm_content m)(k \<mapsto> v)"
proof -
  obtain t where "ra_insert_or_replace R hash (gm_table m) k v = Some (gm_content m k, t)" "wf t"
    "content t = (gm_content m)(k \<mapsto> v)"
    using insert [OF gm_okD(1) [OF assms(1)] assms(2), of k v] assms(3) unfolding key_stops_def gm_content_def by blast
  then show ?thesis
    using gm_ok_update [OF assms(1)] by (auto simp: gm_insert_def gm_okD(2) [OF assms(1)])
qed

lemma remove_entry_correct:
  assumes "gm_ok m" "key_stops m k"
  shows "\<exists>u. gm_remove_entry R m k = Some (map_option (Pair k) (gm_content m k), u) \<and>
    gm_remove R m k = Some (gm_content m k, u) \<and> gm_ok u \<and> gm_content u = (gm_content m)(k := None)"
proof (cases "gm_content m k")
  case None
  then have "ra_remove_by_hash R (gm_table m) (hash k) (\<lambda>x. x = k) = Some (None, gm_table m)"
    using remove_miss [OF gm_okD(1) [OF assms(1)]] assms(2) by (simp add: key_stops_def gm_content_def)
  then show ?thesis
    using None assms(1) by (auto simp: gm_remove_entry_def gm_remove_def gm_okD(2) [OF assms(1)] fun_upd_idem)
next
  case (Some v)
  then obtain t where "ra_remove_by_hash R (gm_table m) (hash k) (\<lambda>x. x = k) = Some (Some (k, v), t)" "wf t"
    "content t = (gm_content m)(k := None)"
    using remove_hit [OF gm_okD(1) [OF assms(1)]] unfolding gm_content_def by blast
  then show ?thesis
    using Some gm_ok_update [OF assms(1)] by (auto simp: gm_remove_entry_def gm_remove_def gm_okD(2) [OF assms(1)])
qed

end

context table_contract
begin

section \<open>Entries\<close>

text \<open>What an entry promises: the slot of the key, or a place where the key can go.\<close>

definition entry_ok :: "'k map_entry \<Rightarrow> ('t, 'k) generic_map \<Rightarrow> bool" where
  "entry_ok e m \<longleftrightarrow> gm_ok m \<and> grows (gm_table m) \<and>
    (case e of
       Occupied k p \<Rightarrow> \<exists>v. at (gm_table m) (fst p) (snd p) k v
     | Vacant k h slot \<Rightarrow> gm_content m k = None \<and> h = hash k \<and> stops (gm_table m) h \<and>
         ra_find_for_entry R (gm_table m) h k = Some (ProbeVacant slot))"

lemma entry_correct:
  assumes "gm_ok m" "grows (gm_table m)" "key_stops m k"
  shows "\<exists>e u. gm_entry R m k = Some (Inr (e, u)) \<and> entry_ok e u \<and> gm_entry_key e = k \<and>
    gm_content u = gm_content m \<and> ((\<exists>p. e = Occupied k p) \<longleftrightarrow> k \<in> dom (gm_content m))"
proof -
  obtain t where t: "(if \<not> ra_is_allocated R (gm_table m) then ra_reserve R hash (gm_table m) 1
      else Some (Inr (gm_table m))) = Some (Inr t)" "wf t" "content t = gm_content m" "grows t"
    "gm_content m k = None \<Longrightarrow> stops t (hash k)"
  proof (cases "ra_is_allocated R (gm_table m)")
    case True
    then show ?thesis
      using that [of "gm_table m"] assms by (simp add: gm_ok_def key_stops_def gm_content_def)
  next
    case False
    then show ?thesis
      using that reserve_first [OF gm_okD(1) [OF assms(1)] False, of "hash k"] by (auto simp: gm_content_def)
  qed
  let ?u = "m\<lparr>gm_table := t\<rparr>"
  have u: "gm_ok ?u" "gm_content ?u = gm_content m" using gm_ok_update [OF assms(1) t(2)] t(3) by simp_all
  have e: "gm_entry R m k = map_option (\<lambda>r. Inr (case r of
      ProbeFound gi si \<Rightarrow> Occupied k (gi, si) | ProbeVacant slot \<Rightarrow> Vacant k (hash k) slot, ?u))
    (ra_find_for_entry R t (hash k) k)"
    unfolding gm_entry_def gm_okD(2) [OF assms(1)] t(1) by (simp add: Let_def gm_okD(2) [OF assms(1)])
  show ?thesis
  proof (cases "gm_content m k")
    case None
    obtain slot where s: "ra_find_for_entry R t (hash k) k = Some (ProbeVacant slot)"
      using entry_miss [OF t(2), of k] None t(3,5) by auto
    show ?thesis
      by (rule exI [of _ "Vacant k (hash k) slot"], rule exI [of _ ?u])
        (use s u t None in \<open>simp add: e entry_ok_def domIff\<close>)
  next
    case (Some v)
    obtain gi si where s: "ra_find_for_entry R t (hash k) k = Some (ProbeFound gi si)" "at t gi si k v"
      using entry_hit [OF t(2), of k v] Some t(3) by auto
    show ?thesis
      by (rule exI [of _ "Occupied k (gi, si)"], rule exI [of _ ?u])
        (use s u t Some in \<open>auto simp: e entry_ok_def\<close>)
  qed
qed

lemma vacant_insert_correct:
  assumes "entry_ok (Vacant k h slot) m"
  shows "\<exists>p u. gm_vacant_insert R m k h slot v = Some (p, u) \<and> gm_ok u \<and>
    gm_content u = (gm_content m)(k \<mapsto> v) \<and> at (gm_table u) (fst p) (snd p) k v"
proof -
  have m: "wf (gm_table m)" "gm_hash m = hash" "grows (gm_table m)" "content (gm_table m) k = None" "h = hash k"
    "stops (gm_table m) (hash k)" "ra_find_for_entry R (gm_table m) (hash k) k = Some (ProbeVacant slot)" "gm_ok m"
    using assms by (auto simp: entry_ok_def gm_ok_def gm_content_def)
  show ?thesis
  proof (cases slot)
    case None
    obtain s gi si t where "ra_ensure_capacity R hash (gm_table m) = Some s"
      "ra_insert_no_check R s (hash k) k v = Some ((gi, si), t)" "wf t" "content t = (gm_content m)(k \<mapsto> v)" "at t gi si k v"
      using vacant_grow [OF m(1,3,4), of v] unfolding gm_content_def by blast
    then show ?thesis
      using gm_ok_update [OF m(8)] by (auto simp: gm_vacant_insert_def None m(2,5))
  next
    case (Some x)
    obtain gi si msk where x: "x = (gi, si, msk)" by (cases x)
    show ?thesis
      using vacant_at [OF m(1,4,6) m(7) [unfolded Some x], of v] gm_ok_update [OF m(8)]
      by (auto simp: gm_vacant_insert_def Some x m(5) gm_content_def)
  qed
qed

text \<open>The three forms of \<^verbatim>\<open>or_insert\<close> differ in how the value is computed.\<close>

lemma or_insert_forms:
  "gm_or_insert_with R e (\<lambda>_. v) = gm_or_insert R e v" "gm_or_default R v e = gm_or_insert R e v"
  "gm_or_insert_with_key R e f = gm_or_insert R e (f (gm_entry_key (fst e)))"
  by (auto simp: gm_or_insert_with_def gm_or_insert_def gm_or_default_def gm_or_insert_with_key_def
      split: prod.split map_entry.split)

lemma or_insert_correct:
  assumes "entry_ok e m"
  shows "\<exists>p u w. gm_or_insert R (e, m) v = Some (p, u) \<and> gm_ok u \<and>
    w = (case gm_content m (gm_entry_key e) of None \<Rightarrow> v | Some w \<Rightarrow> w) \<and>
    gm_content u = (gm_content m)(gm_entry_key e \<mapsto> w) \<and> at (gm_table u) (fst p) (snd p) (gm_entry_key e) w"
proof (cases e)
  case (Occupied k p)
  then obtain v where "at (gm_table m) (fst p) (snd p) k v" "gm_ok m" using assms by (auto simp: entry_ok_def)
  moreover from this have "gm_content m k = Some v" using at_entry by (auto simp: gm_ok_def gm_content_def)
  ultimately show ?thesis using Occupied by (auto simp: gm_or_insert_def)
next
  case (Vacant k h slot)
  moreover have "gm_content m k = None" using assms Vacant by (simp add: entry_ok_def)
  ultimately show ?thesis
    using vacant_insert_correct [OF assms [unfolded Vacant], of v] by (auto simp: gm_or_insert_def)
qed

lemma and_modify_correct:
  assumes "entry_ok e m"
  shows "\<exists>u. gm_and_modify R (e, m) f = (e, u) \<and> entry_ok e u \<and>
    gm_content u = (case gm_content m (gm_entry_key e) of None \<Rightarrow> gm_content m
       | Some v \<Rightarrow> (gm_content m)(gm_entry_key e \<mapsto> f v))"
proof (cases e)
  case (Occupied k p)
  then obtain v where a: "at (gm_table m) (fst p) (snd p) k v" "gm_ok m" "grows (gm_table m)"
    using assms by (auto simp: entry_ok_def)
  then have "gm_content m k = Some v \<and> ra_key R (gm_table m) (fst p) (snd p) = k \<and> ra_value R (gm_table m) (fst p) (snd p) = v"
    using at_entry [OF gm_okD(1)] by (auto simp: gm_content_def)
  then show ?thesis
    using Occupied a store [OF gm_okD(1) [OF a(2)] a(1), of "f v"]
    by (auto simp: gm_and_modify_def gm_write_ref_def entry_ok_def gm_ok_def gm_content_def)
next
  case (Vacant k h slot)
  then show ?thesis using assms by (auto simp: gm_and_modify_def entry_ok_def split: option.split)
qed

lemma try_insert_correct:
  assumes "gm_ok m" "grows (gm_table m)" "key_stops m k"
  shows "\<exists>u. gm_try_insert R m k v =
      Some (Inr (if k \<in> dom (gm_content m) then Inl (k, v) else Inr (), u)) \<and>
    gm_ok u \<and> gm_content u = (if k \<in> dom (gm_content m) then gm_content m else (gm_content m)(k \<mapsto> v))"
proof -
  obtain e u where e: "gm_entry R m k = Some (Inr (e, u))" "entry_ok e u" "gm_entry_key e = k"
    "gm_content u = gm_content m" "(\<exists>p. e = Occupied k p) \<longleftrightarrow> k \<in> dom (gm_content m)"
    using entry_correct [OF assms] by blast
  show ?thesis
  proof (cases e)
    case (Occupied k' p)
    then show ?thesis using e by (auto simp: gm_try_insert_def entry_ok_def)
  next
    case (Vacant k' h slot)
    then show ?thesis
      using e vacant_insert_correct [OF e(2) [unfolded Vacant], of v] by (auto simp: gm_try_insert_def)
  qed
qed

end

end
