(* ===== verification/Generic_Ops.thy ===== *)
theory Generic_Ops
  imports Generic_Laws
begin

text \<open>
  The operations of the map that walk its entries, the trait implementations and the
  raw entries, over the contract of the table.
\<close>

section \<open>Specifications\<close>

text \<open>What \<^verbatim>\<open>retain\<close> keeps of the entries in visiting order.\<close>

fun retain_spec :: "('s \<Rightarrow> 'k \<Rightarrow> 'v \<Rightarrow> bool \<times> 'v \<times> 's) \<Rightarrow> ('k \<times> 'v) list \<Rightarrow> 's \<Rightarrow> 's \<times> ('k \<times> 'v) list" where
  "retain_spec f [] s = (s, [])"
| "retain_spec f ((k, v) # kvs) s =
    (let (keep, w, s') = f s k v; (s'', kept) = retain_spec f kvs s' in (s'', if keep then (k, w) # kept else kept))"

lemma retain_spec_keys: "fst ` set (snd (retain_spec f kvs s)) \<subseteq> fst ` set kvs"
proof (induction kvs arbitrary: s)
  case (Cons e kvs)
  obtain k v where e: "e = (k, v)" by (cases e)
  obtain keep w s' where f: "f s k v = (keep, w, s')" by (cases "f s k v")
  obtain s'' kept where r: "retain_spec f kvs s' = (s'', kept)" by (cases "retain_spec f kvs s'")
  show ?case using Cons.IH [of s'] by (auto simp: e f r)
qed simp

lemma retain_spec_state: "fst (retain_spec (\<lambda>s k v. let (keep, w) = f k v in (keep, w, s)) kvs s) = s"
  by (induction kvs) (auto simp: split_beta Let_def)

text \<open>A closure without state keeps or updates each entry on its own.\<close>

definition retain_map :: "('k \<Rightarrow> 'v \<Rightarrow> bool \<times> 'v) \<Rightarrow> ('k \<rightharpoonup> 'v) \<Rightarrow> 'k \<rightharpoonup> 'v" where
  "retain_map f m k = (case m k of None \<Rightarrow> None | Some v \<Rightarrow> let (keep, w) = f k v in if keep then Some w else None)"

lemma retain_spec_stateless:
  assumes "distinct (map fst kvs)"
  shows "map_of (snd (retain_spec (\<lambda>s k v. let (keep, w) = f k v in (keep, w, s)) kvs s)) = retain_map f (map_of kvs)"
  using assms
proof (induction kvs)
  case Nil
  show ?case by (simp add: retain_map_def fun_eq_iff)
next
  case (Cons e kvs)
  obtain k v where e: "e = (k, v)" by (cases e)
  obtain keep w where f: "f k v = (keep, w)" by (cases "f k v")
  obtain kept where kept: "retain_spec (\<lambda>s k v. let (keep, w) = f k v in (keep, w, s)) kvs s = (s, kept)"
    using retain_spec_state [of f kvs s] by (metis prod.collapse)
  have "map_of kvs k = None" using Cons.prems by (auto simp: e map_of_eq_None_iff)
  then show ?case using Cons.IH Cons.prems f kept by (auto simp: e retain_map_def fun_eq_iff)
qed

lemma distinct_keys_card: "length kvs = card (dom (map_of kvs)) \<Longrightarrow> distinct (map fst kvs)"
  by (rule card_distinct) (simp add: dom_map_of_conv_image_fst)

text \<open>\<^verbatim>\<open>eq\<close> compares the lengths and then the entries of one map with lookups in the other.\<close>

lemma all_equal_correct:
  assumes "\<And>k. k \<in> fst ` set kvs \<Longrightarrow> gm_get R other k = Some (c k)"
  shows "gm_all_equal R kvs other = Some (\<forall>e\<in>set kvs. c (fst e) = Some (snd e))"
  using assms by (induction R kvs other rule: gm_all_equal.induct) auto

lemma map_le_card_eq:
  assumes "c \<subseteq>\<^sub>m d" "finite (dom d)" "card (dom c) = card (dom d)"
  shows "c = d"
proof -
  have "dom c = dom d" using assms map_le_implies_dom_le card_subset_eq by metis
  then show ?thesis using assms(1) by (auto simp: map_le_def fun_eq_iff domIff) (metis domIff)
qed

lemma eq_correct:
  assumes iter: "map_of (gm_iter R m) = c" "distinct (map fst (gm_iter R m))"
    and len: "gm_len R m = card (dom c)" "gm_len R other = card (dom d)" "finite (dom d)"
    and get: "\<And>k. k \<in> dom c \<Longrightarrow> gm_get R other k = Some (d k)"
  shows "gm_eq R m other = Some (c = d)"
proof (cases "gm_len R m = gm_len R other")
  case False
  then have "c \<noteq> d" using len by auto
  then show ?thesis using False by (simp add: gm_eq_def)
next
  case True
  have keys: "fst ` set (gm_iter R m) = dom c" unfolding iter(1) [symmetric] by (simp add: dom_map_of_conv_image_fst)
  have "gm_all_equal R (gm_iter R m) other = Some (\<forall>e\<in>set (gm_iter R m). d (fst e) = Some (snd e))"
    by (rule all_equal_correct) (use get keys in auto)
  moreover have "(\<forall>e\<in>set (gm_iter R m). d (fst e) = Some (snd e)) \<longleftrightarrow> c \<subseteq>\<^sub>m d"
    unfolding map_le_def iter(1) [symmetric] using iter(2) by (force simp: dom_map_of_conv_image_fst)
  moreover have "c \<subseteq>\<^sub>m d \<longleftrightarrow> c = d" using map_le_card_eq [of c d] len True by auto
  ultimately show ?thesis using True by (simp add: gm_eq_def)
qed

context table_contract
begin

section \<open>Iteration\<close>

lemma iter_correct:
  assumes "gm_ok m"
  shows "map_of (gm_iter R m) = gm_content m" "distinct (map fst (gm_iter R m))"
    "length (gm_iter R m) = gm_len R m" "gm_len R m = card (dom (gm_content m))" "finite (dom (gm_content m))"
proof -
  have t: "wf (gm_table m)" by (rule gm_okD(1) [OF assms])
  show i: "map_of (gm_iter R m) = gm_content m"
    unfolding gm_iter_def gm_slot_entry_def gm_content_def using iter [OF t] by blast
  show l: "length (gm_iter R m) = gm_len R m" "gm_len R m = card (dom (gm_content m))"
    using iter [OF t] len [OF t] by (simp_all add: gm_iter_def gm_len_def gm_content_def)
  show "distinct (map fst (gm_iter R m))" by (rule distinct_keys_card) (simp add: i l)
  show "finite (dom (gm_content m))" unfolding i [symmetric] by (rule finite_dom_map_of)
qed

lemma mut_iter_correct: "map (\<lambda>(k, p). (k, ra_value R (gm_table m) (fst p) (snd p))) (gm_iter_mut R m) = gm_iter R m"
  "gm_values_mut R m = ra_iter_slots R (gm_table m)"
  by (simp_all add: gm_iter_mut_def gm_values_mut_def gm_iter_def gm_slot_entry_def comp_def)

lemma consume_correct:
  assumes "gm_ok m"
  shows "gm_into_iter R m = gm_iter R m" "gm_into_keys R m = gm_keys R m" "gm_into_values R m = gm_values R m"
    "fst (gm_drain R m) = gm_iter R m" "gm_ok (snd (gm_drain R m))" "gm_content (snd (gm_drain R m)) = Map.empty"
  using into_iter [OF gm_okD(1) [OF assms]] drain [OF gm_okD(1) [OF assms]] new gm_okD(2) [OF assms]
  by (simp_all add: gm_into_iter_def gm_iter_def gm_into_keys_def gm_keys_def gm_into_values_def gm_values_def
      gm_slot_entry_def comp_def gm_drain_def gm_ok_def gm_content_def split_beta)

section \<open>Retain\<close>

lemma slot_entry_at: "wf t \<Longrightarrow> at t gi si k v \<Longrightarrow> gm_slot_entry R t (gi, si) = (k, v)"
  using at_entry by (simp add: gm_slot_entry_def)

text \<open>A step of the loop: the visited entry is updated or erased, the others stay.\<close>

lemma retain_step:
  fixes w :: 'v and keep :: bool
  assumes "wf t" "at t gi si k v"
  defines "t1 \<equiv> ra_write R t gi si (Some (k, w))"
  defines "u \<equiv> if keep then t1 else ra_erase_slot R (ra_write R t1 gi si None) (hash k) gi si"
  shows "wf u" "content u = (content t)(k := if keep then Some w else None)"
    "at t g s k' v' \<Longrightarrow> (g, s) \<noteq> (gi, si) \<Longrightarrow> at u g s k' v'"
proof -
  have t1: "wf t1" "content t1 = (content t)(k \<mapsto> w)" "at t1 gi si k w"
    using store [OF assms(1,2), of w] unfolding t1_def by simp_all
  show "wf u" "content u = (content t)(k := if keep then Some w else None)"
    using erase [OF t1(1,3)] t1 by (simp_all add: u_def)
  show "at u g s k' v'" if "at t g s k' v'" "(g, s) \<noteq> (gi, si)"
  proof -
    have a: "at t1 g s k' v'" using store_other [OF assms(1,2) that, of w] by (simp add: t1_def)
    show ?thesis using erase_other [OF t1(1,3) a that(2)] a by (simp add: u_def)
  qed
qed

lemma retain_loop_correct:
  assumes "wf t" "distinct ps" "\<And>gi si. (gi, si) \<in> set ps \<Longrightarrow> \<exists>k v. at t gi si k v"
    and "distinct (map fst (map (gm_slot_entry R t) ps))"
  shows "\<exists>u. gm_retain_loop R hash f ps s t = (fst (retain_spec f (map (gm_slot_entry R t) ps) s), u) \<and> wf u \<and>
    content u = (content t |` (- fst ` set (map (gm_slot_entry R t) ps))) ++
      map_of (snd (retain_spec f (map (gm_slot_entry R t) ps) s))"
  using assms
proof (induction ps arbitrary: s t)
  case Nil
  show ?case by (simp add: Nil.prems)
next
  case (Cons p ps)
  obtain gi si where p: "p = (gi, si)" by (cases p)
  obtain k v where at: "at t gi si k v" using Cons.prems(3) [of gi si] by (auto simp: p)
  note kv = at_entry [OF Cons.prems(1) at]
  obtain keep w s' where f: "f s k v = (keep, w, s')" by (cases "f s k v")
  define u where "u = (if keep then ra_write R t gi si (Some (k, w))
    else ra_erase_slot R (ra_write R (ra_write R t gi si (Some (k, w))) gi si None) (hash k) gi si)"
  note st = retain_step [OF Cons.prems(1) at, where keep = keep and w = w, folded u_def]
  have others: "\<exists>k' v'. at t g s k' v' \<and> at u g s k' v'" if "(g, s) \<in> set ps" for g s
    using Cons.prems(2,3) that st(3) [of g s] by (fastforce simp: p)
  have at_u: "\<exists>k' v'. at u g s k' v'" if "(g, s) \<in> set ps" for g s using others [OF that] by blast
  have same: "map (gm_slot_entry R u) ps = map (gm_slot_entry R t) ps"
  proof (rule map_cong [OF refl])
    fix q assume "q \<in> set ps"
    moreover obtain g s where "q = (g, s)" by (cases q)
    ultimately show "gm_slot_entry R u q = gm_slot_entry R t q"
      using others slot_entry_at [OF Cons.prems(1)] slot_entry_at [OF st(1)] by metis
  qed
  let ?es = "map (gm_slot_entry R t) ps"
  have e: "gm_slot_entry R t p = (k, v)" using slot_entry_at [OF Cons.prems(1) at] by (simp add: p)
  obtain z where z: "gm_retain_loop R hash f ps s' u = (fst (retain_spec f ?es s'), z)" "wf z"
    "content z = (content u |` (- fst ` set ?es)) ++ map_of (snd (retain_spec f ?es s'))"
    using Cons.IH [OF st(1) _ at_u, of s', unfolded same] Cons.prems(2,4) by auto
  have k: "k \<notin> fst ` set ?es" using Cons.prems(4) e by auto
  obtain s'' kept where r: "retain_spec f ?es s' = (s'', kept)" by (cases "retain_spec f ?es s'")
  have kept: "map_of kept k = None"
    using k retain_spec_keys [of f ?es s'] r by (auto simp: map_of_eq_None_iff)
  have "gm_retain_loop R hash f (p # ps) s t = gm_retain_loop R hash f ps s' u"
    by (simp add: p kv f u_def)
  moreover have "content z = (content t |` (- fst ` set (map (gm_slot_entry R t) (p # ps)))) ++
      map_of (snd (retain_spec f (map (gm_slot_entry R t) (p # ps)) s))"
    using z(3) st(2) k kept r f e
    by (auto simp: fun_eq_iff map_add_def restrict_map_def split: option.split)
  ultimately show ?case using z r f e by simp
qed

lemma retain_correct:
  assumes "gm_ok m"
  shows "\<exists>u. gm_retain R m f s = (fst (retain_spec f (gm_iter R m) s), u) \<and> gm_ok u \<and>
    gm_content u = map_of (snd (retain_spec f (gm_iter R m) s))"
proof (cases "ra_is_allocated R (gm_table m)")
  case False
  have c: "gm_content m = Map.empty"
    using unallocated_empty [OF gm_okD(1) [OF assms] False] by (simp add: gm_content_def)
  then have "gm_iter R m = []" using iter_correct(3,4) [OF assms] by simp
  then show ?thesis using False assms c by (simp add: gm_retain_def)
next
  case True
  note t = gm_okD(1) [OF assms]
  have keys: "fst ` set (gm_iter R m) = dom (content (gm_table m))"
    using iter_correct(1) [OF assms] by (simp add: gm_content_def flip: dom_map_of_conv_image_fst)
  have at: "\<exists>k v. at (gm_table m) gi si k v" if "(gi, si) \<in> set (ra_iter_slots R (gm_table m))" for gi si
    using iter [OF t] that by blast
  have d: "distinct (ra_iter_slots R (gm_table m))" using iter [OF t] by blast
  obtain u where "gm_retain_loop R hash f (ra_iter_slots R (gm_table m)) s (gm_table m) =
      (fst (retain_spec f (gm_iter R m) s), u)" "wf u"
    "content u = (content (gm_table m) |` (- fst ` set (gm_iter R m))) ++ map_of (snd (retain_spec f (gm_iter R m) s))"
    using retain_loop_correct [OF t d at iter_correct(2) [OF assms, unfolded gm_iter_def], of f s, folded gm_iter_def]
    by blast
  then show ?thesis
    using gm_ok_update [OF assms] True
    by (auto simp: gm_retain_def occupied_positions_def gm_okD(2) [OF assms] keys map_add_def restrict_map_def
        fun_eq_iff split: option.split)
qed

end

context table_contract
begin

section \<open>Capacity and trait implementations\<close>

lemma with_hasher_correct: "gm_ok (gm_with_hasher R hash)" "gm_content (gm_with_hasher R hash) = Map.empty"
  using new by (simp_all add: gm_with_hasher_def gm_ok_def gm_content_def)

lemma with_capacity_correct:
  "gm_ok (gm_with_capacity_and_hasher R c hash) \<and> gm_content (gm_with_capacity_and_hasher R c hash) = Map.empty"
  using with_capacity by (simp add: gm_with_capacity_and_hasher_def gm_ok_def gm_content_def)

lemma clear_correct: "gm_ok m \<Longrightarrow> gm_ok (gm_clear R m) \<and> gm_content (gm_clear R m) = Map.empty"
  using clear by (simp add: gm_clear_def gm_ok_def gm_content_def)

lemma clone_correct: "gm_ok m \<Longrightarrow> gm_ok (gm_clone R m) \<and> gm_content (gm_clone R m) = gm_content m"
  using clone by (simp add: gm_clone_def gm_ok_def gm_content_def)

lemma reserve_correct:
  assumes "gm_ok m"
  shows "gm_len R m + n < 2 ^ 64 \<Longrightarrow>
      \<exists>u. gm_reserve R m n = Some (Inr u) \<and> gm_ok u \<and> gm_content u = gm_content m"
    and "2 ^ 64 \<le> gm_len R m + n \<Longrightarrow> gm_reserve R m n = Some (Inl CapacityOverflow)"
  using reserve [OF gm_okD(1) [OF assms], of n] reserve_panics [OF gm_okD(1) [OF assms], of n] gm_ok_update [OF assms]
  by (auto simp: gm_reserve_def gm_len_def gm_okD(2) [OF assms] gm_content_def)

lemma shrink_correct:
  assumes "gm_ok m" "grows (gm_table m)"
  shows "\<exists>u. gm_shrink_to_fit R m = Some u \<and> gm_ok u \<and> gm_content u = gm_content m"
  using shrink [OF gm_okD(1) [OF assms(1)] assms(2)] gm_ok_update [OF assms(1)]
  by (auto simp: gm_shrink_to_fit_def gm_okD(2) [OF assms(1)] gm_content_def)

lemma insert_all_correct:
  assumes "gm_ok m"
    and "\<And>i u. i < length kvs \<Longrightarrow> gm_extend R m (take i kvs) = Some u \<Longrightarrow>
      grows (gm_table u) \<and> key_stops u (fst (kvs ! i))"
  shows "\<exists>u. gm_extend R m kvs = Some u \<and> gm_ok u \<and> gm_content u = gm_content m ++ map_of (rev kvs)"
  using assms
proof (induction kvs arbitrary: m)
  case Nil
  then show ?case by (simp add: gm_extend_def)
next
  case (Cons e kvs)
  obtain k v where e: "e = (k, v)" by (cases e)
  have "grows (gm_table m)" "key_stops m k" using Cons.prems(2) [of 0 m] by (simp_all add: gm_extend_def e)
  then obtain u where u: "gm_insert R m k v = Some (gm_content m k, u)" "gm_ok u" "gm_content u = (gm_content m)(k \<mapsto> v)"
    using insert_correct [OF Cons.prems(1)] by blast
  have step: "gm_extend R m (e # xs) = gm_extend R u xs" for xs by (simp add: gm_extend_def e u(1))
  have later: "grows (gm_table w) \<and> key_stops w (fst (kvs ! i))"
    if "i < length kvs" "gm_extend R u (take i kvs) = Some w" for i w
    using Cons.prems(2) [of "Suc i" w] that by (simp add: step)
  obtain w where "gm_extend R u kvs = Some w" "gm_ok w" "gm_content w = gm_content u ++ map_of (rev kvs)"
    using Cons.IH [OF u(2) later] by blast
  then show ?case using step [of kvs] by (simp add: e u(3))
qed

lemma from_iter_eq: "gm_from_iter R hash lower kvs = gm_extend R (gm_with_capacity_and_hasher R lower hash) kvs"
  by (simp add: gm_from_iter_def gm_extend_def)

section \<open>Raw entries\<close>

lemma raw_from_key_correct:
  "gm_ok m \<Longrightarrow> key_stops m k \<Longrightarrow> raw_from_key R m k = Some (map_option (Pair k) (gm_content m k))"
  using get_correct(2) [of m k]
  by (simp add: raw_from_key_def raw_from_key_hashed_nocheck_def raw_from_hash_def gm_get_key_value_def gm_find_def
      gm_slot_entry_def [abs_def] case_prod_unfold)

lemma raw_entry_correct:
  assumes "gm_ok m" "grows (gm_table m)" "key_stops m k"
  shows "\<exists>e p u w. raw_mut_from_key R m k = Some e \<and> raw_or_insert R e m k v = Some (p, u) \<and> gm_ok u \<and>
    w = (case gm_content m k of None \<Rightarrow> v | Some w \<Rightarrow> w) \<and> gm_content u = (gm_content m)(k \<mapsto> w) \<and>
    at (gm_table u) (fst p) (snd p) k w"
proof (cases "gm_content m k")
  case None
  then have "ra_find_by_hash R (gm_table m) (hash k) (\<lambda>x. x = k) = Some None"
    using find_correct [OF assms(1,3)] by (simp add: gm_find_def gm_okD(2) [OF assms(1)])
  then have e: "raw_mut_from_key R m k = Some (RawVacant (hash k))"
    by (simp add: raw_mut_from_key_def raw_mut_from_key_hashed_nocheck_def raw_mut_from_hash_def gm_okD(2) [OF assms(1)])
  obtain s gi si t where "ra_ensure_capacity R hash (gm_table m) = Some s"
    "ra_insert_no_check R s (hash k) k v = Some ((gi, si), t)" "wf t" "content t = (gm_content m)(k \<mapsto> v)" "at t gi si k v"
    using vacant_grow [OF gm_okD(1) [OF assms(1)] assms(2), of k v] None unfolding gm_content_def by blast
  then show ?thesis
    using gm_ok_update [OF assms(1)] e None
    by (auto simp: raw_or_insert_def raw_vacant_insert_def raw_insert_hashed_nocheck_def gm_okD(2) [OF assms(1)])
next
  case (Some w)
  then obtain gi si where "gm_find R m k = Some (Some (gi, si))" "at (gm_table m) gi si k w"
    using find_correct [OF assms(1,3)] by auto
  then show ?thesis
    using Some assms(1)
    by (auto simp: raw_mut_from_key_def raw_mut_from_key_hashed_nocheck_def raw_mut_from_hash_def gm_find_def
        raw_or_insert_def)
qed

lemma raw_remove_correct:
  assumes "gm_ok m" "gm_content m k = Some v"
  shows "\<exists>gi si u. raw_mut_from_key R m k = Some (RawOccupied gi si (hash k)) \<and>
    raw_remove_entry R m gi si (hash k) = ((k, v), u) \<and> raw_remove R m gi si (hash k) = (v, u) \<and>
    gm_ok u \<and> gm_content u = (gm_content m)(k := None)"
proof -
  obtain gi si where f: "gm_find R m k = Some (Some (gi, si))" "at (gm_table m) gi si k v"
    using find_correct [OF assms(1), of k] assms(2) by (auto simp: key_stops_def)
  note at = at_entry [OF gm_okD(1) [OF assms(1)] f(2)]
  show ?thesis
    using f(1) at erase [OF gm_okD(1) [OF assms(1)] f(2)] gm_ok_update [OF assms(1)]
    by (intro exI [of _ gi] exI [of _ si])
      (simp add: raw_mut_from_key_def raw_mut_from_key_hashed_nocheck_def raw_mut_from_hash_def gm_find_def
        gm_okD(2) [OF assms(1)] raw_remove_entry_def raw_remove_def Let_def gm_content_def)
qed

end

context table_contract
begin

lemma raw_insert_value_correct:
  assumes "gm_ok m" "gm_content m k = Some v"
  shows "\<exists>gi si u. raw_mut_from_key R m k = Some (RawOccupied gi si (hash k)) \<and>
    raw_get_key_value R m (gi, si) = (k, v) \<and> raw_insert_value R m (gi, si) w = (v, u) \<and>
    gm_ok u \<and> gm_content u = (gm_content m)(k \<mapsto> w)"
proof -
  obtain gi si where f: "gm_find R m k = Some (Some (gi, si))" "at (gm_table m) gi si k v"
    using find_correct [OF assms(1), of k] assms(2) by (auto simp: key_stops_def)
  note at = at_entry [OF gm_okD(1) [OF assms(1)] f(2)]
  show ?thesis
    using f(1) at store [OF gm_okD(1) [OF assms(1)] f(2), of w] gm_ok_update [OF assms(1)]
    by (intro exI [of _ gi] exI [of _ si])
      (simp add: raw_mut_from_key_def raw_mut_from_key_hashed_nocheck_def raw_mut_from_hash_def gm_find_def
        gm_okD(2) [OF assms(1)] raw_get_key_value_def raw_insert_value_def gm_content_def)
qed

end

end
