(* ===== verification/Generic_Step.thy ===== *)
theory Generic_Step
  imports Generic_Ops
begin

text \<open>
  The map as a state machine: one step per operation of its interface, against the same
  step on a partial function.
\<close>

datatype ('k, 'v) map_op =
  Get 'k | Insert 'k 'v | Remove 'k | OrInsert 'k 'v | ModifyOrInsert 'k "'v \<Rightarrow> 'v" 'v | TryInsert 'k 'v
| RawOrInsert 'k 'v | Retain "'k \<Rightarrow> 'v \<Rightarrow> bool \<times> 'v" | Clear | ShrinkToFit | CloneMap | Drain

datatype ('k, 'v) map_result = Done | Returned "'v option" | Tried "'k \<times> 'v + unit"

fun map_spec :: "('k \<rightharpoonup> 'v) \<Rightarrow> ('k, 'v) map_op \<Rightarrow> ('k, 'v) map_result \<times> ('k \<rightharpoonup> 'v)" where
  "map_spec c (Get k) = (Returned (c k), c)"
| "map_spec c (Insert k v) = (Returned (c k), c(k \<mapsto> v))"
| "map_spec c (Remove k) = (Returned (c k), c(k := None))"
| "map_spec c (OrInsert k v) =
    (let w = (case c k of None \<Rightarrow> v | Some w \<Rightarrow> w) in (Returned (Some w), c(k \<mapsto> w)))"
| "map_spec c (ModifyOrInsert k f v) =
    (let w = (case c k of None \<Rightarrow> v | Some w \<Rightarrow> f w) in (Returned (Some w), c(k \<mapsto> w)))"
| "map_spec c (TryInsert k v) =
    (if k \<in> dom c then (Tried (Inl (k, v)), c) else (Tried (Inr ()), c(k \<mapsto> v)))"
| "map_spec c (RawOrInsert k v) =
    (let w = (case c k of None \<Rightarrow> v | Some w \<Rightarrow> w) in (Returned (Some w), c(k \<mapsto> w)))"
| "map_spec c (Retain f) = (Done, retain_map f c)"
| "map_spec c Clear = (Done, Map.empty)"
| "map_spec c ShrinkToFit = (Done, c)"
| "map_spec c CloneMap = (Done, c)"
| "map_spec c Drain = (Done, Map.empty)"

definition read_ref ::
  "('t, 'k, 'v) raw_table_api \<Rightarrow> (nat \<times> nat) \<times> ('t, 'k) generic_map \<Rightarrow> ('k, 'v) map_result \<times> ('t, 'k) generic_map" where
  "read_ref R pm = (let (p, m) = pm in (Returned (Some (ra_value R (gm_table m) (fst p) (snd p))), m))"

fun gm_step ::
  "('t, 'k, 'v) raw_table_api \<Rightarrow> ('t, 'k) generic_map \<Rightarrow> ('k, 'v) map_op
    \<Rightarrow> (('k, 'v) map_result \<times> ('t, 'k) generic_map) option" where
  "gm_step R m (Get k) = map_option (\<lambda>r. (Returned r, m)) (gm_get R m k)"
| "gm_step R m (Insert k v) = map_option (\<lambda>(r, u). (Returned r, u)) (gm_insert R m k v)"
| "gm_step R m (Remove k) = map_option (\<lambda>(r, u). (Returned r, u)) (gm_remove R m k)"
| "gm_step R m (OrInsert k v) =
    (case gm_entry R m k of Some (Inr e) \<Rightarrow> map_option (read_ref R) (gm_or_insert R e v) | _ \<Rightarrow> None)"
| "gm_step R m (ModifyOrInsert k f v) =
    (case gm_entry R m k of
       Some (Inr e) \<Rightarrow> map_option (read_ref R) (gm_or_insert R (gm_and_modify R e f) v) | _ \<Rightarrow> None)"
| "gm_step R m (TryInsert k v) =
    (case gm_try_insert R m k v of Some (Inr (r, u)) \<Rightarrow> Some (Tried r, u) | _ \<Rightarrow> None)"
| "gm_step R m (RawOrInsert k v) =
    (case raw_mut_from_key R m k of
       Some e \<Rightarrow> map_option (read_ref R) (raw_or_insert R e m k v) | None \<Rightarrow> None)"
| "gm_step R m (Retain f) =
    Some (Done, snd (gm_retain R m (\<lambda>s k v. let (keep, w) = f k v in (keep, w, s)) ()))"
| "gm_step R m Clear = Some (Done, gm_clear R m)"
| "gm_step R m ShrinkToFit = map_option (\<lambda>u. (Done, u)) (gm_shrink_to_fit R m)"
| "gm_step R m CloneMap = Some (Done, gm_clone R m)"
| "gm_step R m Drain = Some (Done, snd (gm_drain R m))"

text \<open>The key an operation looks up.\<close>

fun op_key :: "('k, 'v) map_op \<Rightarrow> 'k option" where
  "op_key (Get k) = Some k"
| "op_key (Insert k v) = Some k"
| "op_key (Remove k) = Some k"
| "op_key (OrInsert k v) = Some k"
| "op_key (ModifyOrInsert k f v) = Some k"
| "op_key (TryInsert k v) = Some k"
| "op_key (RawOrInsert k v) = Some k"
| "op_key _ = None"

context table_contract
begin

definition refines_step :: "('t, 'k) generic_map \<Rightarrow> ('k, 'v) map_op \<Rightarrow> bool" where
  "refines_step m p \<longleftrightarrow> (\<exists>u. gm_step R m p = Some (fst (map_spec (gm_content m) p), u) \<and> gm_ok u \<and>
     gm_content u = snd (map_spec (gm_content m) p))"

lemma read_ref_at: "gm_ok m \<Longrightarrow> at (gm_table m) (fst p) (snd p) k w \<Longrightarrow> read_ref R (p, m) = (Returned (Some w), m)"
  using at_entry [OF gm_okD(1)] by (auto simp: read_ref_def)

lemma or_insert_step:
  assumes "gm_ok m" "grows (gm_table m)" "key_stops m k"
  shows "refines_step m (OrInsert k v)"
proof -
  obtain e u where e: "gm_entry R m k = Some (Inr (e, u))" "entry_ok e u" "gm_entry_key e = k" "gm_content u = gm_content m"
    using entry_correct [OF assms] by blast
  then show ?thesis
    using or_insert_correct [OF e(2), of v] read_ref_at by (fastforce simp: refines_step_def Let_def)
qed

lemma modify_or_insert_step:
  assumes "gm_ok m" "grows (gm_table m)" "key_stops m k"
  shows "refines_step m (ModifyOrInsert k f v)"
proof -
  obtain e u where e: "gm_entry R m k = Some (Inr (e, u))" "entry_ok e u" "gm_entry_key e = k" "gm_content u = gm_content m"
    using entry_correct [OF assms] by blast
  obtain x where x: "gm_and_modify R (e, u) f = (e, x)" "entry_ok e x"
    "gm_content x = (case gm_content m k of None \<Rightarrow> gm_content m | Some v \<Rightarrow> (gm_content m)(k \<mapsto> f v))"
    using and_modify_correct [OF e(2), of f] unfolding e(3,4) by blast
  show ?thesis
    using or_insert_correct [OF x(2), of v] read_ref_at e(1,3) x(1,3)
    by (cases "gm_content m k") (fastforce simp: refines_step_def Let_def)+
qed

lemma retain_step_correct:
  assumes "gm_ok m"
  shows "refines_step m (Retain f)"
proof -
  let ?f = "\<lambda>s k v. let (keep, w) = f k v in (keep, w, s)"
  obtain u where "gm_retain R m ?f () = (fst (retain_spec ?f (gm_iter R m) ()), u)" "gm_ok u"
    "gm_content u = map_of (snd (retain_spec ?f (gm_iter R m) ()))"
    using retain_correct [OF assms, of ?f "()"] by blast
  then show ?thesis
    using retain_spec_stateless [OF iter_correct(2) [OF assms], of f "()"] iter_correct(1) [OF assms]
    by (simp add: refines_step_def)
qed

theorem step_correct:
  assumes "gm_ok m" "grows (gm_table m)" "\<And>k. op_key p = Some k \<Longrightarrow> key_stops m k"
  shows "refines_step m p"
proof (cases p)
  case (Get k)
  then show ?thesis using assms get_correct(1) [of m k] by (simp add: refines_step_def)
next
  case (Insert k v)
  then show ?thesis using assms insert_correct [of m k v] by (auto simp: refines_step_def)
next
  case (Remove k)
  then show ?thesis using assms remove_entry_correct [of m k] by (auto simp: refines_step_def)
next
  case (OrInsert k v)
  then show ?thesis using or_insert_step [OF assms(1,2), of k v] assms(3) by simp
next
  case (ModifyOrInsert k f v)
  then show ?thesis using modify_or_insert_step [OF assms(1,2), of k f v] assms(3) by simp
next
  case (TryInsert k v)
  then show ?thesis using try_insert_correct [OF assms(1,2), of k v] assms(3) by (auto simp: refines_step_def)
next
  case (RawOrInsert k v)
  obtain e q u w where e: "raw_mut_from_key R m k = Some e" "raw_or_insert R e m k v = Some (q, u)" "gm_ok u"
    "w = (case gm_content m k of None \<Rightarrow> v | Some w \<Rightarrow> w)" "gm_content u = (gm_content m)(k \<mapsto> w)"
    "at (gm_table u) (fst q) (snd q) k w"
    using raw_entry_correct [OF assms(1,2), of k v] assms(3) RawOrInsert by auto
  then show ?thesis using RawOrInsert read_ref_at [OF e(3,6)] by (simp add: refines_step_def Let_def)
next
  case (Retain f)
  then show ?thesis using retain_step_correct [OF assms(1)] by simp
next
  case Clear
  then show ?thesis using clear_correct [OF assms(1)] by (simp add: refines_step_def)
next
  case ShrinkToFit
  then show ?thesis using shrink_correct [OF assms(1,2)] by (auto simp: refines_step_def)
next
  case CloneMap
  then show ?thesis using clone_correct [OF assms(1)] by (simp add: refines_step_def)
next
  case Drain
  then show ?thesis using consume_correct(5,6) [OF assms(1)] by (simp add: refines_step_def)
qed

end

end
