(* ===== verification/Tomb_Map.thy ===== *)
theory Tomb_Map
  imports Tomb_Iter Generic_Step
begin

text \<open>
  The tombstone engine as the table of a map: its implementation of \<^verbatim>\<open>RawTableApi\<close>, and
  the contract of the map discharged for it. Its lookups always end, so \<open>stops\<close> is no
  condition here.
\<close>

definition tomb_api :: "'w::len tomb_design \<Rightarrow> (('k, 'v) tomb_table, 'k, 'v) raw_table_api" where
  "tomb_api D = \<lparr>
     ra_new = tomb_new D, ra_with_capacity = tomb_with_capacity D,
     ra_len = tt_len, ra_capacity = tomb_capacity D, ra_is_allocated = tomb_is_allocated,
     ra_clear = tomb_clear D, ra_key = tomb_key_at D, ra_value = tomb_value_at D, ra_write = tomb_write D,
     ra_find_by_hash = tomb_find_by_hash D, ra_insert_or_replace = tomb_insert_or_replace D,
     ra_find_for_entry = tomb_find_for_entry D, ra_insert_at = tomb_insert_at D,
     ra_insert_no_check = tomb_insert_no_check D, ra_ensure_capacity = tomb_ensure_capacity D,
     ra_remove_by_hash = tomb_remove_by_hash D, ra_erase_slot = (\<lambda>t h. tomb_erase_slot D t),
     ra_reserve = tomb_reserve D, ra_shrink_to_fit = tomb_shrink_to_fit D,
     ra_iter_slots = tomb_iter_slots D, ra_into_iter = tomb_into_iter D, ra_drain = tomb_drain D,
     ra_clone = tomb_clone D\<rparr>"

lemma tomb_api_simps [simp]:
  "ra_new (tomb_api D) = tomb_new D" "ra_with_capacity (tomb_api D) = tomb_with_capacity D"
  "ra_len (tomb_api D) = tt_len" "ra_capacity (tomb_api D) = tomb_capacity D"
  "ra_is_allocated (tomb_api D) = tomb_is_allocated" "ra_clear (tomb_api D) = tomb_clear D"
  "ra_key (tomb_api D) = tomb_key_at D" "ra_value (tomb_api D) = tomb_value_at D" "ra_write (tomb_api D) = tomb_write D"
  "ra_find_by_hash (tomb_api D) = tomb_find_by_hash D" "ra_insert_or_replace (tomb_api D) = tomb_insert_or_replace D"
  "ra_find_for_entry (tomb_api D) = tomb_find_for_entry D" "ra_insert_at (tomb_api D) = tomb_insert_at D"
  "ra_insert_no_check (tomb_api D) = tomb_insert_no_check D" "ra_ensure_capacity (tomb_api D) = tomb_ensure_capacity D"
  "ra_remove_by_hash (tomb_api D) = tomb_remove_by_hash D" "ra_erase_slot (tomb_api D) t h = tomb_erase_slot D t"
  "ra_reserve (tomb_api D) = tomb_reserve D" "ra_shrink_to_fit (tomb_api D) = tomb_shrink_to_fit D"
  "ra_iter_slots (tomb_api D) = tomb_iter_slots D" "ra_into_iter (tomb_api D) = tomb_into_iter D"
  "ra_drain (tomb_api D) = tomb_drain D" "ra_clone (tomb_api D) = tomb_clone D"
  by (simp_all add: tomb_api_def)

definition tomb_holds ::
  "'w::len tomb_design \<Rightarrow> ('k \<Rightarrow> u64) \<Rightarrow> ('k, 'v) tomb_table \<Rightarrow> nat \<Rightarrow> nat \<Rightarrow> 'k \<Rightarrow> 'v \<Rightarrow> bool" where
  "tomb_holds D hash t gi si k v \<longleftrightarrow> tomb_content D hash t \<and> tomb_counts D t \<and> tomb_at D t gi si k v"

context tomb_layout
begin

lemma holds_wf: "tomb_wf D hash t \<Longrightarrow> tomb_map t k = Some v \<Longrightarrow> tomb_at D t gi si k v \<Longrightarrow> tomb_holds D hash t gi si k v"
  using wf_at by (auto simp: tomb_holds_def)

lemma holds_entry:
  assumes "tomb_holds D hash t gi si k v"
  shows "tomb_map t k = Some v" "tomb_key_at D t gi si = k" "tomb_value_at D t gi si = v"
  using assms map_Some [of hash t k v] key_at_entry [of si t gi k v] by (auto simp: tomb_holds_def tomb_at_def)

lemma tomb_write_slot:
  assumes "gi \<le> tt_mask t" "si < LENGTH('w)" "g \<le> tt_mask t" "s < LENGTH('w)" "tomb_content D hash t"
  shows "tomb_slot D (tomb_write D t gi si x) g s = (if (g, s) = (gi, si) then x else tomb_slot D t g s)"
proof -
  have "gi * LENGTH('w) + si < length (tt_buckets t)"
    using flat_less [OF content_ctrl [OF assms(5)] assms(1,2)] assms(5) by (simp add: tomb_content_def)
  then show ?thesis
    using assms(2,4) grid_inj [of s "LENGTH('w)" si g gi] by (auto simp: tomb_slot_def tomb_write_def nth_list_update)
qed

lemma write_holds:
  fixes w :: 'v
  assumes "tomb_holds D hash t gi si k (v :: 'v)"
  defines "u \<equiv> tomb_write D t gi si (Some (k, w))"
  shows "tomb_wf D hash u" "tomb_map u = (tomb_map t)(k \<mapsto> w)" "tomb_holds D hash u gi si k w" "tt_mask u = tt_mask t"
    "tomb_holds D hash t g s k' v' \<Longrightarrow> (g, s) \<noteq> (gi, si) \<Longrightarrow> tomb_holds D hash u g s k' v'"
proof -
  have t: "tomb_content D hash t" "tomb_counts D t" "tomb_at D t gi si k v" using assms(1) by (auto simp: tomb_holds_def)
  have g: "gi \<le> tt_mask t" "si < LENGTH('w)" using t(3) by (auto simp: tomb_at_def)
  have u: "u = snd (tomb_replace_value D t gi si w)"
    by (simp add: u_def tomb_replace_value_def holds_entry(2) [OF assms(1)])
  note r = replace_correct [OF t(1,3) u]
  have c: "tomb_content D hash u" "tomb_counts D u" using r t(2) by (simp_all add: tomb_counts_def)
  then show "tomb_wf D hash u" by (simp add: tomb_wf_def)
  show "tomb_map u = (tomb_map t)(k \<mapsto> w)" "tt_mask u = tt_mask t" by (rule r)+
  show "tomb_holds D hash u gi si k w"
    using c g r(10) tomb_write_slot [OF g g t(1)] by (simp add: tomb_holds_def tomb_at_def u_def)
  show "tomb_holds D hash u g s k' v'" if "tomb_holds D hash t g s k' v'" "(g, s) \<noteq> (gi, si)"
    using c g r(10) tomb_write_slot [OF g _ _ t(1), of g s "Some (k, w)"] that
    by (auto simp: tomb_holds_def tomb_at_def u_def)
qed

lemma erase_holds:
  assumes "tomb_holds D hash t gi si k v"
  defines "u \<equiv> tomb_erase_slot D (tomb_write D t gi si None) gi si"
  shows "tomb_wf D hash u" "tomb_map u = (tomb_map t)(k := None)"
    "tomb_holds D hash t g s k' v' \<Longrightarrow> (g, s) \<noteq> (gi, si) \<Longrightarrow> tomb_holds D hash u g s k' v'"
proof -
  have t: "tomb_content D hash t" "tomb_counts D t" "tomb_at D t gi si k v" using assms(1) by (auto simp: tomb_holds_def)
  have g: "gi \<le> tt_mask t" "si < LENGTH('w)" using t(3) by (auto simp: tomb_at_def)
  note e = erase_correct [OF t(1,3) u_def [THEN meta_eq_to_obj_eq]]
  show wf: "tomb_wf D hash u" unfolding u_def by (rule erase_wf [OF t])
  show "tomb_map u = (tomb_map t)(k := None)" by (rule e)
  have slots: "tomb_slot D u g s = tomb_slot D (tomb_write D t gi si None) g s" for g s
    by (simp add: u_def tomb_erase_slot_def tomb_set_meta_def tomb_slot_def)
  show "tomb_holds D hash u g s k' v'" if a: "tomb_holds D hash t g s k' v'" "(g, s) \<noteq> (gi, si)"
  proof -
    have at: "tomb_at D u g s k' v'"
      using a g e(8) tomb_write_slot [OF g _ _ t(1), of g s None] by (auto simp: tomb_holds_def tomb_at_def slots)
    have "k' \<noteq> k"
      using a slot_unique [OF t(1) g, of k v g s v'] t(3) by (auto simp: tomb_holds_def tomb_at_def)
    then have "tomb_map u k' = Some v'" using holds_entry(1) [OF a(1)] e(2) by simp
    then show ?thesis by (rule holds_wf [OF wf _ at])
  qed
qed

end

context tomb_layout
begin

lemma first_groups: "tomb_groups_for_capacity D (Suc 0) = 1"
proof -
  have "tomb_capacity_ok D (Suc 0)" using width(3) by (simp add: tomb_capacity_ok_def)
  moreover have "((Suc 0 * 8 + 7 - 1) div 7 + LENGTH('w) - 1) div LENGTH('w) \<le> 2 ^ 0"
    using groups_for_capacity_iff [of "Suc 0" 1] max_load_pos [of 1] by simp
  ultimately have "tomb_groups_for_capacity D (Suc 0) \<le> 2 ^ 0"
    using next_power_of_two_least groups_for_capacity_exact by metis
  then show ?thesis using groups_ok_pos [OF groups_for_capacity_ok [of "Suc 0"]] by simp
qed

lemma reserve_first_correct:
  assumes "tomb_wf D hash t" "\<not> tomb_is_allocated t"
  shows "\<exists>u. tomb_reserve D hash t 1 = Some (Inr u) \<and> tomb_wf D hash u \<and> tomb_map u = tomb_map t \<and> tomb_can_grow u"
proof -
  have t: "t = tomb_new D" using wf_allocated(2) [OF assms(1)] assms(2) by simp
  have "tomb_reserve D hash t 1 = Some (Inr (tomb_allocate D t 1))"
    using assms(2) by (simp add: tomb_reserve_def t first_groups Let_def)
  moreover have "tomb_wf D hash (tomb_allocate D t 1)"
    using allocate_correct(1) [OF groups_ok_1(1), of hash t] allocate_correct(2-5) [OF groups_ok_1(1), of t] by (simp add: tomb_wf_def tomb_counts_def t)
  ultimately show ?thesis using allocate_correct(3) [OF groups_ok_1(1), of t] by (simp add: t tomb_can_grow_def)
qed

lemma find_holds:
  assumes "tomb_wf D hash t" "tomb_map t k = Some v"
  shows "\<exists>gi si. tomb_find_by_hash D t (hash k) (\<lambda>x. x = k) = Some (Some (gi, si)) \<and> tomb_holds D hash t gi si k v"
  using find_correct(1) [OF assms] holds_wf [OF assms] by blast

lemma entry_holds:
  assumes "tomb_wf D hash t" "tomb_map t k = Some v"
  shows "\<exists>gi si. tomb_find_for_entry D t (hash k) k = Some (ProbeFound gi si) \<and> tomb_holds D hash t gi si k v"
  using find_for_entry_correct(1) [OF assms] holds_wf [OF assms] by blast

lemma vacant_at_holds:
  assumes "tomb_wf D hash t" "tomb_map t k = None"
    and "tomb_find_for_entry D t (hash k) k = Some (ProbeVacant (Some (gi, si, msk)))"
  shows "tomb_wf D hash (tomb_insert_at D t (hash k) gi si k v msk) \<and>
    tomb_map (tomb_insert_at D t (hash k) gi si k v msk) = (tomb_map t)(k \<mapsto> v) \<and>
    tomb_holds D hash (tomb_insert_at D t (hash k) gi si k v msk) gi si k v"
proof -
  have f: "tomb_available D t (hash k) gi si" "tomb_content D hash t" "tomb_counts D t" "0 < tt_growth_left t"
    using find_for_entry_correct(2) [OF assms(1,2)] assms(3) by auto
  show ?thesis using insert_at_correct [OF f(2,3,1) assms(2) f(4), of v msk] by (simp add: tomb_wf_def tomb_holds_def)
qed

lemma vacant_grow_holds:
  assumes "tomb_wf D hash t" "tomb_can_grow t" "tomb_map t k = None"
  shows "\<exists>s gi si u. tomb_ensure_capacity D hash t = Some s \<and> tomb_insert_no_check D s (hash k) k v = Some ((gi, si), u) \<and>
    tomb_wf D hash u \<and> tomb_map u = (tomb_map t)(k \<mapsto> v) \<and> tomb_holds D hash u gi si k v"
proof -
  obtain s where s: "tomb_ensure_capacity D hash t = Some s" "tomb_content D hash s" "tomb_counts D s"
    "tomb_map s = tomb_map t" "0 < tt_growth_left s"
    using ensure_capacity_correct [OF assms(1,2)] by blast
  have "tomb_map s k = None" using s(4) assms(3) by simp
  then obtain gi si u where "tomb_insert_no_check D s (hash k) k v = Some ((gi, si), u)"
    "tomb_content D hash u" "tomb_counts D u" "tomb_map u = (tomb_map s)(k \<mapsto> v)" "tomb_at D u gi si k v"
    by (rule insert_new [OF s(2,3,5)])
  then show ?thesis using s(1,4) by (auto simp: tomb_wf_def tomb_holds_def)
qed

lemma iter_holds:
  assumes "tomb_wf D hash t"
  shows "map_of (map (\<lambda>p. (tomb_key_at D t (fst p) (snd p), tomb_value_at D t (fst p) (snd p))) (tomb_iter_slots D t)) = tomb_map t"
    and "(gi, si) \<in> set (tomb_iter_slots D t) \<Longrightarrow> \<exists>k v. tomb_holds D hash t gi si k v"
    and "fst (tomb_into_iter D t) =
      map (\<lambda>p. (tomb_key_at D t (fst p) (snd p), tomb_value_at D t (fst p) (snd p))) (tomb_iter_slots D t)"
proof -
  note it = iter_slots_correct [OF assms]
  show "map_of (map (\<lambda>p. (tomb_key_at D t (fst p) (snd p), tomb_value_at D t (fst p) (snd p))) (tomb_iter_slots D t)) = tomb_map t"
    "fst (tomb_into_iter D t) =
      map (\<lambda>p. (tomb_key_at D t (fst p) (snd p), tomb_value_at D t (fst p) (snd p))) (tomb_iter_slots D t)"
    using it(1) into_iter_correct(1) [OF assms] by (simp_all add: tomb_entry_def [abs_def] tomb_map_def bucket_map_def)
  show "\<exists>k v. tomb_holds D hash t gi si k v" if p: "(gi, si) \<in> set (tomb_iter_slots D t)"
  proof (cases "tomb_is_allocated t")
    case True
    then have c: "tomb_content D hash t" "tomb_counts D t" using wf_allocated(1) [OF assms] by auto
    show ?thesis using p it(4) [OF True] set_occupied_slots [OF c(1)] c by (auto simp: tomb_holds_def tomb_at_def)
  next
    case False
    then have "tt_len t = 0" using wf_allocated(2) [OF assms] by simp
    then show ?thesis using p it(3) by simp
  qed
qed

end

sublocale tomb_layout \<subseteq> api: table_contract "tomb_api D" hash "tomb_wf D hash" tomb_map "tomb_holds D hash"
  "\<lambda>t h. True" tomb_can_grow
  for hash :: "'k \<Rightarrow> u64"
  apply (unfold_locales; unfold tomb_api_simps)
  subgoal by (simp add: tomb_wf_def)
  subgoal by (simp add: with_capacity_correct(1,2))
  subgoal by (rule wf_len_card)
  subgoal by (simp add: clear_correct(1,2))
  subgoal for t gi si k v using holds_entry [of hash t gi si k v] by simp
  subgoal for t gi si k v w using write_holds(1-4) [of hash t gi si k v w] by (simp add: tomb_can_grow_def)
  subgoal by (rule write_holds(5))
  subgoal for t gi si k v using erase_holds(1,2) [of hash t gi si k v] by simp
  subgoal by (rule erase_holds(3))
  subgoal by (rule find_holds)
  subgoal by (rule find_correct(2)) simp_all
  subgoal by (simp add: wf_allocated(2))
  subgoal by (rule insert_or_replace_correct)
  subgoal for t k v using remove_by_hash_correct(1) [of hash t k v] by auto
  subgoal by (rule remove_by_hash_correct(2))
  subgoal by (rule entry_holds)
  subgoal for t k using find_for_entry_correct(2) [of hash t k] by auto
  subgoal by (rule vacant_at_holds)
  subgoal by (rule vacant_grow_holds)
  subgoal for t using reserve_first_correct [of hash t] by simp
  subgoal for t n using reserve_correct(2) [of hash t n] by auto
  subgoal by (rule reserve_correct(1))
  subgoal for t using shrink_to_fit_correct [of hash t] can_grow_capacity [of hash t] by auto
  subgoal for t using iter_holds(1,2) [of hash t] iter_slots_correct(2,3) [of hash t] by auto
  subgoal by (rule iter_holds(3))
  subgoal by (simp add: tomb_drain_def)
  subgoal by (simp add: clone_correct)
  done

section \<open>The map over the engine\<close>

context tomb_layout
begin

lemma map_ok:
  "api.gm_ok hash m \<longleftrightarrow> tomb_wf D hash (gm_table m) \<and> gm_hash m = hash" "api.gm_content m = tomb_map (gm_table m)"
  "api.key_stops hash m k"
  by (simp_all add: api.gm_ok_def api.gm_content_def api.key_stops_def)

theorem map_step:
  assumes "tomb_wf D (gm_hash m) (gm_table m)" "tomb_can_grow (gm_table m)"
  shows "\<exists>u. gm_step (tomb_api D) m p = Some (fst (map_spec (tomb_map (gm_table m)) p), u) \<and>
    tomb_wf D (gm_hash u) (gm_table u) \<and> gm_hash u = gm_hash m \<and>
    tomb_map (gm_table u) = snd (map_spec (tomb_map (gm_table m)) p)"
  using api.step_correct [of "gm_hash m" m p] assms by (auto simp: api.refines_step_def map_ok)

theorem map_eq:
  assumes "tomb_wf D (gm_hash m) (gm_table m)" "tomb_wf D (gm_hash n) (gm_table n)"
  shows "gm_eq (tomb_api D) m n = Some (tomb_map (gm_table m) = tomb_map (gm_table n))"
proof -
  have m: "api.gm_ok (gm_hash m) m" and n: "api.gm_ok (gm_hash n) n" using assms by (simp_all add: map_ok)
  show ?thesis
    using eq_correct [OF api.iter_correct(1,2,4) [OF m] api.iter_correct(4,5) [OF n]]
      api.get_correct(1) [OF n] by (simp add: map_ok)
qed

theorem map_iteration:
  assumes "tomb_wf D (gm_hash m) (gm_table m)"
  shows "map_of (gm_iter (tomb_api D) m) = tomb_map (gm_table m)" "distinct (gm_keys (tomb_api D) m)"
    "length (gm_iter (tomb_api D) m) = gm_len (tomb_api D) m" "gm_into_iter (tomb_api D) m = gm_iter (tomb_api D) m"
    "fst (gm_drain (tomb_api D) m) = gm_iter (tomb_api D) m"
    "\<exists>u. gm_retain (tomb_api D) m f s = (fst (retain_spec f (gm_iter (tomb_api D) m) s), u) \<and>
      tomb_wf D (gm_hash m) (gm_table u) \<and> tomb_map (gm_table u) = map_of (snd (retain_spec f (gm_iter (tomb_api D) m) s))"
proof -
  have m: "api.gm_ok (gm_hash m) m" using assms by (simp add: map_ok)
  show "map_of (gm_iter (tomb_api D) m) = tomb_map (gm_table m)" "distinct (gm_keys (tomb_api D) m)"
    "length (gm_iter (tomb_api D) m) = gm_len (tomb_api D) m" "gm_into_iter (tomb_api D) m = gm_iter (tomb_api D) m"
    "fst (gm_drain (tomb_api D) m) = gm_iter (tomb_api D) m"
    using api.iter_correct(1-3) [OF m] api.consume_correct(1,4) [OF m] by (simp_all add: map_ok gm_keys_def)
  show "\<exists>u. gm_retain (tomb_api D) m f s = (fst (retain_spec f (gm_iter (tomb_api D) m) s), u) \<and>
      tomb_wf D (gm_hash m) (gm_table u) \<and> tomb_map (gm_table u) = map_of (snd (retain_spec f (gm_iter (tomb_api D) m) s))"
    using api.retain_correct [OF m, of f s] by (auto simp: map_ok)
qed

end

end
