(* ===== verification/Tomb_Bytes.thy ===== *)
theory Tomb_Bytes
  imports Tomb_Correct
begin

text \<open>
  The probe loops of the tombstone engine under the feature
  \<^verbatim>\<open>tomb-byte-offset-probe\<close>: the probe position is the byte offset of the group and
  the stride grows by the group size. They agree with the loops over group
  indices whenever the metadata fits the address space.
\<close>

definition byte_mask :: "'w::len tomb_design \<Rightarrow> ('k, 'v) tomb_table \<Rightarrow> nat" where
  "byte_mask D t = push_bit (td_shift D) (tt_mask t) OR (LENGTH('w) - 1)"

definition byte_home :: "'w::len tomb_design \<Rightarrow> ('k, 'v) tomb_table \<Rightarrow> u64 \<Rightarrow> nat" where
  "byte_home D t h = push_bit (td_shift D) (tomb_group_index D t h)"

definition byte_meta :: "'w::len tomb_design \<Rightarrow> ('k, 'v) tomb_table \<Rightarrow> nat \<Rightarrow> u8 list" where
  "byte_meta D t pos = take LENGTH('w) (drop pos (tt_ctrl t))"

definition byte_next :: "'w::len tomb_design \<Rightarrow> ('k, 'v) tomb_table \<Rightarrow> nat \<Rightarrow> nat \<Rightarrow> nat" where
  "byte_next D t pos stride = wrapping_add pos stride AND byte_mask D t"

definition byte_find :: "'w::len tomb_design \<Rightarrow> ('k, 'v) tomb_table \<Rightarrow> nat \<Rightarrow> ('k \<Rightarrow> bool) \<Rightarrow> u8 \<Rightarrow> nat option" where
  "byte_find D t pos eq reduced =
    mask_find (\<lambda>si. eq (fst (the (tt_buckets t ! (pos OR si))))) (tomb_match_byte (byte_meta D t pos) reduced :: 'w word)"

definition byte_first :: "'w::len tomb_design \<Rightarrow> ('k, 'v) tomb_table \<Rightarrow> nat \<Rightarrow> u8 \<Rightarrow> nat option" where
  "byte_first D t pos x = lowest_set_bit (tomb_match_byte (byte_meta D t pos) x :: 'w word)"

definition byte_first_empty :: "'w::len tomb_design \<Rightarrow> ('k, 'v) tomb_table \<Rightarrow> nat \<Rightarrow> nat option" where
  "byte_first_empty D t pos = lowest_set_bit (tomb_match_empty (byte_meta D t pos) :: 'w word)"

definition byte_any_empty :: "'w::len tomb_design \<Rightarrow> ('k, 'v) tomb_table \<Rightarrow> nat \<Rightarrow> bool" where
  "byte_any_empty D t pos = any_set (tomb_match_empty (byte_meta D t pos) :: 'w word)"

definition byte_put ::
  "'w::len tomb_design \<Rightarrow> ('k, 'v) tomb_table \<Rightarrow> u64 \<Rightarrow> nat \<Rightarrow> nat \<Rightarrow> 'k \<Rightarrow> 'v \<Rightarrow> ('k, 'v) tomb_table" where
  "byte_put D t h pos si key value =
    t\<lparr>tt_ctrl := (tt_ctrl t)[pos + si := reduced_hash D h], tt_buckets := (tt_buckets t)[pos OR si := Some (key, value)]\<rparr>"

partial_function (option) byte_find_loop ::
  "'w::len tomb_design \<Rightarrow> ('k, 'v) tomb_table \<Rightarrow> u8 \<Rightarrow> ('k \<Rightarrow> bool) \<Rightarrow> nat \<Rightarrow> nat \<Rightarrow> (nat \<times> nat) option option" where
  [code]: "byte_find_loop D t reduced eq pos stride =
    (case byte_find D t pos eq reduced of
       Some si \<Rightarrow> Some (Some (drop_bit (td_shift D) pos, si))
     | None \<Rightarrow>
         if byte_any_empty D t pos then Some None
         else byte_find_loop D t reduced eq (byte_next D t pos (stride + LENGTH('w))) (stride + LENGTH('w)))"

definition byte_find_by_hash ::
  "'w::len tomb_design \<Rightarrow> ('k, 'v) tomb_table \<Rightarrow> u64 \<Rightarrow> ('k \<Rightarrow> bool) \<Rightarrow> (nat \<times> nat) option option" where
  "byte_find_by_hash D t h eq = byte_find_loop D t (reduced_hash D h) eq (byte_home D t h) 0"

partial_function (option) byte_insert_after_resize_loop ::
  "'w::len tomb_design \<Rightarrow> ('k, 'v) tomb_table \<Rightarrow> u64 \<Rightarrow> 'k \<Rightarrow> 'v \<Rightarrow> nat \<Rightarrow> nat \<Rightarrow> ('k, 'v) tomb_table option" where
  [code]: "byte_insert_after_resize_loop D t h key value pos stride =
    (case byte_first_empty D t pos of
       Some si \<Rightarrow> Some (byte_put D t h pos si key value)
     | None \<Rightarrow> byte_insert_after_resize_loop D t h key value (byte_next D t pos (stride + LENGTH('w))) (stride + LENGTH('w)))"

definition byte_insert_after_resize ::
  "'w::len tomb_design \<Rightarrow> ('k, 'v) tomb_table \<Rightarrow> u64 \<Rightarrow> 'k \<Rightarrow> 'v \<Rightarrow> ('k, 'v) tomb_table option" where
  "byte_insert_after_resize D t h key value = byte_insert_after_resize_loop D t h key value (byte_home D t h) 0"

text \<open>Here the first tombstone is kept as a bucket index, split again with \<^verbatim>\<open>& !0xF\<close> and \<^verbatim>\<open>& 0xF\<close>.\<close>

partial_function (option) byte_insert_no_check_loop ::
  "'w::len tomb_design \<Rightarrow> ('k, 'v) tomb_table \<Rightarrow> u64 \<Rightarrow> 'k \<Rightarrow> 'v \<Rightarrow> nat \<Rightarrow> nat \<Rightarrow> nat option
    \<Rightarrow> ((nat \<times> nat) \<times> ('k, 'v) tomb_table) option" where
  [code]: "byte_insert_no_check_loop D t h key value pos stride first_tombstone =
    (let first_tombstone' =
       (if first_tombstone = None then map_option (\<lambda>si. pos OR si) (byte_first D t pos TOMBSTONE) else first_tombstone) in
     case byte_first_empty D t pos of
       Some si \<Rightarrow>
         let (ins_bucket, decrement) =
               (case first_tombstone' of Some tbi \<Rightarrow> (tbi, False) | None \<Rightarrow> (pos OR si, True));
             ins_si = ins_bucket AND (LENGTH('w) - 1);
             ins_pos = ins_bucket - ins_si;
             t1 = t\<lparr>tt_ctrl := (tt_ctrl t)[ins_pos + ins_si := reduced_hash D h],
                    tt_buckets := (tt_buckets t)[ins_bucket := Some (key, value)]\<rparr>;
             t2 = t1\<lparr>tt_len := tt_len t1 + 1\<rparr>;
             t3 = (if decrement then t2\<lparr>tt_growth_left := usize_sub (tt_growth_left t2) 1\<rparr> else t2)
         in Some ((drop_bit (td_shift D) ins_pos, ins_si), t3)
     | None \<Rightarrow>
         byte_insert_no_check_loop D t h key value (byte_next D t pos (stride + LENGTH('w))) (stride + LENGTH('w))
           first_tombstone')"

definition byte_insert_no_check ::
  "'w::len tomb_design \<Rightarrow> ('k, 'v) tomb_table \<Rightarrow> u64 \<Rightarrow> 'k \<Rightarrow> 'v \<Rightarrow> ((nat \<times> nat) \<times> ('k, 'v) tomb_table) option" where
  "byte_insert_no_check D t h key value = byte_insert_no_check_loop D t h key value (byte_home D t h) 0 None"

partial_function (option) byte_find_or_locate_overflow ::
  "'w::len tomb_design \<Rightarrow> ('k, 'v) tomb_table \<Rightarrow> ('k \<Rightarrow> bool) \<Rightarrow> u8 \<Rightarrow> nat \<Rightarrow> nat \<Rightarrow> (nat \<times> nat) option
    \<Rightarrow> probe_result option" where
  [code]: "byte_find_or_locate_overflow D t eq reduced pos stride first_available =
    (case byte_find D t pos eq reduced of
       Some si \<Rightarrow> Some (PFound (drop_bit (td_shift D) pos) si)
     | None \<Rightarrow>
         let first_available' =
           (if first_available = None
            then (case byte_first D t pos TOMBSTONE of
                    Some tsi \<Rightarrow> Some (drop_bit (td_shift D) pos, tsi)
                  | None \<Rightarrow> map_option (Pair (drop_bit (td_shift D) pos)) (byte_first_empty D t pos))
            else first_available) in
         if byte_any_empty D t pos
         then Some (case first_available' of Some (ins_gi, ins_si) \<Rightarrow> PInsertSlot ins_gi ins_si 0 | None \<Rightarrow> PNotFound)
         else byte_find_or_locate_overflow D t eq reduced (byte_next D t pos (stride + LENGTH('w))) (stride + LENGTH('w))
                first_available')"

text \<open>\<^verbatim>\<open>find_or_locate\<close> with this slow path; its home group is probed as without the feature.\<close>

definition byte_find_or_locate ::
  "'w::len tomb_design \<Rightarrow> ('k, 'v) tomb_table \<Rightarrow> u64 \<Rightarrow> ('k \<Rightarrow> bool) \<Rightarrow> probe_result option" where
  "byte_find_or_locate D t h eq =
    (let reduced = reduced_hash D h; gi = tomb_group_index D t h in
     case tomb_group_find D t gi eq reduced of
       Some si \<Rightarrow> Some (PFound gi si)
     | None \<Rightarrow>
       (case tomb_first_empty D t gi of
          Some si \<Rightarrow>
            (case tomb_first D t gi TOMBSTONE of
               Some tsi \<Rightarrow> Some (PInsertSlot gi tsi 0)
             | None \<Rightarrow> Some (PInsertSlot gi si 0))
        | None \<Rightarrow>
            byte_find_or_locate_overflow D t eq reduced
              (byte_next D t (push_bit (td_shift D) gi) LENGTH('w)) LENGTH('w)
              (map_option (Pair gi) (tomb_first D t gi TOMBSTONE))))"

section \<open>Agreement with the loops over group indices\<close>

lemma drop_push [simp]: "drop_bit n (push_bit n a) = a" for a :: nat
  by (simp add: drop_bit_eq_div push_bit_eq_mult)

context tomb_layout
begin

lemma push_width: "push_bit (td_shift D) a = a * LENGTH('w)" for a :: nat
  by (simp add: push_bit_eq_mult width(1))

lemma byte_mask_eq: "byte_mask D t = Suc (tt_mask t) * LENGTH('w) - 1"
  using bucket_index_add [of "LENGTH('w) - 1" "tt_mask t"] len_gt_0 [where 'a = 'w]
  by (simp add: byte_mask_def tomb_bucket_index_def)

lemma byte_step:
  assumes "groups_ok (Suc (tt_mask t))" "groups_ok (Suc (tt_mask t) * LENGTH('w))"
  shows "byte_next D t (push_bit (td_shift D) gi) (probe * LENGTH('w) + LENGTH('w)) =
    push_bit (td_shift D) (next_group (tt_mask t) gi (Suc probe))"
proof -
  let ?n = "Suc (tt_mask t)"
  have "byte_next D t (push_bit (td_shift D) gi) (probe * LENGTH('w) + LENGTH('w)) =
    (gi * LENGTH('w) + (probe * LENGTH('w) + LENGTH('w))) mod 2 ^ 64 mod (?n * LENGTH('w))"
    unfolding byte_next_def byte_mask_eq push_width wrapping_add_def by (rule and_pred_groups [OF assms(2)])
  also have "\<dots> = ((gi + Suc probe) * LENGTH('w)) mod (?n * LENGTH('w))"
    using groups_ok_dvd [OF assms(2)] by (simp add: mod_mod_cancel algebra_simps)
  also have "\<dots> = (gi + Suc probe) mod ?n * LENGTH('w)" by (rule mod_mult_mult2)
  finally show ?thesis by (simp add: next_group_eq [OF assms(1)] push_width)
qed

lemma byte_views:
  "byte_find D t (push_bit (td_shift D) gi) eq r = tomb_group_find D t gi eq r"
  "byte_first D t (push_bit (td_shift D) gi) x = tomb_first D t gi x"
  "byte_first_empty D t (push_bit (td_shift D) gi) = tomb_first_empty D t gi"
  "byte_any_empty D t (push_bit (td_shift D) gi) = tomb_any_empty D t gi"
  "si < LENGTH('w) \<Longrightarrow> byte_put D t h (push_bit (td_shift D) gi) si k v = tomb_put D t h gi si k v"
proof -
  have "byte_meta D t (push_bit (td_shift D) gi) = tomb_meta D t gi"
    by (simp add: byte_meta_def tomb_meta_def push_width)
  then show "byte_find D t (push_bit (td_shift D) gi) eq r = tomb_group_find D t gi eq r"
    "byte_first D t (push_bit (td_shift D) gi) x = tomb_first D t gi x"
    "byte_first_empty D t (push_bit (td_shift D) gi) = tomb_first_empty D t gi"
    "byte_any_empty D t (push_bit (td_shift D) gi) = tomb_any_empty D t gi"
    by (simp_all add: byte_find_def tomb_group_find_def tomb_key_at_def tomb_bucket_index_def byte_first_def
        tomb_first_def byte_first_empty_def tomb_first_empty_def byte_any_empty_def tomb_any_empty_def)
  show "si < LENGTH('w) \<Longrightarrow> byte_put D t h (push_bit (td_shift D) gi) si k v = tomb_put D t h gi si k v"
    using bucket_index_add [of si gi]
    by (simp add: byte_put_def tomb_put_def tomb_write_def tomb_set_meta_def tomb_bucket_index_def push_width)
qed

end

context tomb_layout
begin

text \<open>
  Reasoning about a probe loop backwards from the group that ends it: a statement
  about probe \<open>p\<close> that follows from the one about the next probe, where the loop
  goes on because the group is full, holds.
\<close>

lemma probe_induct:
  assumes "tomb_ctrl_ok D t" "EMPTY \<in> set (tt_ctrl t)"
    and step: "\<And>p. (tomb_full D t (tomb_probe D t h p) \<Longrightarrow> P (Suc p)) \<Longrightarrow> P p"
    and start: "\<And>q. q < p \<Longrightarrow> tomb_full D t (tomb_probe D t h q)"
  shows "P p"
proof -
  obtain pe where pe: "\<not> tomb_full D t (tomb_probe D t h pe)"
    using first_gap [OF assms(1,2), of h] by metis
  have "p \<le> pe" using pe start by (metis not_le)
  then show ?thesis
  proof (induction "pe - p" arbitrary: p)
    case 0
    then show ?case using pe step [of p] by simp
  next
    case (Suc d)
    then show ?case using step [of p] by simp
  qed
qed

text \<open>The loops at the byte offset of the \<open>p\<close>-th probed group and at its index.\<close>

abbreviation byte_pos :: "('k, 'v) tomb_table \<Rightarrow> u64 \<Rightarrow> nat \<Rightarrow> nat" where
  "byte_pos t h p \<equiv> push_bit (td_shift D) (tomb_probe D t h p)"

lemma byte_pos_next:
  assumes "groups_ok (Suc (tt_mask t))" "groups_ok (Suc (tt_mask t) * LENGTH('w))"
  shows "byte_next D t (byte_pos t h p) (Suc p * LENGTH('w)) = byte_pos t h (Suc p)"
    "next_group (tt_mask t) (tomb_probe D t h p) (Suc p) = tomb_probe D t h (Suc p)"
    "p * LENGTH('w) + LENGTH('w) = Suc p * LENGTH('w)" "p + 1 = Suc p"
proof -
  show "p * LENGTH('w) + LENGTH('w) = Suc p * LENGTH('w)" by simp
  then show "byte_next D t (byte_pos t h p) (Suc p * LENGTH('w)) = byte_pos t h (Suc p)"
    using byte_step [OF assms, of "tomb_probe D t h p" p] by (simp add: tomb_probe_def add.commute)
qed (simp_all add: tomb_probe_def)

lemma byte_bucket:
  assumes "si < LENGTH('w)"
  shows "(push_bit (td_shift D) gi OR si) AND (LENGTH('w) - 1) = si"
    "push_bit (td_shift D) gi OR si = gi * LENGTH('w) + si"
proof -
  show b: "push_bit (td_shift D) gi OR si = gi * LENGTH('w) + si"
    using bucket_index_add [OF assms, of gi] by (simp add: tomb_bucket_index_def)
  have "x AND (LENGTH('w) - 1) = x mod LENGTH('w)" for x :: nat
    unfolding width(1) by (metis mask_eq_exp_minus_1 take_bit_eq_mask take_bit_eq_mod)
  then show "(push_bit (td_shift D) gi OR si) AND (LENGTH('w) - 1) = si" using assms by (simp add: b)
qed

lemma byte_find_eq:
  assumes ok: "tomb_ctrl_ok D t" "EMPTY \<in> set (tt_ctrl t)" "groups_ok (Suc (tt_mask t) * LENGTH('w))"
  shows "byte_find_by_hash D t h eq = tomb_find_by_hash D t h eq"
proof -
  have g: "groups_ok (Suc (tt_mask t))" using ok(1) by (simp add: tomb_ctrl_ok_def)
  have "byte_find_loop D t (reduced_hash D h) eq (byte_pos t h 0) (0 * LENGTH('w)) =
    tomb_find_loop D t (reduced_hash D h) eq (tomb_probe D t h 0) 0"
  proof (rule probe_induct [OF ok(1,2), where h = h])
    fix p
    assume "tomb_full D t (tomb_probe D t h p) \<Longrightarrow>
      byte_find_loop D t (reduced_hash D h) eq (byte_pos t h (Suc p)) (Suc p * LENGTH('w)) =
      tomb_find_loop D t (reduced_hash D h) eq (tomb_probe D t h (Suc p)) (Suc p)"
    then show "byte_find_loop D t (reduced_hash D h) eq (byte_pos t h p) (p * LENGTH('w)) =
      tomb_find_loop D t (reduced_hash D h) eq (tomb_probe D t h p) p"
      using any_empty [OF ok(1) probe_le [OF ok(1)], of h p]
      by (subst byte_find_loop.simps, subst tomb_find_loop.simps)
        (simp add: byte_views byte_pos_next [OF g ok(3)] del: mult_Suc split: option.split)
  qed simp
  then show ?thesis
    by (simp add: byte_find_by_hash_def tomb_find_by_hash_def byte_home_def tomb_probe_def)
qed

lemma byte_insert_after_resize_eq:
  assumes ok: "tomb_ctrl_ok D t" "EMPTY \<in> set (tt_ctrl t)" "groups_ok (Suc (tt_mask t) * LENGTH('w))"
  shows "byte_insert_after_resize D t h k v = tomb_insert_after_resize D t h k v"
proof -
  have g: "groups_ok (Suc (tt_mask t))" using ok(1) by (simp add: tomb_ctrl_ok_def)
  have "byte_insert_after_resize_loop D t h k v (byte_pos t h 0) (0 * LENGTH('w)) =
    tomb_insert_after_resize_loop D t h k v (tomb_probe D t h 0) 0"
  proof (rule probe_induct [OF ok(1,2), where h = h])
    fix p
    assume "tomb_full D t (tomb_probe D t h p) \<Longrightarrow>
      byte_insert_after_resize_loop D t h k v (byte_pos t h (Suc p)) (Suc p * LENGTH('w)) =
      tomb_insert_after_resize_loop D t h k v (tomb_probe D t h (Suc p)) (Suc p)"
    then show "byte_insert_after_resize_loop D t h k v (byte_pos t h p) (p * LENGTH('w)) =
      tomb_insert_after_resize_loop D t h k v (tomb_probe D t h p) p"
      using first_empty_None [OF ok(1) probe_le [OF ok(1)], of h p] first_empty_Some [OF ok(1) probe_le [OF ok(1)], of h p]
      by (subst byte_insert_after_resize_loop.simps, subst tomb_insert_after_resize_loop.simps)
        (auto simp: byte_views byte_pos_next [OF g ok(3)] simp del: mult_Suc split: option.split)
  qed simp
  then show ?thesis
    by (simp add: byte_insert_after_resize_def tomb_insert_after_resize_def byte_home_def tomb_probe_def)
qed

lemma byte_locate_eq:
  assumes ok: "tomb_ctrl_ok D t" "EMPTY \<in> set (tt_ctrl t)" "groups_ok (Suc (tt_mask t) * LENGTH('w))"
    and "\<And>q. q < p \<Longrightarrow> tomb_full D t (tomb_probe D t h q)"
  shows "byte_find_or_locate_overflow D t eq r (byte_pos t h p) (p * LENGTH('w)) fa =
    tomb_find_or_locate_overflow D t eq r (tomb_probe D t h p) p fa"
proof -
  have g: "groups_ok (Suc (tt_mask t))" using ok(1) by (simp add: tomb_ctrl_ok_def)
  have "\<forall>fa. byte_find_or_locate_overflow D t eq r (byte_pos t h p) (p * LENGTH('w)) fa =
    tomb_find_or_locate_overflow D t eq r (tomb_probe D t h p) p fa"
  proof (rule probe_induct [OF ok(1,2), where h = h])
    fix p
    assume "tomb_full D t (tomb_probe D t h p) \<Longrightarrow>
      \<forall>fa. byte_find_or_locate_overflow D t eq r (byte_pos t h (Suc p)) (Suc p * LENGTH('w)) fa =
      tomb_find_or_locate_overflow D t eq r (tomb_probe D t h (Suc p)) (Suc p) fa"
    then show "\<forall>fa. byte_find_or_locate_overflow D t eq r (byte_pos t h p) (p * LENGTH('w)) fa =
      tomb_find_or_locate_overflow D t eq r (tomb_probe D t h p) p fa"
      using any_empty [OF ok(1) probe_le [OF ok(1)], of h p]
      by (intro allI, subst byte_find_or_locate_overflow.simps, subst tomb_find_or_locate_overflow.simps)
        (auto simp: byte_views byte_pos_next [OF g ok(3)] Let_def simp del: mult_Suc split: option.split)
  qed (use assms(4) in simp)
  then show ?thesis by blast
qed

lemma byte_find_or_locate_eq:
  assumes ok: "tomb_ctrl_ok D t" "EMPTY \<in> set (tt_ctrl t)" "groups_ok (Suc (tt_mask t) * LENGTH('w))"
  shows "byte_find_or_locate D t h eq = tomb_find_or_locate D t h eq"
proof -
  have g: "groups_ok (Suc (tt_mask t))" using ok(1) by (simp add: tomb_ctrl_ok_def)
  have home: "tomb_group_index D t h = tomb_probe D t h 0" by (simp add: tomb_probe_def)
  have "byte_find_or_locate_overflow D t eq r (byte_next D t (push_bit (td_shift D) (tomb_group_index D t h)) LENGTH('w))
      LENGTH('w) fa = tomb_find_or_locate_overflow D t eq r (next_group (tt_mask t) (tomb_group_index D t h) 1) 1 fa"
    if "tomb_first_empty D t (tomb_group_index D t h) = None" for r fa
  proof -
    have "tomb_full D t (tomb_probe D t h 0)"
      using first_empty_None [OF ok(1) probe_le [OF ok(1)], of h 0] that by (simp add: tomb_probe_def)
    then show ?thesis
      using byte_locate_eq [OF ok, of "Suc 0" h eq r fa] byte_pos_next(1) [OF g ok(3), of h 0]
      by (simp add: tomb_probe_def)
  qed
  then show ?thesis
    by (simp add: byte_find_or_locate_def tomb_find_or_locate_def Let_def split: option.split)
qed

lemma byte_insert_no_check_eq:
  assumes ok: "tomb_ctrl_ok D t" "EMPTY \<in> set (tt_ctrl t)" "groups_ok (Suc (tt_mask t) * LENGTH('w))"
  shows "byte_insert_no_check D t h k v = tomb_insert_no_check D t h k v"
proof -
  have g: "groups_ok (Suc (tt_mask t))" using ok(1) by (simp add: tomb_ctrl_ok_def)
  let ?flat = "map_option (\<lambda>(g, s). push_bit (td_shift D) g OR s)"
  have "\<forall>ft. (\<forall>g s. ft = Some (g, s) \<longrightarrow> s < LENGTH('w)) \<longrightarrow>
    byte_insert_no_check_loop D t h k v (byte_pos t h 0) (0 * LENGTH('w)) (?flat ft) =
    tomb_insert_no_check_loop D t h k v (tomb_probe D t h 0) 0 ft"
  proof (rule probe_induct [OF ok(1,2), where h = h])
    fix p
    let ?g = "tomb_probe D t h p"
    note le = probe_le [OF ok(1), of h p]
    assume IH: "tomb_full D t ?g \<Longrightarrow> \<forall>ft. (\<forall>g s. ft = Some (g, s) \<longrightarrow> s < LENGTH('w)) \<longrightarrow>
      byte_insert_no_check_loop D t h k v (byte_pos t h (Suc p)) (Suc p * LENGTH('w)) (?flat ft) =
      tomb_insert_no_check_loop D t h k v (tomb_probe D t h (Suc p)) (Suc p) ft"
    show "\<forall>ft. (\<forall>g s. ft = Some (g, s) \<longrightarrow> s < LENGTH('w)) \<longrightarrow>
      byte_insert_no_check_loop D t h k v (byte_pos t h p) (p * LENGTH('w)) (?flat ft) =
      tomb_insert_no_check_loop D t h k v ?g p ft"
    proof (intro allI impI)
      fix ft :: "(nat \<times> nat) option" assume ft: "\<forall>g s. ft = Some (g, s) \<longrightarrow> s < LENGTH('w)"
      let ?ft = "if ft = None then map_option (Pair ?g) (tomb_first D t ?g TOMBSTONE) else ft"
      have flat: "(if ?flat ft = None then map_option (\<lambda>si. byte_pos t h p OR si) (byte_first D t (byte_pos t h p) TOMBSTONE)
          else ?flat ft) = ?flat ?ft"
        by (auto simp: byte_views option.map_comp comp_def)
      have ft': "\<forall>g s. ?ft = Some (g, s) \<longrightarrow> s < LENGTH('w)"
        using ft first_Some(1) [OF ok(1) le] by auto
      show "byte_insert_no_check_loop D t h k v (byte_pos t h p) (p * LENGTH('w)) (?flat ft) =
        tomb_insert_no_check_loop D t h k v ?g p ft"
      proof (cases "tomb_first_empty D t ?g")
        case None
        then have "tomb_full D t ?g" using first_empty_None [OF ok(1) le] by simp
        then show ?thesis
          using None IH ft' flat
          by (subst byte_insert_no_check_loop.simps, subst tomb_insert_no_check_loop.simps)
            (simp add: byte_views byte_pos_next [OF g ok(3)] Let_def del: mult_Suc)
      next
        case (Some si)
        have si: "si < LENGTH('w)" by (rule first_empty_Some(1) [OF ok(1) le Some])
        show ?thesis
        proof (cases ?ft)
          case None
          then show ?thesis
            using Some flat si byte_bucket [OF si]
            by (subst byte_insert_no_check_loop.simps, subst tomb_insert_no_check_loop.simps)
              (simp add: byte_views Let_def tomb_put_def tomb_write_def tomb_set_meta_def flip: push_width)
        next
          case ts: (Some gs)
          obtain g s where gs: "gs = (g, s)" by fastforce
          have s: "s < LENGTH('w)" using ft' ts gs by blast
          show ?thesis
            using Some flat ts gs s byte_bucket [OF s]
            by (subst byte_insert_no_check_loop.simps, subst tomb_insert_no_check_loop.simps)
              (simp add: byte_views Let_def tomb_put_def tomb_write_def tomb_set_meta_def flip: push_width)
        qed
      qed
    qed
  qed simp
  from spec [OF this, of None] show ?thesis
    by (simp add: byte_insert_no_check_def tomb_insert_no_check_def byte_home_def tomb_probe_def)
qed

end

end
