(* ===== verification/Tomb_Properties.thy ===== *)
theory Tomb_Properties
  imports Tomb_Map Tomb_Bytes
begin

text \<open>
  The properties of the tombstone engine: every operation returns and acts on the
  table's map, in every state the interface can reach. The designs of the crate
  with 16-slot groups are interpretations of the engine's locale.
\<close>

section \<open>Reachable states\<close>

inductive tomb_reachable :: "'w::len tomb_design \<Rightarrow> ('k \<Rightarrow> u64) \<Rightarrow> ('k, 'v) tomb_table \<Rightarrow> bool"
  for D :: "'w::len tomb_design" and hash :: "'k \<Rightarrow> u64" where
  start: "tomb_reachable D hash (tomb_with_capacity D c)"
| insert: "tomb_reachable D hash t \<Longrightarrow> tomb_can_grow t \<Longrightarrow> tomb_insert_or_replace D hash t k v = Some (r, u) \<Longrightarrow>
    tomb_reachable D hash u"
| insert_ref: "tomb_reachable D hash t \<Longrightarrow> tomb_can_grow t \<Longrightarrow> tomb_insert_with_rehash D hash t k v = Some (r, u) \<Longrightarrow>
    tomb_reachable D hash u"
| entry_at: "tomb_reachable D hash t \<Longrightarrow> tomb_find_for_entry D t (hash k) k = Some (ProbeVacant (Some (gi, si, m))) \<Longrightarrow>
    tomb_reachable D hash (tomb_insert_at D t (hash k) gi si k v m)"
| entry_grow: "tomb_reachable D hash t \<Longrightarrow> tomb_can_grow t \<Longrightarrow> tomb_find_for_entry D t (hash k) k = Some (ProbeVacant None) \<Longrightarrow>
    tomb_ensure_capacity D hash t = Some s \<Longrightarrow> tomb_insert_no_check D s (hash k) k v = Some (p, u) \<Longrightarrow>
    tomb_reachable D hash u"
| remove: "tomb_reachable D hash t \<Longrightarrow> tomb_remove_by_hash D t (hash k) (\<lambda>x. x = k) = Some (r, u) \<Longrightarrow>
    tomb_reachable D hash u"
| remove_value: "tomb_reachable D hash t \<Longrightarrow> tomb_remove D hash t k = Some (r, u) \<Longrightarrow> tomb_reachable D hash u"
| clear: "tomb_reachable D hash t \<Longrightarrow> tomb_reachable D hash (tomb_clear D t)"
| reserve: "tomb_reachable D hash t \<Longrightarrow>
    tomb_reserve D hash t additional = Some (Inr u) \<Longrightarrow> tomb_reachable D hash u"
| shrink: "tomb_reachable D hash t \<Longrightarrow> tomb_capacity_ok D (tt_len t) \<Longrightarrow> tomb_shrink_to_fit D hash t = Some u \<Longrightarrow> tomb_reachable D hash u"
| clone: "tomb_reachable D hash t \<Longrightarrow> tomb_reachable D hash (tomb_clone D t)"
| drain: "tomb_reachable D hash t \<Longrightarrow> tomb_reachable D hash (snd (tomb_drain D t))"

context tomb_layout
begin

lemma vacant_absent:
  assumes "tomb_wf D hash t" "tomb_find_for_entry D t (hash k) k = Some (ProbeVacant x)"
  shows "tomb_map t k = None"
  using find_for_entry_correct(1) [OF assms(1), of k] assms(2) by (cases "tomb_map t k") auto

lemma remove_wf:
  assumes "tomb_wf D hash t" "tomb_remove_by_hash D t (hash k) (\<lambda>x. x = k) = Some (r, u)"
  shows "tomb_wf D hash u"
  using remove_by_hash_correct [OF assms(1), of k] assms by (cases "tomb_map t k") auto

lemma insert_no_check_wf:
  assumes "tomb_content D hash t" "tomb_counts D t" "0 < tt_growth_left t" "tomb_map t k = None"
    "tomb_insert_no_check D t (hash k) k v = Some (p, u)"
  shows "tomb_wf D hash u"
  by (rule insert_new [OF assms(1-4), of v]) (use assms(5) in \<open>auto simp: tomb_wf_def\<close>)

theorem reachable_wf: "tomb_reachable D hash t \<Longrightarrow> tomb_wf D hash t"
proof (induction rule: tomb_reachable.induct)
  case (insert t k v r u)
  then show ?case using insert_or_replace_correct [OF insert.IH insert.hyps(2), of k v] by auto
next
  case (insert_ref t k v r u)
  then show ?case using insert_with_rehash_correct [OF insert_ref.IH insert_ref.hyps(2), of k v] by auto
next
  case (entry_at t k gi si m v)
  have absent: "tomb_map t k = None" by (rule vacant_absent [OF entry_at.IH entry_at.hyps(2)])
  then have free: "tomb_available D t (hash k) gi si" "tomb_content D hash t" "tomb_counts D t" "0 < tt_growth_left t"
    using find_for_entry_correct(2) [OF entry_at.IH absent] entry_at.hyps(2) by auto
  show ?case using insert_at_correct(1,2) [OF free(2,3,1) absent free(4)] by (simp add: tomb_wf_def)
next
  case (entry_grow t k s v p u)
  have absent: "tomb_map t k = None" by (rule vacant_absent [OF entry_grow.IH entry_grow.hyps(3)])
  have s: "tomb_content D hash s" "tomb_counts D s" "tomb_map s = tomb_map t" "0 < tt_growth_left s"
    using ensure_capacity_correct [OF entry_grow.IH entry_grow.hyps(2)] entry_grow.hyps(4) by auto
  show ?case by (rule insert_no_check_wf [OF s(1,2,4) _ entry_grow.hyps(5)]) (simp add: s(3) absent)
next
  case (remove t k r u)
  then show ?case by (rule_tac remove_wf)
next
  case (remove_value t k r u)
  then obtain r' where "tomb_remove_by_hash D t (hash k) (\<lambda>x. x = k) = Some (r', u)"
    using remove_eq [OF remove_value.IH, of k] by auto
  then show ?case by (rule remove_wf [OF remove_value.IH])
next
  case (reserve t additional u)
  have "tt_len t + additional < 2 ^ 64" using reserve.hyps(2) by (simp add: tomb_reserve_def split: if_splits)
  then show ?case using reserve_correct(2) [OF reserve.IH, of additional] reserve.hyps(2) by auto
next
  case (shrink t u)
  then show ?case using shrink_to_fit_correct [OF shrink.IH shrink.hyps(2)] by auto
next
  case (clone t)
  then show ?case by (simp add: clone_correct)
next
  case (drain t)
  show ?case by (simp add: tomb_drain_def tomb_wf_def)
qed (simp_all add: with_capacity_correct(1) clear_correct(1))

end

section \<open>The designs of the crate\<close>

lemma valid_InPlaceOverflow: "tombstone_tag_laws T \<Longrightarrow> valid_design (InPlaceOverflow T)"
  by (simp add: valid_design_def InPlaceOverflow_def tombstone_tag_laws_def index_and_le)

interpretation high_tomb: tomb_layout "InPlaceOverflow HighTomb_reduced_hash"
  by unfold_locales (rule valid_InPlaceOverflow [OF HighTomb.tombstone_tag_laws_axioms])

interpretation low_tomb: tomb_layout "InPlaceOverflow LowTomb_reduced_hash"
  by unfold_locales (rule valid_InPlaceOverflow [OF LowTomb.tombstone_tag_laws_axioms])

interpretation high128_tomb: tomb_layout "InPlaceOverflow HighTag128_reduced_hash"
  by unfold_locales (rule valid_InPlaceOverflow [OF HighTag128_tomb.tombstone_tag_laws_axioms])

abbreviation tomb_sample_design :: "16 tomb_design" where
  "tomb_sample_design \<equiv> InPlaceOverflow HighTomb_reduced_hash"

definition tomb_sample :: "(u64, nat) tomb_table" where
  "tomb_sample = snd (the (tomb_insert_or_replace tomb_sample_design (\<lambda>k. k) (tomb_new tomb_sample_design) 5 7))"

lemma tomb_sample_valid: "valid_design tomb_sample_design"
  by (rule valid_InPlaceOverflow [OF HighTomb.tombstone_tag_laws_axioms])

lemma tomb_new_facts:
  "tomb_wf D hash (tomb_new D)" "tomb_can_grow (tomb_new D)"
  by (simp_all add: tomb_wf_def tomb_can_grow_def)

lemma tomb_sample_insert:
  "tomb_insert_or_replace tomb_sample_design (\<lambda>k. k) (tomb_new tomb_sample_design) 5 7 = Some (None, tomb_sample)"
  "tomb_wf tomb_sample_design (\<lambda>k. k) tomb_sample" "tomb_map tomb_sample = [5 \<mapsto> 7]"
proof -
  obtain u :: "(u64, nat) tomb_table" where
    "tomb_insert_or_replace tomb_sample_design (\<lambda>k. k) (tomb_new tomb_sample_design) 5 7 = Some (None, u)"
    "tomb_wf tomb_sample_design (\<lambda>k. k) u" "tomb_map u = [5 \<mapsto> 7]"
    using high_tomb.insert_or_replace_correct [OF tomb_new_facts, of "\<lambda>k. k" 5 7] by auto
  then show "tomb_insert_or_replace tomb_sample_design (\<lambda>k. k) (tomb_new tomb_sample_design) 5 7 = Some (None, tomb_sample)"
    "tomb_wf tomb_sample_design (\<lambda>k. k) tomb_sample" "tomb_map tomb_sample = [5 \<mapsto> 7]"
    by (simp_all add: tomb_sample_def)
qed

lemma tomb_sample_facts:
  "tt_mask tomb_sample = 0" "tt_growth_left tomb_sample = 13" "tt_max_load tomb_sample = 14" "tt_len tomb_sample = 1"
  by code_simp+

lemma tomb_sample_reachable: "tomb_reachable tomb_sample_design (\<lambda>k. k) tomb_sample"
proof (rule tomb_reachable.insert [OF _ _ tomb_sample_insert(1)])
  have "tomb_reachable tomb_sample_design (\<lambda>k. k) (tomb_with_capacity tomb_sample_design 0)"
    by (rule tomb_reachable.start)
  then show "tomb_reachable tomb_sample_design (\<lambda>k. k) (tomb_new tomb_sample_design)"
    by (simp add: tomb_with_capacity_def)
qed (rule tomb_new_facts)

text \<open>The table with a second entry and without the first: it has a tombstone.\<close>

definition tomb_sample2 :: "(u64, nat) tomb_table" where
  "tomb_sample2 = snd (the (tomb_insert_or_replace tomb_sample_design (\<lambda>k. k) tomb_sample 6 8))"

definition tomb_sample_removed :: "(u64, nat) tomb_table" where
  "tomb_sample_removed = snd (the (tomb_remove_by_hash tomb_sample_design tomb_sample2 5 (\<lambda>x. x = 5)))"

lemma tomb_sample2_wf: "tomb_wf tomb_sample_design (\<lambda>k. k) tomb_sample2" "tomb_map tomb_sample2 = [5 \<mapsto> 7, 6 \<mapsto> 8]"
  using high_tomb.insert_or_replace_correct [OF tomb_sample_insert(2), of 6 8] tomb_sample_insert(3) tomb_sample_facts(1)
  by (auto simp: tomb_sample2_def tomb_can_grow_def)

lemma tomb_sample_removed_wf:
  "tomb_wf tomb_sample_design (\<lambda>k. k) tomb_sample_removed" "tomb_map tomb_sample_removed = [6 \<mapsto> 8]"
  using high_tomb.remove_by_hash_correct(1) [OF tomb_sample2_wf(1), of 5 7] tomb_sample2_wf(2)
  by (auto simp: tomb_sample_removed_def fun_eq_iff)

section \<open>Properties\<close>

text \<open>
  C25. Insertion into a tombstone table: \<^verbatim>\<open>insert_or_replace\<close> always returns, with the
  value the key had; the new table is well-formed and its map is updated at the key.
  This covers replacement, the home-group fast path, tombstone recycling, growing and
  rehashing in place, from the unallocated table on.
\<close>

theorem tomb_insert_refines:
  assumes "valid_design D" "tomb_wf D hash t" "tomb_can_grow t"
  shows "\<exists>u. tomb_insert_or_replace D hash t k v = Some (tomb_map t k, u) \<and> tomb_wf D hash u \<and>
    tomb_map u = (tomb_map t)(k \<mapsto> v)"
  by (rule tomb_layout.insert_or_replace_correct [OF tomb_layout.intro, OF assms])

theorem tomb_insert_refines_witness:
  "\<exists>u. tomb_insert_or_replace tomb_sample_design (\<lambda>k. k) tomb_sample 6 8 = Some (None, u) \<and>
    tomb_wf tomb_sample_design (\<lambda>k. k) u \<and> tomb_map u = [5 \<mapsto> 7, 6 \<mapsto> 8]"
  using tomb_insert_refines [OF tomb_sample_valid tomb_sample_insert(2), of 6 8] tomb_sample_facts(1) tomb_sample_insert(3)
  by (simp add: tomb_can_grow_def)

text \<open>
  C26. Lookup in a tombstone table always ends: it returns the position of a key that
  is in the map and nothing for one that is not, whatever was removed before. The
  growth counter leaves an \<^const>\<open>EMPTY\<close> byte in every table.
\<close>

theorem tomb_find_exact:
  assumes "valid_design D" "tomb_wf D hash t"
  shows "case tomb_map t k of
      Some v \<Rightarrow> \<exists>gi si. tomb_find D hash t k = Some (Some (gi, si)) \<and> tomb_at D t gi si k v
    | None \<Rightarrow> tomb_find D hash t k = Some None"
proof (cases "tomb_map t k")
  case None
  have "tomb_find_by_hash D t (hash k) (\<lambda>x. x = k) = Some None"
    by (rule tomb_layout.find_correct(2) [OF tomb_layout.intro, OF assms]) (simp add: None)
  then show ?thesis by (simp add: None tomb_find_def)
next
  case (Some v)
  then show ?thesis
    using tomb_layout.find_correct(1) [OF tomb_layout.intro, OF assms Some] by (simp add: tomb_find_def)
qed

theorem tomb_find_exact_witness:
  "(\<exists>gi si. tomb_find tomb_sample_design (\<lambda>k. k) tomb_sample 5 = Some (Some (gi, si)) \<and> tomb_at tomb_sample_design tomb_sample gi si 5 7) \<and>
   tomb_find tomb_sample_design (\<lambda>k. k) tomb_sample 6 = Some None"
  using tomb_find_exact [OF tomb_sample_valid tomb_sample_insert(2), of 5]
    tomb_find_exact [OF tomb_sample_valid tomb_sample_insert(2), of 6] tomb_sample_insert(3) by simp

text \<open>
  C27. Removal from a tombstone table returns the pair of a key in the map and leaves
  the map without it and the table with one tombstone more; for a key that is not in
  the map it returns nothing and changes nothing.
\<close>

theorem tomb_remove_refines:
  assumes "valid_design D" "tomb_wf D hash t"
  shows "\<exists>u. tomb_remove_by_hash D t (hash k) (\<lambda>x. x = k) = Some (map_option (Pair k) (tomb_map t k), u) \<and>
    tomb_wf D hash u \<and> tomb_map u = (tomb_map t)(k := None) \<and> tt_growth_left u = tt_growth_left t \<and>
    (tomb_map t k = None \<longrightarrow> u = t)"
proof (cases "tomb_map t k")
  case None
  then show ?thesis
    using tomb_layout.remove_by_hash_correct(2) [OF tomb_layout.intro, OF assms None] assms(2)
    by (simp add: fun_upd_idem)
next
  case (Some v)
  then obtain u where u: "tomb_remove_by_hash D t (hash k) (\<lambda>x. x = k) = Some (Some (k, v), u)"
    "tomb_wf D hash u" "tomb_map u = (tomb_map t)(k := None)"
    using tomb_layout.remove_by_hash_correct(1) [OF tomb_layout.intro, OF assms Some] by blast
  have "tt_growth_left u = tt_growth_left t"
    using u(1) by (auto simp: tomb_remove_by_hash_def tomb_erase_slot_def tomb_write_def tomb_set_meta_def Let_def
        split: option.splits)
  then show ?thesis using u Some by auto
qed

theorem tomb_remove_refines_witness:
  "\<exists>u. tomb_remove_by_hash tomb_sample_design tomb_sample 5 (\<lambda>x. x = 5) = Some (Some (5, 7), u) \<and>
    tomb_wf tomb_sample_design (\<lambda>k. k) u \<and> tomb_map u = Map.empty \<and> tt_growth_left u = 13"
  using tomb_remove_refines [OF tomb_sample_valid tomb_sample_insert(2), of 5] tomb_sample_facts(2) tomb_sample_insert(3)
  by auto

text \<open>
  C28. The entry path of a tombstone table: \<^verbatim>\<open>find_for_entry\<close> always returns; it finds
  the position of a key in the map, and a slot it names for an absent key, a tombstone
  or an empty one, can be filled by \<^verbatim>\<open>insert_at\<close>.
\<close>

theorem tomb_find_for_entry_insert_at:
  assumes "valid_design D" "tomb_wf D hash t"
  shows "\<exists>r. tomb_find_for_entry D t (hash k) k = Some r \<and>
    (case r of
       ProbeFound gi si \<Rightarrow> \<exists>v. tomb_map t k = Some v \<and> tomb_at D t gi si k v
     | ProbeVacant None \<Rightarrow> tomb_map t k = None \<and> tt_growth_left t = 0
     | ProbeVacant (Some (gi, si, m)) \<Rightarrow> tomb_map t k = None \<and>
         tomb_wf D hash (tomb_insert_at D t (hash k) gi si k v m) \<and>
         tomb_map (tomb_insert_at D t (hash k) gi si k v m) = (tomb_map t)(k \<mapsto> v) \<and>
         tomb_at D (tomb_insert_at D t (hash k) gi si k v m) gi si k v)"
proof (cases "tomb_map t k")
  case (Some w)
  obtain gi si where "tomb_find_for_entry D t (hash k) k = Some (ProbeFound gi si)" "tomb_at D t gi si k w"
    using tomb_layout.find_for_entry_correct(1) [OF tomb_layout.intro, OF assms Some] by blast
  then show ?thesis using Some by simp
next
  case None
  note ins = tomb_layout.insert_at_correct [OF tomb_layout.intro, OF assms(1)]
  show ?thesis
    using tomb_layout.find_for_entry_correct(2) [OF tomb_layout.intro, OF assms None] None ins
    by (auto simp: tomb_wf_def)
qed

theorem tomb_find_for_entry_insert_at_witness:
  "\<exists>r. tomb_find_for_entry tomb_sample_design tomb_sample 6 6 = Some r \<and>
    (case r of
       ProbeFound gi si \<Rightarrow> \<exists>v. tomb_map tomb_sample 6 = Some v \<and> tomb_at tomb_sample_design tomb_sample gi si 6 v
     | ProbeVacant None \<Rightarrow> tomb_map tomb_sample 6 = None \<and> tt_growth_left tomb_sample = 0
     | ProbeVacant (Some (gi, si, m)) \<Rightarrow> tomb_map tomb_sample 6 = None \<and>
         tomb_wf tomb_sample_design (\<lambda>k. k) (tomb_insert_at tomb_sample_design tomb_sample 6 gi si 6 8 m) \<and>
         tomb_map (tomb_insert_at tomb_sample_design tomb_sample 6 gi si 6 8 m) = (tomb_map tomb_sample)(6 \<mapsto> 8) \<and>
         tomb_at tomb_sample_design (tomb_insert_at tomb_sample_design tomb_sample 6 gi si 6 8 m) gi si 6 8)"
  using tomb_find_for_entry_insert_at [OF tomb_sample_valid tomb_sample_insert(2), of 6 8] .

text \<open>
  C29. Every state a tombstone table can reach is well-formed: its length is the size
  of its map; once allocated, the growth counter, the entries and the tombstones add up
  to the load limit, so the counter never wraps and an \<^const>\<open>EMPTY\<close> byte remains.
\<close>

theorem tomb_reachable_invariant:
  assumes "valid_design D" "tomb_reachable D hash t"
  shows "tomb_wf D hash t \<and> tt_len t = card (dom (tomb_map t)) \<and> EMPTY \<in> set (tt_ctrl t) \<and>
    tt_growth_left t + tt_len t + tombs t = tt_max_load t"
proof -
  have wf: "tomb_wf D hash t" by (rule tomb_layout.reachable_wf [OF tomb_layout.intro, OF assms])
  moreover have "EMPTY \<in> set (tt_ctrl t) \<and> tt_growth_left t + tt_len t + tombs t = tt_max_load t"
    using wf
  proof (cases rule: tomb_layout.wf_cases [OF tomb_layout.intro, OF assms(1), consumes 1, case_names Unallocated Allocated])
    case Unallocated
    then show ?thesis by (simp add: EMPTY_def tombs_def TOMBSTONE_def filter_replicate)
  next
    case Allocated
    then show ?thesis
      using tomb_layout.counts_empty [OF tomb_layout.intro, OF assms(1) Allocated] by (simp add: tomb_counts_def)
  qed
  ultimately show ?thesis using tomb_layout.wf_len_card [OF tomb_layout.intro, OF assms(1) wf] by blast
qed

theorem tomb_reachable_invariant_witness:
  "tomb_wf tomb_sample_design (\<lambda>k. k) tomb_sample \<and> tt_len tomb_sample = card (dom (tomb_map tomb_sample)) \<and>
   EMPTY \<in> set (tt_ctrl tomb_sample) \<and> tt_growth_left tomb_sample + tt_len tomb_sample + tombs tomb_sample = tt_max_load tomb_sample"
  using tomb_reachable_invariant [OF tomb_sample_valid tomb_sample_reachable] .

text \<open>
  C30. On a table that may double, \<^verbatim>\<open>grow_or_rehash\<close> returns, keeps the map and the length, removes every
  tombstone and leaves room for an insertion. It doubles the group count of a table whose entries reach the load
  limit, allocates one group for an unallocated table, and otherwise rehashes at the same group count.
\<close>

theorem tomb_grow_or_rehash_refines:
  fixes D :: "'w::len tomb_design"
  assumes "valid_design D" "tomb_wf D hash t" "tomb_can_grow t"
  shows "\<exists>u. tomb_grow_or_rehash D hash t = Some u \<and> tomb_wf D hash u \<and> tomb_map u = tomb_map t \<and>
    tt_len u = tt_len t \<and> tombs u = 0 \<and> 0 < tt_growth_left u \<and>
    tomb_num_groups u =
      (if \<not> tomb_is_allocated t then 1
       else if tomb_max_load (tomb_num_groups t * LENGTH('w)) \<le> tt_len t then tomb_num_groups t * 2
       else tomb_num_groups t)"
  by (rule tomb_layout.grow_or_rehash_correct [OF tomb_layout.intro, OF assms])
    (auto simp: tomb_wf_def tomb_layout.grown_groups_def [OF tomb_layout.intro, OF assms(1)])

theorem tomb_grow_or_rehash_refines_witness:
  "tombs tomb_sample_removed = 1 \<and>
   (\<exists>u. tomb_grow_or_rehash tomb_sample_design (\<lambda>k. k) tomb_sample_removed = Some u \<and> tomb_map u = [6 \<mapsto> 8] \<and>
     tombs u = 0 \<and> 0 < tt_growth_left u \<and> tomb_num_groups u = 1)"
proof -
  have facts: "tombs tomb_sample_removed = 1" "tomb_is_allocated tomb_sample_removed" "tt_mask tomb_sample_removed = 0"
    "tt_len tomb_sample_removed = 1" by code_simp+
  then show ?thesis
    using tomb_grow_or_rehash_refines [OF tomb_sample_valid tomb_sample_removed_wf(1)] tomb_sample_removed_wf(2)
    by (auto simp: tomb_can_grow_def tomb_num_groups_def tomb_max_load_def)
qed

text \<open>
  C31. The byte-offset probe loops of the feature \<^verbatim>\<open>tomb-byte-offset-probe\<close> agree with
  the loops over group indices: lookup, insertion, the insertion during a rehash and the entry probe, for
  every table with an \<^const>\<open>EMPTY\<close> byte whose metadata fits the address space.
\<close>

theorem byte_offset_probes_agree:
  assumes "valid_design D" "tomb_ctrl_ok D t" "EMPTY \<in> set (tt_ctrl t)" "groups_ok (length (tt_ctrl t))"
  shows "byte_find_by_hash D t h eq = tomb_find_by_hash D t h eq \<and>
    byte_insert_no_check D t h k v = tomb_insert_no_check D t h k v \<and>
    byte_insert_after_resize D t h k v = tomb_insert_after_resize D t h k v \<and>
    byte_find_or_locate D t h eq = tomb_find_or_locate D t h eq"
proof -
  have ok: "groups_ok (Suc (tt_mask t) * LENGTH('a))" using assms(2,4) by (simp add: tomb_ctrl_ok_def)
  show ?thesis
    using tomb_layout.byte_find_eq [OF tomb_layout.intro, OF assms(1-3) ok]
      tomb_layout.byte_insert_no_check_eq [OF tomb_layout.intro, OF assms(1-3) ok]
      tomb_layout.byte_insert_after_resize_eq [OF tomb_layout.intro, OF assms(1-3) ok]
      tomb_layout.byte_find_or_locate_eq [OF tomb_layout.intro, OF assms(1-3) ok] by blast
qed

theorem byte_offset_probes_agree_witness:
  "byte_find_by_hash tomb_sample_design tomb_sample 5 (\<lambda>x. x = 5) = tomb_find_by_hash tomb_sample_design tomb_sample 5 (\<lambda>x. x = 5) \<and>
   byte_insert_no_check tomb_sample_design tomb_sample 6 6 8 = tomb_insert_no_check tomb_sample_design tomb_sample 6 6 8 \<and>
   byte_insert_after_resize tomb_sample_design tomb_sample 6 6 8 = tomb_insert_after_resize tomb_sample_design tomb_sample 6 6 8 \<and>
   byte_find_or_locate tomb_sample_design tomb_sample 6 (\<lambda>x. x = 6) = tomb_find_or_locate tomb_sample_design tomb_sample 6 (\<lambda>x. x = 6)"
proof -
  have len: "length (tt_ctrl tomb_sample) = 16" by code_simp
  have ok: "tomb_ctrl_ok tomb_sample_design tomb_sample" using tomb_sample_facts(1) len by (simp add: tomb_ctrl_ok_def)
  have empty: "EMPTY \<in> set (tt_ctrl tomb_sample)" by code_simp
  have groups: "groups_ok (length (tt_ctrl tomb_sample))"
    unfolding len groups_ok_def by (rule exI [of _ 4]) simp
  show ?thesis using byte_offset_probes_agree [OF tomb_sample_valid ok empty groups] by blast
qed

text \<open>
  C32. Iterating a tombstone table visits every entry once; consuming it moves out every
  entry once and leaves nothing to drop, although it destroys the probe paths as it goes;
  dropping runs over exactly the initialised buckets; cloning reproduces the table.
\<close>

theorem tomb_iteration_complete:
  assumes "valid_design D" "tomb_wf D hash t"
  shows "distinct (tomb_iter_slots D t) \<and> length (tomb_iter_slots D t) = tt_len t \<and>
    map_of (map (tomb_entry D t) (tomb_iter_slots D t)) = tomb_map t \<and>
    fst (tomb_into_iter D t) = map (tomb_entry D t) (tomb_iter_slots D t) \<and>
    tt_len (snd (tomb_into_iter D t)) = 0 \<and> tomb_drop_slots D (snd (tomb_into_iter D t)) = [] \<and>
    distinct (tomb_drop_slots D t) \<and>
    set (tomb_drop_slots D t) = {i. i < length (tt_buckets t) \<and> tt_buckets t ! i \<noteq> None} \<and>
    tomb_clone D t = t"
  using tomb_layout.iter_slots_correct [OF tomb_layout.intro, OF assms]
    tomb_layout.into_iter_correct [OF tomb_layout.intro, OF assms]
    tomb_layout.drop_slots_correct [OF tomb_layout.intro, OF assms]
    tomb_layout.clone_correct [OF tomb_layout.intro, OF assms]
  by (simp add: tomb_map_def bucket_map_def)

theorem tomb_iteration_complete_witness:
  "length (tomb_iter_slots tomb_sample_design tomb_sample) = 1 \<and>
   map_of (fst (tomb_into_iter tomb_sample_design tomb_sample)) = [5 \<mapsto> 7] \<and>
   tomb_clone tomb_sample_design tomb_sample = tomb_sample"
  using tomb_iteration_complete [OF tomb_sample_valid tomb_sample_insert(2)] tomb_sample_facts(4) tomb_sample_insert(3)
  by simp

end
