(* ===== verification/Overflow_Map.thy ===== *)
theory Overflow_Map
  imports Overflow_Reachable Generic_Step
begin

text \<open>
  The overflow-bit engine as the table of a map: its implementation of \<^verbatim>\<open>RawTableApi\<close>,
  and the contract of the map discharged for it. A lookup of an absent key ends when
  some group lacks the overflow bit of its channel.
\<close>

definition overflow_write ::
  "'w::len layout \<Rightarrow> ('k, 'v) raw_table \<Rightarrow> nat \<Rightarrow> nat \<Rightarrow> ('k \<times> 'v) option \<Rightarrow> ('k, 'v) raw_table" where
  "overflow_write L t gi si x =
    (case x of None \<Rightarrow> bucket_moved_out L t gi si | Some (k, v) \<Rightarrow> bucket_write L t gi si k v)"

definition overflow_api :: "'w::len layout \<Rightarrow> (('k, 'v) raw_table, 'k, 'v) raw_table_api" where
  "overflow_api L = \<lparr>
     ra_new = raw_new, ra_with_capacity = with_capacity L,
     ra_len = rt_len, ra_capacity = capacity L, ra_is_allocated = is_allocated,
     ra_clear = clear L, ra_key = key_at L, ra_value = value_at L, ra_write = overflow_write L,
     ra_find_by_hash = find_by_hash L, ra_insert_or_replace = insert_or_replace L,
     ra_find_for_entry = find_for_entry L, ra_insert_at = insert_at L,
     ra_insert_no_check = insert_no_check L, ra_ensure_capacity = ensure_capacity L,
     ra_remove_by_hash = remove_by_hash L, ra_erase_slot = erase_slot L,
     ra_reserve = reserve L, ra_shrink_to_fit = shrink_to_fit L,
     ra_iter_slots = iter_slots L, ra_into_iter = into_iter L, ra_drain = drain L,
     ra_clone = clone_table L\<rparr>"

lemma overflow_api_simps [simp]:
  "ra_new (overflow_api L) = raw_new" "ra_with_capacity (overflow_api L) = with_capacity L"
  "ra_len (overflow_api L) = rt_len" "ra_capacity (overflow_api L) = capacity L"
  "ra_is_allocated (overflow_api L) = is_allocated" "ra_clear (overflow_api L) = clear L"
  "ra_key (overflow_api L) = key_at L" "ra_value (overflow_api L) = value_at L" "ra_write (overflow_api L) = overflow_write L"
  "ra_find_by_hash (overflow_api L) = find_by_hash L" "ra_insert_or_replace (overflow_api L) = insert_or_replace L"
  "ra_find_for_entry (overflow_api L) = find_for_entry L" "ra_insert_at (overflow_api L) = insert_at L"
  "ra_insert_no_check (overflow_api L) = insert_no_check L" "ra_ensure_capacity (overflow_api L) = ensure_capacity L"
  "ra_remove_by_hash (overflow_api L) = remove_by_hash L" "ra_erase_slot (overflow_api L) = erase_slot L"
  "ra_reserve (overflow_api L) = reserve L" "ra_shrink_to_fit (overflow_api L) = shrink_to_fit L"
  "ra_iter_slots (overflow_api L) = iter_slots L" "ra_into_iter (overflow_api L) = into_iter L"
  "ra_drain (overflow_api L) = drain L" "ra_clone (overflow_api L) = clone_table L"
  by (simp_all add: overflow_api_def)

definition overflow_holds ::
  "'w::len layout \<Rightarrow> ('k \<Rightarrow> u64) \<Rightarrow> ('k, 'v) raw_table \<Rightarrow> nat \<Rightarrow> nat \<Rightarrow> 'k \<Rightarrow> 'v \<Rightarrow> bool" where
  "overflow_holds L hash t gi si k v \<longleftrightarrow> table_core L hash t \<and> at_slot L t gi si k v"

context overflow_layout
begin

lemma holds_entry:
  assumes "overflow_holds L hash t gi si k v"
  shows "table_map t k = Some v" "key_at L t gi si = k" "value_at L t gi si = v" "si < BUCKET_STRIDE L"
proof -
  have a: "table_core L hash t" "gi \<le> rt_mask t" "si < GROUP_SIZE L" "slot L t gi si = Some (k, v)"
    using assms by (auto simp: overflow_holds_def at_slot_def)
  show "key_at L t gi si = k" "value_at L t gi si = v" using key_at_slot [OF a(4)] by simp_all
  show "si < BUCKET_STRIDE L" using a(3) layout_simps(4) by linarith
  have "bucket_map (rt_buckets t) k = Some v"
    using a slot_index(2) [OF core_shape [OF a(1)] a(2,3)]
    by (subst bucket_map_Some_iff) (auto simp: table_core_def slot_def)
  then show "table_map t k = Some v" by (simp add: table_map_def)
qed

lemma wf_load:
  assumes "table_wf L hash t" "table_core L hash t" "0 < rt_len t"
  shows "rt_len t \<le> rt_max_load t" "rt_max_load t \<le> full_load L (Suc (rt_mask t))"
  using assms by (auto simp: table_wf_def unallocated_def)

lemma write_holds:
  fixes w :: 'v
  assumes "table_wf L hash t" "overflow_holds L hash t gi si k (v :: 'v)"
  defines "u \<equiv> overflow_write L t gi si (Some (k, w))"
  shows "table_wf L hash u" "table_map u = (table_map t)(k \<mapsto> w)" "overflow_holds L hash u gi si k w" "rt_mask u = rt_mask t"
    "overflow_holds L hash t g s k' v' \<Longrightarrow> (g, s) \<noteq> (gi, si) \<Longrightarrow> overflow_holds L hash u g s k' v'"
proof -
  have t: "table_core L hash t" "at_slot L t gi si k v" using assms(2) by (auto simp: overflow_holds_def)
  have g: "gi \<le> rt_mask t" "si < GROUP_SIZE L" using t(2) by (auto simp: at_slot_def)
  have u: "snd (replace_value L t gi si w) = u"
    by (simp add: u_def overflow_write_def replace_value_def value_write_def holds_entry(2) [OF assms(2)])
  note r = replace_value_correct [OF t, of w, unfolded u]
  show "table_wf L hash u" using replace_wf [OF assms(1) t, of w] u by (metis snd_conv)
  show "table_map u = (table_map t)(k \<mapsto> w)" "rt_mask u = rt_mask t" by (rule r)+
  have sl: "slot L u g s = (if g = gi \<and> s = si then Some (k, w) else slot L t g s)" if "s < BUCKET_STRIDE L" for g s
    by (rule slot_update [OF core_shape [OF t(1)] g that r(9)])
  show "overflow_holds L hash u gi si k w"
    using r(2,6) g sl [OF holds_entry(4) [OF assms(2)], of gi] by (simp add: overflow_holds_def at_slot_def)
  show "overflow_holds L hash u g s k' v'" if a: "overflow_holds L hash t g s k' v'" "(g, s) \<noteq> (gi, si)"
    using a r(2,6) sl [OF holds_entry(4) [OF a(1)], of g] by (auto simp: overflow_holds_def at_slot_def)
qed

lemma erase_holds:
  assumes "table_wf L hash t" "overflow_holds L hash t gi si k v"
  defines "u \<equiv> erase_slot L (overflow_write L t gi si None) (hash k) gi si"
  shows "table_wf L hash u" "table_map u = (table_map t)(k := None)"
    "overflow_holds L hash t g s k' v' \<Longrightarrow> (g, s) \<noteq> (gi, si) \<Longrightarrow> overflow_holds L hash u g s k' v'"
proof -
  have t: "table_core L hash t" "at_slot L t gi si k v" using assms(2) by (auto simp: overflow_holds_def)
  have g: "gi \<le> rt_mask t" "si < GROUP_SIZE L" using t(2) by (auto simp: at_slot_def)
  have u: "u = erase_slot L (bucket_moved_out L t gi si) (hash k) gi si" by (simp add: u_def overflow_write_def)
  note e = erase_slot_correct [OF t, where h = "hash k", folded u]
  show "table_map u = (table_map t)(k := None)" by (rule e)
  have "0 < rt_len t" using e(3) by simp
  then show "table_wf L hash u" using wf_load [OF assms(1) t(1)] e(1,3,4,5) by (auto simp: table_wf_def)
  show "overflow_holds L hash u g s k' v'" if a: "overflow_holds L hash t g s k' v'" "(g, s) \<noteq> (gi, si)"
    using a e(1,4) slot_update [OF core_shape [OF t(1)] g holds_entry(4) [OF a(1)] e(8), of g]
    by (auto simp: overflow_holds_def at_slot_def)
qed

end

context safe_layout
begin

text \<open>In a table that may grow, the arithmetic on its length does not overflow.\<close>

lemma can_grow_capacity:
  assumes wf: "table_wf L hash t" and grow: "can_grow t"
  shows "capacity_ok L (rt_len t)"
proof -
  have num: "LOAD_FACTOR_NUM L \<le> 16" "GROUP_SIZE L \<le> 64" using layout_simps(6,8,9) by linarith+
  have "rt_len t \<le> full_load L (Suc (rt_mask t))"
    using wf_no_load [OF wf] wf by (auto simp: table_wf_def unallocated_def)
  also have "full_load L (Suc (rt_mask t)) * LOAD_FACTOR_DEN L \<le> Suc (rt_mask t) * GROUP_SIZE L * LOAD_FACTOR_NUM L"
    by (simp add: full_load_def max_load_for_capacity_def)
  finally have "rt_len t * LOAD_FACTOR_DEN L \<le> Suc (rt_mask t) * GROUP_SIZE L * LOAD_FACTOR_NUM L" by simp
  moreover have "\<dots> \<le> (2 ^ 54 - 1) * 64 * 16"
    using grow num unfolding can_grow_def by (intro mult_le_mono) auto
  moreover have "(2 ^ 54 - 1) * 64 * 16 + 16 + 64 \<le> (2 ^ 64 :: nat)" by simp
  ultimately show ?thesis using num unfolding capacity_ok_def by linarith
qed

lemma first_groups: "groups_for_capacity L (Suc 0) = 1"
proof -
  have "16 + 16 + 64 \<le> (2 ^ 64 :: nat)" by simp
  then have "capacity_ok L (Suc 0)" using layout_simps(6,8,9) unfolding capacity_ok_def mult_Suc mult_0 by linarith
  then have "groups_for_capacity L (Suc 0) \<le> 2 ^ 0"
    by (rule groups_for_capacity_least) (use full_load_pos [of 1] in simp)
  then show ?thesis using groups_ok_pos [OF groups_for_capacity_ok [of "Suc 0"]] by simp
qed

lemma reserve_first_correct:
  assumes "table_wf L hash t" "\<not> is_allocated t"
  shows "\<exists>u. reserve L hash t 1 = Some (Inr u) \<and> table_wf L hash u \<and> table_map u = table_map t \<and> can_grow u \<and>
    lookup_stops L u h"
proof -
  let ?u = "allocate L t 1"
  have t: "rt_max_load t = 0" "rt_len t = 0" "table_map t = Map.empty"
    using assms wf_no_load [OF assms(1)] by (simp_all add: is_allocated_def)
  have "reserve L hash t 1 = Some (Inr ?u)" by (simp add: reserve_def t first_groups Let_def)
  moreover have "table_wf L hash ?u" by (rule allocate_wf [OF groups_ok_1(1) t(2)])
  moreover have "\<not> overflowed L ?u h 0"
    using zero_ctrl(1) [OF allocate_shape [OF groups_ok_1(1), of t], of _ 0] by (simp add: overflowed_def allocate_def)
  ultimately show ?thesis by (auto simp: t can_grow_def lookup_stops_def)
qed

lemma mapped_core:
  assumes "table_wf L hash t" "table_map t k = Some v"
  shows "table_core L hash t"
  by (rule find_present [OF assms])

lemma find_holds:
  assumes "table_wf L hash t" "table_map t k = Some v"
  shows "\<exists>gi si. find_by_hash L t (hash k) (\<lambda>x. x = k) = Some (Some (gi, si)) \<and> overflow_holds L hash t gi si k v"
  by (rule find_present [OF assms]) (auto simp: overflow_holds_def)

lemma entry_holds:
  assumes "table_wf L hash t" "table_map t k = Some v"
  shows "\<exists>gi si. find_for_entry L t (hash k) k = Some (ProbeFound gi si) \<and> overflow_holds L hash t gi si k v"
proof -
  show ?thesis using mapped_core [OF assms] by (rule_tac find_for_entry_present [OF assms]) (auto simp: overflow_holds_def)
qed

lemma vacant_at_holds:
  assumes "table_wf L hash t" "table_map t k = None" "lookup_stops L t (hash k)"
    and f: "find_for_entry L t (hash k) k = Some (ProbeVacant (Some (gi, si, msk)))"
  shows "table_wf L hash (insert_at L t (hash k) gi si k v msk) \<and>
    table_map (insert_at L t (hash k) gi si k v msk) = (table_map t)(k \<mapsto> v) \<and>
    overflow_holds L hash (insert_at L t (hash k) gi si k v msk) gi si k v"
proof -
  have ins: "insertable L t (hash k) gi si msk" "table_core L hash t" "rt_len t < rt_max_load t"
    by (rule find_for_entry_absent [OF assms(1) sentinel assms(2,3)]; use f in simp)+
  note i = insert_at_correct [OF assms(1) ins(2,3) assms(2) ins(1), of v]
  show ?thesis using i mapped_core [OF i(1), of k v] by (simp add: overflow_holds_def)
qed

lemma vacant_grow_holds:
  assumes "table_wf L hash t" "can_grow t" "table_map t k = None"
  shows "\<exists>s gi si u. ensure_capacity L hash t = Some s \<and> insert_no_check L s (hash k) k v = Some ((gi, si), u) \<and>
    table_wf L hash u \<and> table_map u = (table_map t)(k \<mapsto> v) \<and> overflow_holds L hash u gi si k v"
proof -
  obtain s where run: "ensure_capacity L hash t = Some s"
  proof (cases "rt_max_load t \<le> rt_len t")
    case True
    then show ?thesis
      by (rule_tac grow_correct [OF assms(1,2)]) (auto simp: ensure_capacity_def grow_and_rehash_def intro: that)
  qed (use that in \<open>simp add: ensure_capacity_def\<close>)
  note s = ensure_capacity_room [OF assms(1,2) run]
  have "table_map s k = None" using s(4) assms(3) by simp
  then obtain gi si u where u: "insert_no_check L s (hash k) k v = Some ((gi, si), u)"
    "table_wf L hash u" "table_map u = (table_map s)(k \<mapsto> v)" "at_slot L u gi si k v"
    by (rule insert_no_check_wf [OF s(1-3)])
  then show ?thesis using run s(4) mapped_core [OF u(2), of k v] by (simp add: overflow_holds_def)
qed

lemma iter_holds:
  assumes "table_wf L hash t"
  shows "map_of (map (\<lambda>p. (key_at L t (fst p) (snd p), value_at L t (fst p) (snd p))) (iter_slots L t)) = table_map t"
    and "(gi, si) \<in> set (iter_slots L t) \<Longrightarrow> \<exists>k v. overflow_holds L hash t gi si k v"
    and "fst (into_iter L t) = map (\<lambda>p. (key_at L t (fst p) (snd p), value_at L t (fst p) (snd p))) (iter_slots L t)"
proof -
  note it = iter_slots_correct [OF assms]
  show "map_of (map (\<lambda>p. (key_at L t (fst p) (snd p), value_at L t (fst p) (snd p))) (iter_slots L t)) = table_map t"
    "fst (into_iter L t) = map (\<lambda>p. (key_at L t (fst p) (snd p), value_at L t (fst p) (snd p))) (iter_slots L t)"
    using it(1) into_iter_correct(1) [OF assms] by (simp_all add: entry_at_def [abs_def] table_map_def bucket_map_def)
  show "\<exists>k v. overflow_holds L hash t gi si k v" if p: "(gi, si) \<in> set (iter_slots L t)"
    using assms
  proof (cases rule: wf_cases)
    case Unallocated
    then show ?thesis using p it(3) by (simp add: unallocated_def)
  next
    case Allocated
    then show ?thesis
      using p iter_slots_core [OF Allocated(1,2)] set_occupied_slots [OF Allocated(1)]
      by (auto simp: overflow_holds_def at_slot_def)
  qed
qed

lemma clone_same_map:
  assumes "table_wf L hash t"
  shows "table_wf L hash (clone_table L t)" "table_map (clone_table L t) = table_map t"
  using clone_table_eq [OF assms] wf_no_load [OF assms] assms
  by (cases "rt_max_load t = 0"; simp add: clone_table_def [of L t])+

end


sublocale safe_layout \<subseteq> api: table_contract "overflow_api L" hash "table_wf L hash" table_map "overflow_holds L hash"
  "lookup_stops L" can_grow
  for hash :: "'k \<Rightarrow> u64"
  apply (unfold_locales; unfold overflow_api_simps)
  subgoal by simp
  subgoal by (simp add: with_capacity_correct(1,2))
  subgoal by (rule len_card)
  subgoal by (simp add: clear_correct(1,2))
  subgoal for t gi si k v using holds_entry [of hash t gi si k v] by simp
  subgoal for t gi si k v w using write_holds(1-4) [of hash t gi si k v w] by (simp add: can_grow_def)
  subgoal by (rule write_holds(5))
  subgoal for t gi si k v using erase_holds(1,2) [of hash t gi si k v] by simp
  subgoal by (rule erase_holds(3))
  subgoal by (rule find_holds)
  subgoal for t k using find_absent [of hash t "\<lambda>x. x = k" "hash k"] sentinel by simp
  subgoal by (simp add: is_allocated_def wf_no_load)
  subgoal by (rule insert_or_replace_correct)
  subgoal for t k v by (rule remove_present [of hash t k v]) auto
  subgoal for t k using remove_absent [of hash t "\<lambda>x. x = k" "hash k"] sentinel by simp
  subgoal by (rule entry_holds)
  subgoal for t k by (rule find_for_entry_absent [of hash t k]) (auto intro: sentinel)
  subgoal by (rule vacant_at_holds)
  subgoal by (rule vacant_grow_holds)
  subgoal by (rule reserve_first_correct)
  subgoal for t n by (rule reserve_correct [of hash t n]) auto
  subgoal by (simp add: reserve_def)
  subgoal for t using can_grow_capacity [of hash t] by (auto elim: shrink_to_fit_correct [of hash t])
  subgoal for t using iter_holds(1,2) [of hash t] iter_slots_correct(2,3) [of hash t] by auto
  subgoal by (rule iter_holds(3))
  subgoal by (simp add: drain_def)
  subgoal by (simp add: clone_same_map)
  done

section \<open>The map over the engine\<close>

context safe_layout
begin

lemma map_ok:
  "api.gm_ok hash m \<longleftrightarrow> table_wf L hash (gm_table m) \<and> gm_hash m = hash" "api.gm_content m = table_map (gm_table m)"
  "api.key_stops hash m k \<longleftrightarrow> (table_map (gm_table m) k = None \<longrightarrow> lookup_stops L (gm_table m) (hash k))"
  by (simp_all add: api.gm_ok_def api.gm_content_def api.key_stops_def)

theorem map_step:
  assumes "table_wf L (gm_hash m) (gm_table m)" "can_grow (gm_table m)"
    and "\<And>k. op_key p = Some k \<Longrightarrow> table_map (gm_table m) k = None \<Longrightarrow> lookup_stops L (gm_table m) (gm_hash m k)"
  shows "\<exists>u. gm_step (overflow_api L) m p = Some (fst (map_spec (table_map (gm_table m)) p), u) \<and>
    table_wf L (gm_hash u) (gm_table u) \<and> gm_hash u = gm_hash m \<and>
    table_map (gm_table u) = snd (map_spec (table_map (gm_table m)) p)"
  using api.step_correct [of "gm_hash m" m p] assms by (auto simp: api.refines_step_def map_ok)

theorem map_eq:
  assumes "table_wf L (gm_hash m) (gm_table m)" "table_wf L (gm_hash n) (gm_table n)"
    and "\<And>k. table_map (gm_table m) k \<noteq> None \<Longrightarrow> table_map (gm_table n) k = None \<Longrightarrow> lookup_stops L (gm_table n) (gm_hash n k)"
  shows "gm_eq (overflow_api L) m n = Some (table_map (gm_table m) = table_map (gm_table n))"
proof -
  have m: "api.gm_ok (gm_hash m) m" and n: "api.gm_ok (gm_hash n) n" using assms by (simp_all add: map_ok)
  show ?thesis
    using eq_correct [OF api.iter_correct(1,2,4) [OF m] api.iter_correct(4,5) [OF n]]
      api.get_correct(1) [OF n] assms(3) by (auto simp: map_ok)
qed

end

end
