(* ===== verification/Map_Properties.thy ===== *)
theory Map_Properties
  imports Overflow_Properties Tomb_Properties Overflow_Map
begin

text \<open>
  The properties of the map: over either engine it behaves like a partial function.
\<close>

section \<open>The engines as tables of the map\<close>

interpretation ipo_map: table_contract "tomb_api (InPlaceOverflow HighTomb_reduced_hash)" hash
  "tomb_wf (InPlaceOverflow HighTomb_reduced_hash) hash" tomb_map "tomb_holds (InPlaceOverflow HighTomb_reduced_hash) hash"
  "\<lambda>t h. True" tomb_can_grow for hash :: "'k \<Rightarrow> u64"
  by (rule high_tomb.api.table_contract_axioms)

interpretation splitsies_map: table_contract "overflow_api (SplitsiesLayout f)" hash
  "table_wf (SplitsiesLayout f) hash" table_map "overflow_holds (SplitsiesLayout f) hash"
  "lookup_stops (SplitsiesLayout f)" can_grow for f and hash :: "'k \<Rightarrow> u64"
  by (rule splitsies.api.table_contract_axioms)

abbreviation tomb_sample_map :: "((u64, nat) tomb_table, u64) generic_map" where
  "tomb_sample_map \<equiv> \<lparr>gm_table = tomb_sample, gm_hash = \<lambda>k. k\<rparr>"

abbreviation sample_map :: "((u64, nat) raw_table, u64) generic_map" where
  "sample_map \<equiv> \<lparr>gm_table = sample1, gm_hash = \<lambda>k. k\<rparr>"

section \<open>Properties\<close>

text \<open>
  C33. A map over the tombstone engine refines a partial function: each operation
  (lookup, insertion, removal, the entry forms, the raw entry, retain, clear, shrinking,
  cloning, draining) returns the result and gives the map that the same operation has on
  the partial function, and keeps the table well-formed and the hasher. It needs room to double
  the group count.
\<close>

theorem tomb_map_refines:
  assumes "valid_design D" "tomb_wf D (gm_hash m) (gm_table m)" "tomb_can_grow (gm_table m)"
  shows "\<exists>u. gm_step (tomb_api D) m p = Some (fst (map_spec (tomb_map (gm_table m)) p), u) \<and>
    tomb_wf D (gm_hash u) (gm_table u) \<and> gm_hash u = gm_hash m \<and>
    tomb_map (gm_table u) = snd (map_spec (tomb_map (gm_table m)) p)"
  by (rule tomb_layout.map_step [OF tomb_layout.intro, OF assms])

theorem tomb_map_refines_witness:
  "(\<exists>u. gm_step (tomb_api tomb_sample_design) tomb_sample_map (ModifyOrInsert 5 Suc 1) = Some (Returned (Some 8), u) \<and>
      tomb_map (gm_table u) = [5 \<mapsto> 8]) \<and>
   (\<exists>u. gm_step (tomb_api tomb_sample_design) tomb_sample_map (ModifyOrInsert 6 Suc 1) = Some (Returned (Some 1), u) \<and>
      tomb_map (gm_table u) = [5 \<mapsto> 7, 6 \<mapsto> 1]) \<and>
   (\<exists>u. gm_step (tomb_api tomb_sample_design) tomb_sample_map (TryInsert 5 9) = Some (Tried (Inl (5, 9)), u))"
  using tomb_map_refines [OF tomb_sample_valid, of tomb_sample_map "ModifyOrInsert 5 Suc 1"]
    tomb_map_refines [OF tomb_sample_valid, of tomb_sample_map "ModifyOrInsert 6 Suc 1"]
    tomb_map_refines [OF tomb_sample_valid, of tomb_sample_map "TryInsert 5 9"]
    tomb_sample_insert(2,3) tomb_sample_facts(1)
  by (auto simp: tomb_can_grow_def)

text \<open>
  C34. A map over the overflow-bit engine refines a partial function in the same way,
  whenever the lookup of the key the operation names can end.
\<close>

theorem overflow_map_refines:
  assumes "valid_layout L" "sentinel_ok L" "table_wf L (gm_hash m) (gm_table m)" "can_grow (gm_table m)"
    and "\<And>k. op_key p = Some k \<Longrightarrow> table_map (gm_table m) k = None \<Longrightarrow> lookup_stops L (gm_table m) (gm_hash m k)"
  shows "\<exists>u. gm_step (overflow_api L) m p = Some (fst (map_spec (table_map (gm_table m)) p), u) \<and>
    table_wf L (gm_hash u) (gm_table u) \<and> gm_hash u = gm_hash m \<and>
    table_map (gm_table u) = snd (map_spec (table_map (gm_table m)) p)"
  by (rule safe_layout.map_step [OF safe_layoutI, OF assms])

theorem overflow_map_refines_witness:
  "\<exists>u. gm_step (overflow_api sample_layout) sample_map (OrInsert 6 8) = Some (Returned (Some 8), u) \<and>
     table_map (gm_table u) = [5 \<mapsto> 7, 6 \<mapsto> 8]"
  using overflow_map_refines [OF valid_named_layouts(1) sentinel_named(1), of PureRust sample_map "OrInsert 6 8"]
    sample1_insert(2,3) sample1_facts(3,5)
  by auto

text \<open>
  C35. \<^verbatim>\<open>==\<close> on maps over the overflow-bit engine, when the lookup in the second map ends for every key of
  the first that the second lacks, returns and decides whether they have the same entries, whatever their
  hashers and capacities: it compares the lengths and looks up each entry of one in the other. C7 and C8 give
  histories after which the lookups end, C10 one after which such a lookup does not.
\<close>

theorem overflow_map_eq:
  assumes "valid_layout L" "sentinel_ok L" "table_wf L (gm_hash m) (gm_table m)" "table_wf L (gm_hash n) (gm_table n)"
    and "\<And>k. table_map (gm_table m) k \<noteq> None \<Longrightarrow> table_map (gm_table n) k = None \<Longrightarrow> lookup_stops L (gm_table n) (gm_hash n k)"
  shows "gm_eq (overflow_api L) m n = Some (table_map (gm_table m) = table_map (gm_table n))"
  by (rule safe_layout.map_eq [OF safe_layoutI, OF assms])

theorem overflow_map_eq_witness:
  "gm_eq (overflow_api sample_layout) sample_map \<lparr>gm_table = sample0, gm_hash = \<lambda>k. k\<rparr> = Some False"
  using overflow_map_eq [OF valid_named_layouts(1) sentinel_named(1), of PureRust sample_map "\<lparr>gm_table = sample0, gm_hash = \<lambda>k. k\<rparr>"]
    sample1_insert(2,3) sample0_facts(1,2,7)
  by (simp add: fun_eq_iff)

text \<open>
  C36. Iterating a map over the tombstone engine yields its entries, each key once;
  consuming and draining yield the same list; \<^verbatim>\<open>retain\<close> calls its closure on the entries
  in that order, with the closure's state threaded through, and keeps exactly what the closure keeps,
  with the values it wrote.
\<close>

theorem tomb_map_iteration:
  assumes "valid_design D" "tomb_wf D (gm_hash m) (gm_table m)"
  shows "map_of (gm_iter (tomb_api D) m) = tomb_map (gm_table m) \<and> distinct (gm_keys (tomb_api D) m) \<and>
    length (gm_iter (tomb_api D) m) = gm_len (tomb_api D) m \<and> gm_into_iter (tomb_api D) m = gm_iter (tomb_api D) m \<and>
    fst (gm_drain (tomb_api D) m) = gm_iter (tomb_api D) m \<and>
    (\<exists>u. gm_retain (tomb_api D) m f s = (fst (retain_spec f (gm_iter (tomb_api D) m) s), u) \<and>
      tomb_wf D (gm_hash m) (gm_table u) \<and> tomb_map (gm_table u) = map_of (snd (retain_spec f (gm_iter (tomb_api D) m) s)))"
  by (intro conjI tomb_layout.map_iteration [OF tomb_layout.intro, OF assms])

theorem tomb_map_iteration_witness:
  "map_of (gm_iter (tomb_api tomb_sample_design) tomb_sample_map) = [5 \<mapsto> 7] \<and>
   length (gm_iter (tomb_api tomb_sample_design) tomb_sample_map) = 1"
  using tomb_map_iteration [OF tomb_sample_valid, of tomb_sample_map "\<lambda>s k v. (True, v, s)" "()"]
    tomb_sample_insert(2,3) tomb_sample_facts(4)
  by (simp add: gm_len_def)

end
