(* ===== verification/Ipo64_Group.thy ===== *)
theory Ipo64_Group
  imports Group_Ops
begin

text \<open>
  The group operations of the 64-slot tombstone table, \<^verbatim>\<open>src/ipo64/raw/group.rs\<close>: five
  matches, each with an AVX-512BW, an AVX2, an SSE2 and a scalar version, and a dispatch on
  the features of the processor. AVX-512 compares into a mask register; the other tiers
  gather the top bits of the compared bytes.
\<close>

datatype simd_tier = AVX512 | AVX2 | SSE2 | Scalar

section \<open>AVX-512BW: one load\<close>

definition cmpeq_epi8_mask :: "u8 list \<Rightarrow> u8 list \<Rightarrow> u64" where
  "cmpeq_epi8_mask xs ys = horner_sum of_bool 2 (map2 (=) xs ys)"

definition match_byte_avx512 :: "u8 list \<Rightarrow> u8 \<Rightarrow> u64" where
  "match_byte_avx512 data value = cmpeq_epi8_mask data (set1_epi8 64 value)"

definition match_empty_avx512 :: "u8 list \<Rightarrow> u64" where
  "match_empty_avx512 data = cmpeq_epi8_mask data (set1_epi8 64 0)"

definition match_byte_and_empty_avx512 :: "u8 list \<Rightarrow> u8 \<Rightarrow> u64 \<times> u64" where
  "match_byte_and_empty_avx512 data value =
    (cmpeq_epi8_mask data (set1_epi8 64 value), cmpeq_epi8_mask data (set1_epi8 64 0))"

definition match_empty_or_tombstone_avx512 :: "u8 list \<Rightarrow> u64" where
  "match_empty_or_tombstone_avx512 data =
    (let empty = cmpeq_epi8_mask data (set1_epi8 64 0); tomb = cmpeq_epi8_mask data (set1_epi8 64 1)
     in empty OR tomb)"

definition match_occupied_avx512 :: "u8 list \<Rightarrow> u64" where
  "match_occupied_avx512 data =
    (let empty = cmpeq_epi8_mask data (set1_epi8 64 0); tomb = cmpeq_epi8_mask data (set1_epi8 64 1)
     in NOT (empty OR tomb))"

section \<open>AVX2: two loads\<close>

text \<open>A 32-byte register compared with a value, or with 0 and 1; the mask is widened to 64 bits.\<close>

definition half_mask :: "u8 list \<Rightarrow> u8 \<Rightarrow> u64" where
  "half_mask d v = ucast (movemask_epi8 (cmpeq_epi8 d (set1_epi8 32 v)) :: u32)"

definition half_dead :: "u8 list \<Rightarrow> u32" where
  "half_dead d = movemask_epi8 (or_bytes (cmpeq_epi8 d (set1_epi8 32 0)) (cmpeq_epi8 d (set1_epi8 32 1)))"

definition match_byte_avx2 :: "u8 list \<Rightarrow> u8 \<Rightarrow> u64" where
  "match_byte_avx2 data value =
    (let d0 = take 32 data; d1 = take 32 (drop 32 data)
     in half_mask d0 value OR push_bit 32 (half_mask d1 value))"

definition match_empty_avx2 :: "u8 list \<Rightarrow> u64" where
  "match_empty_avx2 data =
    (let d0 = take 32 data; d1 = take 32 (drop 32 data)
     in half_mask d0 0 OR push_bit 32 (half_mask d1 0))"

definition match_byte_and_empty_avx2 :: "u8 list \<Rightarrow> u8 \<Rightarrow> u64 \<times> u64" where
  "match_byte_and_empty_avx2 data value =
    (let d0 = take 32 data; d1 = take 32 (drop 32 data)
     in (half_mask d0 value OR push_bit 32 (half_mask d1 value), half_mask d0 0 OR push_bit 32 (half_mask d1 0)))"

definition match_empty_or_tombstone_avx2 :: "u8 list \<Rightarrow> u64" where
  "match_empty_or_tombstone_avx2 data =
    (let d0 = take 32 data; d1 = take 32 (drop 32 data); c = (\<lambda>d. ucast (half_dead d))
     in c d0 OR push_bit 32 (c d1))"

definition match_occupied_avx2 :: "u8 list \<Rightarrow> u64" where
  "match_occupied_avx2 data =
    (let d0 = take 32 data; d1 = take 32 (drop 32 data); c = (\<lambda>d. ucast (NOT (half_dead d)))
     in c d0 OR push_bit 32 (c d1))"

section \<open>SSE2: four loads\<close>

text \<open>A 16-byte register; the mask of \<^verbatim>\<open>_mm_movemask_epi8\<close> is an \<^verbatim>\<open>i32\<close> with 16 bits used.\<close>

definition quarter :: "u8 list \<Rightarrow> nat \<Rightarrow> u8 list" where
  "quarter data i = take 16 (drop (i * 16) data)"

definition quarter_mask :: "u8 list \<Rightarrow> u8 \<Rightarrow> u64" where
  "quarter_mask d v = ucast (movemask_epi8 (cmpeq_epi8 d (set1_epi8 16 v)) :: u32)"

definition quarter_dead :: "u8 list \<Rightarrow> u32" where
  "quarter_dead d = movemask_epi8 (or_bytes (cmpeq_epi8 d (set1_epi8 16 0)) (cmpeq_epi8 d (set1_epi8 16 1)))"

definition match_byte_sse2 :: "u8 list \<Rightarrow> u8 \<Rightarrow> u64" where
  "match_byte_sse2 data value =
    quarter_mask (quarter data 0) value OR push_bit 16 (quarter_mask (quarter data 1) value) OR
    push_bit 32 (quarter_mask (quarter data 2) value) OR push_bit 48 (quarter_mask (quarter data 3) value)"

definition match_empty_sse2 :: "u8 list \<Rightarrow> u64" where
  "match_empty_sse2 data =
    quarter_mask (quarter data 0) 0 OR push_bit 16 (quarter_mask (quarter data 1) 0) OR
    push_bit 32 (quarter_mask (quarter data 2) 0) OR push_bit 48 (quarter_mask (quarter data 3) 0)"

definition match_byte_and_empty_sse2 :: "u8 list \<Rightarrow> u8 \<Rightarrow> u64 \<times> u64" where
  "match_byte_and_empty_sse2 data value =
    fold (\<lambda>i (match_bits, empty_bits).
      (match_bits OR push_bit (i * 16) (quarter_mask (quarter data i) value),
       empty_bits OR push_bit (i * 16) (quarter_mask (quarter data i) 0))) [0..<4] (0, 0)"

definition match_empty_or_tombstone_sse2 :: "u8 list \<Rightarrow> u64" where
  "match_empty_or_tombstone_sse2 data =
    fold (\<lambda>i m. m OR push_bit (i * 16) (ucast (quarter_dead (quarter data i)))) [0..<4] 0"

definition match_occupied_sse2 :: "u8 list \<Rightarrow> u64" where
  "match_occupied_sse2 data =
    fold (\<lambda>i m. m OR push_bit (i * 16) (ucast (ucast (NOT (quarter_dead (quarter data i))) :: u16))) [0..<4] 0"

section \<open>Scalar\<close>

definition match_byte_scalar :: "u8 list \<Rightarrow> u8 \<Rightarrow> u64" where
  "match_byte_scalar data value = scalar_mask (\<lambda>b. b = value) data 64"

definition match_empty_scalar :: "u8 list \<Rightarrow> u64" where
  "match_empty_scalar data = scalar_mask (\<lambda>b. b = EMPTY) data 64"

definition match_empty_or_tombstone_scalar :: "u8 list \<Rightarrow> u64" where
  "match_empty_or_tombstone_scalar data = scalar_mask (\<lambda>b. b \<le> TOMBSTONE) data 64"

definition match_occupied_scalar :: "u8 list \<Rightarrow> u64" where
  "match_occupied_scalar data = scalar_mask (\<lambda>b. 2 \<le> b) data 64"

definition match_byte_and_empty_scalar :: "u8 list \<Rightarrow> u8 \<Rightarrow> u64 \<times> u64" where
  "match_byte_and_empty_scalar data value = (match_byte_scalar data value, match_empty_scalar data)"

section \<open>Dispatch\<close>

fun i64_match_byte :: "simd_tier \<Rightarrow> u8 list \<Rightarrow> u8 \<Rightarrow> u64" where
  "i64_match_byte AVX512 data value = match_byte_avx512 data value"
| "i64_match_byte AVX2 data value = match_byte_avx2 data value"
| "i64_match_byte SSE2 data value = match_byte_sse2 data value"
| "i64_match_byte Scalar data value = match_byte_scalar data value"

fun i64_match_empty :: "simd_tier \<Rightarrow> u8 list \<Rightarrow> u64" where
  "i64_match_empty AVX512 data = match_empty_avx512 data"
| "i64_match_empty AVX2 data = match_empty_avx2 data"
| "i64_match_empty SSE2 data = match_empty_sse2 data"
| "i64_match_empty Scalar data = match_empty_scalar data"

fun i64_match_byte_and_empty :: "simd_tier \<Rightarrow> u8 list \<Rightarrow> u8 \<Rightarrow> u64 \<times> u64" where
  "i64_match_byte_and_empty AVX512 data value = match_byte_and_empty_avx512 data value"
| "i64_match_byte_and_empty AVX2 data value = match_byte_and_empty_avx2 data value"
| "i64_match_byte_and_empty SSE2 data value = match_byte_and_empty_sse2 data value"
| "i64_match_byte_and_empty Scalar data value = match_byte_and_empty_scalar data value"

fun i64_match_empty_or_tombstone :: "simd_tier \<Rightarrow> u8 list \<Rightarrow> u64" where
  "i64_match_empty_or_tombstone AVX512 data = match_empty_or_tombstone_avx512 data"
| "i64_match_empty_or_tombstone AVX2 data = match_empty_or_tombstone_avx2 data"
| "i64_match_empty_or_tombstone SSE2 data = match_empty_or_tombstone_sse2 data"
| "i64_match_empty_or_tombstone Scalar data = match_empty_or_tombstone_scalar data"

fun i64_match_occupied :: "simd_tier \<Rightarrow> u8 list \<Rightarrow> u64" where
  "i64_match_occupied AVX512 data = match_occupied_avx512 data"
| "i64_match_occupied AVX2 data = match_occupied_avx2 data"
| "i64_match_occupied SSE2 data = match_occupied_sse2 data"
| "i64_match_occupied Scalar data = match_occupied_scalar data"

section \<open>The tiers agree\<close>

lemma bit_cmpeq_mask:
  "length data = 64 \<Longrightarrow> bit (cmpeq_epi8_mask data (set1_epi8 64 v)) i \<longleftrightarrow> i < 64 \<and> data ! i = v"
  by (auto simp: cmpeq_epi8_mask_def set1_epi8_def bit_horner_sum_bit_word_iff)

lemma bit_half_mask:
  "length d = 32 \<Longrightarrow> bit (half_mask d v) i \<longleftrightarrow> i < 32 \<and> d ! i = v"
  by (auto simp: half_mask_def bit_ucast_iff movemask_epi8_def cmpeq_epi8_def set1_epi8_def bit_horner_sum_bit_word_iff)

lemma bit_half_dead:
  "length d = 32 \<Longrightarrow> bit (half_dead d) i \<longleftrightarrow> i < 32 \<and> (d ! i = EMPTY \<or> d ! i = TOMBSTONE)"
  by (auto simp: half_dead_def movemask_epi8_def or_bytes_def cmpeq_epi8_def set1_epi8_def
      bit_horner_sum_bit_word_iff bit_or_7 EMPTY_def TOMBSTONE_def)

lemma bit_quarter_mask:
  "length d = 16 \<Longrightarrow> bit (quarter_mask d v) i \<longleftrightarrow> i < 16 \<and> d ! i = v"
  by (auto simp: quarter_mask_def bit_ucast_iff movemask_epi8_def cmpeq_epi8_def set1_epi8_def bit_horner_sum_bit_word_iff)

lemma bit_quarter_dead:
  "length d = 16 \<Longrightarrow> bit (quarter_dead d) i \<longleftrightarrow> i < 16 \<and> (d ! i = EMPTY \<or> d ! i = TOMBSTONE)"
  by (auto simp: quarter_dead_def movemask_epi8_def or_bytes_def cmpeq_epi8_def set1_epi8_def
      bit_horner_sum_bit_word_iff bit_or_7 EMPTY_def TOMBSTONE_def)

text \<open>Joining the masks of two halves or four quarters.\<close>

lemma join_halves:
  assumes "\<And>i. bit a i \<longleftrightarrow> i < 32 \<and> P i" "\<And>i. bit b i \<longleftrightarrow> i < 32 \<and> P (i + 32)"
  shows "bit (a OR push_bit 32 b :: u64) i \<longleftrightarrow> i < 64 \<and> P i"
proof -
  have "bit (a OR push_bit 32 b) i \<longleftrightarrow> i < 32 \<and> P i \<or> 32 \<le> i \<and> i < 64 \<and> i - 32 < 32 \<and> P (i - 32 + 32)"
    by (simp add: bit_or_iff bit_push_bit_iff possible_bit_word assms)
  then show ?thesis by (cases "i < 32") (simp, simp, linarith)
qed

lemma join_quarters:
  assumes "\<And>j i. j < 4 \<Longrightarrow> bit (m j) i \<longleftrightarrow> i < 16 \<and> P (i + j * 16)"
  shows "bit (m 0 OR push_bit 16 (m 1) OR push_bit 32 (m 2) OR push_bit 48 (m 3) :: u64) i \<longleftrightarrow> i < 64 \<and> P i"
proof (cases "i < 64")
  case True
  then consider "i < 16" | "16 \<le> i" "i < 32" | "32 \<le> i" "i < 48" | "48 \<le> i" "i < 64" by linarith
  then show ?thesis
    by cases (simp_all add: bit_or_iff bit_push_bit_iff possible_bit_word assms, linarith+)
next
  case False
  then show ?thesis using bit_imp_le_length [of _ i] by fastforce
qed

lemma quarter_facts:
  assumes "length data = 64" "j < 4"
  shows "length (quarter data j) = 16" "i < 16 \<Longrightarrow> quarter data j ! i = data ! (i + j * 16)"
proof -
  have "j * 16 + 16 \<le> 64" using assms(2) by linarith
  then show "length (quarter data j) = 16" using assms(1) by (simp add: quarter_def)
  then show "i < 16 \<Longrightarrow> quarter data j ! i = data ! (i + j * 16)"
    using assms by (simp add: quarter_def nth_drop add.commute)
qed

lemma half_facts:
  assumes "length (data :: u8 list) = 64"
  shows "length (take 32 data) = 32" "length (take 32 (drop 32 data)) = 32"
    "i < 32 \<Longrightarrow> take 32 data ! i = data ! i" "i < 32 \<Longrightarrow> take 32 (drop 32 data) ! i = data ! (i + 32)"
  using assms by (simp_all add: add.commute)

lemma fold_upt_4: "fold f [0..<4] x = f 3 (f 2 (f 1 (f (0 :: nat) x)))"
  by (simp add: upt_rec numeral_2_eq_2 numeral_3_eq_3)

lemma avx2_bits:
  assumes "length data = 64"
  shows "bit (half_mask (take 32 data) v OR push_bit 32 (half_mask (take 32 (drop 32 data)) v)) i \<longleftrightarrow> i < 64 \<and> data ! i = v"
    and "bit (ucast (half_dead (take 32 data)) OR push_bit 32 (ucast (half_dead (take 32 (drop 32 data)))) :: u64) i \<longleftrightarrow>
      i < 64 \<and> (data ! i = EMPTY \<or> data ! i = TOMBSTONE)"
    and "bit (ucast (NOT (half_dead (take 32 data))) OR push_bit 32 (ucast (NOT (half_dead (take 32 (drop 32 data))))) :: u64) i \<longleftrightarrow>
      i < 64 \<and> \<not> (data ! i = EMPTY \<or> data ! i = TOMBSTONE)"
proof -
  note h = half_facts [OF assms]
  show "bit (half_mask (take 32 data) v OR push_bit 32 (half_mask (take 32 (drop 32 data)) v)) i \<longleftrightarrow> i < 64 \<and> data ! i = v"
    by (rule join_halves [where P = "\<lambda>i. data ! i = v"]) (use h in \<open>auto simp: bit_half_mask\<close>)
  show "bit (ucast (half_dead (take 32 data)) OR push_bit 32 (ucast (half_dead (take 32 (drop 32 data)))) :: u64) i \<longleftrightarrow>
      i < 64 \<and> (data ! i = EMPTY \<or> data ! i = TOMBSTONE)"
    by (rule join_halves [where P = "\<lambda>i. data ! i = EMPTY \<or> data ! i = TOMBSTONE"])
      (use h in \<open>auto simp: bit_half_dead bit_ucast_iff possible_bit_word\<close>)
  show "bit (ucast (NOT (half_dead (take 32 data))) OR push_bit 32 (ucast (NOT (half_dead (take 32 (drop 32 data))))) :: u64) i \<longleftrightarrow>
      i < 64 \<and> \<not> (data ! i = EMPTY \<or> data ! i = TOMBSTONE)"
    by (rule join_halves [where P = "\<lambda>i. \<not> (data ! i = EMPTY \<or> data ! i = TOMBSTONE)"])
      (use h in \<open>auto simp: bit_half_dead bit_ucast_iff bit_not_iff possible_bit_word\<close>)
qed

lemma avx2_match_bits:
  assumes "length data = 64"
  shows "bit (match_byte_avx2 data v) i \<longleftrightarrow> i < 64 \<and> data ! i = v"
    and "bit (match_empty_or_tombstone_avx2 data) i \<longleftrightarrow> i < 64 \<and> (data ! i = EMPTY \<or> data ! i = TOMBSTONE)"
    and "bit (match_occupied_avx2 data) i \<longleftrightarrow> i < 64 \<and> \<not> (data ! i = EMPTY \<or> data ! i = TOMBSTONE)"
  unfolding match_byte_avx2_def match_empty_or_tombstone_avx2_def match_occupied_avx2_def Let_def
  by (rule avx2_bits [OF assms])+

lemma sse2_match_bits:
  assumes "length data = 64"
  shows "bit (match_byte_sse2 data v) i \<longleftrightarrow> i < 64 \<and> data ! i = v"
    and "bit (match_empty_or_tombstone_sse2 data) i \<longleftrightarrow> i < 64 \<and> (data ! i = EMPTY \<or> data ! i = TOMBSTONE)"
    and "bit (match_occupied_sse2 data) i \<longleftrightarrow> i < 64 \<and> \<not> (data ! i = EMPTY \<or> data ! i = TOMBSTONE)"
proof -
  note q = quarter_facts [OF assms]
  show "bit (match_byte_sse2 data v) i \<longleftrightarrow> i < 64 \<and> data ! i = v"
    unfolding match_byte_sse2_def
    by (rule join_quarters [where P = "\<lambda>i. data ! i = v" and m = "\<lambda>j. quarter_mask (quarter data j) v"])
      (auto simp: bit_quarter_mask q)
  let ?d = "\<lambda>j. ucast (quarter_dead (quarter data j)) :: u64"
  let ?o = "\<lambda>j. ucast (ucast (NOT (quarter_dead (quarter data j))) :: u16) :: u64"
  have d: "match_empty_or_tombstone_sse2 data = ?d 0 OR push_bit 16 (?d 1) OR push_bit 32 (?d 2) OR push_bit 48 (?d 3)"
    and o: "match_occupied_sse2 data = ?o 0 OR push_bit 16 (?o 1) OR push_bit 32 (?o 2) OR push_bit 48 (?o 3)"
    by (simp_all add: match_empty_or_tombstone_sse2_def match_occupied_sse2_def fold_upt_4 or.assoc)
  show "bit (match_empty_or_tombstone_sse2 data) i \<longleftrightarrow> i < 64 \<and> (data ! i = EMPTY \<or> data ! i = TOMBSTONE)"
    unfolding d by (rule join_quarters [where m = ?d]) (auto simp: bit_quarter_dead q bit_ucast_iff possible_bit_word)
  show "bit (match_occupied_sse2 data) i \<longleftrightarrow> i < 64 \<and> \<not> (data ! i = EMPTY \<or> data ! i = TOMBSTONE)"
    unfolding o by (rule join_quarters [where m = ?o]) (auto simp: bit_quarter_dead q bit_ucast_iff bit_not_iff possible_bit_word)
qed

text \<open>Every tier computes the masks of the engine's group operations at width 64.\<close>

lemma i64_match_byte_eq: "length data = 64 \<Longrightarrow> i64_match_byte tier data v = tomb_match_byte data v"
  by (cases tier; rule bit_eqI)
    (auto simp: match_byte_avx512_def bit_cmpeq_mask avx2_match_bits sse2_match_bits
      match_byte_scalar_def bit_scalar_mask bit_tomb_match_byte possible_bit_word)

lemma i64_match_empty_eq: "length data = 64 \<Longrightarrow> i64_match_empty tier data = tomb_match_empty data"
proof -
  assume a: "length data = 64"
  have "i64_match_empty tier data = i64_match_byte tier data EMPTY"
    by (cases tier) (simp_all add: match_empty_avx512_def match_byte_avx512_def match_empty_avx2_def match_byte_avx2_def
        match_empty_sse2_def match_byte_sse2_def match_empty_scalar_def match_byte_scalar_def EMPTY_def)
  then show ?thesis using i64_match_byte_eq [OF a] by (simp add: tomb_match_byte_def tomb_match_empty_def EMPTY_def)
qed

lemma i64_match_byte_and_empty_eq:
  "length data = 64 \<Longrightarrow> i64_match_byte_and_empty tier data v = (tomb_match_byte data v, tomb_match_empty data)"
proof -
  assume a: "length data = 64"
  have "i64_match_byte_and_empty tier data v = (i64_match_byte tier data v, i64_match_empty tier data)"
    by (cases tier) (simp_all add: match_byte_and_empty_avx512_def match_empty_avx512_def match_byte_avx512_def
        match_byte_and_empty_avx2_def match_empty_avx2_def match_byte_avx2_def Let_def
        match_byte_and_empty_sse2_def fold_upt_4 or.assoc match_empty_sse2_def match_byte_sse2_def match_byte_and_empty_scalar_def)
  then show ?thesis using i64_match_byte_eq [OF a] i64_match_empty_eq [OF a] by simp
qed

lemma i64_match_empty_or_tombstone_eq:
  "length data = 64 \<Longrightarrow> i64_match_empty_or_tombstone tier data = tomb_match_empty_or_tombstone data"
proof -
  have le: "b \<le> 1 \<longleftrightarrow> b = 0 \<or> b = 1" for b :: u8 by unat_arith
  show "length data = 64 \<Longrightarrow> ?thesis"
    by (cases tier; rule bit_eqI)
      (auto simp: match_empty_or_tombstone_avx512_def bit_or_iff bit_cmpeq_mask Let_def avx2_match_bits
        sse2_match_bits match_empty_or_tombstone_scalar_def bit_scalar_mask le bit_tomb_match_empty_or_tombstone
        possible_bit_word EMPTY_def TOMBSTONE_def)
qed

lemma i64_match_occupied_eq:
  "length data = 64 \<Longrightarrow> i64_match_occupied tier data = tomb_match_occupied data"
proof -
  have le: "2 \<le> b \<longleftrightarrow> b \<noteq> EMPTY \<and> b \<noteq> TOMBSTONE" for b :: u8
    unfolding EMPTY_def TOMBSTONE_def by unat_arith
  show "length data = 64 \<Longrightarrow> ?thesis"
    by (cases tier; rule bit_eqI)
      (auto simp: match_occupied_avx512_def bit_or_iff bit_and_iff bit_not_iff bit_cmpeq_mask Let_def avx2_match_bits
        sse2_match_bits match_occupied_scalar_def bit_scalar_mask le bit_tomb_match_occupied
        possible_bit_word EMPTY_def TOMBSTONE_def)
qed

end
