(* ===== verification/Ipo64_Table.thy ===== *)
theory Ipo64_Table
  imports Table_Api Ipo64_Group
begin

text \<open>
  The 64-slot tombstone table, \<^verbatim>\<open>RawTable<K, V, T>\<close> of \<^verbatim>\<open>src/ipo64/raw/mod.rs\<close>: the state and
  every operation. It differs from the 16-slot table in how it knows that it is
  allocated (the metadata pointer is not the shared sentinel), in the group index (a
  shift, kept in the table), in rehashing through \<^verbatim>\<open>insert_no_check\<close> and in one find loop
  per SIMD tier. The processor's tier and the tag function are the record \<open>i64_config\<close>; the
  metadata is \<^const>\<open>None\<close> while it points to the sentinel, 64 zero bytes.
\<close>

record i64_config =
  simd :: simd_tier
  i64_reduced_hash :: "u64 \<Rightarrow> u8"

record ('k, 'v) i64_table =
  i_mask :: nat
  i_metadata :: "u8 list option"
  i_buckets :: "('k, 'v) bucket_array"
  i_len :: nat
  i_growth_left :: nat
  i_shift :: nat

datatype i64_probe_result = IFound nat nat | IInsertSlot nat nat u8 | INotFound

definition i64_sub :: "nat \<Rightarrow> nat \<Rightarrow> nat" where
  "i64_sub a b = (if b \<le> a then a - b else a + 2 ^ 64 - b)"

definition i64_max_load :: "nat \<Rightarrow> nat" where
  "i64_max_load capacity = capacity * 7 div 8"

section \<open>Construction and addressing\<close>

definition i64_new :: "('k, 'v) i64_table" where
  "i64_new = \<lparr>i_mask = 0, i_metadata = None, i_buckets = [], i_len = 0, i_growth_left = 0, i_shift = 64\<rparr>"

definition i64_bytes :: "('k, 'v) i64_table \<Rightarrow> u8 list" where
  "i64_bytes t = (case i_metadata t of None \<Rightarrow> replicate 64 0 | Some m \<Rightarrow> m)"

definition i64_num_groups :: "('k, 'v) i64_table \<Rightarrow> nat" where
  "i64_num_groups t = i_mask t + 1"

definition i64_is_allocated :: "('k, 'v) i64_table \<Rightarrow> bool" where
  "i64_is_allocated t \<longleftrightarrow> i_metadata t \<noteq> None"

definition i64_capacity :: "('k, 'v) i64_table \<Rightarrow> nat" where
  "i64_capacity t = (if i64_is_allocated t then i64_num_groups t * 64 else 0)"

definition i64_groups_for_capacity :: "nat \<Rightarrow> nat" where
  "i64_groups_for_capacity capacity =
    (let min_slots = usize (capacity * 8 + 7 - 1) div 7; min_groups = usize (min_slots + 64 - 1) div 64
     in usize (next_power_of_two min_groups))"

definition i64_allocate :: "('k, 'v) i64_table \<Rightarrow> nat \<Rightarrow> ('k, 'v) i64_table" where
  "i64_allocate t num_groups = t\<lparr>
     i_metadata := Some (replicate (num_groups * 64) 0),
     i_buckets := replicate (num_groups * 64) None,
     i_mask := num_groups - 1,
     i_growth_left := i64_max_load (num_groups * 64),
     i_shift := 64 - trailing_zeros (of_nat num_groups :: u64)\<rparr>"

definition i64_with_capacity :: "nat \<Rightarrow> ('k, 'v) i64_table" where
  "i64_with_capacity capacity =
    (if capacity = 0 then i64_new else i64_allocate i64_new (i64_groups_for_capacity capacity))"

definition i64_group_index :: "('k, 'v) i64_table \<Rightarrow> u64 \<Rightarrow> nat" where
  "i64_group_index t h = unat (drop_bit (i_shift t mod 64) h) AND i_mask t"

definition i64_meta :: "('k, 'v) i64_table \<Rightarrow> nat \<Rightarrow> u8 list" where
  "i64_meta t gi = take 64 (drop (push_bit 6 gi) (i64_bytes t))"

definition i64_bucket :: "('k, 'v) i64_table \<Rightarrow> nat \<Rightarrow> nat \<Rightarrow> 'k \<times> 'v" where
  "i64_bucket t gi si = the (i_buckets t ! (gi * 64 + si))"

definition i64_set_meta :: "('k, 'v) i64_table \<Rightarrow> nat \<Rightarrow> nat \<Rightarrow> u8 \<Rightarrow> ('k, 'v) i64_table" where
  "i64_set_meta t gi si x = t\<lparr>i_metadata := map_option (\<lambda>m. m[push_bit 6 gi + si := x]) (i_metadata t)\<rparr>"

definition i64_write :: "('k, 'v) i64_table \<Rightarrow> nat \<Rightarrow> nat \<Rightarrow> ('k \<times> 'v) option \<Rightarrow> ('k, 'v) i64_table" where
  "i64_write t gi si x = t\<lparr>i_buckets := (i_buckets t)[gi * 64 + si := x]\<rparr>"

definition i64_replace_value ::
  "('k, 'v) i64_table \<Rightarrow> nat \<Rightarrow> nat \<Rightarrow> 'v \<Rightarrow> 'v option \<times> ('k, 'v) i64_table" where
  "i64_replace_value t gi si v =
    (Some (snd (i64_bucket t gi si)), i64_write t gi si (Some (fst (i64_bucket t gi si), v)))"

section \<open>Lookup and removal\<close>

definition i64_scan :: "('k, 'v) i64_table \<Rightarrow> nat \<Rightarrow> ('k \<Rightarrow> bool) \<Rightarrow> u64 \<Rightarrow> nat option" where
  "i64_scan t gi eq matches = mask_find (\<lambda>si. eq (fst (i64_bucket t gi si))) matches"

partial_function (option) find_by_hash_avx512 ::
  "('k, 'v) i64_table \<Rightarrow> u8 \<Rightarrow> ('k \<Rightarrow> bool) \<Rightarrow> nat \<Rightarrow> nat \<Rightarrow> (nat \<times> nat) option option" where
  [code]: "find_by_hash_avx512 t reduced eq gi probe =
    (let (matches, empties) = match_byte_and_empty_avx512 (i64_meta t gi) reduced in
     case i64_scan t gi eq matches of
       Some si \<Rightarrow> Some (Some (gi, si))
     | None \<Rightarrow>
         if any_set empties then Some None
         else find_by_hash_avx512 t reduced eq (next_group (i_mask t) gi (probe + 1)) (probe + 1))"

partial_function (option) find_by_hash_avx2 ::
  "('k, 'v) i64_table \<Rightarrow> u8 \<Rightarrow> ('k \<Rightarrow> bool) \<Rightarrow> nat \<Rightarrow> nat \<Rightarrow> (nat \<times> nat) option option" where
  [code]: "find_by_hash_avx2 t reduced eq gi probe =
    (let (matches, empties) = match_byte_and_empty_avx2 (i64_meta t gi) reduced in
     case i64_scan t gi eq matches of
       Some si \<Rightarrow> Some (Some (gi, si))
     | None \<Rightarrow>
         if any_set empties then Some None
         else find_by_hash_avx2 t reduced eq (next_group (i_mask t) gi (probe + 1)) (probe + 1))"

text \<open>The last version calls the dispatching match, which off x86 is the scalar one.\<close>

partial_function (option) find_by_hash_sse2 ::
  "simd_tier \<Rightarrow> ('k, 'v) i64_table \<Rightarrow> u8 \<Rightarrow> ('k \<Rightarrow> bool) \<Rightarrow> nat \<Rightarrow> nat \<Rightarrow> (nat \<times> nat) option option" where
  [code]: "find_by_hash_sse2 tier t reduced eq gi probe =
    (let (matches, empties) = i64_match_byte_and_empty tier (i64_meta t gi) reduced in
     case i64_scan t gi eq matches of
       Some si \<Rightarrow> Some (Some (gi, si))
     | None \<Rightarrow>
         if any_set empties then Some None
         else find_by_hash_sse2 tier t reduced eq (next_group (i_mask t) gi (probe + 1)) (probe + 1))"

definition i64_find_by_hash ::
  "i64_config \<Rightarrow> ('k, 'v) i64_table \<Rightarrow> u64 \<Rightarrow> ('k \<Rightarrow> bool) \<Rightarrow> (nat \<times> nat) option option" where
  "i64_find_by_hash C t h eq =
    (let reduced = i64_reduced_hash C h; gi = i64_group_index t h in
     case simd C of
       AVX512 \<Rightarrow> find_by_hash_avx512 t reduced eq gi 0
     | AVX2 \<Rightarrow> find_by_hash_avx2 t reduced eq gi 0
     | tier \<Rightarrow> find_by_hash_sse2 tier t reduced eq gi 0)"

definition i64_find_with_hash :: "i64_config \<Rightarrow> ('k, 'v) i64_table \<Rightarrow> 'k \<Rightarrow> u64 \<Rightarrow> (nat \<times> nat) option option" where
  "i64_find_with_hash C t key h = i64_find_by_hash C t h (\<lambda>k. k = key)"

definition i64_find ::
  "i64_config \<Rightarrow> ('k \<Rightarrow> u64) \<Rightarrow> ('k, 'v) i64_table \<Rightarrow> 'k \<Rightarrow> (nat \<times> nat) option option" where
  "i64_find C hash t key = i64_find_by_hash C t (hash key) (\<lambda>k. k = key)"

definition i64_get :: "i64_config \<Rightarrow> ('k \<Rightarrow> u64) \<Rightarrow> ('k, 'v) i64_table \<Rightarrow> 'k \<Rightarrow> 'v option option" where
  "i64_get C hash t key = map_option (map_option (\<lambda>(gi, si). snd (i64_bucket t gi si))) (i64_find C hash t key)"

definition i64_erase_slot :: "('k, 'v) i64_table \<Rightarrow> nat \<Rightarrow> nat \<Rightarrow> ('k, 'v) i64_table" where
  "i64_erase_slot t gi si =
    (let t1 = i64_set_meta t gi si TOMBSTONE in t1\<lparr>i_len := i64_sub (i_len t1) 1\<rparr>)"

definition i64_remove_by_hash ::
  "i64_config \<Rightarrow> ('k, 'v) i64_table \<Rightarrow> u64 \<Rightarrow> ('k \<Rightarrow> bool) \<Rightarrow> (('k \<times> 'v) option \<times> ('k, 'v) i64_table) option" where
  "i64_remove_by_hash C t h eq =
    (case i64_find_by_hash C t h eq of
       None \<Rightarrow> None
     | Some None \<Rightarrow> Some (None, t)
     | Some (Some (gi, si)) \<Rightarrow> Some (Some (i64_bucket t gi si), i64_erase_slot (i64_write t gi si None) gi si))"

definition i64_remove ::
  "i64_config \<Rightarrow> ('k \<Rightarrow> u64) \<Rightarrow> ('k, 'v) i64_table \<Rightarrow> 'k \<Rightarrow> ('v option \<times> ('k, 'v) i64_table) option" where
  "i64_remove C hash t key =
    (if \<not> i64_is_allocated t then Some (None, t)
     else case i64_find_with_hash C t key (hash key) of
            None \<Rightarrow> None
          | Some None \<Rightarrow> Some (None, t)
          | Some (Some (gi, si)) \<Rightarrow>
              Some (Some (snd (i64_bucket t gi si)), i64_erase_slot (i64_write t gi si None) gi si))"

section \<open>Insertion\<close>

definition i64_put ::
  "i64_config \<Rightarrow> ('k, 'v) i64_table \<Rightarrow> u64 \<Rightarrow> nat \<Rightarrow> nat \<Rightarrow> 'k \<Rightarrow> 'v \<Rightarrow> ('k, 'v) i64_table" where
  "i64_put C t h gi si key value = i64_write (i64_set_meta t gi si (i64_reduced_hash C h)) gi si (Some (key, value))"

partial_function (option) i64_insert_no_check_loop ::
  "i64_config \<Rightarrow> ('k, 'v) i64_table \<Rightarrow> u64 \<Rightarrow> 'k \<Rightarrow> 'v \<Rightarrow> nat \<Rightarrow> nat \<Rightarrow> (nat \<times> nat) option
    \<Rightarrow> ((nat \<times> nat) \<times> ('k, 'v) i64_table) option" where
  [code]: "i64_insert_no_check_loop C t h key value gi probe first_tombstone =
    (let meta = i64_meta t gi;
         first_tombstone' =
           (if first_tombstone = None then map_option (Pair gi) (lowest_set_bit (i64_match_byte (simd C) meta TOMBSTONE))
            else first_tombstone) in
     case lowest_set_bit (i64_match_empty (simd C) meta) of
       Some si \<Rightarrow>
         let (ins_gi, ins_si, decrement) =
               (case first_tombstone' of Some (tgi, tsi) \<Rightarrow> (tgi, tsi, False) | None \<Rightarrow> (gi, si, True));
             t1 = i64_put C t h ins_gi ins_si key value;
             t2 = t1\<lparr>i_len := i_len t1 + 1\<rparr>;
             t3 = (if decrement then t2\<lparr>i_growth_left := i64_sub (i_growth_left t2) 1\<rparr> else t2)
         in Some ((ins_gi, ins_si), t3)
     | None \<Rightarrow>
         i64_insert_no_check_loop C t h key value (next_group (i_mask t) gi (probe + 1)) (probe + 1) first_tombstone')"

definition i64_insert_no_check ::
  "i64_config \<Rightarrow> ('k, 'v) i64_table \<Rightarrow> u64 \<Rightarrow> 'k \<Rightarrow> 'v \<Rightarrow> ((nat \<times> nat) \<times> ('k, 'v) i64_table) option" where
  "i64_insert_no_check C t h key value = i64_insert_no_check_loop C t h key value (i64_group_index t h) 0 None"

definition i64_insert_at ::
  "i64_config \<Rightarrow> ('k, 'v) i64_table \<Rightarrow> u64 \<Rightarrow> nat \<Rightarrow> nat \<Rightarrow> 'k \<Rightarrow> 'v \<Rightarrow> u8 \<Rightarrow> ('k, 'v) i64_table" where
  "i64_insert_at C t h gi si key value full_mask =
    (let old_meta = i64_bytes t ! (push_bit 6 gi + si);
         t1 = i64_put C t h gi si key value;
         t2 = (if old_meta = EMPTY then t1\<lparr>i_growth_left := i64_sub (i_growth_left t1) 1\<rparr> else t1)
     in t2\<lparr>i_len := i_len t2 + 1\<rparr>)"

section \<open>Find or locate\<close>

partial_function (option) i64_find_or_locate_overflow ::
  "i64_config \<Rightarrow> ('k, 'v) i64_table \<Rightarrow> ('k \<Rightarrow> bool) \<Rightarrow> u8 \<Rightarrow> nat \<Rightarrow> nat \<Rightarrow> (nat \<times> nat) option
    \<Rightarrow> i64_probe_result option" where
  [code]: "i64_find_or_locate_overflow C t eq reduced gi probe first_available =
    (let meta = i64_meta t gi; (matches, empties) = i64_match_byte_and_empty (simd C) meta reduced in
     case i64_scan t gi eq matches of
       Some si \<Rightarrow> Some (IFound gi si)
     | None \<Rightarrow>
         let first_available' =
           (if first_available = None
            then (case lowest_set_bit (i64_match_byte (simd C) meta TOMBSTONE) of
                    Some tsi \<Rightarrow> Some (gi, tsi)
                  | None \<Rightarrow> map_option (Pair gi) (lowest_set_bit empties))
            else first_available) in
         if any_set empties
         then Some (case first_available' of Some (ins_gi, ins_si) \<Rightarrow> IInsertSlot ins_gi ins_si 0 | None \<Rightarrow> INotFound)
         else i64_find_or_locate_overflow C t eq reduced (next_group (i_mask t) gi (probe + 1)) (probe + 1)
                first_available')"

definition i64_find_or_locate ::
  "i64_config \<Rightarrow> ('k, 'v) i64_table \<Rightarrow> u64 \<Rightarrow> ('k \<Rightarrow> bool) \<Rightarrow> i64_probe_result option" where
  "i64_find_or_locate C t h eq =
    (let reduced = i64_reduced_hash C h; gi = i64_group_index t h; meta = i64_meta t gi;
         (matches, empties) = i64_match_byte_and_empty (simd C) meta reduced in
     case i64_scan t gi eq matches of
       Some si \<Rightarrow> Some (IFound gi si)
     | None \<Rightarrow>
       (case lowest_set_bit empties of
          Some si \<Rightarrow>
            (case lowest_set_bit (i64_match_byte (simd C) meta TOMBSTONE) of
               Some tsi \<Rightarrow> Some (IInsertSlot gi tsi 0)
             | None \<Rightarrow> Some (IInsertSlot gi si 0))
        | None \<Rightarrow>
            i64_find_or_locate_overflow C t eq reduced (next_group (i_mask t) gi 1) 1
              (map_option (Pair gi) (lowest_set_bit (i64_match_byte (simd C) meta TOMBSTONE)))))"

section \<open>Rehashing\<close>

definition i64_occupied :: "i64_config \<Rightarrow> ('k, 'v) i64_table \<Rightarrow> nat \<Rightarrow> u64" where
  "i64_occupied C t gi = i64_match_occupied (simd C) (i64_meta t gi)"

definition i64_rehash_with ::
  "i64_config \<Rightarrow> ('k \<Rightarrow> u64) \<Rightarrow> ('k, 'v) i64_table \<Rightarrow> nat \<Rightarrow> ('k, 'v) i64_table option" where
  "i64_rehash_with C hash t new_num_groups =
    (let was_allocated = i64_is_allocated t;
         old_num_groups = i64_num_groups t;
         t0 = i64_allocate (t\<lparr>i_metadata := None, i_buckets := [], i_mask := 0, i_len := 0, i_growth_left := 0\<rparr>)
                new_num_groups
     in if \<not> was_allocated then Some t0
        else foldM (\<lambda>gi. foldM (\<lambda>si s.
                 let (key, value) = the (i_buckets t ! (push_bit 6 gi OR si))
                 in map_option snd (i64_insert_no_check C s (hash key) key value))
                 (mask_collect (i64_occupied C t gi)))
               [0..<old_num_groups] t0)"

definition i64_grow_or_rehash ::
  "i64_config \<Rightarrow> ('k \<Rightarrow> u64) \<Rightarrow> ('k, 'v) i64_table \<Rightarrow> ('k, 'v) i64_table option" where
  "i64_grow_or_rehash C hash t =
    i64_rehash_with C hash t
      (if \<not> i64_is_allocated t then 1
       else if i64_max_load (i64_num_groups t * 64) \<le> i_len t then i64_num_groups t * 2
       else i64_num_groups t)"

definition i64_ensure_capacity ::
  "i64_config \<Rightarrow> ('k \<Rightarrow> u64) \<Rightarrow> ('k, 'v) i64_table \<Rightarrow> ('k, 'v) i64_table option" where
  "i64_ensure_capacity C hash t = (if i_growth_left t = 0 then i64_grow_or_rehash C hash t else Some t)"

definition i64_insert_with_rehash ::
  "i64_config \<Rightarrow> ('k \<Rightarrow> u64) \<Rightarrow> ('k, 'v) i64_table \<Rightarrow> 'k \<Rightarrow> 'v
    \<Rightarrow> (((nat \<times> nat) \<times> bool) \<times> ('k, 'v) i64_table) option" where
  "i64_insert_with_rehash C hash t0 key value =
    (let t = (if \<not> i64_is_allocated t0 then i64_allocate t0 1 else t0); h = hash key in
     case i64_find_with_hash C t key h of
       None \<Rightarrow> None
     | Some (Some (gi, si)) \<Rightarrow> Some (((gi, si), False), t)
     | Some None \<Rightarrow>
         (case (if i_growth_left t = 0 then i64_grow_or_rehash C hash t else Some t) of
            None \<Rightarrow> None
          | Some t' \<Rightarrow> map_option (\<lambda>(p, t''). ((p, True), t'')) (i64_insert_no_check C t' h key value)))"

section \<open>Insert or replace, entry probe\<close>

definition i64_insert_or_replace ::
  "i64_config \<Rightarrow> ('k \<Rightarrow> u64) \<Rightarrow> ('k, 'v) i64_table \<Rightarrow> 'k \<Rightarrow> 'v \<Rightarrow> ('v option \<times> ('k, 'v) i64_table) option" where
  "i64_insert_or_replace C hash t0 key value =
    (let t = (if \<not> i64_is_allocated t0 then i64_allocate t0 1 else t0); h = hash key in
     if i_growth_left t = 0 then
       (case i64_find_by_hash C t h (\<lambda>k. k = key) of
          None \<Rightarrow> None
        | Some (Some (gi, si)) \<Rightarrow> Some (i64_replace_value t gi si value)
        | Some None \<Rightarrow>
            (case i64_grow_or_rehash C hash t of
               None \<Rightarrow> None
             | Some t' \<Rightarrow> map_option (\<lambda>(_, t''). (None, t'')) (i64_insert_no_check C t' h key value)))
     else
       let gi = i64_group_index t h;
           (matches, empties) = i64_match_byte_and_empty (simd C) (i64_meta t gi) (i64_reduced_hash C h) in
       case i64_scan t gi (\<lambda>k. k = key) matches of
         Some si \<Rightarrow> Some (i64_replace_value t gi si value)
       | None \<Rightarrow>
         (case lowest_set_bit empties of
            Some si \<Rightarrow>
              let t1 = i64_put C t h gi si key value
              in Some (None, t1\<lparr>i_len := i_len t1 + 1, i_growth_left := i64_sub (i_growth_left t1) 1\<rparr>)
          | None \<Rightarrow>
            (case i64_find_by_hash C t h (\<lambda>k. k = key) of
               None \<Rightarrow> None
             | Some (Some (gi, si)) \<Rightarrow> Some (i64_replace_value t gi si value)
             | Some None \<Rightarrow>
                 (case (if i_growth_left t = 0 then i64_grow_or_rehash C hash t else Some t) of
                    None \<Rightarrow> None
                  | Some t' \<Rightarrow> map_option (\<lambda>(_, t''). (None, t'')) (i64_insert_no_check C t' h key value)))))"

definition i64_find_for_entry ::
  "i64_config \<Rightarrow> ('k, 'v) i64_table \<Rightarrow> u64 \<Rightarrow> 'k \<Rightarrow> entry_probe option" where
  "i64_find_for_entry C t h key =
    (if i_growth_left t = 0 then
       (case i64_find_by_hash C t h (\<lambda>k. k = key) of
          None \<Rightarrow> None
        | Some (Some (gi, si)) \<Rightarrow> Some (ProbeFound gi si)
        | Some None \<Rightarrow> Some (ProbeVacant None))
     else
       let gi = i64_group_index t h;
           (matches, empties) = i64_match_byte_and_empty (simd C) (i64_meta t gi) (i64_reduced_hash C h) in
       case i64_scan t gi (\<lambda>k. k = key) matches of
         Some si \<Rightarrow> Some (ProbeFound gi si)
       | None \<Rightarrow>
         (case lowest_set_bit empties of
            Some si \<Rightarrow> Some (ProbeVacant (Some (gi, si, 0)))
          | None \<Rightarrow>
              map_option (\<lambda>r. case r of
                  IFound gi si \<Rightarrow> ProbeFound gi si
                | IInsertSlot gi si msk \<Rightarrow> ProbeVacant (Some (gi, si, msk))
                | INotFound \<Rightarrow> ProbeVacant None) (i64_find_or_locate C t h (\<lambda>k. k = key))))"

section \<open>Capacity management\<close>

definition i64_clear :: "('k, 'v) i64_table \<Rightarrow> ('k, 'v) i64_table" where
  "i64_clear t =
    (if \<not> i64_is_allocated t then t
     else t\<lparr>i_metadata := Some (replicate (i64_num_groups t * 64) 0),
            i_buckets := replicate (length (i_buckets t)) None,
            i_len := 0,
            i_growth_left := i64_max_load (i64_num_groups t * 64)\<rparr>)"

definition i64_reserve ::
  "i64_config \<Rightarrow> ('k \<Rightarrow> u64) \<Rightarrow> ('k, 'v) i64_table \<Rightarrow> nat \<Rightarrow> (panic + ('k, 'v) i64_table) option" where
  "i64_reserve C hash t additional =
    (if 2 ^ 64 \<le> i_len t + additional then Some (Inl CapacityOverflow)
     else let needed = i_len t + additional in
       if \<not> i64_is_allocated t then
         Some (Inr (if 0 < additional then i64_allocate t (i64_groups_for_capacity needed) else t))
       else if i64_max_load (i64_num_groups t * 64) < needed \<and> i64_num_groups t < i64_groups_for_capacity needed then
         map_option Inr (i64_rehash_with C hash t (i64_groups_for_capacity needed))
       else Some (Inr t))"

definition i64_shrink_to_fit ::
  "i64_config \<Rightarrow> ('k \<Rightarrow> u64) \<Rightarrow> ('k, 'v) i64_table \<Rightarrow> ('k, 'v) i64_table option" where
  "i64_shrink_to_fit C hash t =
    (if i_len t = 0 then Some i64_new
     else let min_groups = i64_groups_for_capacity (i_len t) in
       if min_groups < i64_num_groups t then i64_rehash_with C hash t min_groups else Some t)"

section \<open>Iteration, cloning and dropping\<close>

function i64_slot_next ::
  "i64_config \<Rightarrow> ('k, 'v) i64_table \<Rightarrow> nat \<Rightarrow> u64 \<Rightarrow> ((nat \<times> nat) \<times> nat \<times> u64) option" where
  "i64_slot_next C t g current_mask =
    (case mask_next current_mask of
       Some (si, m') \<Rightarrow> Some ((g, si), g, m')
     | None \<Rightarrow> if i_mask t < g + 1 then None else i64_slot_next C t (g + 1) (i64_occupied C t (g + 1)))"
  by pat_completeness auto
termination
  by (relation "measure (\<lambda>(C, t, g, m). Suc (i_mask t) - g)") auto

declare i64_slot_next.simps [simp del]

lemma i64_slot_next_decreases:
  "i64_slot_next C t g m = Some (p, g', m') \<Longrightarrow> g' = g \<and> unat m' < unat m \<or> g < g' \<and> g' \<le> i_mask t"
proof (induction C t g m arbitrary: p g' m' rule: i64_slot_next.induct)
  case (1 C t g m)
  then show ?case
    by (subst (asm) (2) i64_slot_next.simps)
      (fastforce simp: mask_next_def clear_lowest_less split: if_splits option.splits)
qed

function i64_slot_collect :: "i64_config \<Rightarrow> ('k, 'v) i64_table \<Rightarrow> nat \<Rightarrow> u64 \<Rightarrow> (nat \<times> nat) list" where
  "i64_slot_collect C t g current_mask =
    (case i64_slot_next C t g current_mask of
       None \<Rightarrow> []
     | Some (p, g', m') \<Rightarrow> p # i64_slot_collect C t g' m')"
  by pat_completeness auto
termination
  by (relation "measures [\<lambda>(C, t, g, m). Suc (i_mask t) - g, \<lambda>(C, t, g, m). unat m]")
    (auto dest!: i64_slot_next_decreases)

declare i64_slot_collect.simps [simp del]

definition i64_first_mask :: "i64_config \<Rightarrow> ('k, 'v) i64_table \<Rightarrow> u64" where
  "i64_first_mask C t = (if \<not> i64_is_allocated t then 0 else i64_occupied C t 0)"

definition i64_iter_slots :: "i64_config \<Rightarrow> ('k, 'v) i64_table \<Rightarrow> (nat \<times> nat) list" where
  "i64_iter_slots C t = i64_slot_collect C t 0 (i64_first_mask C t)"

function i64_into_iter_next ::
  "i64_config \<Rightarrow> ('k, 'v) i64_table \<Rightarrow> nat \<Rightarrow> u64 \<Rightarrow> (('k \<times> 'v) \<times> ('k, 'v) i64_table \<times> nat \<times> u64) option" where
  "i64_into_iter_next C t g current_mask =
    (case mask_next current_mask of
       Some (si, m') \<Rightarrow>
         let kv = i64_bucket t g si; t1 = i64_set_meta (i64_write t g si None) g si EMPTY
         in Some (kv, t1\<lparr>i_len := i64_sub (i_len t1) 1\<rparr>, g, m')
     | None \<Rightarrow> if i_mask t < g + 1 then None else i64_into_iter_next C t (g + 1) (i64_occupied C t (g + 1)))"
  by pat_completeness auto
termination
  by (relation "measure (\<lambda>(C, t, g, m). Suc (i_mask t) - g)") auto

declare i64_into_iter_next.simps [simp del]

lemma i64_into_iter_next_decreases:
  "i64_into_iter_next C t g m = Some (kv, t', g', m') \<Longrightarrow>
   i_mask t' = i_mask t \<and> (g' = g \<and> unat m' < unat m \<or> g < g' \<and> g' \<le> i_mask t)"
proof (induction C t g m arbitrary: kv t' g' m' rule: i64_into_iter_next.induct)
  case (1 C t g m)
  then show ?case
    by (subst (asm) (2) i64_into_iter_next.simps)
      (fastforce simp: mask_next_def clear_lowest_less Let_def i64_set_meta_def i64_write_def
        split: if_splits option.splits)
qed

function i64_into_iter_collect ::
  "i64_config \<Rightarrow> ('k, 'v) i64_table \<Rightarrow> nat \<Rightarrow> u64 \<Rightarrow> ('k \<times> 'v) list \<times> ('k, 'v) i64_table" where
  "i64_into_iter_collect C t g current_mask =
    (case i64_into_iter_next C t g current_mask of
       None \<Rightarrow> ([], t)
     | Some (kv, t', g', m') \<Rightarrow> let (kvs, t'') = i64_into_iter_collect C t' g' m' in (kv # kvs, t''))"
  by pat_completeness auto
termination
  by (relation "measures [\<lambda>(C, t, g, m). Suc (i_mask t) - g, \<lambda>(C, t, g, m). unat m]")
    (auto dest!: i64_into_iter_next_decreases)

declare i64_into_iter_collect.simps [simp del]

definition i64_into_iter :: "i64_config \<Rightarrow> ('k, 'v) i64_table \<Rightarrow> ('k \<times> 'v) list \<times> ('k, 'v) i64_table" where
  "i64_into_iter C t = i64_into_iter_collect C t 0 (i64_first_mask C t)"

definition i64_drain :: "i64_config \<Rightarrow> ('k, 'v) i64_table \<Rightarrow> ('k \<times> 'v) list \<times> ('k, 'v) i64_table" where
  "i64_drain C t = (fst (i64_into_iter C t), i64_new)"

text \<open>The buckets that \<^verbatim>\<open>clear\<close> and \<^verbatim>\<open>drop\<close> drop in place, in order.\<close>

definition i64_drop_slots :: "i64_config \<Rightarrow> ('k, 'v) i64_table \<Rightarrow> nat list" where
  "i64_drop_slots C t =
    (if \<not> i64_is_allocated t then []
     else concat (map (\<lambda>gi. map (\<lambda>si. gi * 64 + si) (mask_collect (i64_occupied C t gi))) [0..<i64_num_groups t]))"

definition i64_clone :: "i64_config \<Rightarrow> ('k, 'v) i64_table \<Rightarrow> ('k, 'v) i64_table" where
  "i64_clone C t =
    (if \<not> i64_is_allocated t then i64_new
     else
       let n = i64_num_groups t;
           t0 = i64_allocate i64_new n;
           t1 = t0\<lparr>i_metadata := Some (take (n * 64) (i64_bytes t))\<rparr>;
           t2 = fold (\<lambda>gi. fold (\<lambda>si s. i64_write s gi si (Some (i64_bucket t gi si)))
                  (mask_collect (i64_occupied C t gi))) [0..<n] t1
       in t2\<lparr>i_len := i_len t, i_growth_left := i_growth_left t\<rparr>)"

section \<open>The table interface\<close>

definition i64_api :: "i64_config \<Rightarrow> (('k, 'v) i64_table, 'k, 'v) raw_table_api" where
  "i64_api C = \<lparr>
     ra_new = i64_new, ra_with_capacity = i64_with_capacity,
     ra_len = i_len, ra_capacity = i64_capacity, ra_is_allocated = i64_is_allocated,
     ra_clear = i64_clear, ra_key = (\<lambda>t gi si. fst (i64_bucket t gi si)),
     ra_value = (\<lambda>t gi si. snd (i64_bucket t gi si)), ra_write = i64_write,
     ra_find_by_hash = i64_find_by_hash C, ra_insert_or_replace = i64_insert_or_replace C,
     ra_find_for_entry = i64_find_for_entry C, ra_insert_at = i64_insert_at C,
     ra_insert_no_check = i64_insert_no_check C, ra_ensure_capacity = i64_ensure_capacity C,
     ra_remove_by_hash = i64_remove_by_hash C, ra_erase_slot = (\<lambda>t h. i64_erase_slot t),
     ra_reserve = i64_reserve C, ra_shrink_to_fit = i64_shrink_to_fit C,
     ra_iter_slots = i64_iter_slots C, ra_into_iter = i64_into_iter C, ra_drain = i64_drain C,
     ra_clone = i64_clone C\<rparr>"

end
