(* ===== verification/Ipo64_Refine.thy ===== *)
theory Ipo64_Refine
  imports Tomb_Map Tomb_Bytes Ipo64_Table
begin

text \<open>
  The 64-slot tombstone table refines the tombstone engine. The engine's design
  \<open>Ipo64\<close> has 64 slots and takes the group index from the high hash bits; \<open>i64_of\<close>
  is the 64-slot table that represents a table of the engine. Each operation of
  \<^verbatim>\<open>src/ipo64/raw/mod.rs\<close> on a represented table gives what the engine's operation
  gives, represented again, on every SIMD tier. So the map's contract carries over.
\<close>

definition index_shift :: "nat \<Rightarrow> u64 \<Rightarrow> nat" where
  "index_shift msk h = unat (drop_bit ((64 - trailing_zeros (of_nat (Suc msk) :: u64)) mod 64) h) AND msk"

definition Ipo64 :: "(u64 \<Rightarrow> u8) \<Rightarrow> 64 tomb_design" where
  "Ipo64 T = \<lparr>td_group = TYPE(64), td_shift = 6, reduced_hash = T, td_index = index_shift\<rparr>"

definition i64_of :: "('k, 'v) tomb_table \<Rightarrow> ('k, 'v) i64_table" where
  "i64_of s = \<lparr>
     i_mask = tt_mask s, i_metadata = (if tomb_is_allocated s then Some (tt_ctrl s) else None),
     i_buckets = tt_buckets s, i_len = tt_len s, i_growth_left = tt_growth_left s,
     i_shift = 64 - trailing_zeros (of_nat (Suc (tt_mask s)) :: u64)\<rparr>"

definition i64_abs :: "('k, 'v) i64_table \<Rightarrow> ('k, 'v) tomb_table" where
  "i64_abs t = \<lparr>
     tt_mask = i_mask t, tt_ctrl = i64_bytes t, tt_buckets = i_buckets t, tt_len = i_len t,
     tt_growth_left = i_growth_left t,
     tt_max_load = (if i64_is_allocated t then i64_max_load (length (i64_bytes t)) else 0)\<rparr>"

definition probe_result_of :: "probe_result \<Rightarrow> i64_probe_result" where
  "probe_result_of r = (case r of PFound gi si \<Rightarrow> IFound gi si | PInsertSlot gi si m \<Rightarrow> IInsertSlot gi si m | PNotFound \<Rightarrow> INotFound)"

definition i64_map :: "('k, 'v) i64_table \<Rightarrow> 'k \<rightharpoonup> 'v" where
  "i64_map t = bucket_map (i_buckets t)"

definition i64_wf :: "i64_config \<Rightarrow> ('k \<Rightarrow> u64) \<Rightarrow> ('k, 'v) i64_table \<Rightarrow> bool" where
  "i64_wf C hash t \<longleftrightarrow> t = i64_of (i64_abs t) \<and> tomb_wf (Ipo64 (i64_reduced_hash C)) hash (i64_abs t)"

definition i64_can_grow :: "('k, 'v) i64_table \<Rightarrow> bool" where
  "i64_can_grow t \<longleftrightarrow> Suc (i_mask t) < 2 ^ 54"

definition i64_config_ok :: "i64_config \<Rightarrow> bool" where
  "i64_config_ok C \<longleftrightarrow> (\<forall>h. i64_reduced_hash C h \<noteq> EMPTY \<and> i64_reduced_hash C h \<noteq> TOMBSTONE)"

lemma index_shift_le: "groups_ok (Suc msk) \<Longrightarrow> index_shift msk h \<le> msk"
  using and_pred_groups [of "Suc msk"] by (simp add: index_shift_def less_Suc_eq_le [symmetric])

lemma Ipo64_simps [simp]: "td_shift (Ipo64 T) = 6" "reduced_hash (Ipo64 T) = T" "td_index (Ipo64 T) = index_shift"
  by (simp_all add: Ipo64_def)

lemma Ipo64_valid: "i64_config_ok C \<Longrightarrow> valid_design (Ipo64 (i64_reduced_hash C))"
  by (simp add: valid_design_def i64_config_ok_def index_shift_le)

lemma i64_of_sel [simp]:
  "i_mask (i64_of s) = tt_mask s" "i_buckets (i64_of s) = tt_buckets s" "i_len (i64_of s) = tt_len s"
  "i_growth_left (i64_of s) = tt_growth_left s" "i64_num_groups (i64_of s) = tomb_num_groups s"
  "i64_is_allocated (i64_of s) \<longleftrightarrow> tomb_is_allocated s" "i64_map (i64_of s) = tomb_map s"
  "i64_can_grow (i64_of s) \<longleftrightarrow> tomb_can_grow s"
  by (simp_all add: i64_of_def i64_num_groups_def tomb_num_groups_def i64_is_allocated_def i64_map_def tomb_map_def
      i64_can_grow_def tomb_can_grow_def)

lemma i64_of_upd:
  "(i64_of s)\<lparr>i_len := n\<rparr> = i64_of (s\<lparr>tt_len := n\<rparr>)"
  "(i64_of s)\<lparr>i_growth_left := n\<rparr> = i64_of (s\<lparr>tt_growth_left := n\<rparr>)"
  by (simp_all add: i64_of_def tomb_is_allocated_def)

lemma i64_arith [simp]: "i64_sub = usize_sub" "i64_max_load = tomb_max_load"
  by (simp_all add: fun_eq_iff i64_sub_def usize_sub_def i64_max_load_def tomb_max_load_def)

lemma i64_groups [simp]: "tomb_groups_for_capacity (D :: 64 tomb_design) = i64_groups_for_capacity"
  by (simp add: fun_eq_iff i64_groups_for_capacity_def tomb_groups_for_capacity_def)

lemma trailing_zeros_1 [simp]: "trailing_zeros (1 :: u64) = 0"
  using trailing_zeros_low [of "1 :: u64" 0] by (auto simp: bit_1_iff)

lemma i64_of_new: "i64_of (tomb_new (D :: 64 tomb_design)) = i64_new"
  by (simp add: i64_of_def i64_new_def tomb_new_def tomb_is_allocated_def)

lemma mask_find_cong: "(\<And>i. bit m i \<Longrightarrow> P i = Q i) \<Longrightarrow> mask_find P m = mask_find Q m"
  unfolding mask_find_eq by (rule find_cong) auto

lemma foldM_cong: "(\<And>x s. x \<in> set xs \<Longrightarrow> f x s = g x s) \<Longrightarrow> foldM f xs s = foldM g xs s"
  by (induction xs arbitrary: s) (auto split: option.split)

section \<open>Groups of a represented table\<close>

locale i64_layout =
  fixes C :: i64_config
  assumes config: "i64_config_ok C"
begin

abbreviation D :: "64 tomb_design" where
  "D \<equiv> Ipo64 (i64_reduced_hash C)"

end

sublocale i64_layout \<subseteq> tomb: tomb_layout "Ipo64 (i64_reduced_hash C)"
  by unfold_locales (rule Ipo64_valid [OF config])

context i64_layout
begin

text \<open>A table of the engine whose groups can be read through its representation.\<close>

definition readable :: "('k, 'v) tomb_table \<Rightarrow> bool" where
  "readable s \<longleftrightarrow> tomb_ctrl_ok D s \<and> (tomb_is_allocated s \<or> tt_ctrl s = replicate 64 0) \<and> EMPTY \<in> set (tt_ctrl s)"

lemma readableD: "readable s \<Longrightarrow> tomb_ctrl_ok D s" "readable s \<Longrightarrow> EMPTY \<in> set (tt_ctrl s)"
  "readable s \<Longrightarrow> i64_bytes (i64_of s) = tt_ctrl s"
  by (auto simp: readable_def i64_bytes_def i64_of_def)

lemma wf_readable: "tomb_wf D hash s \<Longrightarrow> readable s"
proof (erule tomb.wf_cases)
  assume "s = tomb_new D"
  then show "readable s"
    using tomb.new_ctrl_ok by (simp add: readable_def EMPTY_def)
next
  assume "tomb_content D hash s" "tomb_counts D s"
  then show "readable s"
    using tomb.counts_empty [of hash s] tomb.wf_allocated(1) [of hash s] tomb.content_ctrl
    by (auto simp: readable_def tomb_wf_def)
qed

lemma group_index: "i64_group_index (i64_of s) h = tomb_group_index D s h"
  by (simp add: i64_group_index_def tomb_group_index_def index_shift_def i64_of_def)

lemma bucket: "si < 64 \<Longrightarrow> i64_bucket (i64_of s) gi si = (tomb_key_at D s gi si, tomb_value_at D s gi si)"
  using tomb.bucket_index_add [of si gi] by (simp add: i64_bucket_def tomb_key_at_def tomb_value_at_def)

lemma set_meta: "i64_set_meta (i64_of s) gi si x = i64_of (tomb_set_meta D s gi si x)"
  by (simp add: i64_set_meta_def tomb_set_meta_def i64_of_def tomb_is_allocated_def push_bit_eq_mult)

lemma store: "si < 64 \<Longrightarrow> i64_write (i64_of s) gi si x = i64_of (tomb_write D s gi si x)"
  using tomb.bucket_index_add [of si gi] by (simp add: i64_write_def tomb_write_def i64_of_def tomb_is_allocated_def)

lemma put: "si < 64 \<Longrightarrow> i64_put C (i64_of s) h gi si k v = i64_of (tomb_put D s h gi si k v)"
  by (simp add: i64_put_def tomb_put_def set_meta store)

lemma replace_value:
  "si < 64 \<Longrightarrow> i64_replace_value (i64_of s) gi si v = map_prod id i64_of (tomb_replace_value D s gi si v)"
  by (simp add: i64_replace_value_def tomb_replace_value_def bucket store)

lemma erase_slot: "i64_erase_slot (i64_of s) gi si = i64_of (tomb_erase_slot D s gi si)"
  by (simp add: i64_erase_slot_def tomb_erase_slot_def set_meta i64_of_upd Let_def)

lemma meta:
  assumes "readable s" "gi \<le> tt_mask s"
  shows "i64_meta (i64_of s) gi = tomb_meta D s gi" "length (tomb_meta D s gi) = 64"
  using readableD(3) [OF assms(1)] tomb.length_meta [OF readableD(1) [OF assms(1)] assms(2)]
  by (simp_all add: i64_meta_def tomb_meta_def push_bit_eq_mult)

lemma views:
  assumes "readable s" "gi \<le> tt_mask s"
  shows "i64_match_byte_and_empty tier (i64_meta (i64_of s) gi) r =
      (tomb_match_byte (tomb_meta D s gi) r, tomb_match_empty (tomb_meta D s gi))"
    and "i64_scan (i64_of s) gi eq (tomb_match_byte (tomb_meta D s gi) r) = tomb_group_find D s gi eq r"
    and "any_set (tomb_match_empty (tomb_meta D s gi) :: u64) = tomb_any_empty D s gi"
    and "lowest_set_bit (tomb_match_empty (tomb_meta D s gi) :: u64) = tomb_first_empty D s gi"
    and "lowest_set_bit (i64_match_empty tier (i64_meta (i64_of s) gi)) = tomb_first_empty D s gi"
    and "lowest_set_bit (i64_match_byte tier (i64_meta (i64_of s) gi) x) = tomb_first D s gi x"
    and "i64_occupied C (i64_of s) gi = tomb_occupied D s gi"
proof -
  show "i64_scan (i64_of s) gi eq (tomb_match_byte (tomb_meta D s gi) r) = tomb_group_find D s gi eq r"
    unfolding i64_scan_def tomb_group_find_def
    by (rule mask_find_cong) (use bit_imp_le_length in \<open>force simp: bucket\<close>)
qed (simp_all add: meta [OF assms] i64_match_byte_and_empty_eq i64_match_empty_eq i64_match_byte_eq i64_match_occupied_eq
    tomb_any_empty_def tomb_first_empty_def tomb_first_def i64_occupied_def tomb_occupied_def)

end

section \<open>Probe loops\<close>

context i64_layout
begin

lemma probe_le: "readable s \<Longrightarrow> tomb_probe D s h p \<le> tt_mask s"
  by (rule tomb.probe_le [OF readableD(1)])

lemma probe_0: "tomb_probe D s h 0 = tomb_group_index D s h"
  by (simp add: tomb_probe_def)

lemma probe_Suc: "next_group (tt_mask s) (tomb_probe D s h p) (Suc p) = tomb_probe D s h (Suc p)"
  by (simp add: tomb_probe_def)

text \<open>The three find loops have one body; any function with that body is the engine's loop.\<close>

lemma find_loop:
  assumes s: "readable s"
    and f: "\<And>gi p. f gi p = (let (matches, empties) = i64_match_byte_and_empty tier (i64_meta (i64_of s) gi) r in
       case i64_scan (i64_of s) gi eq matches of
         Some si \<Rightarrow> Some (Some (gi, si))
       | None \<Rightarrow> if any_set empties then Some None else f (next_group (tt_mask s) gi (p + 1)) (p + 1))"
  shows "f (tomb_group_index D s h) 0 = tomb_find_loop D s r eq (tomb_group_index D s h) 0"
proof -
  have "f (tomb_probe D s h 0) 0 = tomb_find_loop D s r eq (tomb_probe D s h 0) 0"
  proof (rule tomb.probe_induct [OF readableD(1,2) [OF s], where h = h])
    fix p
    assume "tomb_full D s (tomb_probe D s h p) \<Longrightarrow>
      f (tomb_probe D s h (Suc p)) (Suc p) = tomb_find_loop D s r eq (tomb_probe D s h (Suc p)) (Suc p)"
    then show "f (tomb_probe D s h p) p = tomb_find_loop D s r eq (tomb_probe D s h p) p"
      using tomb.any_empty [OF readableD(1) [OF s] probe_le [OF s], of h p]
      by (subst f, subst tomb_find_loop.simps) (simp add: views [OF s probe_le [OF s]] probe_Suc split: option.split)
  qed simp
  then show ?thesis by (simp add: probe_0)
qed

lemma find_by_hash:
  assumes "readable s"
  shows "i64_find_by_hash C (i64_of s) h eq = tomb_find_by_hash D s h eq"
proof -
  let ?r = "i64_reduced_hash C h"
  have "find_by_hash_avx512 (i64_of s) ?r eq (tomb_group_index D s h) 0 = tomb_find_loop D s ?r eq (tomb_group_index D s h) 0"
    by (rule find_loop [OF assms, where tier = AVX512]) (subst find_by_hash_avx512.simps, simp only: i64_of_sel i64_match_byte_and_empty.simps)
  moreover have "find_by_hash_avx2 (i64_of s) ?r eq (tomb_group_index D s h) 0 = tomb_find_loop D s ?r eq (tomb_group_index D s h) 0"
    by (rule find_loop [OF assms, where tier = AVX2]) (subst find_by_hash_avx2.simps, simp only: i64_of_sel i64_match_byte_and_empty.simps)
  moreover have "find_by_hash_sse2 tier (i64_of s) ?r eq (tomb_group_index D s h) 0 =
      tomb_find_loop D s ?r eq (tomb_group_index D s h) 0" for tier
    by (rule find_loop [OF assms, where tier = tier]) (subst find_by_hash_sse2.simps, simp only: i64_of_sel)
  ultimately show ?thesis
    by (simp add: i64_find_by_hash_def tomb_find_by_hash_def group_index Let_def split: simd_tier.split)
qed

lemma insert_no_check:
  assumes s: "readable s"
  shows "i64_insert_no_check C (i64_of s) h k v = map_option (map_prod id i64_of) (tomb_insert_no_check D s h k v)"
proof -
  let ?ok = "\<lambda>ft :: (nat \<times> nat) option. \<forall>g i. ft = Some (g, i) \<longrightarrow> i < 64"
  have "\<forall>ft. ?ok ft \<longrightarrow> i64_insert_no_check_loop C (i64_of s) h k v (tomb_probe D s h 0) 0 ft =
    map_option (map_prod id i64_of) (tomb_insert_no_check_loop D s h k v (tomb_probe D s h 0) 0 ft)"
  proof (rule tomb.probe_induct [OF readableD(1,2) [OF s], where h = h])
    fix p
    let ?g = "tomb_probe D s h p"
    note le = probe_le [OF s, of h p]
    assume IH: "tomb_full D s ?g \<Longrightarrow> \<forall>ft. ?ok ft \<longrightarrow>
      i64_insert_no_check_loop C (i64_of s) h k v (tomb_probe D s h (Suc p)) (Suc p) ft =
      map_option (map_prod id i64_of) (tomb_insert_no_check_loop D s h k v (tomb_probe D s h (Suc p)) (Suc p) ft)"
    show "\<forall>ft. ?ok ft \<longrightarrow> i64_insert_no_check_loop C (i64_of s) h k v ?g p ft =
      map_option (map_prod id i64_of) (tomb_insert_no_check_loop D s h k v ?g p ft)"
    proof (intro allI impI)
      fix ft :: "(nat \<times> nat) option" assume ft: "?ok ft"
      let ?ft = "if ft = None then map_option (Pair ?g) (tomb_first D s ?g TOMBSTONE) else ft"
      have ft': "?ok ?ft" using ft tomb.first_Some(1) [OF readableD(1) [OF s] le] by auto
      show "i64_insert_no_check_loop C (i64_of s) h k v ?g p ft =
        map_option (map_prod id i64_of) (tomb_insert_no_check_loop D s h k v ?g p ft)"
        using IH ft' tomb.first_empty_None [OF readableD(1) [OF s] le] tomb.first_empty_Some(1) [OF readableD(1) [OF s] le]
        by (subst i64_insert_no_check_loop.simps, subst tomb_insert_no_check_loop.simps, unfold Let_def views(5,6) [OF s le])
          (auto simp: put i64_of_upd probe_Suc simp del: not_None_eq split: option.split)
    qed
  qed simp
  from spec [OF this, of None] show ?thesis
    by (simp add: i64_insert_no_check_def tomb_insert_no_check_def group_index probe_0)
qed

lemma locate_overflow:
  assumes s: "readable s" and "tomb_full D s (tomb_probe D s h 0)"
  shows "i64_find_or_locate_overflow C (i64_of s) eq r (tomb_probe D s h 1) 1 fa =
    map_option probe_result_of (tomb_find_or_locate_overflow D s eq r (tomb_probe D s h 1) 1 fa)"
proof -
  have "\<forall>fa. i64_find_or_locate_overflow C (i64_of s) eq r (tomb_probe D s h 1) 1 fa =
    map_option probe_result_of (tomb_find_or_locate_overflow D s eq r (tomb_probe D s h 1) 1 fa)"
  proof (rule tomb.probe_induct [OF readableD(1,2) [OF s], where h = h])
    fix p
    let ?g = "tomb_probe D s h p"
    note le = probe_le [OF s, of h p]
    assume IH: "tomb_full D s ?g \<Longrightarrow> \<forall>fa. i64_find_or_locate_overflow C (i64_of s) eq r (tomb_probe D s h (Suc p)) (Suc p) fa =
      map_option probe_result_of (tomb_find_or_locate_overflow D s eq r (tomb_probe D s h (Suc p)) (Suc p) fa)"
    then show "\<forall>fa. i64_find_or_locate_overflow C (i64_of s) eq r ?g p fa =
      map_option probe_result_of (tomb_find_or_locate_overflow D s eq r ?g p fa)"
      using tomb.any_empty [OF readableD(1) [OF s] le]
      by (intro allI, subst i64_find_or_locate_overflow.simps, subst tomb_find_or_locate_overflow.simps)
        (simp add: views [OF s le] Let_def probe_Suc probe_result_of_def split: option.split)
  qed (use assms(2) in simp)
  then show ?thesis by blast
qed

lemma find_or_locate:
  assumes s: "readable s"
  shows "i64_find_or_locate C (i64_of s) h eq = map_option probe_result_of (tomb_find_or_locate D s h eq)"
proof -
  let ?g = "tomb_probe D s h 0"
  note le = probe_le [OF s, of h 0]
  have "next_group (tt_mask s) ?g 1 = tomb_probe D s h 1" using probe_Suc [of s h 0] by simp
  then show ?thesis
    using locate_overflow [OF s, of h] tomb.first_empty_None [OF readableD(1) [OF s] le]
    by (cases "tomb_group_find D s ?g eq (i64_reduced_hash C h)"; cases "tomb_first_empty D s ?g"; cases "tomb_first D s ?g TOMBSTONE")
      (simp_all add: i64_find_or_locate_def tomb_find_or_locate_def group_index views [OF s le] Let_def
        probe_result_of_def [of "PFound _ _"] probe_result_of_def [of "PInsertSlot _ _ _"] flip: probe_0)
qed

end

section \<open>Rehashing\<close>

text \<open>
  Rehashing inserts with the counting insertion instead of the bare one. Without tombstones
  the two choose the same slot.
\<close>

context tomb_layout
begin

lemma no_check_fresh:
  assumes ok: "tomb_ctrl_ok D s" "EMPTY \<in> set (tt_ctrl s)" and "tombs s = 0"
  shows "map_option snd (tomb_insert_no_check D (s\<lparr>tt_len := a, tt_growth_left := b\<rparr>) h k v) =
    map_option (\<lambda>u. u\<lparr>tt_len := a + 1, tt_growth_left := usize_sub b 1\<rparr>) (tomb_insert_after_resize D s h k v)"
proof -
  define s' where "s' = s\<lparr>tt_len := a, tt_growth_left := b\<rparr>"
  have same: "tomb_first_empty D s' g = tomb_first_empty D s g" "tomb_first D s' g x = tomb_first D s g x"
    "tomb_put D s' h g i k v = (tomb_put D s h g i k v)\<lparr>tt_len := a, tt_growth_left := b\<rparr>" "tt_mask s' = tt_mask s" for g x i
    by (simp_all add: s'_def tomb_first_empty_def tomb_first_def tomb_meta_def tomb_put_def tomb_write_def tomb_set_meta_def)
  have nxt: "next_group (tt_mask s) (tomb_probe D s h p) (Suc p) = tomb_probe D s h (Suc p)" for p
    by (simp add: tomb_probe_def)
  have none: "tomb_first D s g TOMBSTONE = None" if "g \<le> tt_mask s" for g
  proof (rule ccontr)
    assume "tomb_first D s g TOMBSTONE \<noteq> None"
    then obtain i where "tomb_first D s g TOMBSTONE = Some i" by blast
    note i = first_Some [OF ok(1) that this]
    have "TOMBSTONE \<in> set (tt_ctrl s)" using flat_less [OF ok(1) that i(1)] i(2) by (metis nth_mem tomb_tag_def)
    then show False using assms(3) by (auto simp: tombs_def filter_empty_conv)
  qed
  have "map_option snd (tomb_insert_no_check_loop D s' h k v (tomb_probe D s h 0) 0 None) =
    map_option (\<lambda>u. u\<lparr>tt_len := a + 1, tt_growth_left := usize_sub b 1\<rparr>)
      (tomb_insert_after_resize_loop D s h k v (tomb_probe D s h 0) 0)"
  proof (rule probe_induct [OF ok, where h = h])
    fix p
    note le = probe_le [OF ok(1), of h p]
    assume "tomb_full D s (tomb_probe D s h p) \<Longrightarrow>
      map_option snd (tomb_insert_no_check_loop D s' h k v (tomb_probe D s h (Suc p)) (Suc p) None) =
      map_option (\<lambda>u. u\<lparr>tt_len := a + 1, tt_growth_left := usize_sub b 1\<rparr>)
        (tomb_insert_after_resize_loop D s h k v (tomb_probe D s h (Suc p)) (Suc p))"
    then show "map_option snd (tomb_insert_no_check_loop D s' h k v (tomb_probe D s h p) p None) =
      map_option (\<lambda>u. u\<lparr>tt_len := a + 1, tt_growth_left := usize_sub b 1\<rparr>)
        (tomb_insert_after_resize_loop D s h k v (tomb_probe D s h p) p)"
      using first_empty_None [OF ok(1) le]
      by (subst tomb_insert_no_check_loop.simps, subst tomb_insert_after_resize_loop.simps)
        (auto simp: same none [OF le] Let_def nxt split: option.split)
  qed simp
  then show ?thesis
    unfolding s'_def by (simp add: tomb_insert_no_check_def tomb_insert_after_resize_def tomb_probe_def tomb_group_index_def)
qed

end

context i64_layout
begin

lemma rehash_fold:
  assumes "tomb_content D hash s" "tombs s = 0" "distinct (map fst xs)" "tomb_is_allocated s"
    "\<And>k. k \<in> fst ` set xs \<Longrightarrow> tomb_map s k = None"
    and "length (somes (tt_buckets s)) + length xs < length (tt_ctrl s)" "length xs \<le> b"
  shows "foldM (\<lambda>(k, v) t. map_option snd (i64_insert_no_check C t (hash k) k v)) xs
      (i64_of (s\<lparr>tt_len := a, tt_growth_left := b\<rparr>)) =
    map_option (\<lambda>u. i64_of (u\<lparr>tt_len := a + length xs, tt_growth_left := b - length xs\<rparr>))
      (foldM (\<lambda>(k, v) s. tomb_insert_after_resize D s (hash k) k v) xs s)"
  using assms
proof (induction xs arbitrary: s a b)
  case (Cons x xs)
  obtain k v where x: "x = (k, v)" by fastforce
  let ?s = "s\<lparr>tt_len := a, tt_growth_left := b\<rparr>"
  have new: "tomb_map s k = None" using Cons.prems(5) x by simp
  have e: "EMPTY \<in> set (tt_ctrl s)"
    by (rule tomb.empty_remains [OF Cons.prems(1)]) (use Cons.prems(2,6) in simp)
  then obtain gi si where ins: "tomb_insert_after_resize D s (hash k) k v = Some (tomb_put D s (hash k) gi si k v)"
    "tomb_available D s (hash k) gi si" "tomb_tag D s gi si = EMPTY"
    by (rule tomb.insert_after_resize_correct [OF Cons.prems(1)])
  let ?u = "tomb_put D s (hash k) gi si k v"
  note put = tomb.put_correct [OF Cons.prems(1) ins(2) new refl, of v]
  have ok: "tomb_ctrl_ok D s" by (rule tomb.content_ctrl [OF Cons.prems(1)])
  have "readable ?s" using ok e Cons.prems(4) by (simp add: readable_def tomb_ctrl_ok_def tomb_is_allocated_def)
  note i = insert_no_check [OF this, of "hash k" k v]
  have "map_option snd (i64_insert_no_check C (i64_of ?s) (hash k) k v) =
    map_option i64_of (map_option snd (tomb_insert_no_check D ?s (hash k) k v))"
    unfolding i option.map_comp by (rule arg_cong [where f = "\<lambda>f. map_option f _"]) auto
  also have "\<dots> = Some (i64_of (?u\<lparr>tt_len := a + 1, tt_growth_left := b - 1\<rparr>))"
    unfolding tomb.no_check_fresh [OF ok e Cons.prems(2)] ins(1) using Cons.prems(7) by (simp add: usize_sub_def)
  finally have step: "map_option snd (i64_insert_no_check C (i64_of ?s) (hash k) k v) =
    Some (i64_of (?u\<lparr>tt_len := a + 1, tt_growth_left := b - 1\<rparr>))" .
  have "foldM (\<lambda>(k, v) t. map_option snd (i64_insert_no_check C t (hash k) k v)) xs
      (i64_of (?u\<lparr>tt_len := a + 1, tt_growth_left := b - 1\<rparr>)) =
    map_option (\<lambda>u. i64_of (u\<lparr>tt_len := a + 1 + length xs, tt_growth_left := b - 1 - length xs\<rparr>))
      (foldM (\<lambda>(k, v) s. tomb_insert_after_resize D s (hash k) k v) xs ?u)"
    using Cons.prems put ins(3) by (intro Cons.IH) (auto simp: x tomb_is_allocated_def)
  then show ?case using step ins(1) by (auto simp: x)
qed (simp add: i64_of_def tomb_is_allocated_def)

end

context i64_layout
begin

lemma allocate: "0 < n \<Longrightarrow> i64_allocate (i64_of s) n = i64_of (tomb_allocate D s n)"
  using tomb.max_load_pos [of n] by (simp add: i64_allocate_def tomb_allocate_def i64_of_def tomb_is_allocated_def)

lemma allocate_unallocated:
  "0 < n \<Longrightarrow> i64_allocate (t\<lparr>i_metadata := None, i_buckets := [], i_mask := 0, i_len := 0, i_growth_left := 0\<rparr>) n =
    i64_of (tomb_allocate D (s\<lparr>tt_ctrl := c, tt_buckets := [], tt_mask := 0, tt_len := 0, tt_max_load := 0\<rparr>) n)"
  using tomb.max_load_pos [of n] by (simp add: i64_allocate_def tomb_allocate_def i64_of_def tomb_is_allocated_def)

lemma rehash_with:
  assumes wf: "tomb_wf D hash s" and n: "groups_ok n" "tt_len s \<le> tomb_max_load (n * 64)"
  shows "i64_rehash_with C hash (i64_of s) n = map_option i64_of (tomb_rehash_with D hash s n)"
proof (cases "tomb_is_allocated s")
  case False
  then show ?thesis
    using groups_ok_pos [OF n(1)]
    by (simp add: i64_rehash_with_def tomb_rehash_with_def Let_def allocate_unallocated)
next
  case True
  then have c: "tomb_content D hash s" "tomb_counts D s" using tomb.wf_allocated(1) [OF wf] by auto
  let ?xs = "somes (tt_buckets s)" and ?r = "s\<lparr>tt_ctrl := replicate 64 0, tt_buckets := [], tt_mask := 0, tt_len := 0, tt_max_load := 0\<rparr>"
  let ?t0 = "tomb_allocate D ?r n"
  note alloc = tomb.allocate_correct(1) [OF n(1), of hash ?r] tomb.allocate_correct(2-5) [OF n(1), of ?r]
  have len: "tt_len s = length ?xs" using c(2) by (simp add: tomb_counts_def)
  have "0 < n * 64" using groups_ok_pos [OF n(1)] by simp
  then have "length ?xs < n * 64" using tomb.max_load_less [of "n * 64"] n(2) len by simp
  then have room: "length (somes (tt_buckets ?t0)) + length ?xs < length (tt_ctrl ?t0)" by (simp add: alloc(4))
  have dist: "distinct (map fst ?xs)" using c(1) by (simp add: tomb_content_def keys_distinct_def)
  have al: "tomb_is_allocated ?t0" using groups_ok_pos [OF n(1)] tomb.max_load_pos [of n] by (simp add: tomb_is_allocated_def)
  have gi: "i64_occupied C (i64_of s) gi = tomb_occupied D s gi" if "gi < Suc (tt_mask s)" for gi
    using views(7) [OF wf_readable [OF wf], of gi] that by simp
  have entry: "the (tt_buckets s ! (push_bit 6 gi OR si)) = tomb_entry D s (gi, si)" for gi si
    by (simp add: tomb_entry_def tomb_key_at_def tomb_value_at_def tomb_bucket_index_def)
  have "i64_rehash_with C hash (i64_of s) n =
      foldM (\<lambda>gi. foldM (\<lambda>si t. case tomb_entry D s (gi, si) of (k, v) \<Rightarrow>
          map_option snd (i64_insert_no_check C t (hash k) k v)) (mask_collect (i64_occupied C (i64_of s) gi)))
        [0..<Suc (tt_mask s)] (i64_of ?t0)"
    using True groups_ok_pos [OF n(1)]
    by (simp add: i64_rehash_with_def Let_def allocate_unallocated [where s = s and c = "replicate 64 0"] entry tomb_num_groups_def del: upt_Suc)
  also have "\<dots> = foldM (\<lambda>gi. foldM (\<lambda>si t. case tomb_entry D s (gi, si) of (k, v) \<Rightarrow>
          map_option snd (i64_insert_no_check C t (hash k) k v)) (mask_collect (tomb_occupied D s gi)))
        [0..<Suc (tt_mask s)] (i64_of ?t0)"
    by (rule foldM_cong) (use gi in auto)
  also have "\<dots> = foldM (\<lambda>(k, v) t. map_option snd (i64_insert_no_check C t (hash k) k v)) ?xs (i64_of ?t0)"
    by (simp add: foldM_map tomb_occupied_slots_def case_prod_unfold del: upt_Suc flip: tomb.occupied_entries [OF c(1)] foldM_concat)
  also have "?t0 = ?t0\<lparr>tt_len := 0, tt_growth_left := tomb_max_load (n * 64)\<rparr>" by (simp add: tomb_allocate_def)
  also have "foldM (\<lambda>(k, v) t. map_option snd (i64_insert_no_check C t (hash k) k v)) ?xs (i64_of \<dots>) =
      map_option (\<lambda>u. i64_of (u\<lparr>tt_len := 0 + length ?xs, tt_growth_left := tomb_max_load (n * 64) - length ?xs\<rparr>))
        (foldM (\<lambda>(k, v) s. tomb_insert_after_resize D s (hash k) k v) ?xs ?t0)"
    by (rule rehash_fold [OF alloc(1,2) dist al _ room]) (use alloc(3) n(2) len in simp_all)
  also have "\<dots> = map_option i64_of (tomb_rehash_with D hash s n)"
    using tomb.insert_all [OF alloc(1,2) dist _ room] alloc(3) n(2) tomb.rehash_run [OF c(1) True, of n]
    by (auto simp: len usize_sub_def)
  finally show ?thesis .
qed

end

section \<open>The operations on a represented table\<close>

context i64_layout
begin

lemma group_find_slot: "tomb_group_find D s gi eq r = Some si \<Longrightarrow> si < 64"
  using mask_find_Some bit_imp_le_length unfolding tomb_group_find_def by fastforce

lemma find_slot:
  assumes r: "readable s" and "tomb_find_by_hash D s h eq = Some (Some (gi, si))"
  shows "si < 64"
proof -
  let ?P = "\<lambda>p. \<forall>gi si. tomb_find_loop D s (i64_reduced_hash C h) eq (tomb_probe D s h p) p = Some (Some (gi, si)) \<longrightarrow> si < 64"
  have "?P 0"
  proof (rule tomb.probe_induct [OF readableD(1,2) [OF r], where h = h and P = ?P])
    fix p assume "tomb_full D s (tomb_probe D s h p) \<Longrightarrow> ?P (Suc p)"
    then show "?P p"
      using tomb.any_empty [OF readableD(1) [OF r] probe_le [OF r], of h p] group_find_slot
      by (subst tomb_find_loop.simps) (auto simp: probe_Suc split: option.split)
  qed simp
  then show ?thesis using assms(2) by (simp add: tomb_find_by_hash_def probe_0)
qed

lemma first_empty_slot: "tomb_first_empty D s gi = Some si \<Longrightarrow> si < 64"
  using lowest_set_bit_Some bit_imp_le_length unfolding tomb_first_empty_def by fastforce

lemma grow_or_rehash:
  assumes "tomb_wf D hash s" "tomb_can_grow s"
  shows "\<exists>u. tomb_grow_or_rehash D hash s = Some u \<and> i64_grow_or_rehash C hash (i64_of s) = Some (i64_of u) \<and> tomb_wf D hash u"
proof -
  obtain u where "tomb_grow_or_rehash D hash s = Some u" "tomb_content D hash u" "tomb_counts D u"
    "tomb_map u = tomb_map s" "0 < tt_growth_left u" by (rule tomb.grow_or_rehash_correct [OF assms])
  moreover have "i64_grow_or_rehash C hash (i64_of s) = i64_rehash_with C hash (i64_of s) (tomb.grown_groups s)"
    by (simp add: i64_grow_or_rehash_def tomb.grown_groups_def)
  ultimately show ?thesis
    using rehash_with [OF assms(1) tomb.grown_groups_ok(1) [OF assms]] tomb.grown_groups_ok(2) [OF assms]
    by (simp add: tomb.grow_or_rehash_eq tomb_wf_def)
qed

lemma ensure_capacity:
  assumes "tomb_wf D hash s" "tomb_can_grow s"
  shows "\<exists>u. tomb_ensure_capacity D hash s = Some u \<and> i64_ensure_capacity C hash (i64_of s) = Some (i64_of u) \<and> tomb_wf D hash u"
  using grow_or_rehash [OF assms] assms(1) by (auto simp: i64_ensure_capacity_def tomb_ensure_capacity_def)

lemma first_allocation:
  assumes "tomb_wf D hash s" "tomb_can_grow s"
  defines "u \<equiv> if \<not> tomb_is_allocated s then tomb_allocate D s 1 else s"
  shows "(if \<not> i64_is_allocated (i64_of s) then i64_allocate (i64_of s) 1 else i64_of s) = i64_of u"
    "tomb_wf D hash u" "tomb_can_grow u"
proof -
  show "(if \<not> i64_is_allocated (i64_of s) then i64_allocate (i64_of s) 1 else i64_of s) = i64_of u"
    by (simp add: u_def allocate)
  show "tomb_wf D hash u" "tomb_can_grow u"
    using assms tomb.allocate_correct(1) [OF groups_ok_1(1), of hash s] tomb.allocate_correct(5) [OF groups_ok_1(1), of s]
      tomb.wf_allocated(2) [OF assms(1)]
    by (auto simp: u_def tomb_wf_def tomb_can_grow_def tomb_allocate_def)
qed

lemma insert_or_replace:
  assumes "tomb_wf D hash s" "tomb_can_grow s"
  shows "i64_insert_or_replace C hash (i64_of s) k v = map_option (map_prod id i64_of) (tomb_insert_or_replace D hash s k v)"
proof -
  define u where "u = (if \<not> tomb_is_allocated s then tomb_allocate D s 1 else s)"
  note al = first_allocation [OF assms, folded u_def]
  have r: "readable u" by (rule wf_readable [OF al(2)])
  let ?g = "tomb_group_index D u (hash k)"
  have le: "?g \<le> tt_mask u" using probe_le [OF r, of "hash k" 0] by (simp add: probe_0)
  obtain w where w: "tomb_grow_or_rehash D hash u = Some w" "i64_grow_or_rehash C hash (i64_of u) = Some (i64_of w)" "tomb_wf D hash w"
    using grow_or_rehash [OF al(2,3)] by blast
  note simps = find_by_hash [OF r] w(1,2) insert_no_check [OF wf_readable [OF w(3)]] insert_no_check [OF r]
    group_index views [OF r le] option.map_comp comp_def case_prod_unfold
  have find: "si < 64" if "tomb_find_by_hash D u (hash k) (\<lambda>x. x = k) = Some (Some (gi, si))" for gi si
    by (rule find_slot [OF r that])
  show ?thesis
    unfolding i64_insert_or_replace_def tomb_insert_or_replace_def al(1) u_def [symmetric] Let_def
    by (auto simp: simps replace_value put i64_of_upd dest: find group_find_slot first_empty_slot split: option.split)
qed

lemma insert_with_rehash:
  assumes "tomb_wf D hash s" "tomb_can_grow s"
  shows "i64_insert_with_rehash C hash (i64_of s) k v =
    map_option (map_prod id i64_of) (tomb_insert_with_rehash D hash s k v)"
proof -
  define u where "u = (if \<not> tomb_is_allocated s then tomb_allocate D s 1 else s)"
  note al = first_allocation [OF assms, folded u_def]
  have r: "readable u" by (rule wf_readable [OF al(2)])
  obtain w where w: "tomb_grow_or_rehash D hash u = Some w" "i64_grow_or_rehash C hash (i64_of u) = Some (i64_of w)" "tomb_wf D hash w"
    using grow_or_rehash [OF al(2,3)] by blast
  show ?thesis
    unfolding i64_insert_with_rehash_def tomb_insert_with_rehash_def al(1) u_def [symmetric] Let_def
    by (auto simp: i64_find_with_hash_def tomb_find_with_hash_def find_by_hash [OF r] w(1,2) option.map_comp comp_def
        case_prod_unfold insert_no_check [OF wf_readable [OF w(3)]] insert_no_check [OF r] split: option.split)
qed

lemma find_for_entry:
  assumes r: "readable s"
  shows "i64_find_for_entry C (i64_of s) h k = tomb_find_for_entry D s h k"
proof -
  have le: "tomb_group_index D s h \<le> tt_mask s" using probe_le [OF r, of h 0] by (simp add: probe_0)
  have pr: "(case probe_result_of r of IFound gi si \<Rightarrow> f gi si | IInsertSlot gi si m \<Rightarrow> g gi si m | INotFound \<Rightarrow> x) =
    (case r of PFound gi si \<Rightarrow> f gi si | PInsertSlot gi si m \<Rightarrow> g gi si m | PNotFound \<Rightarrow> x)" for r f g and x :: entry_probe
    by (cases r) (simp_all add: probe_result_of_def)
  show ?thesis
    by (simp add: i64_find_for_entry_def tomb_find_for_entry_def Let_def find_by_hash [OF r] group_index views [OF r le]
        find_or_locate [OF r] option.map_comp comp_def pr split: option.split)
qed

lemma insert_at:
  "readable s \<Longrightarrow> si < 64 \<Longrightarrow> i64_insert_at C (i64_of s) h gi si k v m = i64_of (tomb_insert_at D s h gi si k v m)"
  by (simp add: i64_insert_at_def tomb_insert_at_def put i64_of_upd readableD(3) push_bit_eq_mult Let_def)

lemma remove_by_hash:
  assumes "readable s"
  shows "i64_remove_by_hash C (i64_of s) h eq = map_option (map_prod id i64_of) (tomb_remove_by_hash D s h eq)"
  using find_slot [OF assms, of h eq]
  by (auto simp: i64_remove_by_hash_def tomb_remove_by_hash_def find_by_hash [OF assms] store erase_slot bucket split: option.split)

lemma remove:
  assumes "readable s"
  shows "i64_remove C hash (i64_of s) k = map_option (map_prod id i64_of) (tomb_remove D hash s k)"
  using find_slot [OF assms, of "hash k" "\<lambda>x. x = k"]
  by (auto simp: i64_remove_def tomb_remove_def i64_find_with_hash_def tomb_find_with_hash_def find_by_hash [OF assms]
      store erase_slot bucket split: option.split)

lemma get:
  assumes "readable s"
  shows "i64_get C hash (i64_of s) k = tomb_get D hash s k"
  using find_slot [OF assms, of "hash k" "\<lambda>x. x = k"]
  by (cases "tomb_find_by_hash D s (hash k) (\<lambda>x. x = k)")
    (auto simp: i64_get_def tomb_get_def i64_find_def tomb_find_def find_by_hash [OF assms] bucket intro!: option.map_cong)

end

section \<open>Capacity management\<close>

context i64_layout
begin

lemma with_capacity: "i64_with_capacity c = i64_of (tomb_with_capacity D c)"
proof -
  have "0 < i64_groups_for_capacity c" using groups_ok_pos [OF tomb.groups_for_capacity_ok [of c]] by simp
  then show ?thesis
    by (simp add: i64_with_capacity_def tomb_with_capacity_def i64_of_new [of D, symmetric] allocate)
qed

lemma capacity: "i64_capacity (i64_of s) = tomb_capacity D s"
  by (simp add: i64_capacity_def tomb_capacity_def)

lemma clear: "i64_clear (i64_of s) = i64_of (tomb_clear D s)"
  by (simp add: i64_clear_def tomb_clear_def) (simp add: i64_of_def tomb_is_allocated_def)

lemma reserve:
  assumes "tomb_wf D hash s"
  shows "i64_reserve C hash (i64_of s) n = map_option (map_sum id i64_of) (tomb_reserve D hash s n)"
proof -
  let ?g = "i64_groups_for_capacity (tt_len s + n)"
  have ok: "groups_ok ?g" using tomb.groups_for_capacity_ok [of "tt_len s + n"] by simp
  have "tomb_max_load (tomb_num_groups s * 64) \<le> tomb_max_load (?g * 64)" if "tomb_num_groups s < ?g"
    using that unfolding tomb_max_load_def by (intro div_le_mono mult_le_mono) auto
  then have "tt_len s \<le> tomb_max_load (?g * 64)" if "tomb_num_groups s < ?g"
    using that tomb.wf_len_le [OF assms] by fastforce
  then show ?thesis
    using rehash_with [OF assms ok] groups_ok_pos [OF ok]
    by (simp add: i64_reserve_def tomb_reserve_def Let_def allocate option.map_comp comp_def)
qed

lemma shrink_to_fit:
  assumes "tomb_wf D hash s" "tomb_capacity_ok D (tt_len s)"
  shows "i64_shrink_to_fit C hash (i64_of s) = map_option i64_of (tomb_shrink_to_fit D hash s)"
  using rehash_with [OF assms(1), of "i64_groups_for_capacity (tt_len s)"] tomb.groups_for_capacity_ok [of "tt_len s"]
    tomb.groups_for_capacity_enough [OF assms(2)]
  by (simp add: i64_shrink_to_fit_def tomb_shrink_to_fit_def Let_def i64_of_new)

section \<open>Iteration\<close>

lemma slot_next:
  assumes "readable s"
  shows "i64_slot_next C (i64_of s) g m = tomb_slot_next D s g m"
proof (induction "Suc (tt_mask s) - g" arbitrary: g m rule: less_induct)
  case less
  show ?case
    using less [of "g + 1"] views(7) [OF assms, of "g + 1"]
    by (subst i64_slot_next.simps, subst tomb_slot_next.simps) (simp split: option.split)
qed

lemma slot_collect:
  assumes "readable s"
  shows "i64_slot_collect C (i64_of s) g m = tomb_slot_collect D s g m"
proof (induction "(Suc (tt_mask s) - g, unat m)" arbitrary: g m rule: wf_induct_rule [OF wf_lex_prod [OF wf_less wf_less]])
  case 1
  have "i64_slot_collect C (i64_of s) g' m' = tomb_slot_collect D s g' m'" if "tomb_slot_next D s g m = Some (p, g', m')" for p g' m'
    using tomb_slot_next_decreases [OF that] by (intro 1) auto
  then show ?case
    by (subst i64_slot_collect.simps, subst tomb_slot_collect.simps) (auto simp: slot_next [OF assms] split: option.split)
qed

lemma iter_slots: "readable s \<Longrightarrow> i64_iter_slots C (i64_of s) = tomb_iter_slots D s"
  by (simp add: i64_iter_slots_def tomb_iter_slots_def slot_collect i64_first_mask_def tomb_first_mask_def views(7))

lemma drop_slots:
  assumes "readable s"
  shows "i64_drop_slots C (i64_of s) = tomb_drop_slots D s"
proof -
  have "map (\<lambda>si. gi * 64 + si) (mask_collect (tomb_occupied D s gi)) = map (tomb_bucket_index D gi) (mask_collect (tomb_occupied D s gi))"
    for gi
  proof (rule map_cong [OF refl])
    fix i assume "i \<in> set (mask_collect (tomb_occupied D s gi))"
    then have "i < 64" using bit_imp_le_length [of "tomb_occupied D s gi" i] by (simp add: mask_collect_eq)
    then show "gi * 64 + i = tomb_bucket_index D gi i" using tomb.bucket_index_add [of i gi] by simp
  qed
  then show ?thesis
    unfolding i64_drop_slots_def tomb_drop_slots_def
    by (auto simp: views(7) [OF assms] tomb_num_groups_def intro!: arg_cong [where f = concat] map_cong)
qed

text \<open>Taking an entry out leaves a readable table.\<close>

lemma readable_take_out:
  assumes "readable s"
  shows "readable ((tomb_set_meta D (tomb_write D s g i None) g i EMPTY)\<lparr>tt_len := n\<rparr>)"
proof -
  have "EMPTY \<in> set ((tt_ctrl s)[j := EMPTY])" for j
    using readableD(2) [OF assms] by (cases "j < length (tt_ctrl s)") (simp_all add: set_update_memI list_update_beyond)
  moreover have "(replicate 64 0)[j := EMPTY] = replicate 64 (0 :: u8)" for j
    by (cases "j < 64") (simp_all add: list_update_same_conv list_update_beyond EMPTY_def)
  ultimately show ?thesis
    using assms by (auto simp: readable_def tomb_set_meta_def tomb_write_def tomb_ctrl_ok_def tomb_is_allocated_def)
qed

lemma into_iter_next:
  assumes "readable s"
  shows "i64_into_iter_next C (i64_of s) g m = map_option (map_prod id (map_prod i64_of id)) (tomb_into_iter_next D s g m)"
    and "tomb_into_iter_next D s g m = Some (kv, s', g', m') \<Longrightarrow> readable s'"
proof (atomize (full), induction "Suc (tt_mask s) - g" arbitrary: g m rule: less_induct)
  case less
  have si: "i < 64" if "mask_next m = Some (i, m')" for i m'
    using that trailing_zeros_less [of m] by (auto simp: mask_next_def split: if_splits)
  show ?case
    using less [of "g + 1"] views(7) [OF assms, of "g + 1"] readable_take_out [OF assms]
    by (subst i64_into_iter_next.simps, subst (1 2) tomb_into_iter_next.simps)
      (auto simp: Let_def store set_meta bucket i64_of_upd dest: si split: option.split if_splits)
qed

end

context i64_layout
begin

lemma into_iter_collect:
  "readable s \<Longrightarrow> i64_into_iter_collect C (i64_of s) g m = map_prod id i64_of (tomb_into_iter_collect D s g m)"
proof (induction "(Suc (tt_mask s) - g, unat m)" arbitrary: s g m rule: wf_induct_rule [OF wf_lex_prod [OF wf_less wf_less]])
  case 1
  have "i64_into_iter_collect C (i64_of s') g' m' = map_prod id i64_of (tomb_into_iter_collect D s' g' m')"
    if "tomb_into_iter_next D s g m = Some (kv, s', g', m')" for kv s' g' m'
    using tomb_into_iter_next_decreases [OF that] into_iter_next(2) [OF 1(2) that] by (intro 1(1)) auto
  then show ?case
    by (subst i64_into_iter_collect.simps, subst tomb_into_iter_collect.simps)
      (auto simp: into_iter_next(1) [OF 1(2)] case_prod_unfold Let_def split: option.split)
qed

lemma into_iter: "readable s \<Longrightarrow> i64_into_iter C (i64_of s) = map_prod id i64_of (tomb_into_iter D s)"
  by (simp add: i64_into_iter_def tomb_into_iter_def into_iter_collect i64_first_mask_def tomb_first_mask_def views(7))

lemma drain: "readable s \<Longrightarrow> i64_drain C (i64_of s) = map_prod id i64_of (tomb_drain D s)"
  by (simp add: i64_drain_def tomb_drain_def into_iter i64_of_new)

lemma fold_of:
  assumes "\<And>x s. x \<in> set xs \<Longrightarrow> f x (i64_of s) = i64_of (g x s)"
  shows "fold f xs (i64_of s) = i64_of (fold g xs s)"
  using assms by (induction xs arbitrary: s) simp_all

lemma clone:
  fixes s :: "('k, 'v) tomb_table"
  assumes r: "readable s"
  shows "i64_clone C (i64_of s) = i64_of (tomb_clone D s)"
proof (cases "tomb_is_allocated s")
  case True
  let ?n = "Suc (tt_mask s)"
  let ?t0 = "(tomb_allocate D (tomb_new D :: ('k, 'v) tomb_table) ?n)\<lparr>tt_ctrl := take (?n * 64) (tt_ctrl s)\<rparr>"
  have t0: "(i64_allocate i64_new ?n)\<lparr>i_metadata := Some (take (?n * 64) (i64_bytes (i64_of s)))\<rparr> = i64_of ?t0"
    unfolding readableD(3) [OF r] using tomb.max_load_pos [of ?n]
    by (simp add: i64_allocate_def i64_new_def i64_of_def tomb_is_allocated_def tomb_allocate_def tomb_new_def)
  have w: "i64_write (i64_of t) gi i (Some (i64_bucket (i64_of s) gi i)) =
      i64_of (tomb_write D t gi i (Some (tomb_key_at D s gi i, tomb_value_at D s gi i)))"
    if "i \<in> set (mask_collect (tomb_occupied D s gi))" for t gi i
    using that bit_imp_le_length [of "tomb_occupied D s gi" i] by (simp add: mask_collect_eq store bucket)
  have "fold (\<lambda>gi. fold (\<lambda>si t. i64_write t gi si (Some (i64_bucket (i64_of s) gi si)))
      (mask_collect (i64_occupied C (i64_of s) gi))) [0..<?n] (i64_of ?t0) =
    i64_of (fold (\<lambda>gi. fold (\<lambda>si t. tomb_write D t gi si (Some (tomb_key_at D s gi si, tomb_value_at D s gi si)))
      (mask_collect (tomb_occupied D s gi))) [0..<?n] ?t0)"
    by (rule fold_of) (use views(7) [OF r] w in \<open>auto intro!: fold_of simp del: upt_Suc\<close>)
  then show ?thesis
    using True t0 by (simp add: i64_clone_def tomb_clone_def tomb_num_groups_def Let_def i64_of_upd del: upt_Suc)
qed (simp add: i64_clone_def tomb_clone_def i64_of_new)

end

section \<open>The contract of the map\<close>

lemma i64_api_simps [simp]:
  "ra_new (i64_api C) = i64_new" "ra_with_capacity (i64_api C) = i64_with_capacity"
  "ra_len (i64_api C) = i_len" "ra_capacity (i64_api C) = i64_capacity"
  "ra_is_allocated (i64_api C) = i64_is_allocated" "ra_clear (i64_api C) = i64_clear"
  "ra_key (i64_api C) t gi si = fst (i64_bucket t gi si)" "ra_value (i64_api C) t gi si = snd (i64_bucket t gi si)"
  "ra_write (i64_api C) = i64_write"
  "ra_find_by_hash (i64_api C) = i64_find_by_hash C" "ra_insert_or_replace (i64_api C) = i64_insert_or_replace C"
  "ra_find_for_entry (i64_api C) = i64_find_for_entry C" "ra_insert_at (i64_api C) = i64_insert_at C"
  "ra_insert_no_check (i64_api C) = i64_insert_no_check C" "ra_ensure_capacity (i64_api C) = i64_ensure_capacity C"
  "ra_remove_by_hash (i64_api C) = i64_remove_by_hash C" "ra_erase_slot (i64_api C) t h = i64_erase_slot t"
  "ra_reserve (i64_api C) = i64_reserve C" "ra_shrink_to_fit (i64_api C) = i64_shrink_to_fit C"
  "ra_iter_slots (i64_api C) = i64_iter_slots C" "ra_into_iter (i64_api C) = i64_into_iter C"
  "ra_drain (i64_api C) = i64_drain C" "ra_clone (i64_api C) = i64_clone C"
  by (simp_all add: i64_api_def)

definition i64_holds ::
  "i64_config \<Rightarrow> ('k \<Rightarrow> u64) \<Rightarrow> ('k, 'v) i64_table \<Rightarrow> nat \<Rightarrow> nat \<Rightarrow> 'k \<Rightarrow> 'v \<Rightarrow> bool" where
  "i64_holds C hash t gi si k v \<longleftrightarrow> tomb_holds (Ipo64 (i64_reduced_hash C)) hash (i64_abs t) gi si k v"

context i64_layout
begin

lemma abs_of: "tomb_wf D hash s \<Longrightarrow> i64_abs (i64_of s) = s"
proof (erule tomb.wf_cases)
  assume "s = tomb_new D"
  then show "i64_abs (i64_of s) = s"
    by (simp add: i64_abs_def i64_bytes_def) (simp add: i64_of_def tomb_new_def tomb_is_allocated_def)
next
  assume c: "tomb_content D hash s" "tomb_counts D s"
  then have "tomb_is_allocated s" using tomb.wf_allocated(1) [of hash s] by (simp add: tomb_wf_def)
  then show "i64_abs (i64_of s) = s"
    using c(2) by (simp add: i64_abs_def i64_bytes_def tomb_counts_def) (simp add: i64_of_def)
qed

lemma wf_of: "tomb_wf D hash s \<Longrightarrow> i64_wf C hash (i64_of s)"
  by (simp add: i64_wf_def abs_of)

lemma holds_of: "tomb_wf D hash s \<Longrightarrow> i64_holds C hash (i64_of s) gi si k v \<longleftrightarrow> tomb_holds D hash s gi si k v"
  by (simp add: i64_holds_def abs_of)

lemma represented:
  assumes "i64_wf C hash t"
  obtains s where "t = i64_of s" "tomb_wf D hash s" "readable s"
  using assms wf_readable unfolding i64_wf_def by blast

lemma holds_slot: "tomb_holds D hash s gi si k v \<Longrightarrow> si < 64"
  by (simp add: tomb_holds_def tomb_at_def)

end

text \<open>The laws that need more than the operations' equations.\<close>

context i64_layout
begin

lemma vacant_at_of:
  assumes "tomb_wf D hash s" "tomb_map s k = None"
    and "tomb_find_for_entry D s (hash k) k = Some (ProbeVacant (Some (gi, si, msk)))"
  shows "i64_wf C hash (i64_insert_at C (i64_of s) (hash k) gi si k v msk) \<and>
    i64_map (i64_insert_at C (i64_of s) (hash k) gi si k v msk) = (tomb_map s)(k \<mapsto> v) \<and>
    i64_holds C hash (i64_insert_at C (i64_of s) (hash k) gi si k v msk) gi si k v"
proof -
  have u: "tomb_wf D hash (tomb_insert_at D s (hash k) gi si k v msk)"
    "tomb_map (tomb_insert_at D s (hash k) gi si k v msk) = (tomb_map s)(k \<mapsto> v)"
    "tomb_holds D hash (tomb_insert_at D s (hash k) gi si k v msk) gi si k v"
    using tomb.vacant_at_holds [OF assms, of v] by auto
  then show ?thesis
    using insert_at [OF wf_readable [OF assms(1)] holds_slot [OF u(3)], of "hash k" gi k v msk] wf_of [OF u(1)]
    by (simp add: holds_of)
qed

lemma vacant_grow_of:
  assumes "tomb_wf D hash s" "tomb_can_grow s" "tomb_map s k = None"
  shows "\<exists>t gi si u. i64_ensure_capacity C hash (i64_of s) = Some t \<and> i64_insert_no_check C t (hash k) k v = Some ((gi, si), u) \<and>
    i64_wf C hash u \<and> i64_map u = (tomb_map s)(k \<mapsto> v) \<and> i64_holds C hash u gi si k v"
proof -
  obtain w where w: "tomb_ensure_capacity D hash s = Some w" "i64_ensure_capacity C hash (i64_of s) = Some (i64_of w)" "tomb_wf D hash w"
    using ensure_capacity [OF assms(1,2)] by blast
  obtain gi si u where u: "tomb_insert_no_check D w (hash k) k v = Some ((gi, si), u)" "tomb_wf D hash u"
    "tomb_map u = (tomb_map s)(k \<mapsto> v)" "tomb_holds D hash u gi si k v"
    using tomb.vacant_grow_holds [OF assms, of v] w(1) by auto
  have "i64_insert_no_check C (i64_of w) (hash k) k v = Some ((gi, si), i64_of u)"
    using insert_no_check [OF wf_readable [OF w(3)], of "hash k" k v] u(1) by simp
  moreover have "i64_map (i64_of u) = (tomb_map s)(k \<mapsto> v)" using u(3) by simp
  moreover have "i64_holds C hash (i64_of u) gi si k v" using holds_of [OF u(2)] u(4) by blast
  ultimately show ?thesis using w(2) wf_of [OF u(2)] by blast
qed

lemma reserve_first_of:
  assumes "tomb_wf D hash s" "\<not> tomb_is_allocated s"
  shows "\<exists>u. i64_reserve C hash (i64_of s) 1 = Some (Inr u) \<and> i64_wf C hash u \<and> i64_map u = tomb_map s \<and> i64_can_grow u"
proof -
  have "i64_reserve C hash (i64_of s) 1 = map_option (map_sum id i64_of) (tomb_reserve D hash s 1)"
    by (rule reserve [OF assms(1)])
  moreover obtain u where "tomb_reserve D hash s 1 = Some (Inr u)" "tomb_wf D hash u" "tomb_map u = tomb_map s" "tomb_can_grow u"
    using tomb.reserve_first_correct [OF assms] by blast
  ultimately show ?thesis using wf_of [of hash u] by simp
qed

lemma iter_entries:
  assumes "tomb_wf D hash s"
  shows "map (\<lambda>p. i64_bucket (i64_of s) (fst p) (snd p)) (tomb_iter_slots D s) =
    map (\<lambda>p. (tomb_key_at D s (fst p) (snd p), tomb_value_at D s (fst p) (snd p))) (tomb_iter_slots D s)"
proof (rule map_cong [OF refl])
  fix p assume "p \<in> set (tomb_iter_slots D s)"
  then obtain k v where "tomb_holds D hash s (fst p) (snd p) k v"
    using tomb.iter_holds(2) [OF assms, of "fst p" "snd p"] by auto
  then show "i64_bucket (i64_of s) (fst p) (snd p) = (tomb_key_at D s (fst p) (snd p), tomb_value_at D s (fst p) (snd p))"
    by (rule bucket [OF holds_slot])
qed

end

sublocale i64_layout \<subseteq> api: table_contract "i64_api C" hash "i64_wf C hash" i64_map "i64_holds C hash"
  "\<lambda>t h. True" i64_can_grow
  for hash :: "'k \<Rightarrow> u64"
  apply (unfold_locales; unfold i64_api_simps)
  subgoal using wf_of [of hash "tomb_new D"] by (simp add: tomb_wf_def flip: i64_of_new [of D])
  subgoal by (simp add: with_capacity wf_of tomb.with_capacity_correct(1,2))
  subgoal for t by (erule represented) (simp add: tomb.wf_len_card)
  subgoal for t by (erule represented) (simp add: clear wf_of tomb.clear_correct(1,2))
  subgoal for t gi si k v
    by (erule represented) (use tomb.holds_entry [of hash _ gi si k v] in \<open>simp add: holds_of bucket holds_slot\<close>)
  subgoal for t gi si k v w
    by (erule represented) (use tomb.write_holds(1-4) [of hash _ gi si k v w] in
      \<open>simp add: holds_of store holds_slot wf_of tomb_can_grow_def\<close>)
  subgoal for t gi si k v g s k' v' w
    by (erule represented) (use tomb.write_holds(1) [of hash _ gi si k v w] tomb.write_holds(5) [where hash = hash and gi = gi and si = si and k = k and w = w] in \<open>simp add: holds_of store holds_slot\<close>)
  subgoal for t gi si k v
    by (erule represented) (use tomb.erase_holds(1,2) [of hash _ gi si k v] in
      \<open>simp add: holds_of store erase_slot holds_slot wf_of\<close>)
  subgoal for t gi si k v g s k' v'
    by (erule represented) (use tomb.erase_holds(1) [of hash _ gi si k v] tomb.erase_holds(3) [where hash = hash and gi = gi and si = si and k = k] in
      \<open>simp add: holds_of store erase_slot holds_slot\<close>)
  subgoal for t k v by (erule represented) (simp add: find_by_hash holds_of tomb.find_holds)
  subgoal for t k by (erule represented) (use tomb.find_correct(2) [of hash _ "\<lambda>x. x = k" "hash k"] in \<open>simp add: find_by_hash\<close>)
  subgoal for t by (erule represented) (use tomb.wf_allocated(2) in \<open>force simp: tomb_map_def\<close>)
  subgoal for t k v
    by (erule represented) (use tomb.insert_or_replace_correct [of hash _ k v] in \<open>force simp: insert_or_replace wf_of\<close>)
  subgoal for t k v
    by (erule represented) (use tomb.remove_by_hash_correct(1) [of hash _ k v] in \<open>force simp: remove_by_hash wf_of\<close>)
  subgoal for t k
    by (erule represented) (use tomb.remove_by_hash_correct(2) [of hash _ k] in \<open>force simp: remove_by_hash\<close>)
  subgoal for t k v by (erule represented) (simp add: find_for_entry holds_of tomb.entry_holds)
  subgoal for t k
    by (erule represented) (use tomb.find_for_entry_correct(2) [of hash _ k] in \<open>force simp: find_for_entry\<close>)
  subgoal for t k gi si msk v by (erule represented) (use vacant_at_of [of hash _ k gi si msk v] in \<open>simp add: find_for_entry\<close>)
  subgoal for t k v by (erule represented) (use vacant_grow_of [of hash _ k v] in simp)
  subgoal for t by (erule represented) (use reserve_first_of [of hash] in simp)
  subgoal for t n
    by (erule represented) (use tomb.reserve_correct(2) [of hash _ n] reserve [of hash _ n] in \<open>force simp: wf_of\<close>)
  subgoal for t n
    by (erule represented) (use tomb.reserve_correct(1) [of hash _ n] reserve [of hash _ n] in \<open>force simp: wf_of\<close>)
  subgoal for t
    by (erule represented) (use tomb.shrink_to_fit_correct [of hash] shrink_to_fit [of hash] tomb.can_grow_capacity [of hash] in \<open>force simp: wf_of\<close>)
  subgoal for t
    by (erule represented) (use tomb.iter_holds(1,2) [of hash] tomb.iter_slots_correct(2,3) [of hash] in
      \<open>auto simp: iter_slots iter_entries holds_of\<close>)
  subgoal for t
    by (erule represented) (use tomb.iter_holds(3) [of hash] in \<open>simp add: iter_slots into_iter iter_entries\<close>)
  subgoal for t by (erule represented) (simp add: drain into_iter tomb_drain_def i64_of_new)
  subgoal for t by (erule represented) (simp add: clone wf_of tomb.clone_correct)
  done

end
