(* ===== verification/Ipo64_Properties.thy ===== *)
theory Ipo64_Properties
  imports Ipo64_Refine
begin

text \<open>
  The properties of the 64-slot tombstone table: the SIMD tiers agree, the table refines the
  tombstone engine, and a map over it refines a partial function.
\<close>

section \<open>The table of the map\<close>

context i64_layout
begin

lemma map_ok:
  "api.gm_ok hash m \<longleftrightarrow> i64_wf C hash (gm_table m) \<and> gm_hash m = hash" "api.gm_content m = i64_map (gm_table m)"
  "api.key_stops hash m k"
  by (simp_all add: api.gm_ok_def api.gm_content_def api.key_stops_def)

theorem map_step:
  assumes "i64_wf C (gm_hash m) (gm_table m)" "i64_can_grow (gm_table m)"
  shows "\<exists>u. gm_step (i64_api C) m p = Some (fst (map_spec (i64_map (gm_table m)) p), u) \<and>
    i64_wf C (gm_hash u) (gm_table u) \<and> gm_hash u = gm_hash m \<and>
    i64_map (gm_table u) = snd (map_spec (i64_map (gm_table m)) p)"
  using api.step_correct [of "gm_hash m" m p] assms by (auto simp: api.refines_step_def map_ok)

end

lemma i64_config_low: "i64_config_ok \<lparr>simd = tier, i64_reduced_hash = LowTomb_reduced_hash\<rparr>"
  using LowTomb.tombstone_tag_laws_axioms by (simp add: i64_config_ok_def tombstone_tag_laws_def)

interpretation ipo64: i64_layout "\<lparr>simd = tier, i64_reduced_hash = LowTomb_reduced_hash\<rparr>" for tier
  by unfold_locales (rule i64_config_low)

interpretation ipo64_map: table_contract "i64_api \<lparr>simd = tier, i64_reduced_hash = LowTomb_reduced_hash\<rparr>" hash
  "i64_wf \<lparr>simd = tier, i64_reduced_hash = LowTomb_reduced_hash\<rparr> hash" i64_map
  "i64_holds \<lparr>simd = tier, i64_reduced_hash = LowTomb_reduced_hash\<rparr> hash" "\<lambda>t h. True" i64_can_grow
  for tier and hash :: "'k \<Rightarrow> u64"
  by (rule ipo64.api.table_contract_axioms)

text \<open>The design of the tombstone engine that a configuration of the 64-slot table is compared with.\<close>

abbreviation ipo64_engine :: "i64_config \<Rightarrow> 64 tomb_design" where
  "ipo64_engine C \<equiv> Ipo64 (i64_reduced_hash C)"

abbreviation i64_empty :: "(u64, nat) i64_table" where
  "i64_empty \<equiv> i64_new"

lemma i64_new_facts:
  assumes "i64_config_ok C"
  shows "i64_wf C hash i64_new" "i64_map i64_new = Map.empty" "i64_can_grow i64_new"
proof -
  let ?D = "Ipo64 (i64_reduced_hash C)"
  have wf: "tomb_wf ?D hash (tomb_new ?D)" by (simp add: tomb_wf_def)
  show "i64_wf C hash i64_new"
    using i64_layout.wf_of [OF i64_layout.intro, OF assms wf] by (simp add: i64_of_new)
  show "i64_map i64_new = Map.empty" "i64_can_grow i64_new"
    by (simp_all add: i64_map_def i64_new_def i64_can_grow_def bucket_map_def somes_def)
qed

section \<open>Properties\<close>

text \<open>
  C37. A map over the 64-slot tombstone table, on any SIMD tier and with any tag function that avoids the
  two markers, refines a partial function: each operation returns the result and gives the map that the
  operation has on the partial function, and keeps the table well-formed and the hasher.
\<close>

theorem ipo64_map_refines:
  assumes "i64_config_ok C" "i64_wf C (gm_hash m) (gm_table m)" "i64_can_grow (gm_table m)"
  shows "\<exists>u. gm_step (i64_api C) m p = Some (fst (map_spec (i64_map (gm_table m)) p), u) \<and>
    i64_wf C (gm_hash u) (gm_table u) \<and> gm_hash u = gm_hash m \<and>
    i64_map (gm_table u) = snd (map_spec (i64_map (gm_table m)) p)"
  by (rule i64_layout.map_step [OF i64_layout.intro, OF assms])

theorem ipo64_map_refines_witness:
  "\<exists>u. gm_step (i64_api \<lparr>simd = AVX512, i64_reduced_hash = LowTomb_reduced_hash\<rparr>)
       \<lparr>gm_table = i64_new, gm_hash = \<lambda>k. k\<rparr> (ModifyOrInsert 5 Suc 7) = Some (Returned (Some 7), u) \<and>
     i64_map (gm_table u) = [5 \<mapsto> 7]"
  using ipo64_map_refines [OF i64_config_low, of AVX512 "\<lparr>gm_table = i64_new, gm_hash = \<lambda>k. k\<rparr>" "ModifyOrInsert 5 Suc 7"]
  by (auto simp: i64_new_facts [OF i64_config_low])

text \<open>
  C38. The four versions of the group operations agree on a 64-byte group: a mask has a bit exactly for
  the slots whose byte is the value, \<^const>\<open>EMPTY\<close>, one of the two markers, or a tag.
\<close>

theorem i64_tiers_agree:
  assumes "length data = 64"
  shows "(bit (i64_match_byte tier data v) i \<longleftrightarrow> i < 64 \<and> data ! i = v) \<and>
    (bit (i64_match_empty tier data) i \<longleftrightarrow> i < 64 \<and> data ! i = EMPTY) \<and>
    i64_match_byte_and_empty tier data v = (i64_match_byte tier' data v, i64_match_empty tier' data) \<and>
    (bit (i64_match_empty_or_tombstone tier data) i \<longleftrightarrow> i < 64 \<and> (data ! i = EMPTY \<or> data ! i = TOMBSTONE)) \<and>
    (bit (i64_match_occupied tier data) i \<longleftrightarrow> i < 64 \<and> data ! i \<noteq> EMPTY \<and> data ! i \<noteq> TOMBSTONE)"
  using assms
  by (auto simp: i64_match_byte_eq i64_match_empty_eq i64_match_byte_and_empty_eq i64_match_empty_or_tombstone_eq
      i64_match_occupied_eq bit_tomb_match_byte bit_tomb_match_empty bit_tomb_match_empty_or_tombstone bit_tomb_match_occupied)

theorem i64_tiers_agree_witness:
  "bit (i64_match_occupied SSE2 ((replicate 64 TOMBSTONE)[40 := 9])) 40 \<and>
   \<not> bit (i64_match_occupied SSE2 ((replicate 64 TOMBSTONE)[40 := 9])) 41 \<and>
   i64_match_byte_and_empty AVX512 ((replicate 64 TOMBSTONE)[40 := 9]) 9 =
     (i64_match_byte Scalar ((replicate 64 TOMBSTONE)[40 := 9]) 9, i64_match_empty Scalar ((replicate 64 TOMBSTONE)[40 := 9]))"
  using i64_tiers_agree [of "(replicate 64 TOMBSTONE)[40 := 9]" SSE2 9 40 Scalar]
    i64_tiers_agree [of "(replicate 64 TOMBSTONE)[40 := 9]" SSE2 9 41 Scalar]
    i64_tiers_agree [of "(replicate 64 TOMBSTONE)[40 := 9]" AVX512 9 0 Scalar]
  by (simp add: EMPTY_def TOMBSTONE_def)

text \<open>
  C39. The 64-slot table refines the tombstone engine with 64 slots and the shifted group index. On a
  well-formed table that may double, each of the following operations does what the engine's operation does on the
  table it represents, whatever the SIMD tier: \<^verbatim>\<open>new\<close> and \<^verbatim>\<open>with_capacity\<close>, \<^verbatim>\<open>capacity\<close>, the lookups \<^verbatim>\<open>find_by_hash\<close>,
  \<^verbatim>\<open>find\<close> and \<^verbatim>\<open>get\<close>, the insertions \<^verbatim>\<open>insert_or_replace\<close>, \<^verbatim>\<open>insert_with_rehash\<close> and \<^verbatim>\<open>insert_no_check\<close>,
  the fused probe \<^verbatim>\<open>find_or_locate\<close>, \<^verbatim>\<open>find_for_entry\<close> and \<^verbatim>\<open>insert_at\<close>, \<^verbatim>\<open>erase_slot\<close>, \<^verbatim>\<open>remove_by_hash\<close> and
  \<^verbatim>\<open>remove\<close>, \<^verbatim>\<open>rehash_with\<close> to a group count that admits the entries, \<^verbatim>\<open>grow_or_rehash\<close>, \<^verbatim>\<open>ensure_capacity\<close>,
  \<^verbatim>\<open>reserve\<close>, \<^verbatim>\<open>shrink_to_fit\<close>, \<^verbatim>\<open>clear\<close>, \<^verbatim>\<open>iter_slots\<close>, \<^verbatim>\<open>into_iter\<close>, \<^verbatim>\<open>drain\<close>, the drop walk and \<^verbatim>\<open>clone\<close>.
\<close>

theorem ipo64_refines_engine:
  assumes "i64_config_ok C" "i64_wf C hash t" "i64_can_grow t"
  shows "i64_new = i64_of (tomb_new (ipo64_engine C)) \<and>
    i64_with_capacity c = i64_of (tomb_with_capacity (ipo64_engine C) c) \<and>
    i64_capacity t = tomb_capacity (ipo64_engine C) (i64_abs t) \<and>
    i64_find_by_hash C t h eq = tomb_find_by_hash (ipo64_engine C) (i64_abs t) h eq \<and>
    i64_find C hash t k = tomb_find (ipo64_engine C) hash (i64_abs t) k \<and>
    i64_get C hash t k = tomb_get (ipo64_engine C) hash (i64_abs t) k \<and>
    i64_insert_or_replace C hash t k v =
      map_option (map_prod id i64_of) (tomb_insert_or_replace (ipo64_engine C) hash (i64_abs t) k v) \<and>
    i64_insert_with_rehash C hash t k v =
      map_option (map_prod id i64_of) (tomb_insert_with_rehash (ipo64_engine C) hash (i64_abs t) k v) \<and>
    i64_insert_no_check C t h k v =
      map_option (map_prod id i64_of) (tomb_insert_no_check (ipo64_engine C) (i64_abs t) h k v) \<and>
    i64_find_or_locate C t h eq = map_option probe_result_of (tomb_find_or_locate (ipo64_engine C) (i64_abs t) h eq) \<and>
    i64_find_for_entry C t h k = tomb_find_for_entry (ipo64_engine C) (i64_abs t) h k \<and>
    (si < 64 \<longrightarrow> i64_insert_at C t h gi si k v m = i64_of (tomb_insert_at (ipo64_engine C) (i64_abs t) h gi si k v m)) \<and>
    i64_erase_slot t gi si = i64_of (tomb_erase_slot (ipo64_engine C) (i64_abs t) gi si) \<and>
    i64_remove_by_hash C t h eq =
      map_option (map_prod id i64_of) (tomb_remove_by_hash (ipo64_engine C) (i64_abs t) h eq) \<and>
    i64_remove C hash t k = map_option (map_prod id i64_of) (tomb_remove (ipo64_engine C) hash (i64_abs t) k) \<and>
    (groups_ok n \<longrightarrow> i_len t \<le> i64_max_load (n * 64) \<longrightarrow>
      i64_rehash_with C hash t n = map_option i64_of (tomb_rehash_with (ipo64_engine C) hash (i64_abs t) n)) \<and>
    i64_grow_or_rehash C hash t = map_option i64_of (tomb_grow_or_rehash (ipo64_engine C) hash (i64_abs t)) \<and>
    i64_ensure_capacity C hash t = map_option i64_of (tomb_ensure_capacity (ipo64_engine C) hash (i64_abs t)) \<and>
    i64_reserve C hash t c = map_option (map_sum id i64_of) (tomb_reserve (ipo64_engine C) hash (i64_abs t) c) \<and>
    i64_shrink_to_fit C hash t = map_option i64_of (tomb_shrink_to_fit (ipo64_engine C) hash (i64_abs t)) \<and>
    i64_clear t = i64_of (tomb_clear (ipo64_engine C) (i64_abs t)) \<and>
    i64_iter_slots C t = tomb_iter_slots (ipo64_engine C) (i64_abs t) \<and>
    i64_into_iter C t = map_prod id i64_of (tomb_into_iter (ipo64_engine C) (i64_abs t)) \<and>
    i64_drain C t = map_prod id i64_of (tomb_drain (ipo64_engine C) (i64_abs t)) \<and>
    i64_drop_slots C t = tomb_drop_slots (ipo64_engine C) (i64_abs t) \<and>
    i64_clone C t = i64_of (tomb_clone (ipo64_engine C) (i64_abs t))"
proof -
  note L = i64_layout.intro [OF assms(1)]
  obtain s where s: "t = i64_of s" "tomb_wf (Ipo64 (i64_reduced_hash C)) hash s" "i64_layout.readable C s"
    by (rule i64_layout.represented [OF L assms(2)])
  have g: "tomb_can_grow s" using assms(3) s(1) by simp
  have a: "i64_abs (i64_of s) = s" by (rule i64_layout.abs_of [OF L s(2)])
  note D = Ipo64_valid [OF assms(1)]
  note r = s(3) and grown = i64_layout.grow_or_rehash [OF L s(2) g] i64_layout.ensure_capacity [OF L s(2) g]
  have find: "i64_find C hash (i64_of s) k = tomb_find (Ipo64 (i64_reduced_hash C)) hash s k"
    by (simp add: i64_find_def tomb_find_def i64_layout.find_by_hash [OF L r])
  have rehash: "i64_rehash_with C hash (i64_of s) n = map_option i64_of (tomb_rehash_with (Ipo64 (i64_reduced_hash C)) hash s n)"
    if "groups_ok n" "i_len (i64_of s) \<le> i64_max_load (n * 64)"
    using i64_layout.rehash_with [OF L s(2) that(1)] that(2) by simp
  have grow: "i64_grow_or_rehash C hash (i64_of s) = map_option i64_of (tomb_grow_or_rehash (Ipo64 (i64_reduced_hash C)) hash s)"
    "i64_ensure_capacity C hash (i64_of s) = map_option i64_of (tomb_ensure_capacity (Ipo64 (i64_reduced_hash C)) hash s)"
    using grown by auto
  note cap = tomb_layout.can_grow_capacity [OF tomb_layout.intro, OF D s(2) g]
  note lookups = i64_layout.capacity [OF L] i64_layout.find_by_hash [OF L r] find i64_layout.get [OF L r]
    and changes = i64_layout.insert_or_replace [OF L s(2) g] i64_layout.insert_with_rehash [OF L s(2) g]
      i64_layout.insert_no_check [OF L r] i64_layout.find_or_locate [OF L r] i64_layout.find_for_entry [OF L r]
      i64_layout.insert_at [OF L r] i64_layout.erase_slot [OF L] i64_layout.remove_by_hash [OF L r] i64_layout.remove [OF L r]
    and management = rehash grow i64_layout.reserve [OF L s(2)] i64_layout.shrink_to_fit [OF L s(2) cap] i64_layout.clear [OF L]
    and consumption = i64_layout.iter_slots [OF L r] i64_layout.into_iter [OF L r] i64_layout.drain [OF L r]
      i64_layout.drop_slots [OF L r] i64_layout.clone [OF L r]
  show ?thesis
    unfolding s(1) a
    by (intro conjI impI i64_of_new [symmetric] i64_layout.with_capacity [OF L] lookups changes management consumption)
qed

theorem ipo64_refines_engine_witness:
  "i64_find_by_hash \<lparr>simd = AVX2, i64_reduced_hash = LowTomb_reduced_hash\<rparr> i64_empty 5 (\<lambda>k. k = 5) =
     tomb_find_by_hash (Ipo64 LowTomb_reduced_hash) (i64_abs i64_empty) 5 (\<lambda>k. k = 5) \<and>
   i64_insert_or_replace \<lparr>simd = AVX2, i64_reduced_hash = LowTomb_reduced_hash\<rparr> (\<lambda>k. k) i64_empty 5 7 =
     map_option (map_prod id i64_of) (tomb_insert_or_replace (Ipo64 LowTomb_reduced_hash) (\<lambda>k. k) (i64_abs i64_empty) 5 7) \<and>
   i64_reserve \<lparr>simd = AVX2, i64_reduced_hash = LowTomb_reduced_hash\<rparr> (\<lambda>k. k) i64_empty 100 =
     map_option (map_sum id i64_of) (tomb_reserve (Ipo64 LowTomb_reduced_hash) (\<lambda>k. k) (i64_abs i64_empty) 100)"
  using ipo64_refines_engine [OF i64_config_low [of AVX2] i64_new_facts(1) [OF i64_config_low] i64_new_facts(3) [OF i64_config_low],
      where hash = "\<lambda>k. k" and h = 5 and eq = "\<lambda>k. k = 5" and k = 5 and v = "7 :: nat" and c = 100]
  unfolding i64_config.select_convs by blast

end
