(* ===== verification/Btree_Node.thy ===== *)
theory Btree_Node
  imports Prelude
begin

text \<open>
  The 256-byte nodes of the flat B+ tree and the arena they live in,
  \<^verbatim>\<open>src/flat_btree/node.rs\<close> and the first part of \<^verbatim>\<open>src/flat_btree/raw.rs\<close>. The capacities of
  a node come from the sizes of the key and value types, which are the record
  \<open>node_layout\<close>. A node block has the header, the slots of a leaf and the slots of an
  internal node; code uses a block as one or the other. A slot is \<^const>\<open>None\<close> while nothing was
  written to it. Node indices are \<^verbatim>\<open>u32\<close>, the largest one is the null index.
\<close>

section \<open>Layout of a node\<close>

definition NODE_SIZE :: nat where
  "NODE_SIZE = 256"

definition NO_NODE :: nat where
  "NO_NODE = 2 ^ 32 - 1"

definition HEADER_SIZE :: nat where
  "HEADER_SIZE = 8"

definition LEAF_LINK_SIZE :: nat where
  "LEAF_LINK_SIZE = 2 * 4"

definition IS_LEAF :: nat where
  "IS_LEAF = 1"

record node_layout =
  key_size :: nat
  val_size :: nat

definition PAYLOAD :: nat where
  "PAYLOAD = NODE_SIZE - HEADER_SIZE"

definition LEAF_CAP :: "node_layout \<Rightarrow> nat" where
  "LEAF_CAP L =
    (let kv_size = key_size L + val_size L
     in if kv_size = 0 then 128 else (PAYLOAD - LEAF_LINK_SIZE) div kv_size)"

definition INTERNAL_CAP :: "node_layout \<Rightarrow> nat" where
  "INTERNAL_CAP L =
    (let k_plus_child = key_size L + 4
     in if k_plus_child = 0 then 128 else (PAYLOAD - 4) div k_plus_child)"

definition assert_capacities :: "node_layout \<Rightarrow> bool" where
  "assert_capacities L \<longleftrightarrow> 1 \<le> LEAF_CAP L \<and> 2 \<le> INTERNAL_CAP L"

text \<open>Byte offsets in the node.\<close>

definition leaf_key_ptr :: "node_layout \<Rightarrow> nat \<Rightarrow> nat" where
  "leaf_key_ptr L idx = HEADER_SIZE + idx * key_size L"

definition leaf_val_ptr :: "node_layout \<Rightarrow> nat \<Rightarrow> nat" where
  "leaf_val_ptr L idx = (let vals_offset = HEADER_SIZE + LEAF_CAP L * key_size L in vals_offset + idx * val_size L)"

definition leaf_prev_ptr :: nat where
  "leaf_prev_ptr = NODE_SIZE - LEAF_LINK_SIZE"

definition leaf_next_ptr :: nat where
  "leaf_next_ptr = NODE_SIZE - 4"

definition internal_key_ptr :: "node_layout \<Rightarrow> nat \<Rightarrow> nat" where
  "internal_key_ptr L idx = HEADER_SIZE + idx * key_size L"

definition internal_child_ptr :: "node_layout \<Rightarrow> nat \<Rightarrow> nat" where
  "internal_child_ptr L idx =
    (let children_offset = HEADER_SIZE + INTERNAL_CAP L * key_size L in children_offset + idx * 4)"

text \<open>
  The arrays of a node lie one after the other inside its 256 bytes: the values after the keys
  and before the links, the children after the keys. So a node is a record of separate lists.
\<close>

lemma leaf_arrays_disjoint:
  "leaf_key_ptr L (LEAF_CAP L) = leaf_val_ptr L 0" "leaf_val_ptr L (LEAF_CAP L) \<le> leaf_prev_ptr"
  "leaf_prev_ptr + 4 = leaf_next_ptr" "leaf_next_ptr + 4 = NODE_SIZE"
proof -
  let ?s = "key_size L + val_size L"
  have "LEAF_CAP L * ?s \<le> 240"
    by (cases "?s = 0") (simp_all add: LEAF_CAP_def Let_def PAYLOAD_def NODE_SIZE_def HEADER_SIZE_def LEAF_LINK_SIZE_def del: add_is_0)
  then show "leaf_val_ptr L (LEAF_CAP L) \<le> leaf_prev_ptr"
    by (simp add: leaf_val_ptr_def leaf_prev_ptr_def Let_def NODE_SIZE_def HEADER_SIZE_def LEAF_LINK_SIZE_def algebra_simps)
qed (simp_all add: leaf_key_ptr_def leaf_val_ptr_def leaf_prev_ptr_def leaf_next_ptr_def NODE_SIZE_def LEAF_LINK_SIZE_def)

text \<open>
  The offsets ignore alignment: one-byte keys put the values of a leaf at an offset that is
  no multiple of eight.
\<close>

lemma leaf_values_misaligned: "leaf_val_ptr \<lparr>key_size = 1, val_size = 8\<rparr> 0 mod 8 = 2"
  by (simp add: leaf_val_ptr_def LEAF_CAP_def PAYLOAD_def NODE_SIZE_def HEADER_SIZE_def LEAF_LINK_SIZE_def)

lemma internal_arrays_disjoint:
  "internal_key_ptr L (INTERNAL_CAP L) = internal_child_ptr L 0"
  "internal_child_ptr L (INTERNAL_CAP L + 1) \<le> NODE_SIZE"
proof -
  have "244 div (key_size L + 4) * (key_size L + 4) \<le> 244" by simp
  then have "INTERNAL_CAP L * (key_size L + 4) \<le> 244"
    by (simp add: INTERNAL_CAP_def PAYLOAD_def NODE_SIZE_def HEADER_SIZE_def Let_def)
  then show "internal_child_ptr L (INTERNAL_CAP L + 1) \<le> NODE_SIZE"
    by (simp add: internal_child_ptr_def Let_def NODE_SIZE_def HEADER_SIZE_def algebra_simps)
qed (simp add: internal_key_ptr_def internal_child_ptr_def)

section \<open>Node blocks\<close>

record ('k, 'v) node_block =
  n_len :: nat
  n_flags :: nat
  n_parent :: nat
  n_lkeys :: "'k option list"
  n_vals :: "'v option list"
  n_prev :: nat
  n_next :: nat
  n_ikeys :: "'k option list"
  n_children :: "nat list"

definition is_leaf :: "('k, 'v) node_block \<Rightarrow> bool" where
  "is_leaf n \<longleftrightarrow> odd (n_flags n)"

definition zero_node :: "node_layout \<Rightarrow> ('k, 'v) node_block" where
  "zero_node L = \<lparr>n_len = 0, n_flags = 0, n_parent = 0,
     n_lkeys = replicate (LEAF_CAP L) None, n_vals = replicate (LEAF_CAP L) None, n_prev = 0, n_next = 0,
     n_ikeys = replicate (INTERNAL_CAP L) None, n_children = replicate (INTERNAL_CAP L + 1) 0\<rparr>"

text \<open>
  A freed node keeps the next free index in its first four bytes, which are the length and
  the flags of the header, low half first.
\<close>

definition read_link :: "('k, 'v) node_block \<Rightarrow> nat" where
  "read_link n = n_len n + n_flags n * 2 ^ 16"

definition write_link :: "nat \<Rightarrow> ('k, 'v) node_block \<Rightarrow> ('k, 'v) node_block" where
  "write_link i n = n\<lparr>n_len := i mod 2 ^ 16, n_flags := i div 2 ^ 16\<rparr>"

section \<open>The arena\<close>

record ('k, 'v) arena =
  a_blocks :: "('k, 'v) node_block list"
  a_cap :: nat
  a_len :: nat
  a_free_head :: nat

definition INITIAL_CAP :: nat where
  "INITIAL_CAP = 4"

definition arena_new :: "('k, 'v) arena" where
  "arena_new = \<lparr>a_blocks = [], a_cap = 0, a_len = 0, a_free_head = NO_NODE\<rparr>"

text \<open>Rounding up to a power of two is done in \<^verbatim>\<open>u32\<close> and wraps to zero above \<open>2 ^ 31\<close> nodes.\<close>

definition arena_with_capacity :: "node_layout \<Rightarrow> nat \<Rightarrow> ('k, 'v) arena" where
  "arena_with_capacity L node_count =
    (if node_count = 0 then arena_new
     else let cap = max (next_power_of_two node_count mod 2 ^ 32) INITIAL_CAP
       in \<lparr>a_blocks = replicate cap (zero_node L), a_cap = cap, a_len = 0, a_free_head = NO_NODE\<rparr>)"

definition node :: "('k, 'v) arena \<Rightarrow> nat \<Rightarrow> ('k, 'v) node_block" where
  "node A i = a_blocks A ! i"

definition upd_node :: "nat \<Rightarrow> (('k, 'v) node_block \<Rightarrow> ('k, 'v) node_block) \<Rightarrow> ('k, 'v) arena \<Rightarrow> ('k, 'v) arena" where
  "upd_node i f A = A\<lparr>a_blocks := (a_blocks A)[i := f (node A i)]\<rparr>"

text \<open>Doubling the capacity is a \<^verbatim>\<open>u32\<close> multiplication; the new blocks are zeroed.\<close>

definition arena_grow :: "node_layout \<Rightarrow> ('k, 'v) arena \<Rightarrow> ('k, 'v) arena" where
  "arena_grow L A =
    (let new_cap = (if a_cap A = 0 then INITIAL_CAP else (a_cap A * 2) mod 2 ^ 32)
     in A\<lparr>a_blocks := a_blocks A @ replicate (new_cap - a_cap A) (zero_node L), a_cap := new_cap\<rparr>)"

definition alloc_node :: "node_layout \<Rightarrow> ('k, 'v) arena \<Rightarrow> nat \<times> ('k, 'v) arena" where
  "alloc_node L A =
    (if a_free_head A \<noteq> NO_NODE then
       let idx = a_free_head A;
           A1 = A\<lparr>a_free_head := read_link (node A idx)\<rparr>
       in (idx, upd_node idx (\<lambda>_. zero_node L) A1)
     else
       let A1 = (if a_cap A \<le> a_len A then arena_grow L A else A)
       in (a_len A1, A1\<lparr>a_len := a_len A1 + 1\<rparr>))"

definition free_node :: "nat \<Rightarrow> ('k, 'v) arena \<Rightarrow> ('k, 'v) arena" where
  "free_node idx A = (upd_node idx (write_link (a_free_head A)) A)\<lparr>a_free_head := idx\<rparr>"

end
