(* ===== verification/Btree_Raw.thy ===== *)
theory Btree_Raw
  imports Btree_Node
begin

text \<open>
  The B+ tree engine, \<^verbatim>\<open>RawBTree<K, V>\<close> of \<^verbatim>\<open>src/flat_btree/raw.rs\<close>: search, insertion with
  splits by a recorded path and by parent indices, and the entry search. Keys are ordered by the type class
  of linear orders. Moves of elements inside and between nodes are the loops of the code on the
  slot lists. A fault is a failed check of a debug build
  (undefined behaviour in a release build).
\<close>

datatype btree_fault = PathOverflow

record ('k, 'v) btree =
  b_arena :: "('k, 'v) arena"
  b_root :: nat
  b_first_leaf :: nat
  b_last_leaf :: nat
  b_len :: nat
  b_height :: nat

definition btree_new :: "('k, 'v) btree" where
  "btree_new = \<lparr>b_arena = arena_new, b_root = NO_NODE, b_first_leaf = NO_NODE, b_last_leaf = NO_NODE,
     b_len = 0, b_height = 0\<rparr>"

definition btree_with_capacity :: "node_layout \<Rightarrow> nat \<Rightarrow> ('k, 'v) btree" where
  "btree_with_capacity L capacity =
    (let leaf_cap = LEAF_CAP L; leaves = ((capacity + max leaf_cap 1 - 1) div max leaf_cap 1) mod 2 ^ 32;
         estimated = max (min (leaves + leaves div 4) (2 ^ 32 - 1)) 4
     in btree_new\<lparr>b_arena := arena_with_capacity L estimated\<rparr>)"

definition b_node :: "('k, 'v) btree \<Rightarrow> nat \<Rightarrow> ('k, 'v) node_block" where
  "b_node t i = node (b_arena t) i"

definition b_upd :: "nat \<Rightarrow> (('k, 'v) node_block \<Rightarrow> ('k, 'v) node_block) \<Rightarrow> ('k, 'v) btree \<Rightarrow> ('k, 'v) btree" where
  "b_upd i f t = t\<lparr>b_arena := upd_node i f (b_arena t)\<rparr>"

definition b_alloc :: "node_layout \<Rightarrow> ('k, 'v) btree \<Rightarrow> nat \<times> ('k, 'v) btree" where
  "b_alloc L t = (let (i, A) = alloc_node L (b_arena t) in (i, t\<lparr>b_arena := A\<rparr>))"

definition lkey :: "('k, 'v) node_block \<Rightarrow> nat \<Rightarrow> 'k" where
  "lkey n i = the (n_lkeys n ! i)"

definition lval :: "('k, 'v) node_block \<Rightarrow> nat \<Rightarrow> 'v" where
  "lval n i = the (n_vals n ! i)"

definition ikey :: "('k, 'v) node_block \<Rightarrow> nat \<Rightarrow> 'k" where
  "ikey n i = the (n_ikeys n ! i)"

definition child :: "('k, 'v) node_block \<Rightarrow> nat \<Rightarrow> nat" where
  "child n i = n_children n ! i"

section \<open>Scanning and searching in a node\<close>

text \<open>\<^verbatim>\<open>for i in 0..len { if p(i) { r = i; break; } }\<close> with \<^verbatim>\<open>r = len\<close> before it.\<close>

definition first_index :: "(nat \<Rightarrow> bool) \<Rightarrow> nat \<Rightarrow> nat" where
  "first_index p len = (case find p [0..<len] of Some i \<Rightarrow> i | None \<Rightarrow> len)"

datatype cmp_ordering = Less | Equal | Greater

definition cmp :: "'k::linorder \<Rightarrow> 'k \<Rightarrow> cmp_ordering" where
  "cmp a b = (if a < b then Less else if a = b then Equal else Greater)"

text \<open>\<^verbatim>\<open>slice::binary_search_by\<close> and \<^verbatim>\<open>partition_point\<close> of the standard library.\<close>

function bsearch_base :: "(nat \<Rightarrow> cmp_ordering) \<Rightarrow> nat \<Rightarrow> nat \<Rightarrow> nat" where
  "bsearch_base f base sz =
    (if 1 < sz
     then let half = sz div 2; mid = base + half
       in bsearch_base f (if f mid = Greater then base else mid) (sz - half)
     else base)"
  by pat_completeness auto
termination
  by (relation "measure (\<lambda>(f, base, sz). sz)") auto

declare bsearch_base.simps [simp del]

definition binary_search_by :: "(nat \<Rightarrow> cmp_ordering) \<Rightarrow> nat \<Rightarrow> nat + nat" where
  "binary_search_by f sz =
    (if sz = 0 then Inl 0
     else let base = bsearch_base f 0 sz in
       case f base of Equal \<Rightarrow> Inr base | Less \<Rightarrow> Inl (base + 1) | Greater \<Rightarrow> Inl base)"

definition partition_point :: "(nat \<Rightarrow> bool) \<Rightarrow> nat \<Rightarrow> nat" where
  "partition_point p sz =
    (case binary_search_by (\<lambda>i. if p i then Less else Greater) sz of Inl i \<Rightarrow> i | Inr i \<Rightarrow> i)"

section \<open>Search\<close>

primrec descend :: "(('k, 'v) node_block \<Rightarrow> nat) \<Rightarrow> ('k, 'v) btree \<Rightarrow> nat \<Rightarrow> nat \<Rightarrow> nat" where
  "descend sel t 0 node_idx = node_idx"
| "descend sel t (Suc h) node_idx = descend sel t h (child (b_node t node_idx) (sel (b_node t node_idx)))"

text \<open>The child to descend into, by a linear scan and by binary search.\<close>

definition child_linear :: "'k::linorder \<Rightarrow> ('k, 'v) node_block \<Rightarrow> nat" where
  "child_linear key n = first_index (\<lambda>i. cmp key (ikey n i) = Less) (n_len n)"

definition child_binary :: "'k::linorder \<Rightarrow> ('k, 'v) node_block \<Rightarrow> nat" where
  "child_binary key n = partition_point (\<lambda>i. cmp (ikey n i) key \<noteq> Greater) (n_len n)"

text \<open>The scan of a leaf stops at the first key that is not smaller.\<close>

definition search_linear :: "('k::linorder, 'v) btree \<Rightarrow> 'k \<Rightarrow> (nat \<times> nat) option" where
  "search_linear t key =
    (let node_idx = descend (child_linear key) t (b_height t) (b_root t);
         n = b_node t node_idx;
         i = first_index (\<lambda>i. cmp key (lkey n i) \<noteq> Greater) (n_len n)
     in if i < n_len n \<and> cmp key (lkey n i) = Equal then Some (node_idx, i) else None)"

definition search_binary :: "('k::linorder, 'v) btree \<Rightarrow> 'k \<Rightarrow> (nat \<times> nat) option" where
  "search_binary t key =
    (let node_idx = descend (child_binary key) t (b_height t) (b_root t);
         n = b_node t node_idx
     in case binary_search_by (\<lambda>i. cmp (lkey n i) key) (n_len n) of
          Inr i \<Rightarrow> Some (node_idx, i)
        | Inl _ \<Rightarrow> None)"

definition search :: "('k::linorder, 'v) btree \<Rightarrow> 'k \<Rightarrow> (nat \<times> nat) option" where
  "search t key =
    (if b_root t = NO_NODE then None
     else if b_height t < 3 then search_linear t key else search_binary t key)"

definition btree_get :: "('k::linorder, 'v) btree \<Rightarrow> 'k \<Rightarrow> 'v option" where
  "btree_get t key = map_option (\<lambda>(leaf_idx, slot_idx). lval (b_node t leaf_idx) slot_idx) (search t key)"

text \<open>
  The descent for an insertion also records the path in a buffer of 16 entries.
\<close>

definition MAX_PATH_HEIGHT :: nat where
  "MAX_PATH_HEIGHT = 16"

type_synonym path_buf = "(nat \<times> nat) list"

definition path_push :: "nat \<times> nat \<Rightarrow> path_buf \<Rightarrow> btree_fault + path_buf" where
  "path_push item path = (if length path < MAX_PATH_HEIGHT then Inr (path @ [item]) else Inl PathOverflow)"

primrec descend_path ::
  "'k::linorder \<Rightarrow> ('k, 'v) btree \<Rightarrow> nat \<Rightarrow> nat \<Rightarrow> path_buf \<Rightarrow> btree_fault + (nat \<times> path_buf)" where
  "descend_path key t 0 node_idx path = Inr (node_idx, path)"
| "descend_path key t (Suc h) node_idx path =
    (let n = b_node t node_idx; child_idx = first_index (\<lambda>i. key < ikey n i) (n_len n) in
     case path_push (node_idx, child_idx) path of
       Inl e \<Rightarrow> Inl e
     | Inr path' \<Rightarrow> descend_path key t h (child n child_idx) path')"

definition insert_pos :: "'k::linorder \<Rightarrow> ('k, 'v) node_block \<Rightarrow> nat" where
  "insert_pos key n = first_index (\<lambda>i. key \<le> lkey n i) (n_len n)"

definition search_for_insert ::
  "('k::linorder, 'v) btree \<Rightarrow> 'k \<Rightarrow> btree_fault + ((nat \<times> nat) \<times> path_buf)" where
  "search_for_insert t key =
    (case descend_path key t (b_height t) (b_root t) [] of
       Inl e \<Rightarrow> Inl e
     | Inr (node_idx, path) \<Rightarrow> Inr ((node_idx, insert_pos key (b_node t node_idx)), path))"

definition search_for_insert_no_path :: "('k::linorder, 'v) btree \<Rightarrow> 'k \<Rightarrow> nat \<times> nat" where
  "search_for_insert_no_path t key =
    (let node_idx = descend (\<lambda>n. first_index (\<lambda>i. key < ikey n i) (n_len n)) t (b_height t) (b_root t)
     in (node_idx, insert_pos key (b_node t node_idx)))"

datatype entry_search = EmptyTree | Occupied nat nat | Vacant nat nat

definition btree_entry_search :: "('k::linorder, 'v) btree \<Rightarrow> 'k \<Rightarrow> entry_search" where
  "btree_entry_search t key =
    (if b_root t = NO_NODE then EmptyTree
     else
       let (leaf_idx, pos) = search_for_insert_no_path t key; n = b_node t leaf_idx in
       if pos < n_len n \<and> lkey n pos = key then Occupied leaf_idx pos else Vacant leaf_idx pos)"

text \<open>The slot of a child in its parent, with the default of each caller when it is not there.\<close>

definition child_slot :: "nat \<Rightarrow> ('k, 'v) node_block \<Rightarrow> nat \<Rightarrow> nat" where
  "child_slot missing n c = (case find (\<lambda>i. child n i = c) [0..<Suc (n_len n)] of Some i \<Rightarrow> i | None \<Rightarrow> missing)"

text \<open>The walk from a node to the root; the path is recorded upwards and reversed at the end.\<close>

partial_function (option) path_up ::
  "('k, 'v) btree \<Rightarrow> nat \<Rightarrow> path_buf \<Rightarrow> (btree_fault + path_buf) option" where
  [code]: "path_up t node_idx path =
    (let parent = n_parent (b_node t node_idx) in
     if parent = NO_NODE then Some (Inr path)
     else case path_push (parent, child_slot (n_len (b_node t parent)) (b_node t parent) node_idx) path of
            Inl e \<Rightarrow> Some (Inl e)
          | Inr path' \<Rightarrow> path_up t parent path')"

definition path_to_node :: "('k, 'v) btree \<Rightarrow> nat \<Rightarrow> (btree_fault + path_buf) option" where
  "path_to_node t target = map_option (map_sum id rev) (path_up t target [])"

section \<open>Moving elements\<close>

text \<open>
  \<^verbatim>\<open>for i in (pos..len).rev() { a[i + 1] = a[i] }\<close> and
  \<^verbatim>\<open>copy_nonoverlapping\<close> of several elements.
\<close>

definition shift_right :: "nat \<Rightarrow> nat \<Rightarrow> 'a list \<Rightarrow> 'a list" where
  "shift_right pos len a = fold (\<lambda>i a. a[i + 1 := a ! i]) (rev [pos..<len]) a"

definition copy_slots :: "'a list \<Rightarrow> nat \<Rightarrow> nat \<Rightarrow> nat \<Rightarrow> 'a list \<Rightarrow> 'a list" where
  "copy_slots src i j n dst = fold (\<lambda>m dst. dst[j + m := src ! (i + m)]) [0..<n] dst"

section \<open>Insertion\<close>

definition leaf_insert_at :: "nat \<Rightarrow> nat \<Rightarrow> 'k \<Rightarrow> 'v \<Rightarrow> ('k, 'v) btree \<Rightarrow> ('k, 'v) btree" where
  "leaf_insert_at leaf_idx pos key value t =
    b_upd leaf_idx (\<lambda>n. n\<lparr>
      n_lkeys := (shift_right pos (n_len n) (n_lkeys n))[pos := Some key],
      n_vals := (shift_right pos (n_len n) (n_vals n))[pos := Some value],
      n_len := n_len n + 1\<rparr>) t"

text \<open>Distributing the entries of a full leaf and the new one over two leaves.\<close>

definition leaf_split_move ::
  "node_layout \<Rightarrow> nat \<Rightarrow> nat \<Rightarrow> nat \<Rightarrow> 'k \<Rightarrow> 'v \<Rightarrow> ('k, 'v) btree \<Rightarrow> ('k, 'v) btree" where
  "leaf_split_move L left_idx right_idx pos key value t0 =
    (let leaf_cap = LEAF_CAP L;
         mid = (leaf_cap + 1) div 2;
         right_count = leaf_cap + 1 - mid;
         left = b_node t0 left_idx
     in if pos < mid then
          let move_start = mid - 1; move_count = leaf_cap - move_start;
              t = b_upd right_idx (\<lambda>n. n\<lparr>
                    n_lkeys := copy_slots (n_lkeys left) move_start 0 move_count (n_lkeys n),
                    n_vals := copy_slots (n_vals left) move_start 0 move_count (n_vals n)\<rparr>) t0;
              t = b_upd left_idx (\<lambda>n. n\<lparr>n_len := mid - 1\<rparr>) t;
              t = b_upd right_idx (\<lambda>n. n\<lparr>n_len := move_count\<rparr>) t
          in leaf_insert_at left_idx pos key value t
        else
          let right_pos = pos - mid; move_count = leaf_cap - mid; tail = move_count - right_pos;
              t = b_upd right_idx (\<lambda>n. n\<lparr>
                    n_lkeys := copy_slots (n_lkeys left) mid 0 right_pos (n_lkeys n),
                    n_vals := copy_slots (n_vals left) mid 0 right_pos (n_vals n)\<rparr>) t0;
              t = b_upd right_idx (\<lambda>n. n\<lparr>
                    n_lkeys := (n_lkeys n)[right_pos := Some key],
                    n_vals := (n_vals n)[right_pos := Some value]\<rparr>) t;
              t = b_upd right_idx (\<lambda>n. n\<lparr>
                    n_lkeys := copy_slots (n_lkeys left) (mid + right_pos) (right_pos + 1) tail (n_lkeys n),
                    n_vals := copy_slots (n_vals left) (mid + right_pos) (right_pos + 1) tail (n_vals n)\<rparr>) t;
              t = b_upd left_idx (\<lambda>n. n\<lparr>n_len := mid\<rparr>) t
          in b_upd right_idx (\<lambda>n. n\<lparr>n_len := right_count\<rparr>) t)"

definition leaf_split_and_insert ::
  "node_layout \<Rightarrow> nat \<Rightarrow> nat \<Rightarrow> 'k \<Rightarrow> 'v \<Rightarrow> ('k, 'v) btree \<Rightarrow> ('k \<times> nat) \<times> ('k, 'v) btree" where
  "leaf_split_and_insert L left_idx pos key value t0 =
    (let (right_idx, t1) = b_alloc L t0;
         old_next = n_next (b_node t1 left_idx);
         left_parent = n_parent (b_node t1 left_idx);
         t2 = b_upd right_idx (\<lambda>n. n\<lparr>n_flags := IS_LEAF, n_parent := left_parent\<rparr>) t1;
         t3 = leaf_split_move L left_idx right_idx pos key value t2;
         t4 = b_upd left_idx (\<lambda>n. n\<lparr>n_next := right_idx\<rparr>) t3;
         t5 = b_upd right_idx (\<lambda>n. n\<lparr>n_prev := left_idx, n_next := old_next\<rparr>) t4;
         t6 = (if old_next \<noteq> NO_NODE then b_upd old_next (\<lambda>n. n\<lparr>n_prev := right_idx\<rparr>) t5
               else t5\<lparr>b_last_leaf := right_idx\<rparr>);
         promoted = lkey (b_node t6 right_idx) 0
     in ((promoted, right_idx), t6))"

definition internal_insert_at :: "nat \<Rightarrow> nat \<Rightarrow> 'k \<Rightarrow> nat \<Rightarrow> ('k, 'v) btree \<Rightarrow> ('k, 'v) btree" where
  "internal_insert_at node_idx pos key right_child t =
    b_upd node_idx (\<lambda>n. n\<lparr>
      n_ikeys := (shift_right pos (n_len n) (n_ikeys n))[pos := Some key],
      n_children := (shift_right (pos + 1) (n_len n + 1) (n_children n))[pos + 1 := right_child],
      n_len := n_len n + 1\<rparr>) t"

text \<open>One round of the loop that moves children to another node and tells them about it.\<close>

definition adopt_child :: "nat \<Rightarrow> nat list \<Rightarrow> nat \<Rightarrow> nat \<Rightarrow> ('k, 'v) btree \<Rightarrow> ('k, 'v) btree" where
  "adopt_child node_idx cs start i t =
    (let c = cs ! (start + i)
     in b_upd c (\<lambda>n. n\<lparr>n_parent := node_idx\<rparr>) (b_upd node_idx (\<lambda>n. n\<lparr>n_children := (n_children n)[i := c]\<rparr>) t))"

definition internal_split_and_insert ::
  "node_layout \<Rightarrow> nat \<Rightarrow> nat \<Rightarrow> 'k \<Rightarrow> nat \<Rightarrow> ('k, 'v) btree \<Rightarrow> ('k \<times> nat) \<times> ('k, 'v) btree" where
  "internal_split_and_insert L left_idx pos key right_child t0 =
    (let cap = INTERNAL_CAP L;
         mid = cap div 2;
         (right_idx, t1) = b_alloc L t0;
         left_parent = n_parent (b_node t1 left_idx);
         t2 = b_upd right_idx (\<lambda>n. n\<lparr>n_flags := 0, n_parent := left_parent\<rparr>) t1;
         left = b_node t2 left_idx;
         all_keys = map (\<lambda>i. n_ikeys left ! i) [0..<pos] @ [Some key] @ map (\<lambda>i. n_ikeys left ! i) [pos..<cap];
         all_children = map (child left) [0..<Suc pos] @ [right_child] @ map (child left) [pos + 1..<Suc cap];
         promoted = the (all_keys ! mid);
         right_key_count = cap - mid;
         t3 = b_upd left_idx (\<lambda>n. n\<lparr>
                n_ikeys := copy_slots all_keys 0 0 mid (n_ikeys n),
                n_children := copy_slots all_children 0 0 (mid + 1) (n_children n),
                n_len := mid\<rparr>) t2;
         t4 = b_upd right_idx (\<lambda>n. n\<lparr>n_ikeys := copy_slots all_keys (mid + 1) 0 right_key_count (n_ikeys n)\<rparr>) t3;
         t5 = fold (adopt_child right_idx all_children (mid + 1)) [0..<Suc right_key_count] t4
     in ((promoted, right_idx), b_upd right_idx (\<lambda>n. n\<lparr>n_len := right_key_count\<rparr>) t5))"

text \<open>A new root over the old one and its new sibling.\<close>

definition grow_root :: "node_layout \<Rightarrow> nat \<Rightarrow> 'k \<Rightarrow> nat \<Rightarrow> ('k, 'v) btree \<Rightarrow> ('k, 'v) btree" where
  "grow_root L old_root key new_child t =
    (let (new_root, t1) = b_alloc L t;
         t2 = b_upd new_root (\<lambda>n. n\<lparr>n_len := 1, n_flags := 0, n_parent := NO_NODE,
                n_ikeys := (n_ikeys n)[0 := Some key],
                n_children := (n_children n)[0 := old_root, 1 := new_child]\<rparr>) t1;
         t3 = b_upd old_root (\<lambda>n. n\<lparr>n_parent := new_root\<rparr>) t2;
         t4 = b_upd new_child (\<lambda>n. n\<lparr>n_parent := new_root\<rparr>) t3
     in t4\<lparr>b_root := new_root, b_height := b_height t4 + 1\<rparr>)"

text \<open>\<^verbatim>\<open>while let Some(..) = path.pop()\<close>: the path is taken from its end.\<close>

fun propagate_split_rev :: "node_layout \<Rightarrow> path_buf \<Rightarrow> 'k \<Rightarrow> nat \<Rightarrow> ('k, 'v) btree \<Rightarrow> ('k, 'v) btree" where
  "propagate_split_rev L [] key new_child t = grow_root L (b_root t) key new_child t"
| "propagate_split_rev L ((parent_idx, child_pos) # path) key new_child t =
    (if n_len (b_node t parent_idx) < INTERNAL_CAP L then
       b_upd new_child (\<lambda>n. n\<lparr>n_parent := parent_idx\<rparr>) (internal_insert_at parent_idx child_pos key new_child t)
     else
       let ((promoted, new_internal), t') = internal_split_and_insert L parent_idx child_pos key new_child t
       in propagate_split_rev L path promoted new_internal t')"

definition propagate_split :: "node_layout \<Rightarrow> path_buf \<Rightarrow> 'k \<Rightarrow> nat \<Rightarrow> ('k, 'v) btree \<Rightarrow> ('k, 'v) btree" where
  "propagate_split L path key new_child t = propagate_split_rev L (rev path) key new_child t"

text \<open>The same without a path, through the parent indices; the missing slot is the one past the end.\<close>

partial_function (option) propagate_split_lazy ::
  "node_layout \<Rightarrow> nat \<Rightarrow> 'k \<Rightarrow> nat \<Rightarrow> ('k, 'v) btree \<Rightarrow> ('k, 'v) btree option" where
  [code]: "propagate_split_lazy L c key new_sibling t =
    (let parent_idx = n_parent (b_node t c) in
     if parent_idx = NO_NODE then Some (grow_root L c key new_sibling t)
     else
       let parent_len = n_len (b_node t parent_idx);
           child_pos = child_slot (parent_len + 1) (b_node t parent_idx) c in
       if parent_len < INTERNAL_CAP L then
         Some (b_upd new_sibling (\<lambda>n. n\<lparr>n_parent := parent_idx\<rparr>)
                (internal_insert_at parent_idx child_pos key new_sibling t))
       else
         let ((promoted, new_internal), t') = internal_split_and_insert L parent_idx child_pos key new_sibling t
         in propagate_split_lazy L parent_idx promoted new_internal t')"

definition insert_first :: "node_layout \<Rightarrow> 'k \<Rightarrow> 'v \<Rightarrow> ('k, 'v) btree \<Rightarrow> ('k, 'v) btree" where
  "insert_first L key value t =
    (let (leaf_idx, t1) = b_alloc L t;
         t2 = b_upd leaf_idx (\<lambda>n. n\<lparr>n_len := 1, n_flags := IS_LEAF, n_parent := NO_NODE,
                n_lkeys := (n_lkeys n)[0 := Some key], n_vals := (n_vals n)[0 := Some value],
                n_prev := NO_NODE, n_next := NO_NODE\<rparr>) t1
     in t2\<lparr>b_root := leaf_idx, b_first_leaf := leaf_idx, b_last_leaf := leaf_idx, b_len := 1\<rparr>)"

text \<open>Splitting a full leaf, with the path to it at hand.\<close>

definition split_path ::
  "node_layout \<Rightarrow> nat \<Rightarrow> nat \<Rightarrow> 'k \<Rightarrow> 'v \<Rightarrow> path_buf \<Rightarrow> ('k, 'v) btree \<Rightarrow> ('k, 'v) btree" where
  "split_path L leaf_idx pos key value path t =
    (let ((promoted_key, new_leaf_idx), t1) = leaf_split_and_insert L leaf_idx pos key value t;
         t2 = t1\<lparr>b_len := b_len t1 + 1\<rparr>
     in propagate_split L path promoted_key new_leaf_idx t2)"

text \<open>The append and prepend paths of \<^verbatim>\<open>insert\<close>: a key after the last or before the first one.\<close>

definition insert_append ::
  "node_layout \<Rightarrow> 'k \<Rightarrow> 'v \<Rightarrow> ('k, 'v) btree \<Rightarrow> (btree_fault + ('k, 'v) btree) option" where
  "insert_append L key value t =
    (let last = b_last_leaf t; last_len = n_len (b_node t last) in
     if last_len < LEAF_CAP L then
       let t1 = b_upd last (\<lambda>n. n\<lparr>n_lkeys := (n_lkeys n)[last_len := Some key],
                n_vals := (n_vals n)[last_len := Some value], n_len := last_len + 1\<rparr>) t
       in Some (Inr (t1\<lparr>b_len := b_len t1 + 1\<rparr>))
     else map_option (map_sum id (\<lambda>path. split_path L last last_len key value path t)) (path_to_node t last))"

definition insert_prepend ::
  "node_layout \<Rightarrow> 'k \<Rightarrow> 'v \<Rightarrow> ('k, 'v) btree \<Rightarrow> (btree_fault + ('k, 'v) btree) option" where
  "insert_prepend L key value t =
    (let first = b_first_leaf t in
     if n_len (b_node t first) < LEAF_CAP L then
       let t1 = leaf_insert_at first 0 key value t
       in Some (Inr (t1\<lparr>b_len := b_len t1 + 1\<rparr>))
     else map_option (map_sum id (\<lambda>path. split_path L first 0 key value path t)) (path_to_node t first))"

definition insert_search ::
  "node_layout \<Rightarrow> 'k::linorder \<Rightarrow> 'v \<Rightarrow> ('k, 'v) btree \<Rightarrow> btree_fault + ('v option \<times> ('k, 'v) btree)" where
  "insert_search L key value t =
    (case search_for_insert t key of
       Inl e \<Rightarrow> Inl e
     | Inr ((leaf_idx, pos), path) \<Rightarrow>
         let n = b_node t leaf_idx; len = n_len n in
         if pos < len \<and> lkey n pos = key then
           Inr (Some (lval n pos), b_upd leaf_idx (\<lambda>n. n\<lparr>n_vals := (n_vals n)[pos := Some value]\<rparr>) t)
         else if len < LEAF_CAP L then
           let t1 = leaf_insert_at leaf_idx pos key value t in Inr (None, t1\<lparr>b_len := b_len t1 + 1\<rparr>)
         else Inr (None, split_path L leaf_idx pos key value path t))"

definition btree_insert ::
  "node_layout \<Rightarrow> 'k::linorder \<Rightarrow> 'v \<Rightarrow> ('k, 'v) btree \<Rightarrow> (btree_fault + ('v option \<times> ('k, 'v) btree)) option" where
  "btree_insert L key value t =
    (if b_root t = NO_NODE then Some (Inr (None, insert_first L key value t))
     else
       let last = b_node t (b_last_leaf t); first = b_node t (b_first_leaf t) in
       if 0 < n_len last \<and> lkey last (n_len last - 1) < key then
         map_option (map_sum id (Pair None)) (insert_append L key value t)
       else if 0 < n_len first \<and> key < lkey first 0 then
         map_option (map_sum id (Pair None)) (insert_prepend L key value t)
       else Some (insert_search L key value t))"

definition insert_at_vacant ::
  "node_layout \<Rightarrow> nat \<Rightarrow> nat \<Rightarrow> 'k \<Rightarrow> 'v \<Rightarrow> ('k, 'v) btree \<Rightarrow> ((nat \<times> nat) \<times> ('k, 'v) btree) option" where
  "insert_at_vacant L leaf_idx pos key value t =
    (if n_len (b_node t leaf_idx) < LEAF_CAP L then
       let t1 = leaf_insert_at leaf_idx pos key value t in Some ((leaf_idx, pos), t1\<lparr>b_len := b_len t1 + 1\<rparr>)
     else
       let mid = (LEAF_CAP L + 1) div 2;
           ((promoted_key, new_leaf_idx), t1) = leaf_split_and_insert L leaf_idx pos key value t;
           t2 = t1\<lparr>b_len := b_len t1 + 1\<rparr>
       in map_option (Pair (if pos < mid then (leaf_idx, pos) else (new_leaf_idx, pos - mid)))
            (propagate_split_lazy L leaf_idx promoted_key new_leaf_idx t2))"

end
