(* ===== verification/Btree_Slots.thy ===== *)
theory Btree_Slots
  imports Btree_Raw
begin

text \<open>
  The slot lists of a node: what the element moves of the engine do to the live prefix, and the two
  searches of the standard library on sorted keys.
\<close>

definition starts :: "'a list \<Rightarrow> 'a list \<Rightarrow> bool" where
  "starts a ys \<longleftrightarrow> length ys \<le> length a \<and> (\<forall>i<length ys. a ! i = ys ! i)"

lemma startsD: "starts a ys \<Longrightarrow> length ys \<le> length a" "starts a ys \<Longrightarrow> i < length ys \<Longrightarrow> a ! i = ys ! i"
  by (simp_all add: starts_def)

lemma starts_take [intro]: "starts a ys \<Longrightarrow> starts a (take n ys)"
  by (auto simp: starts_def min_def)

lemma starts_nil [simp]: "starts a []"
  by (simp add: starts_def)

section \<open>Shifting and copying\<close>

lemma length_shift_right [simp]: "length (shift_right pos len a) = length a"
proof -
  have "length (fold (\<lambda>i a. a[i + 1 := a ! i]) xs a) = length a" for xs and a :: "'a list"
    by (induction xs arbitrary: a) simp_all
  then show ?thesis by (simp add: shift_right_def)
qed

lemma length_copy_slots [simp]: "length (copy_slots src i j n dst) = length dst"
proof -
  have "length (fold (\<lambda>m dst. dst[j + m := src ! (i + m)]) xs dst) = length dst" for xs and dst :: "'a list"
    by (induction xs arbitrary: dst) simp_all
  then show ?thesis by (simp add: copy_slots_def)
qed

lemma nth_shift_right:
  "len < length a \<Longrightarrow> i < length a \<Longrightarrow>
   shift_right pos len a ! i = (if pos < i \<and> i \<le> len then a ! (i - 1) else a ! i)"
proof (induction len arbitrary: a)
  case 0
  then show ?case by (simp add: shift_right_def)
next
  case (Suc len)
  show ?case
  proof (cases "pos \<le> len")
    case True
    then have "shift_right pos (Suc len) a = shift_right pos len (a[Suc len := a ! len])"
      by (simp add: shift_right_def)
    then show ?thesis using Suc.IH [of "a[Suc len := a ! len]"] Suc.prems True
      by (auto simp: nth_list_update le_Suc_eq)
  next
    case False
    then show ?thesis using Suc.prems by (auto simp: shift_right_def)
  qed
qed

lemma nth_copy_slots:
  "j + n \<le> length dst \<Longrightarrow> m < length dst \<Longrightarrow>
   copy_slots src i j n dst ! m = (if j \<le> m \<and> m < j + n then src ! (i + (m - j)) else dst ! m)"
proof (induction n)
  case 0
  then show ?case by (auto simp: copy_slots_def)
next
  case (Suc n)
  have "copy_slots src i j (Suc n) dst = (copy_slots src i j n dst)[j + n := src ! (i + n)]"
    by (simp add: copy_slots_def)
  then show ?case using Suc by (auto simp: nth_list_update less_Suc_eq)
qed

lemma starts_insert:
  assumes "starts a ys" "length ys < length a" "pos \<le> length ys"
  shows "starts ((shift_right pos (length ys) a)[pos := x]) (take pos ys @ x # drop pos ys)"
  using assms by (auto simp: starts_def nth_shift_right nth_list_update nth_append min_def nth_Cons')

lemma starts_snoc: "starts a ys \<Longrightarrow> length ys < length a \<Longrightarrow> starts (a[length ys := x]) (ys @ [x])"
  by (auto simp: starts_def nth_append nth_list_update)

lemma starts_update: "starts a ys \<Longrightarrow> i < length ys \<Longrightarrow> starts (a[i := x]) (ys[i := x])"
  by (auto simp: starts_def nth_list_update)

lemma starts_copy:
  assumes "starts src ys" "i + n \<le> length ys" "n \<le> length dst"
  shows "starts (copy_slots src i 0 n dst) (take n (drop i ys))"
  using assms by (auto simp: starts_def nth_copy_slots)

lemma starts_copy_append:
  assumes "starts src ys" "i + n \<le> length ys" "starts dst zs" "length zs + n \<le> length dst"
  shows "starts (copy_slots src i (length zs) n dst) (zs @ take n (drop i ys))"
  using assms by (auto simp: starts_def nth_copy_slots nth_append)

section \<open>Searching\<close>

lemma first_index_le: "first_index p n \<le> n"
  by (auto simp: first_index_def find_Some_iff split: option.split)

lemma first_index_hit: "first_index p n < n \<Longrightarrow> p (first_index p n)"
proof (cases "find p [0..<n]")
  case (Some i)
  then have "p i" by (auto simp: find_Some_iff)
  then show ?thesis using Some by (simp add: first_index_def)
qed (simp add: first_index_def)

lemma first_index_before: "i < first_index p n \<Longrightarrow> \<not> p i"
  by (auto simp: first_index_def find_None_iff find_Some_iff split: option.split_asm)

lemma first_index_unique:
  assumes "i \<le> n" "\<And>j. j < i \<Longrightarrow> \<not> p j" "i < n \<Longrightarrow> p i"
  shows "first_index p n = i"
proof (rule ccontr)
  assume "first_index p n \<noteq> i"
  then consider "first_index p n < i" | "i < first_index p n" by linarith
  then show False
    using assms first_index_hit [of p n] first_index_before [of i p n] first_index_le [of p n]
    by cases (meson less_le_trans, meson less_le_trans)
qed

text \<open>Binary search: the base ends at the last index that does not compare greater.\<close>

lemma bsearch_base_correct:
  assumes "1 \<le> sz" "\<And>i j. i < j \<Longrightarrow> j < base + sz \<Longrightarrow> f i = Greater \<Longrightarrow> f j = Greater"
  shows "base \<le> bsearch_base f base sz \<and> bsearch_base f base sz < base + sz \<and>
    (\<forall>i. base < i \<and> i \<le> bsearch_base f base sz \<longrightarrow> f i \<noteq> Greater) \<and>
    (\<forall>i. bsearch_base f base sz < i \<and> i < base + sz \<longrightarrow> f i = Greater)"
  using assms
proof (induction f base sz rule: bsearch_base.induct)
  case (1 f base sz)
  show ?case
  proof (cases "1 < sz")
    case False
    then have "bsearch_base f base sz = base" "sz = 1" using "1.prems"(1) by (simp_all add: bsearch_base.simps)
    then show ?thesis by auto
  next
    case True
    define half where "half = sz div 2"
    have h: "0 < half" "half < sz" "1 \<le> sz - half" using True by (auto simp: half_def)
    let ?b = "if f (base + half) = Greater then base else base + half"
    have r: "bsearch_base f base sz = bsearch_base f ?b (sz - half)"
      using True by (subst bsearch_base.simps) (simp add: half_def Let_def)
    have bd: "?b + (sz - half) \<le> base + sz" using h by auto
    have IH: "?b \<le> bsearch_base f ?b (sz - half) \<and> bsearch_base f ?b (sz - half) < ?b + (sz - half) \<and>
      (\<forall>i. ?b < i \<and> i \<le> bsearch_base f ?b (sz - half) \<longrightarrow> f i \<noteq> Greater) \<and>
      (\<forall>i. bsearch_base f ?b (sz - half) < i \<and> i < ?b + (sz - half) \<longrightarrow> f i = Greater)"
    proof (rule "1.IH" [OF True half_def refl h(3)])
      fix i j assume "i < j" "j < ?b + (sz - half)" "f i = Greater"
      then show "f j = Greater" using "1.prems"(2) bd by (meson less_le_trans)
    qed
    show ?thesis
    proof (cases "f (base + half) = Greater")
      case True
      have "f i = Greater" if "base + (sz - half) \<le> i" "i < base + sz" for i
      proof (cases "i = base + half")
        case False
        have "half \<le> sz - half" by (simp add: half_def)
        then have "base + half < i" using that False by linarith
        then show ?thesis using "1.prems"(2) True that(2) by blast
      qed (use True in simp)
      then show ?thesis using IH True h unfolding r by (auto simp: not_less) (meson le_less_linear)
    next
      case False
      have "f i \<noteq> Greater" if "base < i" "i \<le> base + half" for i
        using "1.prems"(2) [of i "base + half"] that False h by (cases "i = base + half") auto
      note lo = this
      define r' where "r' = bsearch_base f (base + half) (sz - half)"
      have IH': "base + half \<le> r'" "r' < base + half + (sz - half)"
        "\<And>i. base + half < i \<Longrightarrow> i \<le> r' \<Longrightarrow> f i \<noteq> Greater"
        "\<And>i. r' < i \<Longrightarrow> i < base + half + (sz - half) \<Longrightarrow> f i = Greater"
        using IH False by (simp_all add: r'_def)
      have "bsearch_base f base sz = r'" using r False by (simp add: r'_def)
      moreover have "f i \<noteq> Greater" if "base < i" "i \<le> r'" for i
        using lo [of i] IH'(3) [of i] that by (cases "i \<le> base + half") auto
      ultimately show ?thesis using IH' h by simp
    qed
  qed
qed

lemma partition_point_correct:
  assumes "\<And>i j. i < j \<Longrightarrow> j < n \<Longrightarrow> p j \<Longrightarrow> p i"
  shows "partition_point p n = first_index (\<lambda>i. \<not> p i) n"
proof (cases "n = 0")
  case True
  then show ?thesis by (simp add: partition_point_def binary_search_by_def first_index_def)
next
  case False
  let ?f = "\<lambda>i. if p i then Less else Greater"
  define b where "b = bsearch_base ?f 0 n"
  have b: "b < n" "\<And>i. 0 < i \<Longrightarrow> i \<le> b \<Longrightarrow> p i" "\<And>i. b < i \<Longrightarrow> i < n \<Longrightarrow> \<not> p i"
  proof -
    have "?f j = Greater" if "i < j" "j < 0 + n" "?f i = Greater" for i j
      using that assms [of i j] by (auto split: if_splits)
    from bsearch_base_correct [of n 0 ?f, OF _ this] False
    have "b < n \<and> (\<forall>i. 0 < i \<and> i \<le> b \<longrightarrow> ?f i \<noteq> Greater) \<and> (\<forall>i. b < i \<and> i < n \<longrightarrow> ?f i = Greater)"
      by (simp add: b_def)
    then show "b < n" "\<And>i. 0 < i \<Longrightarrow> i \<le> b \<Longrightarrow> p i" "\<And>i. b < i \<Longrightarrow> i < n \<Longrightarrow> \<not> p i"
      by (auto split: if_splits)
  qed
  have r: "partition_point p n = (if p b then b + 1 else b)"
    using False by (simp add: partition_point_def binary_search_by_def b_def Let_def)
  have "first_index (\<lambda>i. \<not> p i) n = (if p b then b + 1 else b)"
  proof (rule first_index_unique)
    show "(if p b then b + 1 else b) \<le> n" using b(1) by simp
    show "\<not> \<not> p j" if "j < (if p b then b + 1 else b)" for j
    proof (cases "p b")
      case True
      then show ?thesis using that assms [of j b] b(1) by (cases "j = b") auto
    next
      case False
      then have "b = 0" using b(2) [of b] by blast
      then show ?thesis using that False by simp
    qed
    show "\<not> p (if p b then b + 1 else b)" if "(if p b then b + 1 else b) < n"
      using that b(3) [of "b + 1"] by auto
  qed
  then show ?thesis using r by simp
qed

end
