(* ===== verification/Btree_Tree.thy ===== *)
theory Btree_Tree
  imports Btree_Slots "HOL-Library.Product_Lexorder" "HOL-Library.Multiset"
begin

text \<open>
  What the node blocks mean: an abstract tree whose nodes carry their indices. The keys of the tree,
  read from left to right, form one sequence in which a separator \<open>(k, False)\<close> stands before an
  entry \<open>(k, True)\<close> with the same key; the search order of the whole tree is that this sequence
  increases in the lexicographic order.
\<close>

datatype ('k, 'v) bt = BLeaf nat "('k \<times> 'v) list" | BNode nat "('k, 'v) bt list" "'k list"

primrec idx :: "('k, 'v) bt \<Rightarrow> nat" where
  "idx (BLeaf i kvs) = i"
| "idx (BNode i ts ks) = i"

section \<open>The key sequence\<close>

fun inter :: "('k \<times> bool) list list \<Rightarrow> 'k list \<Rightarrow> ('k \<times> bool) list" where
  "inter [] ks = []"
| "inter (s # ss) [] = s"
| "inter (s # ss) (k # ks) = s @ (k, False) # inter ss ks"

definition ipre :: "('k \<times> bool) list list \<Rightarrow> 'k list \<Rightarrow> ('k \<times> bool) list" where
  "ipre ss ks = concat (map2 (\<lambda>s k. s @ [(k, False)]) ss ks)"

definition ipost :: "'k list \<Rightarrow> ('k \<times> bool) list list \<Rightarrow> ('k \<times> bool) list" where
  "ipost ks ss = concat (map2 (\<lambda>k s. (k, False) # s) ks ss)"

lemma ipre_simps [simp]: "ipre [] ks = []" "ipre ss [] = []" "ipre (s # ss) (k # ks) = s @ (k, False) # ipre ss ks"
  by (simp_all add: ipre_def)

lemma ipost_simps [simp]: "ipost [] ss = []" "ipost ks [] = []" "ipost (k # ks) (s # ss) = (k, False) # s @ ipost ks ss"
  by (simp_all add: ipost_def)

lemma ipre_append: "length ss1 = length ks1 \<Longrightarrow> ipre (ss1 @ ss2) (ks1 @ ks2) = ipre ss1 ks1 @ ipre ss2 ks2"
  by (induction ss1 ks1 rule: list_induct2) simp_all

lemma inter_hd: "length ks = length ss \<Longrightarrow> inter (s # ss) ks = s @ ipost ks ss"
  by (induction ks ss arbitrary: s rule: list_induct2) simp_all

lemma inter_hole:
  "length ss1 = length ks1 \<Longrightarrow> length ks2 = length ss2 \<Longrightarrow>
   inter (ss1 @ s # ss2) (ks1 @ ks2) = ipre ss1 ks1 @ s @ ipost ks2 ss2"
  by (induction ss1 ks1 rule: list_induct2) (simp_all add: inter_hd)

lemma inter_two:
  "length ss1 = Suc (length ks1) \<Longrightarrow> inter (ss1 @ ss2) (ks1 @ k # ks2) = inter ss1 ks1 @ (k, False) # inter ss2 ks2"
proof (induction ks1 arbitrary: ss1)
  case Nil
  then show ?case by (cases ss1) simp_all
next
  case (Cons k' ks1)
  then obtain s ss1' where "ss1 = s # ss1'" by (cases ss1) simp_all
  then show ?case using Cons by simp
qed

fun seq :: "('k, 'v) bt \<Rightarrow> ('k \<times> bool) list" where
  "seq (BLeaf i kvs) = map (\<lambda>kv. (fst kv, True)) kvs"
| "seq (BNode i ts ks) = inter (map seq ts) ks"

fun ents :: "('k, 'v) bt \<Rightarrow> ('k \<times> 'v) list" where
  "ents (BLeaf i kvs) = kvs"
| "ents (BNode i ts ks) = concat (map ents ts)"

text \<open>All node indices, and the leaf indices from left to right.\<close>

fun nodes :: "('k, 'v) bt \<Rightarrow> nat list" where
  "nodes (BLeaf i kvs) = [i]"
| "nodes (BNode i ts ks) = i # concat (map nodes ts)"

fun lvs :: "('k, 'v) bt \<Rightarrow> nat list" where
  "lvs (BLeaf i kvs) = [i]"
| "lvs (BNode i ts ks) = concat (map lvs ts)"

fun leaves :: "('k, 'v) bt \<Rightarrow> (nat \<times> ('k \<times> 'v) list) set" where
  "leaves (BLeaf i kvs) = {(i, kvs)}"
| "leaves (BNode i ts ks) = (\<Union>t\<in>set ts. leaves t)"

fun bal :: "nat \<Rightarrow> ('k, 'v) bt \<Rightarrow> bool" where
  "bal 0 (BLeaf i kvs) = True"
| "bal (Suc h) (BNode i ts ks) = (length ts = Suc (length ks) \<and> (\<forall>t\<in>set ts. bal h t))"
| "bal _ _ = False"

fun fat :: "('k, 'v) bt \<Rightarrow> bool" where
  "fat (BLeaf i kvs) = True"
| "fat (BNode i ts ks) = (ks \<noteq> [] \<and> (\<forall>t\<in>set ts. fat t))"

lemma bal_leaf [simp]: "bal h (BLeaf i kvs) \<longleftrightarrow> h = 0"
  by (cases h) auto

lemma bal_node: "bal h (BNode i ts ks) \<longleftrightarrow> 0 < h \<and> length ts = Suc (length ks) \<and> (\<forall>t\<in>set ts. bal (h - 1) t)"
  by (cases h) auto

lemma idx_in_nodes [simp]: "idx t \<in> set (nodes t)"
  by (cases t) simp_all

lemma lvs_subset: "set (lvs t) \<subseteq> set (nodes t)"
  by (induction t rule: lvs.induct) auto

lemma distinct_lvs: "distinct (nodes t) \<Longrightarrow> distinct (lvs t)"
proof (induction t rule: lvs.induct)
  case (2 i ts ks)
  have "distinct (concat (map lvs us))" if "distinct (concat (map nodes us))" "set us \<subseteq> set ts" for us
    using that
  proof (induction us)
    case (Cons u us)
    have "set (concat (map lvs us)) \<subseteq> set (concat (map nodes us))" using lvs_subset by fastforce
    moreover have "set (nodes u) \<inter> set (concat (map nodes us)) = {}" using Cons.prems(1) by simp
    ultimately have "set (lvs u) \<inter> set (concat (map lvs us)) = {}" using lvs_subset [of u] by blast
    moreover have "distinct (lvs u)" "distinct (concat (map lvs us))" using Cons 2(1) [of u] by simp_all
    ultimately show ?case by simp
  qed simp
  then show ?case using 2(2) by simp
qed simp

lemma filter_inter:
  "length ss = Suc (length ks) \<Longrightarrow> filter snd (inter ss ks) = concat (map (filter snd) ss)"
proof (induction ss ks rule: inter.induct)
  case (2 s ss)
  then show ?case by simp
qed simp_all

lemma keys_of_seq: "bal h t \<Longrightarrow> map fst (filter snd (seq t)) = map fst (ents t)"
proof (induction h t rule: bal.induct)
  case (1 i kvs)
  then show ?case by (simp add: filter_map comp_def)
next
  case (2 h i ts ks)
  then have "map (\<lambda>t. map fst (filter snd (seq t))) ts = map (\<lambda>t. map fst (ents t)) ts" by simp
  then have "concat (map (\<lambda>t. map fst (filter snd (seq t))) ts) = concat (map (\<lambda>t. map fst (ents t)) ts)"
    by (rule arg_cong)
  then show ?case using 2(2) by (simp add: filter_inter map_concat comp_def)
qed simp_all

lemma sorted_keys:
  assumes "bal h t" "sorted_wrt (<) (seq t)"
  shows "sorted_wrt (<) (map fst (ents t))"
proof -
  have "sorted_wrt (<) (filter snd (seq t))" using assms(2) by (rule sorted_wrt_filter)
  then have "sorted_wrt (\<lambda>x y. fst x < fst y) (filter snd (seq t))"
    by (rule sorted_wrt_mono_rel [rotated]) (auto simp: less_prod_def)
  then show ?thesis using keys_of_seq [OF assms(1)] by (simp add: sorted_wrt_map flip: sorted_wrt_map)
qed

lemma leaves_ents: "(i, kvs) \<in> leaves t \<Longrightarrow> set kvs \<subseteq> set (ents t)"
  by (induction t rule: ents.induct) auto

lemma concat_part_unique:
  "distinct (concat (map f ts)) \<Longrightarrow> u \<in> set ts \<Longrightarrow> u' \<in> set ts \<Longrightarrow> x \<in> set (f u) \<Longrightarrow> x \<in> set (f u') \<Longrightarrow> u = u'"
  by (induction ts) auto

text \<open>Keys that occur once occur in one leaf.\<close>

lemma leaves_unique:
  "distinct (map fst (ents t)) \<Longrightarrow> l \<in> leaves t \<Longrightarrow> l' \<in> leaves t \<Longrightarrow> key \<in> fst ` set (snd l) \<Longrightarrow> key \<in> fst ` set (snd l') \<Longrightarrow> l = l'"
proof (induction t rule: ents.induct)
  case (2 i ts ks)
  obtain u u' where u: "u \<in> set ts" "l \<in> leaves u" "u' \<in> set ts" "l' \<in> leaves u'" using 2(3,4) by auto
  then have k: "key \<in> fst ` set (ents u)" "key \<in> fst ` set (ents u')"
    using leaves_ents [of "fst l" "snd l" u] leaves_ents [of "fst l'" "snd l'" u'] 2(5,6) by auto
  have d: "distinct (concat (map (\<lambda>u. map fst (ents u)) ts))" using 2(2) by (simp add: map_concat comp_def)
  have "u = u'" by (rule concat_part_unique [OF d u(1,3), of key]) (use k in simp_all)
  moreover have "distinct (map fst (ents u))" using d u(1) by (auto simp: distinct_concat_iff)
  ultimately show ?case using 2(1) [of u] u 2(5,6) by blast
qed auto

section \<open>A tree with a hole\<close>

type_synonym ('k, 'v) frame = "nat \<times> ('k, 'v) bt list \<times> 'k list \<times> 'k list \<times> ('k, 'v) bt list"

fun fill1 :: "('k, 'v) frame \<Rightarrow> ('k, 'v) bt \<Rightarrow> ('k, 'v) bt" where
  "fill1 (i, ts1, ks1, ks2, ts2) t = BNode i (ts1 @ t # ts2) (ks1 @ ks2)"

primrec fill :: "('k, 'v) frame list \<Rightarrow> ('k, 'v) bt \<Rightarrow> ('k, 'v) bt" where
  "fill [] t = t"
| "fill (f # fs) t = fill fs (fill1 f t)"

definition frame_ok :: "('k, 'v) frame \<Rightarrow> bool" where
  "frame_ok f = (case f of (i, ts1, ks1, ks2, ts2) \<Rightarrow> length ts1 = length ks1 \<and> length ks2 = length ts2)"

lemma frame_ok_simps [simp]: "frame_ok (i, ts1, ks1, ks2, ts2) \<longleftrightarrow> length ts1 = length ks1 \<and> length ks2 = length ts2"
  by (simp add: frame_ok_def)

primrec spre :: "('k, 'v) frame list \<Rightarrow> ('k \<times> bool) list" where
  "spre [] = []"
| "spre (f # fs) = spre fs @ (case f of (i, ts1, ks1, ks2, ts2) \<Rightarrow> ipre (map seq ts1) ks1)"

primrec spost :: "('k, 'v) frame list \<Rightarrow> ('k \<times> bool) list" where
  "spost [] = []"
| "spost (f # fs) = (case f of (i, ts1, ks1, ks2, ts2) \<Rightarrow> ipost ks2 (map seq ts2)) @ spost fs"

lemma seq_fill: "list_all frame_ok fs \<Longrightarrow> seq (fill fs t) = spre fs @ seq t @ spost fs"
  by (induction fs arbitrary: t) (auto simp: frame_ok_def inter_hole split: prod.splits)

primrec epre :: "('k, 'v) frame list \<Rightarrow> ('k \<times> 'v) list" where
  "epre [] = []"
| "epre (f # fs) = epre fs @ (case f of (i, ts1, ks1, ks2, ts2) \<Rightarrow> concat (map ents ts1))"

primrec epost :: "('k, 'v) frame list \<Rightarrow> ('k \<times> 'v) list" where
  "epost [] = []"
| "epost (f # fs) = (case f of (i, ts1, ks1, ks2, ts2) \<Rightarrow> concat (map ents ts2)) @ epost fs"

lemma ents_fill: "ents (fill fs t) = epre fs @ ents t @ epost fs"
  by (induction fs arbitrary: t) (auto split: prod.splits)

primrec lpre :: "('k, 'v) frame list \<Rightarrow> nat list" where
  "lpre [] = []"
| "lpre (f # fs) = lpre fs @ (case f of (i, ts1, ks1, ks2, ts2) \<Rightarrow> concat (map lvs ts1))"

primrec lpost :: "('k, 'v) frame list \<Rightarrow> nat list" where
  "lpost [] = []"
| "lpost (f # fs) = (case f of (i, ts1, ks1, ks2, ts2) \<Rightarrow> concat (map lvs ts2)) @ lpost fs"

lemma lvs_fill: "lvs (fill fs t) = lpre fs @ lvs t @ lpost fs"
  by (induction fs arbitrary: t) (auto split: prod.splits)

primrec cnodes :: "('k, 'v) frame list \<Rightarrow> nat list" where
  "cnodes [] = []"
| "cnodes (f # fs) = (case f of (i, ts1, ks1, ks2, ts2) \<Rightarrow> i # concat (map nodes ts1) @ concat (map nodes ts2)) @ cnodes fs"

lemma mset_nodes_fill: "mset (nodes (fill fs t)) = mset (cnodes fs) + mset (nodes t)"
  by (induction fs arbitrary: t) (auto split: prod.splits)

lemma set_nodes_fill: "set (nodes (fill fs t)) = set (cnodes fs) \<union> set (nodes t)"
  using mset_nodes_fill [of fs t] by (metis set_mset_mset set_mset_union)

lemma distinct_nodes_fill: "distinct (nodes (fill fs t)) \<longleftrightarrow> distinct (cnodes fs @ nodes t)"
  using mset_nodes_fill [of fs t] by (intro mset_eq_imp_distinct_iff) simp

lemma leaves_fill: "leaves t \<subseteq> leaves (fill fs t)"
proof (induction fs arbitrary: t)
  case (Cons f fs)
  have "leaves t \<subseteq> leaves (fill1 f t)" by (cases f) auto
  then show ?case using Cons [of "fill1 f t"] by auto
qed simp

lemma bal_fill: "bal h (fill fs t) \<Longrightarrow> length fs \<le> h \<and> bal (h - length fs) t"
proof (induction fs arbitrary: t)
  case (Cons f fs)
  obtain i ts1 ks1 ks2 ts2 where f: "f = (i, ts1, ks1, ks2, ts2)" by (cases f)
  have "length fs \<le> h \<and> bal (h - length fs) (BNode i (ts1 @ t # ts2) (ks1 @ ks2))"
    using Cons.IH Cons.prems by (simp add: f)
  then show ?case by (cases "h - length fs") (auto simp: Suc_diff_Suc diff_Suc)
qed simp

lemma bal_fill_replace:
  "bal h (fill fs t) \<Longrightarrow> (\<And>h. bal h t \<Longrightarrow> bal h t') \<Longrightarrow> bal h (fill fs t')"
proof (induction fs arbitrary: t t')
  case (Cons f fs)
  obtain i ts1 ks1 ks2 ts2 where f: "f = (i, ts1, ks1, ks2, ts2)" by (cases f)
  have "bal h' (BNode i (ts1 @ t # ts2) (ks1 @ ks2)) \<Longrightarrow> bal h' (BNode i (ts1 @ t' # ts2) (ks1 @ ks2))" for h'
    using Cons.prems(2) by (cases h') auto
  then show ?case using Cons.IH Cons.prems(1) by (simp add: f)
qed simp

lemma fat_fill: "fat (fill fs t) \<Longrightarrow> fat t"
  by (induction fs arbitrary: t) fastforce+

lemma fat_fill_replace: "fat (fill fs t) \<Longrightarrow> fat t' \<Longrightarrow> fat (fill fs t')"
proof (induction fs arbitrary: t t')
  case (Cons f fs)
  obtain i ts1 ks1 ks2 ts2 where f: "f = (i, ts1, ks1, ks2, ts2)" by (cases f)
  have "fat (BNode i (ts1 @ t # ts2) (ks1 @ ks2))"
    using Cons.prems(1) fat_fill [of fs "fill1 f t"] by (simp add: f)
  then have "fat (BNode i (ts1 @ t' # ts2) (ks1 @ ks2))" using Cons.prems(2) by auto
  then show ?case using Cons.IH Cons.prems(1) by (simp add: f)
qed simp

end
