(* ===== verification/Btree_Rep.thy ===== *)
theory Btree_Rep
  imports Btree_Tree
begin

text \<open>
  The invariant of the B+ tree: the arena with its free list, the node blocks as an abstract tree,
  and the doubly linked chain of the leaves.
\<close>

section \<open>The arena\<close>

definition shaped :: "node_layout \<Rightarrow> ('k, 'v) node_block \<Rightarrow> bool" where
  "shaped L n \<longleftrightarrow> length (n_lkeys n) = LEAF_CAP L \<and> length (n_vals n) = LEAF_CAP L \<and>
     length (n_ikeys n) = INTERNAL_CAP L \<and> length (n_children n) = INTERNAL_CAP L + 1"

lemma shaped_zero_node [simp]: "shaped L (zero_node L)"
  by (simp add: shaped_def zero_node_def)

primrec free_chain :: "('k, 'v) arena \<Rightarrow> nat \<Rightarrow> nat list \<Rightarrow> bool" where
  "free_chain A h [] \<longleftrightarrow> h = NO_NODE"
| "free_chain A h (x # xs) \<longleftrightarrow> h = x \<and> free_chain A (read_link (node A x)) xs"

definition cap_ok :: "nat \<Rightarrow> bool" where
  "cap_ok c \<longleftrightarrow> c = 0 \<or> (\<exists>e\<le>31. c = 2 ^ e)"

text \<open>The blocks below \<open>a_len\<close> are in use or on the free list, never both.\<close>

definition arena_ok :: "node_layout \<Rightarrow> ('k, 'v) arena \<Rightarrow> nat set \<Rightarrow> nat list \<Rightarrow> bool" where
  "arena_ok L A U fl \<longleftrightarrow>
     length (a_blocks A) = a_cap A \<and> a_len A \<le> a_cap A \<and> cap_ok (a_cap A) \<and>
     (\<forall>i<a_cap A. shaped L (node A i)) \<and>
     free_chain A (a_free_head A) fl \<and> distinct fl \<and> set fl \<inter> U = {} \<and> set fl \<union> U = {..<a_len A}"

lemma cap_ok_bound: "cap_ok c \<Longrightarrow> c \<le> 2 ^ 31"
  unfolding cap_ok_def using power_increasing [of _ 31 "2::nat"] by auto

lemma cap_ok_double: "cap_ok c \<Longrightarrow> c < 2 ^ 31 \<Longrightarrow> 0 < c \<Longrightarrow> cap_ok (c * 2) \<and> (c * 2) mod 2 ^ 32 = c * 2"
proof -
  assume "cap_ok c" "c < 2 ^ 31" "0 < c"
  then obtain e where e: "c = 2 ^ e" "e \<le> 31" by (auto simp: cap_ok_def)
  then have "e < 31" using \<open>c < 2 ^ 31\<close> by (metis le_neq_implies_less nat_neq_iff)
  then have "c * 2 = 2 ^ Suc e \<and> Suc e \<le> 31" using e by simp
  moreover have "c * 2 < 2 ^ 32" using \<open>c < 2 ^ 31\<close> by simp
  ultimately show ?thesis unfolding cap_ok_def by (metis mod_less)
qed

lemma NO_NODE_gt: "i < 2 ^ 31 \<Longrightarrow> i \<noteq> NO_NODE"
  by (simp add: NO_NODE_def)

lemma arena_okD:
  assumes "arena_ok L A U fl"
  shows "\<And>i. i \<in> U \<Longrightarrow> i < a_len A" "\<And>i. i \<in> U \<Longrightarrow> i < length (a_blocks A)" "\<And>i. i \<in> U \<Longrightarrow> i \<noteq> NO_NODE"
    "\<And>i. i \<in> U \<Longrightarrow> shaped L (node A i)" "finite U"
proof -
  show a: "i < a_len A" if "i \<in> U" for i using assms that by (auto simp: arena_ok_def)
  show b: "i < length (a_blocks A)" if "i \<in> U" for i using assms a [OF that] by (auto simp: arena_ok_def)
  show "i \<noteq> NO_NODE" if "i \<in> U" for i
    using b [OF that] assms cap_ok_bound [of "a_cap A"] by (intro NO_NODE_gt) (auto simp: arena_ok_def)
  show "shaped L (node A i)" if "i \<in> U" for i using assms b [OF that] by (auto simp: arena_ok_def)
  show "finite U" using assms by (metis arena_ok_def finite_Un finite_lessThan)
qed

lemma node_upd_node: "i < length (a_blocks A) \<Longrightarrow> node (upd_node i f A) j = (if j = i then f (node A i) else node A j)"
  by (simp add: node_def upd_node_def nth_list_update)

lemma upd_node_fields [simp]: "a_cap (upd_node i f A) = a_cap A" "a_len (upd_node i f A) = a_len A"
    "a_free_head (upd_node i f A) = a_free_head A" "length (a_blocks (upd_node i f A)) = length (a_blocks A)"
  by (simp_all add: upd_node_def)

lemma free_chain_cong:
  "(\<And>i. i \<in> set xs \<Longrightarrow> node A' i = node A i) \<Longrightarrow> free_chain A' h xs = free_chain A h xs"
  by (induction xs arbitrary: h) simp_all

lemma arena_ok_upd:
  assumes "arena_ok L A U fl" "i \<in> U" "shaped L (f (node A i))"
  shows "arena_ok L (upd_node i f A) U fl"
proof -
  have i: "i < length (a_blocks A)" "i \<notin> set fl" using assms arena_okD(2) [OF assms(1)] by (auto simp: arena_ok_def)
  have "free_chain (upd_node i f A) (a_free_head A) fl = free_chain A (a_free_head A) fl"
    by (rule free_chain_cong) (use i in \<open>auto simp: node_upd_node\<close>)
  then show ?thesis using assms i by (auto simp: arena_ok_def node_upd_node)
qed

lemma arena_ok_grow:
  assumes "arena_ok L A U fl" "a_cap A < 2 ^ 31"
  shows "arena_ok L (arena_grow L A) U fl" "a_cap A < a_cap (arena_grow L A)" "a_len (arena_grow L A) = a_len A"
    "\<And>i. i < a_cap A \<Longrightarrow> node (arena_grow L A) i = node A i"
    "a_free_head (arena_grow L A) = a_free_head A"
proof -
  let ?c = "if a_cap A = 0 then INITIAL_CAP else (a_cap A * 2) mod 2 ^ 32"
  have "cap_ok INITIAL_CAP" by (auto simp: cap_ok_def INITIAL_CAP_def intro: exI [of _ 2])
  then have c: "cap_ok ?c" "a_cap A < ?c"
    using assms cap_ok_double [of "a_cap A"] by (auto simp: arena_ok_def INITIAL_CAP_def)
  have len: "length (a_blocks A) = a_cap A" using assms(1) by (simp add: arena_ok_def)
  show cap: "a_cap A < a_cap (arena_grow L A)" and "a_len (arena_grow L A) = a_len A"
    and fh: "a_free_head (arena_grow L A) = a_free_head A"
    using c by (simp_all add: arena_grow_def Let_def)
  show n: "node (arena_grow L A) i = node A i" if "i < a_cap A" for i
    using that len by (simp add: arena_grow_def Let_def node_def nth_append)
  have s: "shaped L (node (arena_grow L A) i)" if "i < a_cap (arena_grow L A)" for i
    using that n [of i] assms(1) len c
    by (cases "i < a_cap A") (auto simp: arena_ok_def arena_grow_def Let_def node_def nth_append)
  have "free_chain (arena_grow L A) (a_free_head A) fl = free_chain A (a_free_head A) fl"
  proof (rule free_chain_cong)
    fix i assume "i \<in> set fl"
    then have "i \<in> {..<a_len A}" "a_len A \<le> a_cap A" using assms(1) unfolding arena_ok_def by blast+
    then show "node (arena_grow L A) i = node A i" using n by simp
  qed
  then show "arena_ok L (arena_grow L A) U fl"
    using assms(1) c cap s unfolding arena_ok_def fh
    by (simp add: arena_grow_def Let_def)
qed

lemma arena_ok_alloc:
  assumes "arena_ok L A U fl" "a_len A < 2 ^ 31" "alloc_node L A = (i, A')"
  obtains fl' where "arena_ok L A' (insert i U) fl'" "i \<notin> U" "\<And>j. j \<in> U \<Longrightarrow> node A' j = node A j"
    "a_len A' \<le> a_len A + 1"
proof (cases fl)
  case (Cons x xs)
  have x: "a_free_head A = x" "x < a_len A" "x \<notin> U" "x \<notin> set xs" "free_chain A (read_link (node A x)) xs"
    "distinct xs" "x < length (a_blocks A)"
  proof -
    have "x \<in> set fl" "set fl \<union> U = {..<a_len A}" "a_len A \<le> length (a_blocks A)"
      using assms(1) unfolding arena_ok_def Cons by simp_all
    then have "x < a_len A \<and> x < length (a_blocks A)" by (metis UnI1 lessThan_iff less_le_trans)
    then show "x < a_len A" "x < length (a_blocks A)" by simp_all
  qed (use assms(1) in \<open>simp_all add: Cons arena_ok_def\<close>)
  have nn: "x \<noteq> NO_NODE" using x(2) assms(2) by (intro NO_NODE_gt) simp
  have A': "i = x" "A' = upd_node x (\<lambda>_. zero_node L) (A\<lparr>a_free_head := read_link (node A x)\<rparr>)"
    using assms(3) nn by (auto simp: alloc_node_def x(1) Let_def)
  have n: "node A' j = (if j = x then zero_node L else node A j)" for j
    using x(7) by (simp add: A' upd_node_def node_def nth_list_update)
  have "free_chain A' (read_link (node A x)) xs = free_chain A (read_link (node A x)) xs"
    by (rule free_chain_cong) (use x in \<open>auto simp: n\<close>)
  then have "arena_ok L A' (insert i U) xs"
    using assms(1) x n unfolding arena_ok_def Cons by (auto simp: A' node_def)
  then show thesis by (rule that) (use x n in \<open>auto simp: A'\<close>)
next
  case Nil
  then have fh: "a_free_head A = NO_NODE" using assms(1) by (simp add: arena_ok_def)
  let ?A1 = "if a_cap A \<le> a_len A then arena_grow L A else A"
  have U: "U = {..<a_len A}" using assms(1) Nil by (auto simp: arena_ok_def)
  have A1: "arena_ok L ?A1 U fl" "a_len A < a_cap ?A1" "a_len ?A1 = a_len A" "\<And>j. j \<in> U \<Longrightarrow> node ?A1 j = node A j"
    using arena_ok_grow [OF assms(1)] assms(1,2) by (auto simp: arena_ok_def U)
  have A': "i = a_len ?A1" "A' = ?A1\<lparr>a_len := a_len ?A1 + 1\<rparr>"
    using assms(3) by (auto simp: alloc_node_def fh Let_def)
  have n: "node A' j = node ?A1 j" for j unfolding A' by (simp add: node_def)
  have "free_chain A' NO_NODE fl" using Nil by simp
  then have "arena_ok L A' (insert i U) fl"
    using A1 Nil U unfolding arena_ok_def n by (auto simp: A' fh)
  then show thesis by (rule that) (use A1 n U in \<open>auto simp: A'\<close>)
qed

lemma arena_ok_free:
  assumes "arena_ok L A U fl" "i \<in> U"
  shows "arena_ok L (free_node i A) (U - {i}) (i # fl)"
    "\<And>j. j \<noteq> i \<Longrightarrow> node (free_node i A) j = node A j" "a_len (free_node i A) = a_len A"
proof -
  have i: "i < a_len A" "i < length (a_blocks A)" "i \<notin> set fl" "shaped L (node A i)"
    using arena_okD [OF assms(1)] assms by (auto simp: arena_ok_def)
  have n: "node (free_node i A) j = (if j = i then write_link (a_free_head A) (node A i) else node A j)" for j
    using i(2) by (simp add: free_node_def node_upd_node) (simp add: node_def upd_node_def nth_list_update)
  then show "\<And>j. j \<noteq> i \<Longrightarrow> node (free_node i A) j = node A j" by simp
  show "a_len (free_node i A) = a_len A" by (simp add: free_node_def)
  have l: "read_link (write_link h (n :: ('a, 'b) node_block)) = h" for h n
    by (simp add: read_link_def write_link_def)
  have "free_chain (free_node i A) (a_free_head A) fl = free_chain A (a_free_head A) fl"
    by (rule free_chain_cong) (use i n in auto)
  then have "free_chain (free_node i A) i (i # fl)" using assms(1) by (simp add: n l arena_ok_def)
  moreover have "shaped L (write_link h m)" if "shaped L m" for h and m :: "('a, 'b) node_block"
    using that by (simp add: shaped_def write_link_def)
  ultimately show "arena_ok L (free_node i A) (U - {i}) (i # fl)"
    using assms i n unfolding arena_ok_def by (auto simp: free_node_def)
qed

section \<open>The state of the engine\<close>

definition barena_ok :: "node_layout \<Rightarrow> ('k, 'v) btree \<Rightarrow> nat set \<Rightarrow> nat list \<Rightarrow> bool" where
  "barena_ok L t U fl \<longleftrightarrow> arena_ok L (b_arena t) U fl"

definition n_blocks :: "('k, 'v) btree \<Rightarrow> nat" where
  "n_blocks t = length (a_blocks (b_arena t))"

lemma b_upd_fields [simp]: "b_root (b_upd i f t) = b_root t" "b_first_leaf (b_upd i f t) = b_first_leaf t"
    "b_last_leaf (b_upd i f t) = b_last_leaf t" "b_len (b_upd i f t) = b_len t" "b_height (b_upd i f t) = b_height t"
    "n_blocks (b_upd i f t) = n_blocks t" "a_len (b_arena (b_upd i f t)) = a_len (b_arena t)"
  by (simp_all add: b_upd_def n_blocks_def)

lemma b_node_upd: "i < n_blocks t \<Longrightarrow> b_node (b_upd i f t) = (b_node t)(i := f (b_node t i))"
  by (auto simp: b_node_def b_upd_def n_blocks_def node_upd_node)

lemma b_fields_upd [simp]:
  "b_node (t\<lparr>b_root := a\<rparr>) = b_node t" "b_node (t\<lparr>b_first_leaf := a\<rparr>) = b_node t" "b_node (t\<lparr>b_last_leaf := a\<rparr>) = b_node t"
  "b_node (t\<lparr>b_len := a\<rparr>) = b_node t" "b_node (t\<lparr>b_height := a\<rparr>) = b_node t"
  "n_blocks (t\<lparr>b_root := a\<rparr>) = n_blocks t" "n_blocks (t\<lparr>b_first_leaf := a\<rparr>) = n_blocks t"
  "n_blocks (t\<lparr>b_last_leaf := a\<rparr>) = n_blocks t"
  "n_blocks (t\<lparr>b_len := a\<rparr>) = n_blocks t" "n_blocks (t\<lparr>b_height := a\<rparr>) = n_blocks t"
  "barena_ok L (t\<lparr>b_root := a\<rparr>) U fl = barena_ok L t U fl" "barena_ok L (t\<lparr>b_first_leaf := a\<rparr>) U fl = barena_ok L t U fl"
  "barena_ok L (t\<lparr>b_last_leaf := a\<rparr>) U fl = barena_ok L t U fl" "barena_ok L (t\<lparr>b_len := a\<rparr>) U fl = barena_ok L t U fl"
  "barena_ok L (t\<lparr>b_height := a\<rparr>) U fl = barena_ok L t U fl"
  by (auto simp: b_node_def n_blocks_def barena_ok_def)

lemma barena_okD:
  assumes "barena_ok L t U fl" "i \<in> U"
  shows "i < n_blocks t" "i \<noteq> NO_NODE" "shaped L (b_node t i)"
  using arena_okD [of L "b_arena t" U fl] assms by (auto simp: barena_ok_def n_blocks_def b_node_def)

lemma barena_ok_upd:
  "barena_ok L t U fl \<Longrightarrow> i \<in> U \<Longrightarrow> shaped L (f (b_node t i)) \<Longrightarrow> barena_ok L (b_upd i f t) U fl"
  using arena_ok_upd [of L "b_arena t" U fl i f] by (simp add: barena_ok_def b_node_def b_upd_def)

lemma b_alloc_ok:
  assumes "barena_ok L t U fl" "a_len (b_arena t) < 2 ^ 31" "b_alloc L t = (i, t')"
  obtains fl' where "barena_ok L t' (insert i U) fl'" "i \<notin> U" "\<And>j. j \<in> U \<Longrightarrow> b_node t' j = b_node t j"
    "a_len (b_arena t') \<le> a_len (b_arena t) + 1" "b_root t' = b_root t" "b_first_leaf t' = b_first_leaf t"
    "b_last_leaf t' = b_last_leaf t" "b_len t' = b_len t" "b_height t' = b_height t"
proof -
  obtain A where A: "alloc_node L (b_arena t) = (i, A)" "t' = t\<lparr>b_arena := A\<rparr>"
    using assms(3) by (auto simp: b_alloc_def split: prod.splits)
  from arena_ok_alloc [OF assms(1) [unfolded barena_ok_def] assms(2) A(1)] that show thesis
    by (auto simp: A(2) barena_ok_def b_node_def)
qed

section \<open>Node blocks as a tree\<close>

type_synonym ('k, 'v) blocks = "nat \<Rightarrow> ('k, 'v) node_block"

definition lrep :: "('k, 'v) blocks \<Rightarrow> nat \<Rightarrow> nat \<Rightarrow> ('k \<times> 'v) list \<Rightarrow> bool" where
  "lrep M p i kvs \<longleftrightarrow> n_len (M i) = length kvs \<and> n_flags (M i) = IS_LEAF \<and> n_parent (M i) = p \<and>
     starts (n_lkeys (M i)) (map (Some \<circ> fst) kvs) \<and> starts (n_vals (M i)) (map (Some \<circ> snd) kvs)"

definition irep :: "('k, 'v) blocks \<Rightarrow> nat \<Rightarrow> nat \<Rightarrow> nat list \<Rightarrow> 'k list \<Rightarrow> bool" where
  "irep M p i cs ks \<longleftrightarrow> n_len (M i) = length ks \<and> n_flags (M i) = 0 \<and> n_parent (M i) = p \<and>
     starts (n_ikeys (M i)) (map Some ks) \<and> starts (n_children (M i)) cs"

fun rep :: "('k, 'v) blocks \<Rightarrow> nat \<Rightarrow> ('k, 'v) bt \<Rightarrow> bool" where
  "rep M p (BLeaf i kvs) = lrep M p i kvs"
| "rep M p (BNode i ts ks) = (irep M p i (map idx ts) ks \<and> (\<forall>t\<in>set ts. rep M i t))"

text \<open>The links of a leaf are not part of its tree, so writes to them leave it alone.\<close>

definition body :: "('k, 'v) node_block \<Rightarrow> ('k, 'v) node_block" where
  "body n = n\<lparr>n_prev := 0, n_next := 0\<rparr>"

lemma body_eqD:
  assumes "body m = body n"
  shows "n_len m = n_len n" "n_flags m = n_flags n" "n_parent m = n_parent n" "n_lkeys m = n_lkeys n"
    "n_vals m = n_vals n" "n_ikeys m = n_ikeys n" "n_children m = n_children n"
  using assms by (cases m; cases n; simp add: body_def)+

lemma body_links [simp]: "body (n\<lparr>n_prev := a\<rparr>) = body n" "body (n\<lparr>n_next := a\<rparr>) = body n"
  by (simp_all add: body_def)

lemma lrep_cong: "body (M' i) = body (M i) \<Longrightarrow> lrep M' p i kvs = lrep M p i kvs"
  using body_eqD [of "M' i" "M i"] by (simp add: lrep_def)

lemma irep_cong: "body (M' i) = body (M i) \<Longrightarrow> irep M' p i cs ks = irep M p i cs ks"
  using body_eqD [of "M' i" "M i"] by (simp add: irep_def)

lemma rep_cong: "(\<And>i. i \<in> set (nodes t) \<Longrightarrow> body (M' i) = body (M i)) \<Longrightarrow> rep M' p t = rep M p t"
proof (induction M p t rule: rep.induct)
  case (1 M p i kvs)
  then show ?case using lrep_cong [of M' i M p kvs] by simp
next
  case (2 M p i ts ks)
  then have "rep M' i t = rep M i t" if "t \<in> set ts" for t using that by auto
  then show ?case using 2(2) irep_cong [of M' i M p "map idx ts" ks] by simp
qed

text \<open>The part of the tree around a hole whose content has index \<open>c\<close>.\<close>

fun hole_parent :: "nat \<Rightarrow> ('k, 'v) frame list \<Rightarrow> nat" where
  "hole_parent p [] = p"
| "hole_parent p (f # fs) = fst f"

fun ctx :: "('k, 'v) blocks \<Rightarrow> nat \<Rightarrow> ('k, 'v) frame list \<Rightarrow> nat \<Rightarrow> bool" where
  "ctx M p [] c = True"
| "ctx M p ((i, ts1, ks1, ks2, ts2) # fs) c =
    (ctx M p fs i \<and> irep M (hole_parent p fs) i (map idx ts1 @ c # map idx ts2) (ks1 @ ks2) \<and>
     (\<forall>t\<in>set ts1 \<union> set ts2. rep M i t))"

lemma rep_fill: "rep M p (fill fs t) \<longleftrightarrow> ctx M p fs (idx t) \<and> rep M (hole_parent p fs) t"
proof (induction fs arbitrary: t)
  case (Cons f fs)
  obtain i ts1 ks1 ks2 ts2 where f: "f = (i, ts1, ks1, ks2, ts2)" by (cases f)
  show ?case using Cons.IH [of "fill1 f t"] by (auto simp: f)
qed simp

lemma ctx_cong:
  "(\<And>i. i \<in> set (cnodes fs) \<Longrightarrow> body (M' i) = body (M i)) \<Longrightarrow> ctx M' p fs c = ctx M p fs c"
proof (induction fs arbitrary: c)
  case (Cons f fs)
  obtain i ts1 ks1 ks2 ts2 where f: "f = (i, ts1, ks1, ks2, ts2)" by (cases f)
  have "rep M' i t = rep M i t" if "t \<in> set ts1 \<union> set ts2" for t
    using that Cons.prems by (intro rep_cong) (auto simp: f)
  moreover have "body (M' i) = body (M i)" using Cons.prems by (simp add: f)
  ultimately show ?case using Cons.IH Cons.prems irep_cong [of M' i M]
    by (simp add: f)
qed simp

section \<open>The leaf chain\<close>

fun dseg :: "('k, 'v) blocks \<Rightarrow> nat \<Rightarrow> nat list \<Rightarrow> nat \<Rightarrow> bool" where
  "dseg M p [] q = True"
| "dseg M p (x # xs) q = (n_prev (M x) = p \<and> n_next (M x) = (case xs of [] \<Rightarrow> q | y # _ \<Rightarrow> y) \<and> dseg M x xs q)"

lemma dseg_append:
  "dseg M p (xs @ ys) q \<longleftrightarrow>
   dseg M p xs (case ys of [] \<Rightarrow> q | y # _ \<Rightarrow> y) \<and> dseg M (if xs = [] then p else last xs) ys q"
proof (induction xs arbitrary: p)
  case (Cons x xs)
  then show ?case by (cases xs) auto
qed simp

lemma dseg_cong:
  "(\<And>i. i \<in> set xs \<Longrightarrow> n_prev (M' i) = n_prev (M i) \<and> n_next (M' i) = n_next (M i)) \<Longrightarrow> dseg M' p xs q = dseg M p xs q"
  by (induction xs arbitrary: p) simp_all

section \<open>The invariant\<close>

definition brep :: "node_layout \<Rightarrow> ('k::linorder, 'v) btree \<Rightarrow> ('k, 'v) bt \<Rightarrow> nat list \<Rightarrow> bool" where
  "brep L t T fl \<longleftrightarrow>
     barena_ok L t (set (nodes T)) fl \<and> b_root t = idx T \<and> rep (b_node t) NO_NODE T \<and> bal (b_height t) T \<and>
     sorted_wrt (<) (seq T) \<and> distinct (nodes T) \<and> dseg (b_node t) NO_NODE (lvs T) NO_NODE \<and>
     b_first_leaf t = hd (lvs T) \<and> b_last_leaf t = last (lvs T) \<and> b_len t = length (ents T)"

text \<open>An empty map has no node in use; the free list may hold some.\<close>

definition bempty :: "node_layout \<Rightarrow> ('k, 'v) btree \<Rightarrow> nat list \<Rightarrow> bool" where
  "bempty L t fl \<longleftrightarrow> barena_ok L t {} fl \<and> b_root t = NO_NODE \<and> b_first_leaf t = NO_NODE \<and>
     b_last_leaf t = NO_NODE \<and> b_len t = 0 \<and> b_height t = 0"

end
