(* ===== verification/Btree_Search.thy ===== *)
theory Btree_Search
  imports Btree_Rep
begin

text \<open>
  Descending the tree: the leaf that a search ends in divides the key sequence of the whole
  tree at the searched position, so what the search finds there is what the map holds.
\<close>

section \<open>Frames\<close>

lemma fill_append [simp]: "fill (fs @ gs) t = fill gs (fill fs t)"
  by (induction fs arbitrary: t) simp_all

lemma spre_append [simp]: "spre (fs @ gs) = spre gs @ spre fs"
  by (induction fs) simp_all

lemma spost_append [simp]: "spost (fs @ gs) = spost fs @ spost gs"
  by (induction fs) simp_all

lemma sep_in_inter: "length ss = Suc (length ks) \<Longrightarrow> k \<in> set ks \<Longrightarrow> (k, False) \<in> set (inter ss ks)"
  by (induction ss ks rule: inter.induct) auto

lemma sorted_separators:
  "length ss = Suc (length ks) \<Longrightarrow> sorted_wrt (<) (inter ss ks) \<Longrightarrow> sorted_wrt (<) (ks :: 'k::linorder list)"
proof (induction ss ks rule: inter.induct)
  case (3 s ss k ks)
  then show ?case using sep_in_inter [of ss ks] by (fastforce simp: sorted_wrt_append)
qed simp_all

lemma ipre_last: "length ss = length ks \<Longrightarrow> ks \<noteq> [] \<Longrightarrow> \<exists>zs. ipre ss ks = zs @ [(last ks, False)]"
proof (induction ss ks rule: list_induct2)
  case (Cons s ss k ks)
  then show ?case by (cases "ks = []") auto
qed simp

lemma ipost_hd: "length ks = length ss \<Longrightarrow> ks \<noteq> [] \<Longrightarrow> \<exists>zs. ipost ks ss = (hd ks, False) # zs"
  by (cases ks; cases ss) auto

section \<open>Descent\<close>

lemma ikey_irep: "irep M p i cs ks \<Longrightarrow> j < length ks \<Longrightarrow> ikey (M i) j = ks ! j"
  by (auto simp: irep_def ikey_def dest: startsD(2) [where i = j])

lemma child_irep: "irep M p i cs ks \<Longrightarrow> j < length cs \<Longrightarrow> child (M i) j = cs ! j"
  by (auto simp: irep_def child_def dest: startsD(2))

text \<open>Parts of the key sequence on either side of a position, with a separator in between.\<close>

definition before :: "('k::linorder \<Rightarrow> bool) \<Rightarrow> ('k \<times> bool) list \<Rightarrow> bool" where
  "before P xs \<longleftrightarrow> (\<forall>x\<in>set xs. \<exists>k. \<not> P k \<and> x \<le> (k, False))"

definition after :: "('k::linorder \<Rightarrow> bool) \<Rightarrow> ('k \<times> bool) list \<Rightarrow> bool" where
  "after P xs \<longleftrightarrow> (\<forall>x\<in>set xs. \<exists>k. P k \<and> (k, False) \<le> x)"

text \<open>The child before the first separator that satisfies a predicate.\<close>

lemma hole_at_child_aux:
  fixes ks :: "'k::linorder list" and i :: nat and P :: "'k \<Rightarrow> bool"
  assumes len: "length ts = Suc (length ks)" and srt: "sorted_wrt (<) (inter (map seq ts) ks)"
  defines "c \<equiv> first_index (\<lambda>i. P (ks ! i)) (length ks)"
  defines "f \<equiv> (i, take c ts, take c ks, drop c ks, drop (Suc c) ts)"
  shows "c < length ts" "fill1 f (ts ! c) = BNode i ts ks" "frame_ok f"
    "before P (spre [f])" "after P (spost [f])" "sorted_wrt (<) (seq (ts ! c))"
proof -
  have c: "c \<le> length ks" unfolding c_def by (rule first_index_le)
  then show c': "c < length ts" using len by simp
  show f1: "fill1 f (ts ! c) = BNode i ts ks" using c' by (simp add: f_def id_take_nth_drop [symmetric])
  show f2: "frame_ok f" using c len by (simp add: f_def frame_ok_def min_def)
  have "seq (fill [f] (ts ! c)) = spre [f] @ seq (ts ! c) @ spost [f]"
    using f2 by (intro seq_fill) simp
  then have s: "sorted_wrt (<) (spre [f] @ seq (ts ! c) @ spost [f])" using srt f1 by simp
  then show "sorted_wrt (<) (seq (ts ! c))" by (simp add: sorted_wrt_append)
  show "before P (spre [f])"
  proof (cases "c = 0")
    case False
    then have k: "\<not> P (ks ! (c - 1))" using first_index_before [of "c - 1" "\<lambda>i. P (ks ! i)" "length ks"] by (simp add: c_def)
    have "last (take c ks) = ks ! (c - 1)" using c False by (cases ks) (auto simp: last_conv_nth min_def)
    moreover have "take c ks \<noteq> []" using c False by auto
    moreover have "length (map seq (take c ts)) = length (take c ks)" using c c' by simp
    ultimately obtain zs where zs: "spre [f] = zs @ [(ks ! (c - 1), False)]"
      using ipre_last [of "map seq (take c ts)" "take c ks"] by (auto simp: f_def)
    have "x < (ks ! (c - 1), False)" if "x \<in> set zs" for x using s that unfolding zs by (simp add: sorted_wrt_append)
    then show ?thesis using k unfolding zs before_def by (metis Un_iff empty_iff insert_iff less_imp_le list.set order_refl set_append)
  qed (simp add: f_def before_def)
  show "after P (spost [f])"
  proof (cases "c < length ks")
    case True
    then have k: "P (ks ! c)" using first_index_hit [of "\<lambda>i. P (ks ! i)" "length ks"] by (simp add: c_def)
    have "hd (drop c ks) = ks ! c" using True by (simp add: hd_drop_conv_nth)
    moreover have "length (drop c ks) = length (map seq (drop (Suc c) ts))" using len by simp
    ultimately obtain zs where zs: "spost [f] = (ks ! c, False) # zs"
      using ipost_hd [of "drop c ks" "map seq (drop (Suc c) ts)"] True by (auto simp: f_def)
    have "(ks ! c, False) < x" if "x \<in> set zs" for x using s that unfolding zs by (simp add: sorted_wrt_append)
    then show ?thesis using k unfolding zs after_def by (metis less_imp_le order_refl set_ConsD)
  qed (simp add: f_def after_def)
qed

lemma hole_at_child:
  fixes ks :: "'k::linorder list" and i :: nat
  assumes "length ts = Suc (length ks)" "sorted_wrt (<) (inter (map seq ts) ks)"
    and c: "c = first_index (\<lambda>i. P (ks ! i)) (length ks)"
    and f: "f = (i, take c ts, take c ks, drop c ks, drop (Suc c) ts)"
  shows "c < length ts" "fill1 f (ts ! c) = BNode i ts ks" "frame_ok f"
    "before P (spre [f])" "after P (spost [f])" "sorted_wrt (<) (seq (ts ! c))"
  unfolding f c by (rule hole_at_child_aux [OF assms(1,2)])+

definition frame_pos :: "('k, 'v) frame \<Rightarrow> nat \<times> nat" where
  "frame_pos f = (case f of (i, ts1, ks1, ks2, ts2) \<Rightarrow> (i, length ts1))"

text \<open>A selector that agrees with the linear scan on nodes with sorted keys.\<close>

definition selects :: "(('k::linorder, 'v) node_block \<Rightarrow> nat) \<Rightarrow> ('k \<Rightarrow> bool) \<Rightarrow> bool" where
  "selects sel P \<longleftrightarrow> (\<forall>n. (\<forall>i j. i < j \<and> j < n_len n \<longrightarrow> ikey n i < ikey n j) \<longrightarrow>
     sel n = first_index (\<lambda>i. P (ikey n i)) (n_len n))"

definition at_hole :: "('k::linorder, 'v) bt \<Rightarrow> ('k \<Rightarrow> bool) \<Rightarrow> ('k, 'v) frame list \<Rightarrow> ('k, 'v) bt \<Rightarrow> bool" where
  "at_hole T P fs S \<longleftrightarrow> T = fill fs S \<and> list_all frame_ok fs \<and>
     before P (spre fs) \<and> after P (spost fs)"

lemma at_hole_snoc:
  assumes "at_hole S P fs R" "fill1 f S = T" "frame_ok f" "before P (spre [f])" "after P (spost [f])"
  shows "at_hole T P (fs @ [f]) R"
  unfolding at_hole_def spre_append spost_append using assms by (simp add: at_hole_def before_def after_def ball_Un del: spre.simps spost.simps)

lemma first_index_cong: "(\<And>i. i < n \<Longrightarrow> p i = q i) \<Longrightarrow> first_index p n = first_index q n"
proof -
  assume "\<And>i. i < n \<Longrightarrow> p i = q i"
  then have "find p [0..<n] = find q [0..<n]" by (intro find_cong) simp_all
  then show ?thesis by (simp add: first_index_def)
qed

lemma selects_irep:
  fixes ks :: "'k::linorder list"
  assumes "selects sel P" "irep M p i cs ks" "sorted_wrt (<) ks"
  shows "sel (M i) = first_index (\<lambda>j. P (ks ! j)) (length ks)"
proof -
  have n: "n_len (M i) = length ks" using assms(2) by (simp add: irep_def)
  have "\<forall>j l. j < l \<and> l < n_len (M i) \<longrightarrow> ikey (M i) j < ikey (M i) l"
    using assms(3) by (auto simp: n ikey_irep [OF assms(2)] sorted_wrt_iff_nth_less)
  then have "sel (M i) = first_index (\<lambda>j. P (ikey (M i) j)) (n_len (M i))"
    using assms(1) unfolding selects_def by blast
  also have "\<dots> = first_index (\<lambda>j. P (ks ! j)) (length ks)"
    unfolding n by (rule first_index_cong) (simp add: ikey_irep [OF assms(2)])
  finally show ?thesis .
qed

lemma descent:
  assumes "rep (b_node t) p T" "bal h T" "sorted_wrt (<) (seq T)"
  shows "\<exists>fs i kvs. at_hole T P fs (BLeaf i kvs) \<and> length fs = h \<and>
    (\<forall>sel. selects sel P \<longrightarrow> descend sel t h (idx T) = i)"
  using assms(1-3)
proof (induction h arbitrary: T p)
  case 0
  then obtain i kvs where "T = BLeaf i kvs" by (cases T) auto
  then show ?case by (intro exI [of _ "[]"]) (simp add: at_hole_def before_def after_def)
next
  case (Suc h)
  then obtain i ts ks where T: "T = BNode i ts ks" by (cases T) auto
  define c where "c = first_index (\<lambda>i. P (ks ! i)) (length ks)"
  define f where "f = (i, take c ts, take c ks, drop c ks, drop (Suc c) ts)"
  have len: "length ts = Suc (length ks)" and srt: "sorted_wrt (<) (inter (map seq ts) ks)"
    using Suc.prems by (simp_all add: T)
  have ir: "irep (b_node t) p i (map idx ts) ks" using Suc.prems(1) by (simp add: T)
  have sk: "sorted_wrt (<) ks" by (rule sorted_separators [OF _ srt]) (simp add: len)
  have sel: "sel (b_node t i) = c" if "selects sel P" for sel using selects_irep [OF that ir sk] by (simp add: c_def)
  note hc = hole_at_child [OF len srt c_def f_def]
  have ch: "child (b_node t i) c = idx (ts ! c)" using child_irep [OF ir, of c] hc(1) by simp
  have in_ts: "ts ! c \<in> set ts" using hc(1) by simp
  obtain fs j kvs where IH: "at_hole (ts ! c) P fs (BLeaf j kvs)" "length fs = h"
    "\<And>sel. selects sel P \<Longrightarrow> descend sel t h (idx (ts ! c)) = j"
    using Suc.IH [of i "ts ! c"] Suc.prems in_ts hc(6) by (auto simp: T)
  have "at_hole T P (fs @ [f]) (BLeaf j kvs)"
    using at_hole_snoc [OF IH(1) hc(2-5)] by (simp add: T)
  moreover have "\<forall>sel. selects sel P \<longrightarrow> descend sel t (Suc h) (idx T) = j"
  proof (intro allI impI)
    fix sel :: "('a, 'b) node_block \<Rightarrow> nat"
    assume "selects sel P"
    then show "descend sel t (Suc h) (idx T) = j" using IH(3) [of sel] sel [of sel] ch by (simp add: T)
  qed
  ultimately show ?case using IH(2) by (metis length_append_singleton)
qed

lemma descent_path:
  assumes "rep (b_node t) p T" "bal h T" "sorted_wrt (<) (seq T)" "length path + h \<le> MAX_PATH_HEIGHT"
  shows "\<exists>fs i kvs. at_hole T (\<lambda>k. key < k) fs (BLeaf i kvs) \<and> length fs = h \<and>
    descend_path key t h (idx T) path = Inr (i, path @ rev (map frame_pos fs))"
  using assms
proof (induction h arbitrary: T p path)
  case 0
  then obtain i kvs where "T = BLeaf i kvs" by (cases T) auto
  then show ?case by (intro exI [of _ "[]"]) (simp add: at_hole_def before_def after_def)
next
  case (Suc h)
  let ?P = "\<lambda>k. key < k"
  obtain i ts ks where T: "T = BNode i ts ks" using Suc.prems(2) by (cases T) auto
  define c where "c = first_index (\<lambda>i. ?P (ks ! i)) (length ks)"
  define f where "f = (i, take c ts, take c ks, drop c ks, drop (Suc c) ts)"
  have len: "length ts = Suc (length ks)" and srt: "sorted_wrt (<) (inter (map seq ts) ks)"
    using Suc.prems by (simp_all add: T)
  have ir: "irep (b_node t) p i (map idx ts) ks" using Suc.prems(1) by (simp add: T)
  note hc = hole_at_child [OF len srt c_def f_def]
  have sel: "first_index (\<lambda>j. key < ikey (b_node t i) j) (n_len (b_node t i)) = c"
    unfolding c_def using ir by (auto simp: ikey_irep [OF ir] irep_def intro!: first_index_cong)
  have ch: "child (b_node t i) c = idx (ts ! c)" using child_irep [OF ir, of c] hc(1) by simp
  have in_ts: "ts ! c \<in> set ts" using hc(1) by simp
  obtain fs j kvs where IH: "at_hole (ts ! c) ?P fs (BLeaf j kvs)" "length fs = h"
    "descend_path key t h (idx (ts ! c)) (path @ [(i, c)]) = Inr (j, (path @ [(i, c)]) @ rev (map frame_pos fs))"
    using Suc.IH [of i "ts ! c" "path @ [(i, c)]"] Suc.prems in_ts hc(6) by (auto simp: T)
  have push: "path_push (i, c) path = Inr (path @ [(i, c)])" using Suc.prems(4) by (simp add: path_push_def)
  have "frame_pos f = (i, c)" using hc(1) by (simp add: f_def frame_pos_def)
  then have "descend_path key t (Suc h) (idx T) path = Inr (j, path @ rev (map frame_pos (fs @ [f])))"
    using IH(3) push by (simp add: T sel ch)
  moreover have "at_hole T ?P (fs @ [f]) (BLeaf j kvs)" using at_hole_snoc [OF IH(1) hc(2-5)] by (simp add: T)
  ultimately show ?case using IH(2) by (metis length_append_singleton)
qed

section \<open>The four ways to choose a child\<close>

lemma selects_linear: "selects (child_linear key) (\<lambda>k. key < k)"
  by (auto simp: selects_def child_linear_def cmp_def less_prod_def intro!: first_index_cong)

lemma selects_binary: "selects (child_binary key) (\<lambda>k. key < k)"
proof -
  have "child_binary key n = first_index (\<lambda>i. key < ikey n i) (n_len n)"
    if "\<And>i j. i < j \<Longrightarrow> j < n_len n \<Longrightarrow> ikey n i < ikey n j" for n :: "('a, 'b) node_block"
  proof -
    have "child_binary key n = first_index (\<lambda>i. \<not> cmp (ikey n i) key \<noteq> Greater) (n_len n)"
      unfolding child_binary_def by (rule partition_point_correct) (use that in \<open>force simp: cmp_def split: if_splits\<close>)
    also have "\<dots> = first_index (\<lambda>i. key < ikey n i) (n_len n)"
      by (rule first_index_cong) (auto simp: cmp_def less_prod_def)
    finally show ?thesis .
  qed
  then show ?thesis by (simp add: selects_def)
qed

section \<open>Searching a leaf\<close>

definition leaf_find :: "'k::linorder \<Rightarrow> nat \<Rightarrow> ('k \<times> 'v) list \<Rightarrow> (nat \<times> nat) option" where
  "leaf_find key i kvs =
    (let j = first_index (\<lambda>j. key \<le> fst (kvs ! j)) (length kvs)
     in if j < length kvs \<and> fst (kvs ! j) = key then Some (i, j) else None)"

lemma lkey_lrep: "lrep M p i kvs \<Longrightarrow> j < length kvs \<Longrightarrow> lkey (M i) j = fst (kvs ! j)"
  by (auto simp: lrep_def lkey_def dest: startsD(2) [where i = j])

lemma lval_lrep: "lrep M p i kvs \<Longrightarrow> j < length kvs \<Longrightarrow> lval (M i) j = snd (kvs ! j)"
  by (auto simp: lrep_def lval_def dest: startsD(2) [where i = j])

lemma n_len_lrep: "lrep M p i kvs \<Longrightarrow> n_len (M i) = length kvs"
  by (simp add: lrep_def)

lemma leaf_find_at:
  assumes srt: "sorted_wrt (<) (map fst kvs)" and b: "b < length kvs" "fst (kvs ! b) = key"
  shows "leaf_find key i kvs = Some (i, b)"
proof -
  have "first_index (\<lambda>j. key \<le> fst (kvs ! j)) (length kvs) = b"
    using srt b by (intro first_index_unique) (auto simp: sorted_wrt_iff_nth_less not_le)
  then show ?thesis using b by (simp add: leaf_find_def)
qed

lemma leaf_find_none: "key \<notin> fst ` set kvs \<Longrightarrow> leaf_find key i kvs = None"
  unfolding leaf_find_def Let_def by (metis image_eqI nth_mem)

lemma leaf_find_map_of:
  assumes "sorted_wrt (<) (map fst kvs)"
  shows "(case leaf_find key i kvs of None \<Rightarrow> None | Some (i, j) \<Rightarrow> Some (snd (kvs ! j))) = map_of kvs key"
proof (cases "map_of kvs key")
  case None
  then have "key \<notin> fst ` set kvs" by (simp add: map_of_eq_None_iff)
  then show ?thesis using None by (simp add: leaf_find_none)
next
  case (Some v)
  then obtain b where b: "b < length kvs" "kvs ! b = (key, v)" by (metis in_set_conv_nth map_of_SomeD)
  then show ?thesis using leaf_find_at [OF assms, of b key i] Some by simp
qed

lemma linear_scan_find:
  assumes "lrep M p i kvs"
  shows "(let j = first_index (\<lambda>j. cmp key (lkey (M i) j) \<noteq> Greater) (n_len (M i))
     in if j < n_len (M i) \<and> cmp key (lkey (M i) j) = Equal then Some (i, j) else None) = leaf_find key i kvs"
proof -
  have "first_index (\<lambda>j. cmp key (lkey (M i) j) \<noteq> Greater) (n_len (M i)) =
      first_index (\<lambda>j. key \<le> fst (kvs ! j)) (length kvs)"
    unfolding n_len_lrep [OF assms] by (rule first_index_cong) (auto simp: lkey_lrep [OF assms] cmp_def)
  then show ?thesis by (auto simp: Let_def leaf_find_def n_len_lrep [OF assms] lkey_lrep [OF assms] cmp_def)
qed

lemma binary_find:
  assumes l: "lrep M p i kvs" and srt: "sorted_wrt (<) (map fst kvs)"
  shows "(case binary_search_by (\<lambda>j. cmp (lkey (M i) j) key) (n_len (M i)) of
      Inr j \<Rightarrow> Some (i, j) | Inl _ \<Rightarrow> None) = leaf_find key i kvs"
proof (cases "kvs = []")
  case True
  then show ?thesis using n_len_lrep [OF l] by (simp add: binary_search_by_def leaf_find_none)
next
  case False
  let ?f = "\<lambda>j. cmp (lkey (M i) j) key" and ?n = "length kvs"
  define b where "b = bsearch_base ?f 0 ?n"
  have lt: "fst (kvs ! j) < fst (kvs ! l)" if "j < l" "l < ?n" for j l
    using srt that by (simp add: sorted_wrt_iff_nth_less)
  have f: "?f j = Greater \<longleftrightarrow> key < fst (kvs ! j)" "?f j = Less \<longleftrightarrow> fst (kvs ! j) < key"
    "?f j = Equal \<longleftrightarrow> fst (kvs ! j) = key" if "j < ?n" for j
    using that by (auto simp: lkey_lrep [OF l] cmp_def)
  have *: "b < ?n \<and> (\<forall>j. 0 < j \<and> j \<le> b \<longrightarrow> ?f j \<noteq> Greater) \<and> (\<forall>j. b < j \<and> j < ?n \<longrightarrow> ?f j = Greater)"
  proof -
    have m: "?f l = Greater" if "j < l" "l < 0 + ?n" "?f j = Greater" for j l
    proof -
      have "key < fst (kvs ! j)" using that f(1) [of j] by simp
      also have "\<dots> < fst (kvs ! l)" using that lt [of j l] by simp
      finally show ?thesis using that f(1) [of l] by simp
    qed
    have "1 \<le> ?n" using False by (simp add: Suc_le_eq)
    from bsearch_base_correct [of ?n 0 ?f, OF this m] show ?thesis by (simp add: b_def)
  qed
  have b: "b < ?n" "\<And>j. b < j \<Longrightarrow> j < ?n \<Longrightarrow> key < fst (kvs ! j)" "0 < b \<Longrightarrow> fst (kvs ! b) \<le> key"
  proof -
    show "b < ?n" using * by simp
    show "key < fst (kvs ! j)" if "b < j" "j < ?n" for j using * that f(1) [of j] by simp
    show "fst (kvs ! b) \<le> key" if "0 < b" using * that f(1) [of b] by (meson leI order_refl)
  qed
  show ?thesis
  proof (cases "fst (kvs ! b) = key")
    case True
    then show ?thesis using leaf_find_at [OF srt b(1) True] f(3) [OF b(1)] False
      by (simp add: binary_search_by_def n_len_lrep [OF l] b_def Let_def)
  next
    case ne: False
    have "fst (kvs ! j) \<noteq> key" if "j < ?n" for j
      using that b(2) [of j] b(3) ne lt [of j b] b(1) by (cases "j = b"; cases "j < b") force+
    then have "key \<notin> fst ` set kvs" by (metis imageE in_set_conv_nth)
    moreover have "?f b \<noteq> Equal" using ne f(3) [OF b(1)] by simp
    ultimately show ?thesis using False
      by (cases "?f b") (simp_all add: binary_search_by_def n_len_lrep [OF l] b_def Let_def leaf_find_none)
  qed
qed

section \<open>The map of a tree\<close>

lemma filter_ipre: "length ss = length ks \<Longrightarrow> filter snd (ipre ss ks) = concat (map (filter snd) ss)"
  by (induction ss ks rule: list_induct2) simp_all

lemma filter_ipost: "length ks = length ss \<Longrightarrow> filter snd (ipost ks ss) = concat (map (filter snd) ss)"
  by (induction ks ss rule: list_induct2) simp_all

lemma concat_keys_of_seq:
  assumes "\<forall>t\<in>set ts. bal h t"
  shows "map fst (concat (map (filter snd) (map seq ts))) = map fst (concat (map ents ts))"
  using assms by (induction ts) (auto simp: keys_of_seq [of h])

lemma keys_of_context:
  "bal h (fill fs t) \<Longrightarrow> list_all frame_ok fs \<Longrightarrow>
   map fst (filter snd (spre fs)) = map fst (epre fs) \<and> map fst (filter snd (spost fs)) = map fst (epost fs)"
proof (induction fs arbitrary: t)
  case (Cons f fs)
  obtain i ts1 ks1 ks2 ts2 where f: "f = (i, ts1, ks1, ks2, ts2)" by (cases f)
  have "bal (h - length fs) (BNode i (ts1 @ t # ts2) (ks1 @ ks2))"
    using bal_fill [of h fs "fill1 f t"] Cons.prems(1) by (simp add: f)
  then obtain h' where h': "\<forall>t\<in>set ts1. bal h' t" "\<forall>t\<in>set ts2. bal h' t"
    by (cases "h - length fs") auto
  have ok: "length ts1 = length ks1" "length ks2 = length ts2" using Cons.prems(2) by (simp_all add: f frame_ok_def)
  then show ?case
    using Cons.IH [of "fill1 f t"] Cons.prems concat_keys_of_seq [OF h'(1)] concat_keys_of_seq [OF h'(2)]
    by (simp add: f filter_ipre filter_ipost del: map_map)
qed simp

lemma leaf_sorted:
  assumes "at_hole T P fs (BLeaf i kvs)" "sorted_wrt (<) (seq T)"
  shows "sorted_wrt (<) (map fst kvs)"
  using assms by (simp add: at_hole_def seq_fill sorted_wrt_append sorted_wrt_map less_prod_def)

lemma at_hole_keys:
  assumes "at_hole T P fs S" "bal h T"
  shows "\<And>k. k \<in> fst ` set (epre fs) \<Longrightarrow> \<exists>k'. \<not> P k' \<and> k < k'" "\<And>k. k \<in> fst ` set (epost fs) \<Longrightarrow> \<exists>k'. P k' \<and> k' \<le> k"
proof -
  have c: "map fst (filter snd (spre fs)) = map fst (epre fs) \<and> map fst (filter snd (spost fs)) = map fst (epost fs)"
    by (rule keys_of_context [of h fs S]) (use assms in \<open>auto simp: at_hole_def\<close>)
  have m: "(k, True) \<in> set xs" if "k \<in> set (map fst (filter snd xs))" for k :: 'a and xs :: "('a \<times> bool) list"
    using that by force
  show "\<exists>k'. \<not> P k' \<and> k < k'" if "k \<in> fst ` set (epre fs)" for k
  proof -
    have "(k, True) \<in> set (spre fs)" by (rule m) (use that c in simp)
    then show ?thesis using assms(1) by (fastforce simp: at_hole_def before_def)
  qed
  show "\<exists>k'. P k' \<and> k' \<le> k" if "k \<in> fst ` set (epost fs)" for k
  proof -
    have "(k, True) \<in> set (spost fs)" by (rule m) (use that c in simp)
    then obtain k' where "P k'" "(k', False) \<le> (k, True)" using assms(1) by (auto simp: at_hole_def after_def)
    then show ?thesis by (auto simp: less_eq_prod_def)
  qed
qed

lemma key_not_around_hole:
  assumes "at_hole T (\<lambda>k. key < k) fs S" "bal h T"
  shows "key \<notin> fst ` set (epre fs)" "key \<notin> fst ` set (epost fs)"
  using at_hole_keys [OF assms, of key] by force+

lemma map_of_at_hole:
  assumes "at_hole T (\<lambda>k. key < k) fs S" "bal h T"
  shows "map_of (ents T) key = map_of (ents S) key"
proof -
  have "ents T = epre fs @ ents S @ epost fs" using assms(1) by (simp add: at_hole_def ents_fill)
  moreover have "map_of (epre fs) key = None" "map_of (epost fs) key = None"
    using key_not_around_hole [OF assms] by (simp_all add: map_of_eq_None_iff)
  ultimately show ?thesis by (simp add: map_add_def split: option.split)
qed

section \<open>Search\<close>

lemma brepD:
  assumes "brep L t T fl"
  shows "barena_ok L t (set (nodes T)) fl" "b_root t = idx T" "rep (b_node t) NO_NODE T" "bal (b_height t) T"
    "sorted_wrt (<) (seq T)" "distinct (nodes T)" "dseg (b_node t) NO_NODE (lvs T) NO_NODE"
    "b_first_leaf t = hd (lvs T)" "b_last_leaf t = last (lvs T)" "b_len t = length (ents T)" "b_root t \<noteq> NO_NODE"
  using assms barena_okD(2) [of L t "set (nodes T)" fl "idx T"] by (auto simp: brep_def)

lemma search_both:
  assumes "brep L t T fl"
  shows "\<exists>fs i kvs. at_hole T (\<lambda>k. key < k) fs (BLeaf i kvs) \<and> length fs = b_height t \<and>
    search_linear t key = leaf_find key i kvs \<and> search_binary t key = leaf_find key i kvs"
proof -
  note b = brepD [OF assms]
  obtain fs i kvs where h: "at_hole T (\<lambda>k. key < k) fs (BLeaf i kvs)" "length fs = b_height t"
    "\<And>sel. selects sel (\<lambda>k. key < k) \<Longrightarrow> descend sel t (b_height t) (idx T) = i"
    using descent [OF b(3,4,5), of "\<lambda>k. key < k"] by blast
  have l: "lrep (b_node t) (hole_parent NO_NODE fs) i kvs"
    using b(3) h(1) by (auto simp: at_hole_def rep_fill)
  have s: "sorted_wrt (<) (map fst kvs)" by (rule leaf_sorted [OF h(1) b(5)])
  have "search_linear t key = leaf_find key i kvs"
    using linear_scan_find [OF l, of key] h(3) [OF selects_linear] by (simp add: search_linear_def Let_def b(2))
  moreover have "search_binary t key = leaf_find key i kvs"
    using binary_find [OF l s, of key] h(3) [OF selects_binary] by (simp add: search_binary_def Let_def b(2))
  ultimately show ?thesis using h(1,2) by blast
qed

lemma search_leaf:
  assumes "brep L t T fl"
  shows "\<exists>fs i kvs. at_hole T (\<lambda>k. key < k) fs (BLeaf i kvs) \<and> length fs = b_height t \<and> search t key = leaf_find key i kvs"
  using search_both [OF assms, of key] brepD(11) [OF assms] by (auto simp: search_def)

lemma get_brep:
  assumes "brep L t T fl"
  shows "btree_get t key = map_of (ents T) key"
proof -
  note b = brepD [OF assms]
  obtain fs i kvs where h: "at_hole T (\<lambda>k. key < k) fs (BLeaf i kvs)" "search t key = leaf_find key i kvs"
    using search_leaf [OF assms] by blast
  have l: "lrep (b_node t) (hole_parent NO_NODE fs) i kvs"
    using b(3) h(1) by (auto simp: at_hole_def rep_fill)
  have "btree_get t key = (case leaf_find key i kvs of None \<Rightarrow> None | Some (i, j) \<Rightarrow> Some (snd (kvs ! j)))"
    using lval_lrep [OF l] by (auto simp: btree_get_def h(2) leaf_find_def Let_def)
  also have "\<dots> = map_of kvs key" by (rule leaf_find_map_of [OF leaf_sorted [OF h(1) b(5)]])
  also have "\<dots> = map_of (ents T) key" using map_of_at_hole [OF h(1) b(4)] by simp
  finally show ?thesis .
qed

end
