(* ===== verification/Btree_Insert.thy ===== *)
theory Btree_Insert
  imports Btree_Search
begin

text \<open>
  Insertion: what the element moves, the splits and their propagation do to the abstract tree.
\<close>

section \<open>Writes to some nodes\<close>

text \<open>Only the nodes in \<open>S\<close> changed, the leaf links of no node did, and the other fields are the same.\<close>

definition keeps :: "nat set \<Rightarrow> ('k, 'v) btree \<Rightarrow> ('k, 'v) btree \<Rightarrow> bool" where
  "keeps S t t' \<longleftrightarrow> (\<forall>j. j \<notin> S \<longrightarrow> b_node t' j = b_node t j) \<and>
     (\<forall>j. n_prev (b_node t' j) = n_prev (b_node t j) \<and> n_next (b_node t' j) = n_next (b_node t j)) \<and>
     b_root t' = b_root t \<and> b_first_leaf t' = b_first_leaf t \<and> b_last_leaf t' = b_last_leaf t \<and> b_len t' = b_len t \<and>
     b_height t' = b_height t \<and> n_blocks t' = n_blocks t \<and> a_len (b_arena t') = a_len (b_arena t)"

lemma keepsD:
  assumes "keeps S t t'"
  shows "\<And>j. j \<notin> S \<Longrightarrow> b_node t' j = b_node t j" "\<And>j. n_prev (b_node t' j) = n_prev (b_node t j)"
    "\<And>j. n_next (b_node t' j) = n_next (b_node t j)" "b_root t' = b_root t" "b_first_leaf t' = b_first_leaf t"
    "b_last_leaf t' = b_last_leaf t" "b_len t' = b_len t" "b_height t' = b_height t" "n_blocks t' = n_blocks t"
    "a_len (b_arena t') = a_len (b_arena t)"
  using assms by (simp_all add: keeps_def)

lemma keeps_refl: "keeps S t t"
  by (simp add: keeps_def)

lemma keeps_upd:
  "keeps S t u \<Longrightarrow> i \<in> S \<Longrightarrow> i < n_blocks u \<Longrightarrow> (\<And>n. n_prev (f n) = n_prev n) \<Longrightarrow> (\<And>n. n_next (f n) = n_next n) \<Longrightarrow>
   keeps S t (b_upd i f u)"
  by (auto simp: keeps_def b_node_upd)

lemma keeps_trans: "keeps S t u \<Longrightarrow> keeps S' u v \<Longrightarrow> S \<subseteq> S'' \<Longrightarrow> S' \<subseteq> S'' \<Longrightarrow> keeps S'' t v"
  by (auto simp: keeps_def subset_iff) metis

lemma barena_ok_updI:
  "barena_ok L t U fl \<Longrightarrow> i \<in> U \<Longrightarrow> (\<And>n. shaped L n \<Longrightarrow> shaped L (f n)) \<Longrightarrow> barena_ok L (b_upd i f t) U fl"
  by (blast intro: barena_ok_upd dest: barena_okD(3))

section \<open>Leaves\<close>

definition ins_at :: "nat \<Rightarrow> 'a \<Rightarrow> 'a list \<Rightarrow> 'a list" where
  "ins_at pos x xs = take pos xs @ x # drop pos xs"

lemma length_ins_at [simp]: "pos \<le> length xs \<Longrightarrow> length (ins_at pos x xs) = Suc (length xs)"
  by (simp add: ins_at_def)

lemma map_ins_at: "map f (ins_at pos x xs) = ins_at pos (f x) (map f xs)"
  by (simp add: ins_at_def take_map drop_map)

lemma shapedD:
  assumes "shaped L n"
  shows "length (n_lkeys n) = LEAF_CAP L" "length (n_vals n) = LEAF_CAP L"
    "length (n_ikeys n) = INTERNAL_CAP L" "length (n_children n) = Suc (INTERNAL_CAP L)"
  using assms by (simp_all add: shaped_def)

lemma lrep_cap: "lrep M p i kvs \<Longrightarrow> shaped L (M i) \<Longrightarrow> length kvs \<le> LEAF_CAP L"
  by (auto simp: lrep_def shaped_def dest: startsD(1))

lemma irep_cap: "irep M p i cs ks \<Longrightarrow> shaped L (M i) \<Longrightarrow> length ks \<le> INTERNAL_CAP L"
  by (auto simp: irep_def shaped_def dest: startsD(1))

lemma leaf_insert_at_lrep:
  assumes "i < n_blocks t" "shaped L (b_node t i)" "lrep (b_node t) p i kvs" "length kvs < LEAF_CAP L" "pos \<le> length kvs"
  shows "lrep (b_node (leaf_insert_at i pos key v t)) p i (ins_at pos (key, v) kvs)"
proof -
  note s = shapedD [OF assms(2)]
  have k: "starts ((shift_right pos (length kvs) (n_lkeys (b_node t i)))[pos := Some key])
      (ins_at pos (Some key) (map (Some \<circ> fst) kvs))"
    using starts_insert [of "n_lkeys (b_node t i)" "map (Some \<circ> fst) kvs" pos "Some key"] assms s
    by (simp add: lrep_def ins_at_def)
  have v: "starts ((shift_right pos (length kvs) (n_vals (b_node t i)))[pos := Some v])
      (ins_at pos (Some v) (map (Some \<circ> snd) kvs))"
    using starts_insert [of "n_vals (b_node t i)" "map (Some \<circ> snd) kvs" pos "Some v"] assms s
    by (simp add: lrep_def ins_at_def)
  show ?thesis using assms k v by (simp add: leaf_insert_at_def b_node_upd lrep_def map_ins_at)
qed

lemma leaf_insert_at_frame:
  assumes "i < n_blocks t"
  shows "j \<noteq> i \<Longrightarrow> b_node (leaf_insert_at i pos key v t) j = b_node t j"
    "n_prev (b_node (leaf_insert_at i pos key v t) j) = n_prev (b_node t j)"
    "n_next (b_node (leaf_insert_at i pos key v t) j) = n_next (b_node t j)"
  using assms by (simp_all add: leaf_insert_at_def b_node_upd)

lemma leaf_insert_at_fields [simp]:
  "b_root (leaf_insert_at i pos key v t) = b_root t" "b_first_leaf (leaf_insert_at i pos key v t) = b_first_leaf t"
  "b_last_leaf (leaf_insert_at i pos key v t) = b_last_leaf t" "b_len (leaf_insert_at i pos key v t) = b_len t"
  "b_height (leaf_insert_at i pos key v t) = b_height t" "n_blocks (leaf_insert_at i pos key v t) = n_blocks t"
  "a_len (b_arena (leaf_insert_at i pos key v t)) = a_len (b_arena t)"
  by (simp_all add: leaf_insert_at_def)

lemma leaf_insert_at_ok:
  "barena_ok L t U fl \<Longrightarrow> i \<in> U \<Longrightarrow> barena_ok L (leaf_insert_at i pos key v t) U fl"
  unfolding leaf_insert_at_def by (rule barena_ok_upd) (auto simp: shaped_def dest: barena_okD(3))

text \<open>Replacing the content of one leaf.\<close>

lemma brep_leaf_update:
  assumes b: "brep L t (fill fs (BLeaf i kvs)) fl" and fs: "list_all frame_ok fs"
    and ok: "barena_ok L t' (set (nodes (fill fs (BLeaf i kvs)))) fl"
    and eq: "\<And>j. j \<noteq> i \<Longrightarrow> b_node t' j = b_node t j"
    and links: "\<And>j. n_prev (b_node t' j) = n_prev (b_node t j) \<and> n_next (b_node t' j) = n_next (b_node t j)"
    and l: "lrep (b_node t') (hole_parent NO_NODE fs) i kvs'"
    and flds: "b_root t' = b_root t" "b_first_leaf t' = b_first_leaf t" "b_last_leaf t' = b_last_leaf t"
      "b_height t' = b_height t" "b_len t' + length kvs = b_len t + length kvs'"
    and srt: "sorted_wrt (<) (spre fs @ map (\<lambda>kv. (fst kv, True)) kvs' @ spost fs)"
  shows "brep L t' (fill fs (BLeaf i kvs')) fl"
proof -
  note d = brepD [OF b]
  have "i \<notin> set (cnodes fs)" using d(6) by (simp add: distinct_nodes_fill)
  then have "ctx (b_node t') NO_NODE fs i = ctx (b_node t) NO_NODE fs i" by (intro ctx_cong) (metis eq)
  then have "rep (b_node t') NO_NODE (fill fs (BLeaf i kvs'))" using d(3) l by (simp add: rep_fill)
  moreover have "bal (b_height t) (fill fs (BLeaf i kvs'))"
    using d(4) by (rule bal_fill_replace) simp
  moreover have "dseg (b_node t') NO_NODE (lpre fs @ i # lpost fs) NO_NODE"
    using d(7) dseg_cong [OF links] by (simp add: lvs_fill)
  moreover have "idx (fill fs (BLeaf i kvs')) = idx (fill fs (BLeaf i kvs))" by (cases fs rule: rev_cases) auto
  ultimately show ?thesis
    using d flds srt ok fs
    by (simp add: brep_def seq_fill ents_fill set_nodes_fill distinct_nodes_fill lvs_fill)
qed

section \<open>Splitting a leaf\<close>

lemma take_ins_at: "pos < m \<Longrightarrow> m \<le> length xs \<Longrightarrow> take m (ins_at pos x xs) = ins_at pos x (take (m - 1) xs)"
  by (cases m) (auto simp: ins_at_def take_Cons' min_def drop_take)

lemma drop_ins_at: "pos < m \<Longrightarrow> m \<le> length xs \<Longrightarrow> drop m (ins_at pos x xs) = drop (m - 1) xs"
  by (cases m) (auto simp: ins_at_def drop_Cons' min_def)

lemma take_ins_at_ge: "m \<le> pos \<Longrightarrow> pos \<le> length xs \<Longrightarrow> take m (ins_at pos x xs) = take m xs"
  by (simp add: ins_at_def min_def)

lemma drop_ins_at_ge:
  "m \<le> pos \<Longrightarrow> pos \<le> length xs \<Longrightarrow> drop m (ins_at pos x xs) = take (pos - m) (drop m xs) @ x # drop pos xs"
  by (simp add: ins_at_def min_def drop_take)

lemma starts_split_right:
  assumes "starts src ys" "m \<le> pos" "pos \<le> length ys" "length ys - m < length dst"
  shows "starts (copy_slots src (m + (pos - m)) (pos - m + 1) (length ys - m - (pos - m))
     ((copy_slots src m 0 (pos - m) dst)[pos - m := x])) (take (pos - m) (drop m ys) @ x # drop pos ys)"
proof -
  let ?d = "copy_slots src m 0 (pos - m) dst" and ?zs = "take (pos - m) (drop m ys)"
  have zs: "length ?zs = pos - m" using assms by simp
  have "starts ?d ?zs" by (rule starts_copy) (use assms in auto)
  then have s: "starts (?d[pos - m := x]) (?zs @ [x])"
    using starts_snoc [of ?d ?zs x] assms unfolding zs by simp
  have l: "length (?zs @ [x]) = pos - m + 1" using zs by simp
  have "starts (copy_slots src pos (length (?zs @ [x])) (length ys - pos) (?d[pos - m := x]))
      ((?zs @ [x]) @ take (length ys - pos) (drop pos ys))"
    by (rule starts_copy_append [OF assms(1) _ s]) (use assms l in auto)
  then show ?thesis using assms l by (simp add: min_def)
qed

lemma leaf_split_move_correct:
  assumes n: "i < n_blocks t" "r < n_blocks t" "i \<noteq> r" "shaped L (b_node t i)" "shaped L (b_node t r)"
    and l: "lrep (b_node t) p i kvs" and full: "length kvs = LEAF_CAP L" "1 \<le> LEAF_CAP L" and pos: "pos \<le> length kvs"
    and r: "n_flags (b_node t r) = IS_LEAF" "n_parent (b_node t r) = p"
    and t': "t' = leaf_split_move L i r pos key v t"
  defines "mid \<equiv> (LEAF_CAP L + 1) div 2"
  shows "lrep (b_node t') p i (take mid (ins_at pos (key, v) kvs))" "lrep (b_node t') p r (drop mid (ins_at pos (key, v) kvs))"
proof -
  note si = shapedD [OF n(4)] and sr = shapedD [OF n(5)]
  have mid: "1 \<le> mid" "mid \<le> LEAF_CAP L" using full(2) by (auto simp: mid_def)
  have st: "starts (n_lkeys (b_node t i)) (map (Some \<circ> fst) kvs)" "starts (n_vals (b_node t i)) (map (Some \<circ> snd) kvs)"
    using l by (simp_all add: lrep_def)
  have "lrep (b_node t') p i (take mid (ins_at pos (key, v) kvs)) \<and> lrep (b_node t') p r (drop mid (ins_at pos (key, v) kvs))"
  proof (cases "pos < mid")
    case True
    define c where "c = LEAF_CAP L - (mid - 1)"
    define u where "u = b_upd r (\<lambda>n. n\<lparr>n_len := c\<rparr>) (b_upd i (\<lambda>n. n\<lparr>n_len := mid - 1\<rparr>) (b_upd r (\<lambda>n. n\<lparr>
        n_lkeys := copy_slots (n_lkeys (b_node t i)) (mid - 1) 0 c (n_lkeys n),
        n_vals := copy_slots (n_vals (b_node t i)) (mid - 1) 0 c (n_vals n)\<rparr>) t))"
    have t'u: "t' = leaf_insert_at i pos key v u"
      using True by (simp add: t' leaf_split_move_def u_def c_def Let_def mid_def)
    have nu: "i < n_blocks u" "shaped L (b_node u i)" using n by (simp_all add: u_def b_node_upd shaped_def)
    have "lrep (b_node u) p i (take (mid - 1) kvs)"
      using l n mid full by (auto simp: u_def b_node_upd lrep_def take_map [symmetric])
    then have a: "lrep (b_node t') p i (ins_at pos (key, v) (take (mid - 1) kvs))"
      unfolding t'u by (intro leaf_insert_at_lrep [OF nu]) (use mid full True in auto)
    have "starts (copy_slots (n_lkeys (b_node t i)) (mid - 1) 0 c (n_lkeys (b_node t r))) (map (Some \<circ> fst) (drop (mid - 1) kvs))"
      using starts_copy [OF st(1), of "mid - 1" c "n_lkeys (b_node t r)"] mid full sr by (simp add: c_def drop_map)
    moreover have "starts (copy_slots (n_vals (b_node t i)) (mid - 1) 0 c (n_vals (b_node t r))) (map (Some \<circ> snd) (drop (mid - 1) kvs))"
      using starts_copy [OF st(2), of "mid - 1" c "n_vals (b_node t r)"] mid full sr by (simp add: c_def drop_map)
    ultimately have "lrep (b_node u) p r (drop (mid - 1) kvs)"
      using n r full by (simp add: u_def b_node_upd lrep_def c_def)
    then have "lrep (b_node t') p r (drop (mid - 1) kvs)"
      using leaf_insert_at_frame(1) [OF nu(1), of r] n(3) by (simp add: t'u lrep_def)
    moreover have "mid \<le> length kvs" using mid full by simp
    ultimately show ?thesis using a by (simp add: take_ins_at [OF True] drop_ins_at [OF True])
  next
    case False
    define q where "q = pos - mid"
    let ?ks = "n_lkeys (b_node t i)" and ?vs = "n_vals (b_node t i)"
    have "t' = b_upd r (\<lambda>n. n\<lparr>n_len := LEAF_CAP L + 1 - mid\<rparr>) (b_upd i (\<lambda>n. n\<lparr>n_len := mid\<rparr>)
       (b_upd r (\<lambda>n. n\<lparr>n_lkeys := copy_slots ?ks (mid + q) (q + 1) (LEAF_CAP L - mid - q) (n_lkeys n),
                        n_vals := copy_slots ?vs (mid + q) (q + 1) (LEAF_CAP L - mid - q) (n_vals n)\<rparr>)
       (b_upd r (\<lambda>n. n\<lparr>n_lkeys := (n_lkeys n)[q := Some key], n_vals := (n_vals n)[q := Some v]\<rparr>)
       (b_upd r (\<lambda>n. n\<lparr>n_lkeys := copy_slots ?ks mid 0 q (n_lkeys n), n_vals := copy_slots ?vs mid 0 q (n_vals n)\<rparr>) t))))"
      using False by (simp only: t' leaf_split_move_def Let_def mid_def [symmetric] q_def if_False)
    then have M: "b_node t' = (b_node t)(i := (b_node t i)\<lparr>n_len := mid\<rparr>, r := (b_node t r)\<lparr>n_len := LEAF_CAP L + 1 - mid,
        n_lkeys := copy_slots ?ks (mid + q) (q + 1) (LEAF_CAP L - mid - q) ((copy_slots ?ks mid 0 q (n_lkeys (b_node t r)))[q := Some key]),
        n_vals := copy_slots ?vs (mid + q) (q + 1) (LEAF_CAP L - mid - q) ((copy_slots ?vs mid 0 q (n_vals (b_node t r)))[q := Some v])\<rparr>)"
      using n(1-3) by (auto simp: b_node_upd)
    have "lrep (b_node t') p i (take mid kvs)"
      using l n(3) mid full unfolding M by (auto simp: lrep_def take_map [symmetric])
    moreover have "lrep (b_node t') p r (take q (drop mid kvs) @ (key, v) # drop pos kvs)"
    proof -
      have "LEAF_CAP L - mid < LEAF_CAP L" using mid by simp
      then show ?thesis
        using starts_split_right [OF st(1), of mid pos "n_lkeys (b_node t r)" "Some key"]
          starts_split_right [OF st(2), of mid pos "n_vals (b_node t r)" "Some v"] r full pos False sr n(3)
        unfolding M lrep_def q_def by (simp add: take_map drop_map)
    qed
    ultimately show ?thesis using take_ins_at_ge [of mid pos kvs] drop_ins_at_ge [of mid pos kvs] False pos
      by (simp add: q_def)
  qed
  then show "lrep (b_node t') p i (take mid (ins_at pos (key, v) kvs))" "lrep (b_node t') p r (drop mid (ins_at pos (key, v) kvs))"
    by simp_all
qed

lemma leaf_split_move_keeps:
  assumes "i < n_blocks t" "r < n_blocks t" "i \<in> S" "r \<in> S"
  shows "keeps S t (leaf_split_move L i r pos key v t)"
proof (cases "pos < (LEAF_CAP L + 1) div 2")
  case True
  then show ?thesis unfolding leaf_split_move_def leaf_insert_at_def Let_def if_P [OF True]
    by (intro keeps_upd keeps_refl assms; simp add: assms)
next
  case False
  then show ?thesis unfolding leaf_split_move_def Let_def if_not_P [OF False]
    by (intro keeps_upd keeps_refl assms; simp add: assms)
qed

lemma leaf_split_move_ok:
  assumes "barena_ok L t U fl" "i \<in> U" "r \<in> U"
  shows "barena_ok L (leaf_split_move L i r pos key v t) U fl"
proof (cases "pos < (LEAF_CAP L + 1) div 2")
  case True
  then show ?thesis unfolding leaf_split_move_def leaf_insert_at_def Let_def if_P [OF True]
    by (intro barena_ok_updI assms; simp add: shaped_def)
next
  case False
  then show ?thesis unfolding leaf_split_move_def Let_def if_not_P [OF False]
    by (intro barena_ok_updI assms; simp add: shaped_def)
qed

lemma dseg_insert:
  assumes "dseg M p (ls1 @ i # ls2) q"
    and "\<And>j. j \<in> set ls1 \<union> set ls2 \<Longrightarrow> n_next (M' j) = n_next (M j)"
    and "\<And>j. j \<in> set ls1 \<union> set (tl ls2) \<union> {i} \<Longrightarrow> n_prev (M' j) = n_prev (M j)"
    and "n_next (M' i) = r" "n_prev (M' r) = i" "n_next (M' r) = (case ls2 of [] \<Rightarrow> q | y # _ \<Rightarrow> y)"
    and "\<And>y ys. ls2 = y # ys \<Longrightarrow> n_prev (M' y) = r"
  shows "dseg M' p (ls1 @ i # r # ls2) q"
proof -
  have "dseg M' p ls1 i" using assms(1-3) dseg_cong [of ls1 M' M p i] by (auto simp: dseg_append)
  moreover have "dseg M' r ls2 q"
  proof (cases ls2)
    case (Cons y ys)
    then have "dseg M y ys q" "n_next (M y) = (case ys of [] \<Rightarrow> q | y # _ \<Rightarrow> y)"
      using assms(1) by (auto simp: dseg_append split: list.splits)
    then show ?thesis using Cons assms(2,3,7) dseg_cong [of ys M' M y q] by auto
  qed simp
  moreover have "n_prev (M i) = (if ls1 = [] then p else last ls1)" using assms(1) by (simp add: dseg_append)
  ultimately show ?thesis using assms(3-6) by (auto simp: dseg_append)
qed

lemma leaf_split_correct:
  assumes ok: "barena_ok L t U fl" "a_len (b_arena t) < 2 ^ 31" "i \<in> U"
    and l: "lrep (b_node t) p i kvs" "length kvs = LEAF_CAP L" "1 \<le> LEAF_CAP L" "pos \<le> length kvs"
    and ch: "dseg (b_node t) NO_NODE (ls1 @ i # ls2) NO_NODE" "distinct (ls1 @ i # ls2)" "set (ls1 @ i # ls2) \<subseteq> U"
      "b_last_leaf t = last (ls1 @ i # ls2)"
  defines "mid \<equiv> (LEAF_CAP L + 1) div 2"
  obtains r t' fl' where
    "leaf_split_and_insert L i pos key v t = ((fst (ins_at pos (key, v) kvs ! mid), r), t')"
    "barena_ok L t' (insert r U) fl'" "r \<notin> U"
    "lrep (b_node t') p i (take mid (ins_at pos (key, v) kvs))" "lrep (b_node t') p r (drop mid (ins_at pos (key, v) kvs))"
    "\<And>j. j \<in> U \<Longrightarrow> j \<noteq> i \<Longrightarrow> body (b_node t' j) = body (b_node t j)"
    "dseg (b_node t') NO_NODE (ls1 @ i # r # ls2) NO_NODE" "b_last_leaf t' = last (ls1 @ i # r # ls2)"
    "b_root t' = b_root t" "b_first_leaf t' = b_first_leaf t" "b_len t' = b_len t" "b_height t' = b_height t"
    "a_len (b_arena t') \<le> a_len (b_arena t) + 1"
proof -
  obtain r t1 where al: "b_alloc L t = (r, t1)" by (cases "b_alloc L t")
  obtain fl' where a: "barena_ok L t1 (insert r U) fl'" "r \<notin> U" "\<And>j. j \<in> U \<Longrightarrow> b_node t1 j = b_node t j"
    "a_len (b_arena t1) \<le> a_len (b_arena t) + 1" "b_root t1 = b_root t" "b_first_leaf t1 = b_first_leaf t"
    "b_last_leaf t1 = b_last_leaf t" "b_len t1 = b_len t" "b_height t1 = b_height t"
    by (rule b_alloc_ok [OF ok(1,2) al]) blast
  let ?U = "insert r U"
  have ir: "i \<noteq> r" using ok(3) a(2) by auto
  define t2 where "t2 = b_upd r (\<lambda>n. n\<lparr>n_flags := IS_LEAF, n_parent := p\<rparr>) t1"
  have ok2: "barena_ok L t2 ?U fl'" unfolding t2_def by (rule barena_ok_updI [OF a(1)]) (simp_all add: shaped_def)
  have M2: "b_node t2 = (b_node t1)(r := (b_node t1 r)\<lparr>n_flags := IS_LEAF, n_parent := p\<rparr>)"
    using barena_okD(1) [OF a(1), of r] by (simp add: t2_def b_node_upd)
  have l2: "lrep (b_node t2) p i kvs" using l(1) a(3) [OF ok(3)] ir by (simp add: M2 lrep_def)
  define t3 where "t3 = leaf_split_move L i r pos key v t2"
  have n2: "i < n_blocks t2" "r < n_blocks t2" "shaped L (b_node t2 i)" "shaped L (b_node t2 r)"
    using barena_okD [OF ok2] ok(3) by auto
  have l3: "lrep (b_node t3) p i (take mid (ins_at pos (key, v) kvs))" "lrep (b_node t3) p r (drop mid (ins_at pos (key, v) kvs))"
    using leaf_split_move_correct [OF n2(1,2) ir n2(3,4) l2 l(2-4) _ _ t3_def] by (simp_all add: M2 mid_def)
  have k3: "keeps {i, r} t2 t3" unfolding t3_def by (rule leaf_split_move_keeps) (use n2 in auto)
  have ok3: "barena_ok L t3 ?U fl'" unfolding t3_def by (rule leaf_split_move_ok [OF ok2]) (use ok(3) in auto)
  define nx where "nx = (case ls2 of [] \<Rightarrow> NO_NODE | y # _ \<Rightarrow> y)"
  have nx: "n_next (b_node t1 i) = nx" using ch(1) a(3) [OF ok(3)] by (simp add: dseg_append nx_def)
  have nxU: "nx \<noteq> NO_NODE \<Longrightarrow> nx \<in> U \<and> nx \<noteq> i \<and> nx \<in> set ls2" "nx \<noteq> r"
    using ch(2,3) a(2) barena_okD(2) [OF a(1), of r] by (auto simp: nx_def split: list.splits)
  define t5 where "t5 = b_upd r (\<lambda>n. n\<lparr>n_prev := i, n_next := nx\<rparr>) (b_upd i (\<lambda>n. n\<lparr>n_next := r\<rparr>) t3)"
  define t6 where "t6 = (if nx \<noteq> NO_NODE then b_upd nx (\<lambda>n. n\<lparr>n_prev := r\<rparr>) t5 else t5\<lparr>b_last_leaf := r\<rparr>)"
  have pr: "n_parent (b_node t1 i) = p" using l(1) a(3) [OF ok(3)] by (simp add: lrep_def)
  have def: "leaf_split_and_insert L i pos key v t = ((lkey (b_node t6 r) 0, r), t6)"
    by (simp only: leaf_split_and_insert_def al Let_def prod.case t2_def t3_def t5_def t6_def pr nx)
  have ok5: "barena_ok L t5 ?U fl'" unfolding t5_def
    by (intro barena_ok_updI ok3) (use ok(3) in \<open>simp_all add: shaped_def\<close>)
  have ok6: "barena_ok L t6 ?U fl'"
    using ok5 nxU(1) by (auto simp: t6_def shaped_def intro!: barena_ok_updI)
  have n3: "i < n_blocks t3" "r < n_blocks t3" using barena_okD(1) [OF ok3] ok(3) by auto
  have M5: "b_node t5 = (b_node t3)(i := (b_node t3 i)\<lparr>n_next := r\<rparr>, r := (b_node t3 r)\<lparr>n_prev := i, n_next := nx\<rparr>)"
    using n3 ir by (auto simp: t5_def b_node_upd)
  have M6: "b_node t6 = (if nx \<noteq> NO_NODE then (b_node t5)(nx := (b_node t5 nx)\<lparr>n_prev := r\<rparr>) else b_node t5)"
    using nxU(1) barena_okD(1) [OF ok5, of nx] by (simp add: t6_def b_node_upd)
  have b6: "body (b_node t6 j) = body (b_node t3 j)" for j
    by (auto simp: M6 M5)
  have l6: "lrep (b_node t6) p i (take mid (ins_at pos (key, v) kvs))" "lrep (b_node t6) p r (drop mid (ins_at pos (key, v) kvs))"
    using l3 lrep_cong [of "b_node t6" i "b_node t3", OF b6] lrep_cong [of "b_node t6" r "b_node t3", OF b6] by simp_all
  have "LEAF_CAP L + 1 - mid > 0" "mid < length (ins_at pos (key, v) kvs)" using l by (auto simp: mid_def)
  then have pk: "lkey (b_node t6 r) 0 = fst (ins_at pos (key, v) kvs ! mid)" using lkey_lrep [OF l6(2), of 0] by simp
  have o: "b_node t3 j = b_node t j" if "j \<in> U" "j \<noteq> i" for j
    using keepsD(1) [OF k3, of j] a(2,3) that by (auto simp: M2)
  have lk3: "n_prev (b_node t3 i) = n_prev (b_node t i)" using keepsD(2) [OF k3, of i] a(3) [OF ok(3)] ir by (simp add: M2)
  have "dseg (b_node t6) NO_NODE (ls1 @ i # r # ls2) NO_NODE"
  proof (rule dseg_insert [OF ch(1)])
    have in1: "j \<in> U \<and> j \<noteq> i \<and> j \<noteq> r" if "j \<in> set ls1 \<union> set ls2" for j using that ch(2,3) a(2) by auto
    have nx1: "j \<noteq> nx" if "j \<in> set ls1 \<union> set (tl ls2)" for j
      using that ch(2) barena_okD(2) [OF ok(1), of j] ch(3) by (auto simp: nx_def split: list.splits)
    show "n_next (b_node t6 j) = n_next (b_node t j)" if "j \<in> set ls1 \<union> set ls2" for j
      using in1 [OF that] o [of j] by (auto simp: M6 M5)
    show "n_prev (b_node t6 j) = n_prev (b_node t j)" if "j \<in> set ls1 \<union> set (tl ls2) \<union> {i}" for j
    proof (cases "j = i")
      case False
      then have "j \<in> set ls1 \<union> set (tl ls2)" using that by simp
      moreover from this have "j \<in> set ls1 \<union> set ls2" by (cases ls2) auto
      ultimately show ?thesis using in1 [of j] nx1 [of j] o [of j] by (simp add: M6 M5)
    qed (use lk3 nxU(1) ir in \<open>auto simp: M6 M5\<close>)
    show "n_next (b_node t6 i) = r" using ir by (auto simp: M6 M5)
    show "n_prev (b_node t6 r) = i" "n_next (b_node t6 r) = (case ls2 of [] \<Rightarrow> NO_NODE | y # _ \<Rightarrow> y)"
      using nxU(2) by (auto simp: M6 M5 nx_def)
    show "n_prev (b_node t6 y) = r" if "ls2 = y # ys" for y ys
      using that barena_okD(2) [OF ok(1), of y] ch(3) by (auto simp: M6 nx_def)
  qed
  moreover have "b_last_leaf t6 = last (ls1 @ i # r # ls2)"
    using keepsD(6) [OF k3] a(7) ch(4) barena_okD(2) [OF ok(1)] ch(3)
    by (cases ls2) (auto simp: t6_def t5_def nx_def t2_def)
  moreover have "body (b_node t6 j) = body (b_node t j)" if "j \<in> U" "j \<noteq> i" for j using b6 [of j] o [OF that] by simp
  moreover have "b_root t6 = b_root t" "b_first_leaf t6 = b_first_leaf t" "b_len t6 = b_len t" "b_height t6 = b_height t"
    "a_len (b_arena t6) \<le> a_len (b_arena t) + 1"
    using keepsD(4-10) [OF k3] a(4-9) by (simp_all add: t6_def t5_def t2_def)
  ultimately show thesis using that [OF def [unfolded pk] ok6 a(2) l6] by blast
qed

end
