(* ===== verification/Btree_Propagate.thy ===== *)
theory Btree_Propagate
  imports Btree_Insert
begin

text \<open>
  Propagation of a split towards the root: the parent takes the separator and the new
  sibling, splits in turn when it is full, and a new root is made above the old one.
\<close>

lemma starts_all: "starts a ys \<Longrightarrow> length a = length ys \<Longrightarrow> a = ys"
  by (auto simp: starts_def intro: nth_equalityI)

lemma rep_reparent:
  assumes "rep M p s" "distinct (nodes s)" "body (M' (idx s)) = body ((M (idx s))\<lparr>n_parent := q\<rparr>)"
    and "\<And>j. j \<in> set (nodes s) \<Longrightarrow> j \<noteq> idx s \<Longrightarrow> body (M' j) = body (M j)"
  shows "rep M' q s"
proof (cases s)
  case (BLeaf i kvs)
  then show ?thesis using assms(1,3) body_eqD [OF assms(3)] by (simp add: lrep_def)
next
  case (BNode i ts ks)
  have "rep M' i u" if "u \<in> set ts" for u
  proof -
    have "rep M' i u = rep M i u"
      by (rule rep_cong) (use assms(2,4) that BNode in auto)
    then show ?thesis using assms(1) that BNode by simp
  qed
  moreover have "irep M' q i (map idx ts) ks" using assms(1) body_eqD [OF assms(3)] BNode by (simp add: irep_def)
  ultimately show ?thesis using BNode by simp
qed

section \<open>A parent with room\<close>

lemma internal_insert_at_irep:
  assumes "i < n_blocks t" "shaped L (b_node t i)" "irep (b_node t) p i cs ks" "length cs = Suc (length ks)"
    "length ks < INTERNAL_CAP L" "pos \<le> length ks"
  shows "irep (b_node (internal_insert_at i pos key c t)) p i (ins_at (Suc pos) c cs) (ins_at pos key ks)"
proof -
  note s = shapedD [OF assms(2)]
  have k: "starts ((shift_right pos (length ks) (n_ikeys (b_node t i)))[pos := Some key]) (ins_at pos (Some key) (map Some ks))"
    using starts_insert [of "n_ikeys (b_node t i)" "map Some ks" pos "Some key"] assms s by (simp add: irep_def ins_at_def)
  have c: "starts ((shift_right (pos + 1) (length ks + 1) (n_children (b_node t i)))[pos + 1 := c]) (ins_at (Suc pos) c cs)"
    using starts_insert [of "n_children (b_node t i)" cs "Suc pos" c] assms s by (simp add: irep_def ins_at_def)
  show ?thesis using assms k c by (simp add: internal_insert_at_def b_node_upd irep_def map_ins_at)
qed

lemma internal_insert_at_keeps:
  "i < n_blocks t \<Longrightarrow> i \<in> S \<Longrightarrow> keeps S t (internal_insert_at i pos key c t)"
  unfolding internal_insert_at_def by (intro keeps_upd keeps_refl) simp_all

lemma internal_insert_at_ok:
  "barena_ok L t U fl \<Longrightarrow> i \<in> U \<Longrightarrow> barena_ok L (internal_insert_at i pos key c t) U fl"
  unfolding internal_insert_at_def by (rule barena_ok_updI) (auto simp: shaped_def)

section \<open>Splitting a full parent\<close>

text \<open>The loop that hands children over to the new node.\<close>

lemma hand_over_children:
  assumes "r < n_blocks t" "\<And>c. c \<in> set cs \<Longrightarrow> c < n_blocks t" "r \<notin> set cs" "m + n \<le> length cs"
  defines "u \<equiv> fold (adopt_child r cs m) [0..<n] t"
  shows "b_node u = (\<lambda>j. if j = r then (b_node t r)\<lparr>n_children := copy_slots cs m 0 n (n_children (b_node t r))\<rparr>
      else if j \<in> set (take n (drop m cs)) then (b_node t j)\<lparr>n_parent := r\<rparr> else b_node t j) \<and>
    n_blocks u = n_blocks t"
  using assms(4) unfolding u_def
proof (induction n)
  case 0
  show ?case by (auto simp: copy_slots_def)
next
  case (Suc n)
  let ?st = "adopt_child r cs m"
  let ?u = "fold ?st [0..<n] t" and ?c = "cs ! (m + n)"
  have IH: "b_node ?u = (\<lambda>j. if j = r then (b_node t r)\<lparr>n_children := copy_slots cs m 0 n (n_children (b_node t r))\<rparr>
      else if j \<in> set (take n (drop m cs)) then (b_node t j)\<lparr>n_parent := r\<rparr> else b_node t j)"
    and nb: "n_blocks ?u = n_blocks t"
    using Suc by simp_all
  have e: "fold ?st [0..<Suc n] t = ?st n ?u" by simp
  have c: "?c < n_blocks t" "?c \<noteq> r" using assms(2,3) Suc.prems by (metis Suc_le_lessD add_Suc_right nth_mem)+
  have tk: "set (take (Suc n) (drop m cs)) = insert ?c (set (take n (drop m cs)))"
    using Suc.prems by (subst take_Suc_conv_app_nth) auto
  have cp: "copy_slots cs m 0 (Suc n) d = (copy_slots cs m 0 n d)[n := ?c]" for d by (simp add: copy_slots_def)
  show ?case unfolding e tk adopt_child_def [of r cs m n] Let_def using c assms(1) nb by (auto simp: b_node_upd IH cp fun_eq_iff)
qed

lemma hand_over_keeps:
  assumes "r < n_blocks t" "\<And>c. c \<in> set cs \<Longrightarrow> c < n_blocks t" "m + n \<le> length cs" "barena_ok L t U fl" "insert r (set cs) \<subseteq> U"
  defines "u \<equiv> fold (adopt_child r cs m) [0..<n] t"
  shows "keeps (insert r (set cs)) t u \<and> barena_ok L u U fl"
  unfolding u_def
proof (rule fold_invariant [where Q = "\<lambda>i. i < n"])
  fix i v assume i: "i < n" and v: "keeps (insert r (set cs)) t v \<and> barena_ok L v U fl"
  have c: "cs ! (m + i) \<in> set cs" using i assms(3) by simp
  show "keeps (insert r (set cs)) t (adopt_child r cs m i v) \<and> barena_ok L (adopt_child r cs m i v) U fl"
    unfolding adopt_child_def Let_def
  proof (intro conjI keeps_upd barena_ok_updI)
    show "keeps (insert r (set cs)) t v" "barena_ok L v U fl" using v by simp_all
    show "r \<in> U" "cs ! (m + i) \<in> U" using assms(5) c by auto
    show "r < n_blocks v" "cs ! (m + i) < n_blocks (b_upd r (\<lambda>n. n\<lparr>n_children := (n_children n)[i := cs ! (m + i)]\<rparr>) v)"
      using assms(1,2) c v by (simp_all add: keeps_def)
  qed (use c in \<open>simp_all add: shaped_def\<close>)
qed (use assms(4) in \<open>simp_all add: keeps_refl\<close>)

lemma map_nth_take: "n \<le> length xs \<Longrightarrow> map ((!) xs) [0..<n] = take n xs"
  by (auto intro: nth_equalityI)

lemma map_nth_drop: "map ((!) xs) [n..<length xs] = drop n xs"
  by (auto intro: nth_equalityI)

text \<open>The two halves of an overfull node, in memory.\<close>

lemma split_node_blocks:
  assumes n: "i < n_blocks t" "q < n_blocks t" "i \<noteq> q" "shaped L (b_node t i)" "shaped L (b_node t q)"
    and cs: "\<And>c. c \<in> set cs \<Longrightarrow> c < n_blocks t" "i \<notin> set cs" "q \<notin> set cs"
    and len: "length ks = Suc (INTERNAL_CAP L)" "length cs = Suc (length ks)" and m: "mid \<le> INTERNAL_CAP L"
  defines "u \<equiv> b_upd q (\<lambda>n. n\<lparr>n_len := INTERNAL_CAP L - mid\<rparr>)
      (fold (adopt_child q cs (mid + 1)) [0..<Suc (INTERNAL_CAP L - mid)]
        (b_upd q (\<lambda>n. n\<lparr>n_ikeys := copy_slots (map Some ks) (mid + 1) 0 (INTERNAL_CAP L - mid) (n_ikeys n)\<rparr>)
          (b_upd i (\<lambda>n. n\<lparr>n_ikeys := copy_slots (map Some ks) 0 0 mid (n_ikeys n),
             n_children := copy_slots cs 0 0 (mid + 1) (n_children n), n_len := mid\<rparr>) t)))"
  shows "irep (b_node u) (n_parent (b_node t i)) i (take (mid + 1) cs) (take mid ks) \<longleftrightarrow> n_flags (b_node t i) = 0"
    "irep (b_node u) (n_parent (b_node t q)) q (drop (mid + 1) cs) (drop (mid + 1) ks) \<longleftrightarrow> n_flags (b_node t q) = 0"
    "\<And>j. j \<noteq> i \<Longrightarrow> j \<noteq> q \<Longrightarrow> j \<notin> set (drop (mid + 1) cs) \<Longrightarrow> b_node u j = b_node t j"
    "\<And>j. j \<in> set (drop (mid + 1) cs) \<Longrightarrow> b_node u j = (b_node t j)\<lparr>n_parent := q\<rparr>"
proof -
  let ?c = "INTERNAL_CAP L"
  note si = shapedD [OF n(4)] and sq = shapedD [OF n(5)]
  define v where "v = b_upd q (\<lambda>n. n\<lparr>n_ikeys := copy_slots (map Some ks) (mid + 1) 0 (?c - mid) (n_ikeys n)\<rparr>)
          (b_upd i (\<lambda>n. n\<lparr>n_ikeys := copy_slots (map Some ks) 0 0 mid (n_ikeys n),
             n_children := copy_slots cs 0 0 (mid + 1) (n_children n), n_len := mid\<rparr>) t)"
  have nv: "n_blocks v = n_blocks t" by (simp add: v_def)
  have Mv: "b_node v = (b_node t)(i := (b_node t i)\<lparr>n_ikeys := copy_slots (map Some ks) 0 0 mid (n_ikeys (b_node t i)),
             n_children := copy_slots cs 0 0 (mid + 1) (n_children (b_node t i)), n_len := mid\<rparr>,
       q := (b_node t q)\<lparr>n_ikeys := copy_slots (map Some ks) (mid + 1) 0 (?c - mid) (n_ikeys (b_node t q))\<rparr>)"
    using n(1-3) by (auto simp: v_def b_node_upd)
  have dr: "take (Suc (?c - mid)) (drop (mid + 1) cs) = drop (mid + 1) cs" using len m by simp
  have "b_node (fold (adopt_child q cs (mid + 1)) [0..<Suc (?c - mid)] v) =
      (\<lambda>j. if j = q then (b_node v q)\<lparr>n_children := copy_slots cs (mid + 1) 0 (Suc (?c - mid)) (n_children (b_node v q))\<rparr>
      else if j \<in> set (drop (mid + 1) cs) then (b_node v j)\<lparr>n_parent := q\<rparr> else b_node v j) \<and>
      n_blocks (fold (adopt_child q cs (mid + 1)) [0..<Suc (?c - mid)] v) = n_blocks v"
    using hand_over_children [of q v cs "mid + 1" "Suc (?c - mid)"] n cs len m nv unfolding dr by simp
  then have Mu: "b_node u = (\<lambda>j. if j = q then (b_node v q)\<lparr>n_len := ?c - mid,
          n_children := copy_slots cs (mid + 1) 0 (Suc (?c - mid)) (n_children (b_node v q))\<rparr>
      else if j \<in> set (drop (mid + 1) cs) then (b_node v j)\<lparr>n_parent := q\<rparr> else b_node v j)"
    using n(2) nv unfolding u_def v_def [symmetric] by (subst b_node_upd) (auto simp: fun_eq_iff)
  have nd: "i \<notin> set (drop (mid + 1) cs)" using cs(2) by (meson in_set_dropD)
  have st: "starts (map Some ks) (map Some ks)" "starts cs cs" by (simp_all add: starts_def)
  have "starts (copy_slots (map Some ks) 0 0 mid (n_ikeys (b_node t i))) (map Some (take mid ks))"
    using starts_copy [OF st(1), of 0 mid "n_ikeys (b_node t i)"] len m si by (simp add: take_map)
  moreover have "starts (copy_slots cs 0 0 (mid + 1) (n_children (b_node t i))) (take (mid + 1) cs)"
    using starts_copy [OF st(2), of 0 "mid + 1" "n_children (b_node t i)"] len m si by simp
  ultimately show "irep (b_node u) (n_parent (b_node t i)) i (take (mid + 1) cs) (take mid ks) \<longleftrightarrow> n_flags (b_node t i) = 0"
    using n(3) nd len m by (simp add: irep_def Mu Mv)
  have "starts (copy_slots (map Some ks) (mid + 1) 0 (?c - mid) (n_ikeys (b_node t q))) (map Some (drop (mid + 1) ks))"
    using starts_copy [OF st(1), of "mid + 1" "?c - mid" "n_ikeys (b_node t q)"] len m sq by (simp add: drop_map)
  moreover have "starts (copy_slots cs (mid + 1) 0 (Suc (?c - mid)) (n_children (b_node t q))) (drop (mid + 1) cs)"
    using starts_copy [OF st(2), of "mid + 1" "Suc (?c - mid)" "n_children (b_node t q)"] len m sq by (simp add: dr)
  ultimately show "irep (b_node u) (n_parent (b_node t q)) q (drop (mid + 1) cs) (drop (mid + 1) ks) \<longleftrightarrow> n_flags (b_node t q) = 0"
    using n(3) len by (simp add: irep_def Mu Mv)
  show "b_node u j = b_node t j" if "j \<noteq> i" "j \<noteq> q" "j \<notin> set (drop (mid + 1) cs)" for j
    using that by (simp add: Mu Mv)
  show "b_node u j = (b_node t j)\<lparr>n_parent := q\<rparr>" if "j \<in> set (drop (mid + 1) cs)" for j
  proof -
    have "j \<noteq> q" "j \<noteq> i" using that cs(3) nd by (auto dest: in_set_dropD)
    then show ?thesis using that by (simp add: Mu Mv)
  qed
qed

text \<open>Handing the subtrees of a node over to two nodes.\<close>

lemma disjoint_siblings:
  "distinct (concat (map nodes ts)) \<Longrightarrow> s \<in> set ts \<Longrightarrow> s' \<in> set ts \<Longrightarrow> s \<noteq> s' \<Longrightarrow> set (nodes s) \<inter> set (nodes s') = {}"
  by (induction ts) auto

lemma idx_in_siblings: "idx ` set ts \<subseteq> set (concat (map nodes ts))"
  by (induction ts) auto

lemma rep_two_nodes:
  assumes "irep M' p i (map idx ts1) ks1" "irep M' p' q (map idx ts2) ks2"
    and "\<forall>s\<in>set (ts1 @ ts2). rep M i s" "distinct (i # concat (map nodes (ts1 @ ts2)))" "q \<notin> set (concat (map nodes (ts1 @ ts2)))"
    and "\<And>j. j \<noteq> i \<Longrightarrow> j \<noteq> q \<Longrightarrow> j \<notin> idx ` set ts2 \<Longrightarrow> body (M' j) = body (M j)"
    and "\<And>j. j \<in> idx ` set ts2 \<Longrightarrow> body (M' j) = body ((M j)\<lparr>n_parent := q\<rparr>)"
  shows "rep M' p (BNode i ts1 ks1)" "rep M' p' (BNode q ts2 ks2)"
proof -
  have d1: "set (nodes s) \<inter> set (nodes s') = {}" if "s \<in> set ts1" "s' \<in> set ts2" for s s'
    using assms(4) that by auto
  have d2: "idx s' \<notin> set (nodes s)" if "s \<in> set ts2" "s' \<in> set ts2" "s' \<noteq> s" for s s'
  proof -
    have "distinct (concat (map nodes ts2))" using assms(4) by simp
    then show ?thesis using disjoint_siblings [of ts2 s s'] that idx_in_nodes [of s'] by blast
  qed
  have "rep M' i s" if s: "s \<in> set ts1" for s
  proof -
    have "rep M' i s = rep M i s"
    proof (rule rep_cong)
      fix j assume j: "j \<in> set (nodes s)"
      have "j \<noteq> i" "j \<noteq> q" using j s assms(4,5) by auto
      moreover have "j \<notin> idx ` set ts2" using d1 [OF s] j by fastforce
      ultimately show "body (M' j) = body (M j)" using assms(6) by blast
    qed
    then show ?thesis using assms(3) s by simp
  qed
  then show "rep M' p (BNode i ts1 ks1)" using assms(1) by simp
  have "rep M' q s" if s: "s \<in> set ts2" for s
  proof (rule rep_reparent [of M i])
    show "rep M i s" "distinct (nodes s)" using assms(3,4) s by (auto simp: distinct_concat_iff)
    show "body (M' (idx s)) = body ((M (idx s))\<lparr>n_parent := q\<rparr>)" using assms(7) s by blast
    show "body (M' j) = body (M j)" if j: "j \<in> set (nodes s)" "j \<noteq> idx s" for j
    proof -
      have "j \<noteq> i" "j \<noteq> q" using j(1) s assms(4,5) by auto
      moreover have "j \<notin> idx ` set ts2" using d2 [OF s] j by fastforce
      ultimately show ?thesis using assms(6) by blast
    qed
  qed
  then show "rep M' p' (BNode q ts2 ks2)" using assms(2) by simp
qed

lemma internal_split_correct:
  fixes ts1 ts2 :: "('k, 'v) bt list" and k :: 'k
  assumes ok: "barena_ok L t U fl" "a_len (b_arena t) < 2 ^ 31" "i \<in> U"
    and ir: "irep (b_node t) p i (map idx ts1 @ idx l # map idx ts2) (ks1 @ ks2)"
    and len: "length ts1 = length ks1" "length ks2 = length ts2" "length (ks1 @ ks2) = INTERNAL_CAP L"
    and reps: "\<forall>s\<in>set (ts1 @ l # r # ts2). rep (b_node t) i s"
    and dist: "distinct (i # concat (map nodes (ts1 @ l # r # ts2)))" "set (concat (map nodes (ts1 @ l # r # ts2))) \<subseteq> U"
  defines "mid \<equiv> INTERNAL_CAP L div 2" and "ts \<equiv> ts1 @ l # r # ts2" and "ks \<equiv> ks1 @ k # ks2"
  obtains q t' fl' where
    "internal_split_and_insert L i (length ts1) k (idx r) t = ((ks ! mid, q), t')" "barena_ok L t' (insert q U) fl'" "q \<notin> U"
    "rep (b_node t') p (BNode i (take (mid + 1) ts) (take mid ks))"
    "rep (b_node t') p (BNode q (drop (mid + 1) ts) (drop (mid + 1) ks))"
    "\<And>j. j \<in> U \<Longrightarrow> j \<noteq> i \<Longrightarrow> j \<notin> set (concat (map nodes ts)) \<Longrightarrow> b_node t' j = b_node t j"
    "\<And>j. j \<in> U \<Longrightarrow> n_prev (b_node t' j) = n_prev (b_node t j) \<and> n_next (b_node t' j) = n_next (b_node t j)"
    "b_root t' = b_root t" "b_first_leaf t' = b_first_leaf t" "b_last_leaf t' = b_last_leaf t" "b_len t' = b_len t"
    "b_height t' = b_height t" "a_len (b_arena t') \<le> a_len (b_arena t) + 1"
proof -
  let ?c = "INTERNAL_CAP L" and ?cs = "map idx ts"
  obtain q t1 where al: "b_alloc L t = (q, t1)" by (cases "b_alloc L t")
  obtain fl' where a: "barena_ok L t1 (insert q U) fl'" "q \<notin> U" "\<And>j. j \<in> U \<Longrightarrow> b_node t1 j = b_node t j"
    "a_len (b_arena t1) \<le> a_len (b_arena t) + 1" "b_root t1 = b_root t" "b_first_leaf t1 = b_first_leaf t"
    "b_last_leaf t1 = b_last_leaf t" "b_len t1 = b_len t" "b_height t1 = b_height t"
    by (rule b_alloc_ok [OF ok(1,2) al]) blast
  have iq: "i \<noteq> q" using ok(3) a(2) by auto
  have cU: "set ?cs \<subseteq> U" using dist(2) idx_in_siblings [of ts] unfolding ts_def [symmetric] by auto
  have pr: "n_parent (b_node t1 i) = p" using ir a(3) [OF ok(3)] by (simp add: irep_def)
  define t2 where "t2 = b_upd q (\<lambda>n. n\<lparr>n_flags := 0, n_parent := p\<rparr>) t1"
  have ok2: "barena_ok L t2 (insert q U) fl'" unfolding t2_def by (rule barena_ok_updI [OF a(1)]) (simp_all add: shaped_def)
  have M2: "b_node t2 = (b_node t1)(q := (b_node t1 q)\<lparr>n_flags := 0, n_parent := p\<rparr>)"
    using barena_okD(1) [OF a(1), of q] by (simp add: t2_def b_node_upd)
  have Mi: "b_node t2 i = b_node t i" using a(3) [OF ok(3)] iq by (simp add: M2)
  note sh = shapedD [OF barena_okD(3) [OF ok(1,3)]]
  have ks': "n_ikeys (b_node t i) = map Some (ks1 @ ks2)" using ir len sh by (intro starts_all) (simp_all add: irep_def)
  have cs': "n_children (b_node t i) = map idx ts1 @ idx l # map idx ts2" using ir len sh by (intro starts_all) (simp_all add: irep_def)
  have pl: "length ts1 \<le> ?c" using len by simp
  have allk: "map (\<lambda>j. n_ikeys (b_node t2 i) ! j) [0..<length ts1] @ [Some k] @ map (\<lambda>j. n_ikeys (b_node t2 i) ! j) [length ts1..<?c] = map Some ks"
  proof -
    have "map ((!) (map Some (ks1 @ ks2))) [length ts1..<?c] = drop (length ts1) (map Some (ks1 @ ks2))"
      using map_nth_drop [of "map Some (ks1 @ ks2)" "length ts1"] len by simp
    moreover have "map ((!) (map Some (ks1 @ ks2))) [0..<length ts1] = take (length ts1) (map Some (ks1 @ ks2))"
      using pl len by (intro map_nth_take) simp
    ultimately show ?thesis unfolding Mi ks' by (simp add: len(1) ks_def)
  qed
  have allc: "map (child (b_node t2 i)) [0..<Suc (length ts1)] @ [idx r] @ map (child (b_node t2 i)) [length ts1 + 1..<Suc ?c] = ?cs"
  proof -
    let ?d = "map idx ts1 @ idx l # map idx ts2"
    have "child (b_node t2 i) = (!) ?d" by (simp add: child_def Mi cs' fun_eq_iff)
    moreover have "map ((!) ?d) [length ts1 + 1..<Suc ?c] = drop (length ts1 + 1) ?d"
    proof -
      have "length ?d = Suc ?c" using len by simp
      then show ?thesis using map_nth_drop [of ?d "length ts1 + 1"] by (simp only:)
    qed
    moreover have "map ((!) ?d) [0..<Suc (length ts1)] = take (Suc (length ts1)) ?d" by (intro map_nth_take) simp
    ultimately show ?thesis by (simp only: ts_def) simp
  qed
  define u where "u = b_upd q (\<lambda>n. n\<lparr>n_len := ?c - mid\<rparr>)
      (fold (adopt_child q ?cs (mid + 1)) [0..<Suc (?c - mid)]
        (b_upd q (\<lambda>n. n\<lparr>n_ikeys := copy_slots (map Some ks) (mid + 1) 0 (?c - mid) (n_ikeys n)\<rparr>)
          (b_upd i (\<lambda>n. n\<lparr>n_ikeys := copy_slots (map Some ks) 0 0 mid (n_ikeys n),
             n_children := copy_slots ?cs 0 0 (mid + 1) (n_children n), n_len := mid\<rparr>) t2)))"
  have mid: "mid \<le> ?c" "mid < length ks" using len by (simp_all add: mid_def ks_def)
  have "internal_split_and_insert L i (length ts1) k (idx r) t = ((the (map Some ks ! mid), q), u)"
    by (simp only: internal_split_and_insert_def al Let_def prod.case pr t2_def [symmetric] allk allc u_def mid_def [symmetric])
  then have def: "internal_split_and_insert L i (length ts1) k (idx r) t = ((ks ! mid, q), u)" using mid by simp
  have n2: "i < n_blocks t2" "q < n_blocks t2" "shaped L (b_node t2 i)" "shaped L (b_node t2 q)"
    "\<And>c. c \<in> set ?cs \<Longrightarrow> c < n_blocks t2"
    using barena_okD [OF ok2] ok(3) cU by auto
  have ni: "i \<notin> set ?cs" "q \<notin> set ?cs"
    using dist(1) cU a(2) idx_in_siblings [of ts] unfolding ts_def [symmetric] by auto
  have ln: "length ks = Suc ?c" "length ?cs = Suc (length ks)" using len by (simp_all add: ks_def ts_def)
  note sn = split_node_blocks [OF n2(1,2) iq n2(3,4,5) ni ln mid(1), folded u_def]
  have halves: "take (mid + 1) ts @ drop (mid + 1) ts = ts" by simp
  have reps2: "\<forall>s\<in>set (take (mid + 1) ts @ drop (mid + 1) ts). rep (b_node t2) i s"
    unfolding halves
  proof
    fix s assume s: "s \<in> set ts"
    have "rep (b_node t2) i s = rep (b_node t) i s"
    proof (rule rep_cong)
      fix j assume "j \<in> set (nodes s)"
      then have "j \<in> U" using s dist(2) by (force simp: ts_def)
      then show "body (b_node t2 j) = body (b_node t j)" using a(2,3) by (auto simp: M2)
    qed
    then show "rep (b_node t2) i s" using reps s by (auto simp: ts_def)
  qed
  have qn: "q \<notin> set (concat (map nodes (take (mid + 1) ts @ drop (mid + 1) ts)))"
    unfolding halves using dist(2) a(2) by (auto simp: ts_def)
  have fl: "n_flags (b_node t2 i) = 0" "n_flags (b_node t2 q) = 0" "n_parent (b_node t2 i) = p" "n_parent (b_node t2 q) = p"
    using ir by (simp_all add: Mi irep_def) (simp_all add: M2)
  have irs: "irep (b_node u) p i (map idx (take (mid + 1) ts)) (take mid ks)"
    "irep (b_node u) p q (map idx (drop (mid + 1) ts)) (drop (mid + 1) ks)"
    using sn(1,2) fl by (simp_all add: take_map drop_map)
  have other: "body (b_node u j) = body (b_node t2 j)" if "j \<noteq> i" "j \<noteq> q" "j \<notin> idx ` set (drop (mid + 1) ts)" for j
    using that sn(3) [of j] by (simp add: drop_map)
  have moved: "body (b_node u j) = body ((b_node t2 j)\<lparr>n_parent := q\<rparr>)" if "j \<in> idx ` set (drop (mid + 1) ts)" for j
    using that sn(4) [of j] by (simp add: drop_map)
  have dist': "distinct (i # concat (map nodes (take (mid + 1) ts @ drop (mid + 1) ts)))"
    using dist(1) unfolding append_take_drop_id ts_def [symmetric] .
  have two: "rep (b_node u) p (BNode i (take (mid + 1) ts) (take mid ks))"
      "rep (b_node u) p (BNode q (drop (mid + 1) ts) (drop (mid + 1) ks))"
    by (rule rep_two_nodes [OF irs reps2 dist' qn other moved]; assumption)+
  have k: "keeps (insert i (insert q (set ?cs))) t2 u \<and> barena_ok L u (insert q U) fl'"
  proof -
    define v where "v = b_upd q (\<lambda>n. n\<lparr>n_ikeys := copy_slots (map Some ks) (mid + 1) 0 (?c - mid) (n_ikeys n)\<rparr>)
          (b_upd i (\<lambda>n. n\<lparr>n_ikeys := copy_slots (map Some ks) 0 0 mid (n_ikeys n),
             n_children := copy_slots ?cs 0 0 (mid + 1) (n_children n), n_len := mid\<rparr>) t2)"
    have kv: "keeps {i, q} t2 v" unfolding v_def by (intro keeps_upd keeps_refl) (simp_all add: n2)
    have okv: "barena_ok L v (insert q U) fl'" unfolding v_def
      by (intro barena_ok_updI ok2) (simp_all add: ok(3) shaped_def)
    have "keeps (insert q (set ?cs)) v (fold (adopt_child q ?cs (mid + 1)) [0..<Suc (?c - mid)] v) \<and>
        barena_ok L (fold (adopt_child q ?cs (mid + 1)) [0..<Suc (?c - mid)] v) (insert q U) fl'"
      by (rule hand_over_keeps [OF _ _ _ okv]) (use n2 ln mid cU keepsD(9) [OF kv] in auto)
    note h = this
    have "keeps (insert i (insert q (set ?cs))) t2 (fold (adopt_child q ?cs (mid + 1)) [0..<Suc (?c - mid)] v)"
      using h kv by (auto intro: keeps_trans)
    note w = this
    show ?thesis unfolding u_def v_def [symmetric]
    proof (intro conjI keeps_upd [OF w] barena_ok_updI [OF h [THEN conjunct2]])
      show "q < n_blocks (fold (adopt_child q ?cs (mid + 1)) [0..<Suc (?c - mid)] v)" using keepsD(9) [OF w] n2(2) by simp
    qed (simp_all add: shaped_def)
  qed
  then have kk: "keeps (insert i (insert q (set ?cs))) t2 u" by simp
  have cn: "set ?cs \<subseteq> set (concat (map nodes ts))" using idx_in_siblings [of ts] by simp
  show thesis
  proof (rule that [OF def _ a(2) two])
    show "barena_ok L u (insert q U) fl'" using k by simp
    show "b_node u j = b_node t j" if "j \<in> U" "j \<noteq> i" "j \<notin> set (concat (map nodes ts))" for j
    proof -
      have "j \<notin> insert i (insert q (set ?cs))" using that cn a(2) by blast
      then show ?thesis using keepsD(1) [OF kk] a(2,3) that(1) by (auto simp: M2)
    qed
    show "n_prev (b_node u j) = n_prev (b_node t j) \<and> n_next (b_node u j) = n_next (b_node t j)" if "j \<in> U" for j
      using keepsD(2,3) [OF kk, of j] a(2,3) that by (auto simp: M2)
  qed (use keepsD [OF kk] a in \<open>simp_all add: t2_def\<close>)
qed

section \<open>A new root\<close>

definition bstruct :: "node_layout \<Rightarrow> ('k, 'v) btree \<Rightarrow> ('k, 'v) bt \<Rightarrow> nat list \<Rightarrow> bool" where
  "bstruct L t T fl \<longleftrightarrow> barena_ok L t (set (nodes T)) fl \<and> b_root t = idx T \<and> rep (b_node t) NO_NODE T \<and>
     bal (b_height t) T \<and> distinct (nodes T)"

text \<open>The leaf links of the nodes in use and the fields that only leaf operations change.\<close>

definition same_leaves :: "nat set \<Rightarrow> ('k, 'v) btree \<Rightarrow> ('k, 'v) btree \<Rightarrow> bool" where
  "same_leaves U t t' \<longleftrightarrow>
     (\<forall>j\<in>U. n_prev (b_node t' j) = n_prev (b_node t j) \<and> n_next (b_node t' j) = n_next (b_node t j)) \<and>
     b_first_leaf t' = b_first_leaf t \<and> b_last_leaf t' = b_last_leaf t \<and> b_len t' = b_len t"

lemma same_leaves_trans: "same_leaves U t u \<Longrightarrow> same_leaves V u v \<Longrightarrow> U \<subseteq> V \<Longrightarrow> same_leaves U t v"
  by (auto simp: same_leaves_def subset_iff)

lemma grow_root_correct:
  assumes ok: "barena_ok L t (set (nodes l) \<union> set (nodes r)) fl" "a_len (b_arena t) < 2 ^ 31" "1 \<le> INTERNAL_CAP L"
    and d: "distinct (nodes l @ nodes r)" and rp: "rep (b_node t) NO_NODE l" "rep (b_node t) NO_NODE r"
    and bl: "bal (b_height t) l" "bal (b_height t) r"
  obtains q fl' where "bstruct L (grow_root L (idx l) k (idx r) t) (BNode q [l, r] [k]) fl'"
    "same_leaves (set (nodes l) \<union> set (nodes r)) t (grow_root L (idx l) k (idx r) t)"
    "b_height (grow_root L (idx l) k (idx r) t) = Suc (b_height t)"
proof -
  let ?U = "set (nodes l) \<union> set (nodes r)"
  obtain q t1 where al: "b_alloc L t = (q, t1)" by (cases "b_alloc L t")
  obtain fl' where a: "barena_ok L t1 (insert q ?U) fl'" "q \<notin> ?U" "\<And>j. j \<in> ?U \<Longrightarrow> b_node t1 j = b_node t j"
    "a_len (b_arena t1) \<le> a_len (b_arena t) + 1" "b_root t1 = b_root t" "b_first_leaf t1 = b_first_leaf t"
    "b_last_leaf t1 = b_last_leaf t" "b_len t1 = b_len t" "b_height t1 = b_height t"
    by (rule b_alloc_ok [OF ok(1,2) al]) blast
  let ?q = "\<lambda>n. n\<lparr>n_len := 1, n_flags := 0, n_parent := NO_NODE, n_ikeys := (n_ikeys n)[0 := Some k],
                n_children := (n_children n)[0 := idx l, 1 := idx r]\<rparr>"
  define u where "u = b_upd (idx r) (\<lambda>n. n\<lparr>n_parent := q\<rparr>) (b_upd (idx l) (\<lambda>n. n\<lparr>n_parent := q\<rparr>) (b_upd q ?q t1))"
  have def: "grow_root L (idx l) k (idx r) t = u\<lparr>b_root := q, b_height := b_height u + 1\<rparr>"
    by (simp only: grow_root_def al Let_def prod.case u_def)
  have ne: "idx l \<noteq> q" "idx r \<noteq> q" "idx l \<noteq> idx r" 
    using a(2) d idx_in_nodes [of l] idx_in_nodes [of r] by (auto simp del: idx_in_nodes)
  have nb: "q < n_blocks t1" "idx l < n_blocks t1" "idx r < n_blocks t1" using barena_okD(1) [OF a(1)] by auto
  have Mu: "b_node u = (b_node t1)(q := ?q (b_node t1 q), idx l := (b_node t1 (idx l))\<lparr>n_parent := q\<rparr>,
      idx r := (b_node t1 (idx r))\<lparr>n_parent := q\<rparr>)"
    using nb ne by (auto simp: u_def b_node_upd)
  have Mj: "b_node u j = b_node t j" if "j \<in> ?U" "j \<noteq> idx l" "j \<noteq> idx r" for j using that a(2,3) by (auto simp: Mu)
  have oku: "barena_ok L u (insert q ?U) fl'" unfolding u_def by (intro barena_ok_updI a(1)) (simp_all add: shaped_def)
  have x: "idx l \<notin> set (nodes r)" "idx r \<notin> set (nodes l)"
    using d idx_in_nodes [of l] idx_in_nodes [of r] unfolding distinct_append by blast+
  have rl: "rep (b_node u) q l"
  proof (rule rep_reparent [OF rp(1)])
    show "body (b_node u j) = body (b_node t j)" if "j \<in> set (nodes l)" "j \<noteq> idx l" for j
      using that x Mj [of j] by (cases "j = idx r") auto
  qed (use d ne a(3) in \<open>auto simp: Mu\<close>)
  have rr: "rep (b_node u) q r"
  proof (rule rep_reparent [OF rp(2)])
    show "body (b_node u j) = body (b_node t j)" if "j \<in> set (nodes r)" "j \<noteq> idx r" for j
      using that x Mj [of j] by (cases "j = idx l") auto
  qed (use d ne a(3) in \<open>auto simp: Mu\<close>)
  obtain k1 ks where "n_ikeys (b_node t1 q) = k1 # ks"
    using shapedD(3) [OF barena_okD(3) [OF a(1), of q]] ok(3) by (cases "n_ikeys (b_node t1 q)") auto
  moreover obtain c1 c2 cs where "n_children (b_node t1 q) = c1 # c2 # cs"
    using shapedD(4) [OF barena_okD(3) [OF a(1), of q]] ok(3)
    by (cases "n_children (b_node t1 q)"; cases "tl (n_children (b_node t1 q))") auto
  ultimately have "irep (b_node u) NO_NODE q [idx l, idx r] [k]"
    using ne by (auto simp: irep_def Mu starts_def less_Suc_eq)
  then have "bstruct L (grow_root L (idx l) k (idx r) t) (BNode q [l, r] [k]) fl'"
    using rl rr oku d a(2) bl a(9) by (simp add: bstruct_def def) (simp add: u_def Un_commute)
  moreover have "same_leaves ?U t (grow_root L (idx l) k (idx r) t)"
    using a ne by (auto simp: same_leaves_def def Mu) (auto simp: u_def)
  ultimately show thesis by (rule that) (simp add: def u_def a(9))
qed

section \<open>Propagation\<close>

lemma bal_fill_at: "bal h (fill fs t) \<Longrightarrow> bal (h - length fs) t' \<Longrightarrow> bal h (fill fs t')"
proof (induction fs arbitrary: t t')
  case (Cons f fs)
  obtain i ts1 ks1 ks2 ts2 where f: "f = (i, ts1, ks1, ks2, ts2)" by (cases f)
  have "bal (h - length fs) (BNode i (ts1 @ t # ts2) (ks1 @ ks2))"
    using bal_fill [of h fs "fill1 f t"] Cons.prems(1) by (simp add: f)
  then have "bal (h - length fs) (BNode i (ts1 @ t' # ts2) (ks1 @ ks2))"
    using Cons.prems(2) by (auto simp: bal_node)
  then show ?case using Cons.IH Cons.prems(1) by (simp add: f)
qed simp

lemma seq_overfull:
  assumes "length ts1 = length ks1" "length ks2 = length ts2"
  shows "seq (BNode i (ts1 @ l # r # ts2) (ks1 @ k # ks2)) = ipre (map seq ts1) ks1 @ seq l @ (k, False) # seq r @ ipost ks2 (map seq ts2)"
  using inter_hole [of "map seq ts1" ks1 "k # ks2" "seq r # map seq ts2" "seq l"] assms by simp

lemma seq_halves:
  assumes "length ts = Suc (length ks)" "m < length ks"
  shows "seq (BNode i (take (m + 1) ts) (take m ks)) @ (ks ! m, False) # seq (BNode q (drop (m + 1) ts) (drop (m + 1) ks)) =
    seq (BNode i ts ks)"
proof -
  have "inter (map seq (take (m + 1) ts) @ map seq (drop (m + 1) ts)) (take m ks @ ks ! m # drop (m + 1) ks) =
      inter (map seq (take (m + 1) ts)) (take m ks) @ (ks ! m, False) # inter (map seq (drop (m + 1) ts)) (drop (m + 1) ks)"
    by (rule inter_two) (use assms in simp)
  moreover have "take m ks @ ks ! m # drop (m + 1) ks = ks" using assms(2) by (simp add: id_take_nth_drop [symmetric])
  ultimately show ?thesis by (simp flip: map_append)
qed

lemma bal_halves:
  assumes "bal h (BNode i ts ks)" "m < length ks"
  shows "bal h (BNode i (take (m + 1) ts) (take m ks))" "bal h (BNode q (drop (m + 1) ts) (drop (m + 1) ks))"
  using assms by (auto simp: bal_node dest: in_set_takeD in_set_dropD)

text \<open>A tree with a hole for two subtrees, which hang below the parent of the hole already.\<close>

definition split_state ::
  "node_layout \<Rightarrow> ('k, 'v) btree \<Rightarrow> ('k, 'v) frame list \<Rightarrow> ('k, 'v) bt \<Rightarrow> ('k, 'v) bt \<Rightarrow> nat list \<Rightarrow> bool" where
  "split_state L t fs l r fl \<longleftrightarrow>
     barena_ok L t (set (cnodes fs @ nodes l @ nodes r)) fl \<and> distinct (cnodes fs @ nodes l @ nodes r) \<and>
     ctx (b_node t) NO_NODE fs (idx l) \<and> rep (b_node t) (hole_parent NO_NODE fs) l \<and> rep (b_node t) (hole_parent NO_NODE fs) r \<and>
     list_all frame_ok fs \<and> bal (b_height t) (fill fs l) \<and> bal (b_height t - length fs) r \<and> b_root t = idx (fill fs l)"

lemma split_state_step:
  fixes k :: 'k and ks1 :: "'k list"
  assumes s: "split_state L t (f # fs) l r fl" and f: "f = (i, ts1, ks1, ks2, ts2)"
    and full: "length (ks1 @ ks2) = INTERNAL_CAP L" and room: "a_len (b_arena t) < 2 ^ 31"
  defines "mid \<equiv> INTERNAL_CAP L div 2" and "ts \<equiv> ts1 @ l # r # ts2" and "ks \<equiv> ks1 @ k # ks2"
  obtains q t' fl' where "internal_split_and_insert L i (length ts1) k (idx r) t = ((ks ! mid, q), t')"
    "split_state L t' fs (BNode i (take (mid + 1) ts) (take mid ks)) (BNode q (drop (mid + 1) ts) (drop (mid + 1) ks)) fl'"
    "same_leaves (set (cnodes (f # fs) @ nodes l @ nodes r)) t t'" "b_height t' = b_height t"
    "set (cnodes (f # fs) @ nodes l @ nodes r) \<subseteq>
      set (cnodes fs @ nodes (BNode i (take (mid + 1) ts) (take mid ks)) @ nodes (BNode q (drop (mid + 1) ts) (drop (mid + 1) ks)))"
    "a_len (b_arena t') \<le> a_len (b_arena t) + 1"
proof -
  define U N where "U = set (cnodes (f # fs) @ nodes l @ nodes r)" and "N = concat (map nodes ts)"
  let ?l = "BNode i (take (mid + 1) ts) (take mid ks)"
  note s' = s [unfolded split_state_def]
  have len: "length ts1 = length ks1" "length ks2 = length ts2" using s' by (simp_all add: f frame_ok_def)
  have N: "N = concat (map nodes ts1) @ nodes l @ nodes r @ concat (map nodes ts2)" by (simp add: N_def ts_def)
  have U: "U = insert i (set N \<union> set (cnodes fs))" by (auto simp: U_def f N)
  have d: "distinct (i # N)" "distinct (cnodes fs)" "set (cnodes fs) \<inter> insert i (set N) = {}"
    using s' by (auto simp: f N)
  have ir: "irep (b_node t) (hole_parent NO_NODE fs) i (map idx ts1 @ idx l # map idx ts2) (ks1 @ ks2)"
    and reps: "\<forall>s\<in>set ts. rep (b_node t) i s" and cx: "ctx (b_node t) NO_NODE fs i"
    using s' by (auto simp: f ts_def)
  obtain q t' fl' where q: "internal_split_and_insert L i (length ts1) k (idx r) t = ((ks ! mid, q), t')"
    "barena_ok L t' (insert q U) fl'" "q \<notin> U"
    "rep (b_node t') (hole_parent NO_NODE fs) ?l"
    "rep (b_node t') (hole_parent NO_NODE fs) (BNode q (drop (mid + 1) ts) (drop (mid + 1) ks))"
    "\<And>j. j \<in> U \<Longrightarrow> j \<noteq> i \<Longrightarrow> j \<notin> set N \<Longrightarrow> b_node t' j = b_node t j"
    "\<And>j. j \<in> U \<Longrightarrow> n_prev (b_node t' j) = n_prev (b_node t j) \<and> n_next (b_node t' j) = n_next (b_node t j)"
    "b_root t' = b_root t" "b_first_leaf t' = b_first_leaf t" "b_last_leaf t' = b_last_leaf t" "b_len t' = b_len t"
    "b_height t' = b_height t" "a_len (b_arena t') \<le> a_len (b_arena t) + 1"
    by (rule internal_split_correct [OF _ room _ ir len full reps [unfolded ts_def] d(1) [unfolded N_def ts_def], of U fl k, folded ts_def ks_def mid_def, folded N_def])
      (use s' U in \<open>auto simp: U_def\<close>)
  let ?r = "BNode q (drop (mid + 1) ts) (drop (mid + 1) ks)"
  define A B where "A = concat (map nodes (take (mid + 1) ts))" and "B = concat (map nodes (drop (mid + 1) ts))"
  have "A @ B = N" unfolding A_def B_def N_def by (metis append_take_drop_id concat_append map_append)
  then have AB: "set N = set A \<union> set B" "distinct (A @ B)" using d(1) by (metis set_append, simp)
  have lr: "nodes ?l = i # A" "nodes ?r = q # B" by (simp_all add: A_def B_def)
  have "i \<notin> set N" "q \<notin> insert i (set N)" using d(1) q(3) unfolding U by auto
  then have nn: "distinct (nodes ?l @ nodes ?r)" "set (nodes ?l @ nodes ?r) = insert q (insert i (set N))"
    using AB unfolding lr by auto
  have "ctx (b_node t') NO_NODE fs i" 
  proof -
    have "body (b_node t' j) = body (b_node t j)" if "j \<in> set (cnodes fs)" for j 
    proof -
      have "j \<noteq> i" "j \<notin> set N" "j \<in> U" using that d(3) unfolding U by blast+
      then show ?thesis using q(6) by simp
    qed
    then show ?thesis using cx ctx_cong [of fs "b_node t'" "b_node t"] by blast
  qed
  moreover have bl: "bal (b_height t - length fs) (BNode i (ts1 @ l # ts2) (ks1 @ ks2))" and bf: "bal (b_height t) (fill fs (fill1 f l))"
    using bal_fill [of "b_height t" fs "fill1 f l"] s' by (simp_all add: f)
  then have "bal (b_height t - length fs) (BNode i ts ks)" using s' by (auto simp: bal_node f ts_def ks_def)
  then have bb: "bal (b_height t - length fs) ?l" "bal (b_height t - length fs) ?r"
  proof -
    have "mid < length ks" using full by (simp add: mid_def ks_def)
    then show "bal (b_height t - length fs) ?l" "bal (b_height t - length fs) ?r"
      using bal_halves \<open>bal (b_height t - length fs) (BNode i ts ks)\<close> by blast+
  qed
  moreover have "bal (b_height t) (fill fs ?l)" using bal_fill_at [OF bf bb(1)] .
  moreover have "b_root t' = idx (fill fs ?l)"
    using s' q(8) by (cases fs rule: rev_cases) (auto simp: f)
  ultimately have facts: "ctx (b_node t') NO_NODE fs (idx ?l)" "bal (b_height t') (fill fs ?l)" "bal (b_height t' - length fs) ?r"
    "b_root t' = idx (fill fs ?l)" by (simp_all add: q(12))
  have su: "set (cnodes fs @ nodes ?l @ nodes ?r) = insert q U" using nn(2) unfolding U set_append by blast
  have "set (cnodes fs) \<inter> set (nodes ?l @ nodes ?r) = {}" 
  proof -
    have "q \<notin> set (cnodes fs)" using q(3) unfolding U by blast
    then show ?thesis using d(3) unfolding nn(2) by blast
  qed
  then have dd: "distinct (cnodes fs @ nodes ?l @ nodes ?r)" using nn(1) d(2) unfolding distinct_append by blast
  have "list_all frame_ok fs" using s' by simp
  then have "split_state L t' fs ?l ?r fl'" unfolding split_state_def su using q(2,4,5) dd facts by blast
  then show thesis
  proof (rule that [OF q(1)])
    show "same_leaves (set (cnodes (f # fs) @ nodes l @ nodes r)) t t'"
      using q(7,9-11) unfolding same_leaves_def U_def [symmetric] by blast
    show "set (cnodes (f # fs) @ nodes l @ nodes r) \<subseteq> set (cnodes fs @ nodes ?l @ nodes ?r)"
      unfolding su U_def by blast
  qed (use q(12,13) in simp_all)
qed

lemma child_slot_hole:
  assumes "irep M p i (map idx ts1 @ c # map idx ts2) ks" "length ks = length ts1 + length ts2" "c \<notin> set (map idx ts1)"
  shows "child_slot d (M i) c = length ts1"
proof -
  let ?cs = "map idx ts1 @ c # map idx ts2"
  have n: "n_len (M i) = length ts1 + length ts2" using assms(1,2) by (simp add: irep_def)
  have c: "child (M i) j = ?cs ! j" if "j < Suc (n_len (M i))" for j using that child_irep [OF assms(1), of j] n by simp
  have "find (\<lambda>j. child (M i) j = c) [0..<Suc (n_len (M i))] = Some (length ts1)"
  proof -
    have "child (M i) (length ts1) = c" using c [of "length ts1"] n by (simp add: nth_append)
    moreover have "child (M i) j \<noteq> c" if "j < length ts1" for j
      using c [of j] n that assms(3) by (auto simp: nth_append)
    ultimately show ?thesis unfolding find_Some_iff using n
      by (intro exI [of _ "length ts1"]) (auto simp: nth_upt simp del: upt_Suc)
  qed
  then show ?thesis by (simp add: child_slot_def)
qed

lemma split_state_room:
  fixes k :: 'k and ks1 :: "'k list"
  assumes s: "split_state L t (f # fs) l r fl" and f: "f = (i, ts1, ks1, ks2, ts2)" and room: "length (ks1 @ ks2) < INTERNAL_CAP L"
  defines "t' \<equiv> b_upd (idx r) (\<lambda>n. n\<lparr>n_parent := i\<rparr>) (internal_insert_at i (length ts1) k (idx r) t)"
    and "T \<equiv> fill fs (BNode i (ts1 @ l # r # ts2) (ks1 @ k # ks2))"
  shows "bstruct L t' T fl" "same_leaves (set (cnodes (f # fs) @ nodes l @ nodes r)) t t'" "b_height t' = b_height t"
proof -
  define U where "U = set (cnodes (f # fs) @ nodes l @ nodes r)"
  note s' = s [unfolded split_state_def, folded U_def]
  have len: "length ts1 = length ks1" "length ks2 = length ts2" using s' by (simp_all add: f frame_ok_def)
  have iU: "i \<in> U" "idx r \<in> U" by (simp_all add: U_def f)
  have d: "distinct (cnodes (f # fs) @ nodes l @ nodes r)" using s' by simp
  have ni: "idx r \<noteq> i" using d idx_in_nodes [of r] by (auto simp: f simp del: idx_in_nodes)
  have nb: "i < n_blocks t" "idx r < n_blocks t" "shaped L (b_node t i)" using s' barena_okD [of L t U fl] iU by auto
  let ?t1 = "internal_insert_at i (length ts1) k (idx r) t"
  have ir: "irep (b_node t) (hole_parent NO_NODE fs) i (map idx ts1 @ idx l # map idx ts2) (ks1 @ ks2)"
    and reps: "\<forall>s\<in>set (ts1 @ l # r # ts2). rep (b_node t) i s" and cx: "ctx (b_node t) NO_NODE fs i"
    using s' by (auto simp: f)
  have ir1: "irep (b_node ?t1) (hole_parent NO_NODE fs) i (map idx (ts1 @ l # r # ts2)) (ks1 @ k # ks2)"
    using internal_insert_at_irep [OF nb(1,3) ir, of "length ts1" k "idx r"] len room by (simp add: ins_at_def)
  have k1: "keeps {i} t ?t1" using nb by (intro internal_insert_at_keeps) simp_all
  have "n_parent (b_node t (idx r)) = i" using reps by (cases r) (auto simp: lrep_def irep_def)
  then have "(b_node ?t1 (idx r))\<lparr>n_parent := i\<rparr> = b_node ?t1 (idx r)" using keepsD(1) [OF k1, of "idx r"] ni by simp
  then have M: "b_node t' = b_node ?t1" using nb keepsD(9) [OF k1] by (simp add: t'_def b_node_upd)
  have eq: "body (b_node t' j) = body (b_node t j)" if "j \<noteq> i" for j using keepsD(1) [OF k1, of j] that by (simp add: M)
  have nod: "mset (nodes T) = mset (cnodes (f # fs) @ nodes l @ nodes r)" by (simp add: T_def mset_nodes_fill f)
  have ic: "i \<notin> set (cnodes fs)" "i \<notin> set (nodes s)" if "s \<in> set (ts1 @ l # r # ts2)" for s
    using d that by (auto simp: f)
  have "rep (b_node t') i s" if "s \<in> set (ts1 @ l # r # ts2)" for s
  proof -
    have "rep (b_node t') i s = rep (b_node t) i s" by (rule rep_cong) (metis eq ic(2) [OF that])
    then show ?thesis using reps that by blast
  qed
  moreover have "ctx (b_node t') NO_NODE fs i"
  proof -
    have "ctx (b_node t') NO_NODE fs i = ctx (b_node t) NO_NODE fs i" by (rule ctx_cong) (metis eq ic(1) [of l] in_set_conv_decomp)
    then show ?thesis using cx by simp
  qed
  ultimately have "rep (b_node t') NO_NODE T" using ir1 unfolding T_def by (simp add: rep_fill M)
  moreover have "barena_ok L t' (set (nodes T)) fl"
  proof -
    have "set (nodes T) = U" unfolding U_def by (metis nod set_mset_mset)
    then show ?thesis unfolding t'_def using s' iU by (auto intro!: barena_ok_updI internal_insert_at_ok simp: shaped_def)
  qed
  moreover have "distinct (nodes T)" using d mset_eq_imp_distinct_iff [OF nod] by simp
  moreover have hh: "b_height t' = b_height t" "b_root t' = b_root t" using keepsD [OF k1] by (simp_all add: t'_def)
  moreover have "bal (b_height t) T"
  proof -
    have "bal (b_height t) (fill fs (fill1 f l))" using s' by simp
    moreover have "bal (b_height t - length fs) (BNode i (ts1 @ l # r # ts2) (ks1 @ k # ks2))"
      using bal_fill [OF calculation] s' len by (auto simp: f bal_node)
    ultimately show ?thesis unfolding T_def by (rule bal_fill_at)
  qed
  moreover have "idx T = b_root t" using s' unfolding T_def by (cases fs rule: rev_cases) (auto simp: f)
  ultimately show "bstruct L t' T fl" "b_height t' = b_height t" by (simp_all add: bstruct_def)
  show "same_leaves (set (cnodes (f # fs) @ nodes l @ nodes r)) t t'"
    using keepsD [OF k1] by (simp add: same_leaves_def M) (simp add: t'_def)
qed

lemma fat_halves:
  assumes "\<forall>t\<in>set ts. fat t" "0 < m" "Suc m < length ks" "length ts = Suc (length ks)"
  shows "fat (BNode i (take (m + 1) ts) (take m ks))" "fat (BNode q (drop (m + 1) ts) (drop (m + 1) ks))"
  using assms by (auto dest: in_set_takeD in_set_dropD)

lemma concat_halves: "concat (map g (take n ts)) @ concat (map g (drop n ts)) = concat (map g ts)"
  by (metis append_take_drop_id concat_append map_append)

definition propagated ::
  "node_layout \<Rightarrow> ('k, 'v) btree \<Rightarrow> ('k, 'v) frame list \<Rightarrow> ('k, 'v) bt \<Rightarrow> 'k \<Rightarrow> ('k, 'v) bt \<Rightarrow> ('k, 'v) bt \<Rightarrow> ('k, 'v) btree \<Rightarrow> bool" where
  "propagated L t fs l k r T t' \<longleftrightarrow>
     (\<exists>fl. bstruct L t' T fl) \<and> seq T = spre fs @ seq l @ (k, False) # seq r @ spost fs \<and>
     lvs T = lpre fs @ lvs l @ lvs r @ lpost fs \<and> ents T = epre fs @ ents l @ ents r @ epost fs \<and>
     leaves l \<union> leaves r \<subseteq> leaves T \<and> (fat (fill fs l) \<and> fat r \<longrightarrow> fat T) \<and> same_leaves (set (cnodes fs @ nodes l @ nodes r)) t t' \<and>
     b_height t' \<le> Suc (b_height t)"

lemma propagate_correct:
  assumes "split_state L t fs l r fl" "a_len (b_arena t) + length fs < 2 ^ 31" "2 \<le> INTERNAL_CAP L"
  shows "\<exists>T. propagated L t fs l k r T (propagate_split_rev L (map frame_pos fs) k (idx r) t) \<and>
    propagate_split_lazy L (idx l) k (idx r) t = Some (propagate_split_rev L (map frame_pos fs) k (idx r) t)"
  using assms(1,2)
proof (induction fs arbitrary: t l r k fl)
  case Nil
  note s = Nil.prems(1) [unfolded split_state_def]
  have ok: "barena_ok L t (set (nodes l) \<union> set (nodes r)) fl" "distinct (nodes l @ nodes r)" using s by simp_all
  obtain q fl' where q: "bstruct L (grow_root L (idx l) k (idx r) t) (BNode q [l, r] [k]) fl'"
    "same_leaves (set (nodes l) \<union> set (nodes r)) t (grow_root L (idx l) k (idx r) t)"
    "b_height (grow_root L (idx l) k (idx r) t) = Suc (b_height t)"
    using grow_root_correct [OF ok(1) _ _ ok(2), of k thesis] s Nil.prems(2) assms(3) by auto
  have "n_parent (b_node t (idx l)) = NO_NODE" using s by (cases l) (auto simp: lrep_def irep_def)
  then have "propagate_split_lazy L (idx l) k (idx r) t = Some (grow_root L (idx l) k (idx r) t)"
    by (subst propagate_split_lazy.simps) simp
  then show ?case using q s by (intro exI [of _ "BNode q [l, r] [k]"]) (auto simp: propagated_def)
next
  case (Cons f fs)
  obtain i ts1 ks1 ks2 ts2 where f: "f = (i, ts1, ks1, ks2, ts2)" by (cases f)
  note s = Cons.prems(1) [unfolded split_state_def]
  let ?ts = "ts1 @ l # r # ts2" and ?ks = "ks1 @ k # ks2"
  have len: "length ts1 = length ks1" "length ks2 = length ts2" "list_all frame_ok fs" using s by (simp_all add: f frame_ok_def)
  have ir: "irep (b_node t) (hole_parent NO_NODE fs) i (map idx ts1 @ idx l # map idx ts2) (ks1 @ ks2)" using s by (simp add: f)
  have nl: "n_len (b_node t i) = length (ks1 @ ks2)" using ir by (simp add: irep_def)
  have iU: "i \<noteq> NO_NODE" "shaped L (b_node t i)"
    using s barena_okD(2,3) [of L t "set (cnodes (f # fs) @ nodes l @ nodes r)" fl i] by (simp_all add: f)
  have cap: "length (ks1 @ ks2) \<le> INTERNAL_CAP L" by (rule irep_cap [OF ir iU(2)])
  have par: "n_parent (b_node t (idx l)) = i" using s by (cases l) (auto simp: lrep_def irep_def f)
  have "idx l \<notin> set (map idx ts1)"
  proof -
    have "distinct (concat (map nodes ts1) @ nodes l)" using s by (auto simp: f)
    then show ?thesis using idx_in_siblings [of ts1] idx_in_nodes [of l] unfolding distinct_append set_map by blast
  qed
  then have slot: "child_slot d (b_node t i) (idx l) = length ts1" for d
    using child_slot_hole [OF ir] len by simp
  have fp: "frame_pos f = (i, length ts1)" by (simp add: f frame_pos_def)
  show ?case
  proof (cases "length (ks1 @ ks2) < INTERNAL_CAP L")
    case True
    note r = split_state_room [OF Cons.prems(1) f True, of k]
    let ?t = "b_upd (idx r) (\<lambda>n. n\<lparr>n_parent := i\<rparr>) (internal_insert_at i (length ts1) k (idx r) t)"
    have "propagate_split_rev L (map frame_pos (f # fs)) k (idx r) t = ?t" using True nl by (simp add: fp)
    moreover have "propagate_split_lazy L (idx l) k (idx r) t = Some ?t"
      using True nl iU(1) slot by (subst propagate_split_lazy.simps) (simp add: par Let_def)
    moreover have "fat (fill fs (BNode i ?ts ?ks))" if "fat (fill (f # fs) l)" "fat r"
    proof -
      have "fat (fill fs (fill1 f l))" using that(1) by simp
      moreover from fat_fill [OF this] have "fat (BNode i ?ts ?ks)" using that(2) by (auto simp: f)
      ultimately show ?thesis by (rule fat_fill_replace)
    qed
    moreover have "seq (fill fs (BNode i ?ts ?ks)) = spre (f # fs) @ seq l @ (k, False) # seq r @ spost (f # fs)"
      using len seq_overfull [OF len(1,2)] by (simp add: seq_fill f del: seq.simps)
    moreover have "leaves l \<union> leaves r \<subseteq> leaves (fill fs (BNode i ?ts ?ks))"
      using leaves_fill [of "BNode i ?ts ?ks" fs] by auto
    ultimately show ?thesis using r
      by (intro exI [of _ "fill fs (BNode i ?ts ?ks)"]) (auto simp: propagated_def lvs_fill ents_fill f)
  next
    case False
    then have full: "length (ks1 @ ks2) = INTERNAL_CAP L" using cap by simp
    define mid where "mid = INTERNAL_CAP L div 2"
    have mid: "0 < mid" "Suc mid < length ?ks" "length ?ts = Suc (length ?ks)" using full assms(3) len by (auto simp: mid_def)
    obtain q t' fl' where q: "internal_split_and_insert L i (length ts1) k (idx r) t = ((?ks ! mid, q), t')"
      "split_state L t' fs (BNode i (take (mid + 1) ?ts) (take mid ?ks)) (BNode q (drop (mid + 1) ?ts) (drop (mid + 1) ?ks)) fl'"
      "same_leaves (set (cnodes (f # fs) @ nodes l @ nodes r)) t t'" "b_height t' = b_height t"
      "set (cnodes (f # fs) @ nodes l @ nodes r) \<subseteq>
        set (cnodes fs @ nodes (BNode i (take (mid + 1) ?ts) (take mid ?ks)) @ nodes (BNode q (drop (mid + 1) ?ts) (drop (mid + 1) ?ks)))"
      "a_len (b_arena t') \<le> a_len (b_arena t) + 1"
      by (rule split_state_step [OF Cons.prems(1) f full, of k, folded mid_def]) (use Cons.prems(2) in auto)
    let ?l = "BNode i (take (mid + 1) ?ts) (take mid ?ks)" and ?r = "BNode q (drop (mid + 1) ?ts) (drop (mid + 1) ?ks)"
    let ?u = "propagate_split_rev L (map frame_pos fs) (?ks ! mid) q t'"
    obtain T where T: "propagated L t' fs ?l (?ks ! mid) ?r T ?u" "propagate_split_lazy L i (?ks ! mid) q t' = Some ?u"
      using Cons.IH [OF q(2), of "?ks ! mid"] q(6) Cons.prems(2) by auto
    have "propagate_split_rev L (map frame_pos (f # fs)) k (idx r) t = ?u" using full nl q(1) by (simp add: fp)
    moreover have "propagate_split_lazy L (idx l) k (idx r) t = Some ?u"
      using full nl iU(1) slot q(1) T(2) by (subst propagate_split_lazy.simps) (simp add: par Let_def)
    moreover have "propagated L t (f # fs) l k r T ?u"
    proof -
      have "fat T" if "fat (fill (f # fs) l)" "fat r"
      proof -
        have ff: "fat (fill fs (fill1 f l))" using that(1) by simp
        from fat_fill [OF ff] have "\<forall>t\<in>set ?ts. fat t" using that(2) by (auto simp: f)
        note h = fat_halves [OF this mid]
        show ?thesis using T(1) fat_fill_replace [OF ff h(1)] h(2) by (simp add: propagated_def)
      qed
      moreover have "seq T = spre (f # fs) @ seq l @ (k, False) # seq r @ spost (f # fs)"
        using T(1) seq_halves [OF mid(3), of mid i q] seq_overfull [OF len(1,2), of i l r k] mid(2)
        by (simp add: propagated_def f del: seq.simps)
      moreover have "lvs T = lpre (f # fs) @ lvs l @ lvs r @ lpost (f # fs)"
        using T(1) concat_halves [of lvs "mid + 1" ?ts] by (simp add: propagated_def f)
      moreover have "ents T = epre (f # fs) @ ents l @ ents r @ epost (f # fs)"
        using T(1) concat_halves [of ents "mid + 1" ?ts] by (simp add: propagated_def f)
      moreover have "same_leaves (set (cnodes (f # fs) @ nodes l @ nodes r)) t ?u"
        using T(1) same_leaves_trans [OF q(3) _ q(5)] by (simp add: propagated_def del: cnodes.simps nodes.simps)
      moreover have "leaves l \<union> leaves r \<subseteq> leaves T"
      proof -
        have "leaves l \<union> leaves r \<subseteq> (\<Union>u\<in>set (take (mid + 1) ?ts @ drop (mid + 1) ?ts). leaves u)"
          unfolding append_take_drop_id by auto
        also have "\<dots> = leaves ?l \<union> leaves ?r" unfolding set_append UN_Un leaves.simps ..
        also have "\<dots> \<subseteq> leaves T" using T(1) unfolding propagated_def by blast
        finally show ?thesis .
      qed
      moreover have "\<exists>fl. bstruct L ?u T fl" "b_height ?u \<le> Suc (b_height t)" using T(1) q(4) by (simp_all add: propagated_def)
      ultimately show ?thesis unfolding propagated_def by blast
    qed
    ultimately show ?thesis by auto
  qed
qed

end
