(* ===== verification/Btree_Put.thy ===== *)
theory Btree_Put
  imports Btree_Propagate
begin

text \<open>
  Insertion as a whole: the path to a leaf, the insertion into a leaf with room or a full one,
  and the three ways \<^verbatim>\<open>insert\<close> finds the leaf. The result is the updated map.
\<close>

section \<open>Paths and end leaves\<close>

lemma path_up_correct:
  assumes "rep (b_node t) NO_NODE (fill fs l)" "list_all frame_ok fs" "distinct (nodes (fill fs l))"
    "NO_NODE \<notin> set (cnodes fs)" "length path + length fs \<le> MAX_PATH_HEIGHT"
  shows "path_up t (idx l) path = Some (Inr (path @ map frame_pos fs))"
  using assms
proof (induction fs arbitrary: l path)
  case Nil
  then have "n_parent (b_node t (idx l)) = NO_NODE" by (cases l) (auto simp: lrep_def irep_def)
  then show ?case by (subst path_up.simps) simp
next
  case (Cons f fs)
  obtain i ts1 ks1 ks2 ts2 where f: "f = (i, ts1, ks1, ks2, ts2)" by (cases f)
  have r: "ctx (b_node t) NO_NODE (f # fs) (idx l)" "rep (b_node t) i l"
    using Cons.prems(1) rep_fill [of "b_node t" NO_NODE "f # fs" l] by (simp_all add: f)
  have len: "length ts1 = length ks1" "length ks2 = length ts2" using Cons.prems(2) by (simp_all add: f frame_ok_def)
  have ir: "irep (b_node t) (hole_parent NO_NODE fs) i (map idx ts1 @ idx l # map idx ts2) (ks1 @ ks2)" using r(1) by (simp add: f)
  have par: "n_parent (b_node t (idx l)) = i" using r(2) by (cases l) (auto simp: lrep_def irep_def)
  have "idx l \<notin> set (map idx ts1)"
  proof -
    have "distinct (concat (map nodes ts1) @ nodes l)"
      using Cons.prems(3) distinct_nodes_fill [of "f # fs" l] by (auto simp: f)
    then show ?thesis using idx_in_siblings [of ts1] idx_in_nodes [of l] unfolding distinct_append set_map by blast
  qed
  then have slot: "child_slot d (b_node t i) (idx l) = length ts1" for d
    using child_slot_hole [OF ir] len by simp
  have "path_up t (idx (fill1 f l)) (path @ [(i, length ts1)]) = Some (Inr ((path @ [(i, length ts1)]) @ map frame_pos fs))"
    by (rule Cons.IH) (use Cons.prems in \<open>auto simp: f\<close>)
  moreover have "i \<noteq> NO_NODE" using Cons.prems(4) by (auto simp: f)
  ultimately show ?case using Cons.prems(5) slot
    by (subst path_up.simps) (simp add: par Let_def path_push_def f frame_pos_def)
qed

lemma leftmost:
  "bal h T \<Longrightarrow> \<exists>fs i kvs. T = fill fs (BLeaf i kvs) \<and> list_all frame_ok fs \<and> length fs = h \<and> spre fs = [] \<and> lpre fs = [] \<and> epre fs = []"
proof (induction h arbitrary: T)
  case 0
  then obtain i kvs where "T = BLeaf i kvs" by (cases T) auto
  then show ?case by (intro exI [of _ "[]"]) simp
next
  case (Suc h)
  then obtain i t ts ks where T: "T = BNode i (t # ts) ks" "length ks = length ts" "bal h t"
    by (cases T) (auto simp: length_Suc_conv)
  then obtain fs j kvs where IH: "t = fill fs (BLeaf j kvs)" "list_all frame_ok fs" "length fs = h" "spre fs = []" "lpre fs = []" "epre fs = []"
    using Suc.IH by blast
  have "lpre (fs @ [f]) = lpre [f] @ lpre fs" "epre (fs @ [f]) = epre [f] @ epre fs" for f :: "('a, 'b) frame"
    by (induction fs) simp_all
  then show ?case using T IH by (intro exI [of _ "fs @ [(i, [], [], ks, ts)]"] exI [of _ j] exI [of _ kvs]) simp
qed

lemma rightmost:
  "bal h T \<Longrightarrow> \<exists>fs i kvs. T = fill fs (BLeaf i kvs) \<and> list_all frame_ok fs \<and> length fs = h \<and> spost fs = [] \<and> lpost fs = [] \<and> epost fs = []"
proof (induction h arbitrary: T)
  case 0
  then obtain i kvs where "T = BLeaf i kvs" by (cases T) auto
  then show ?case by (intro exI [of _ "[]"]) simp
next
  case (Suc h)
  then obtain i ts0 ks where T0: "T = BNode i ts0 ks" "length ts0 = Suc (length ks)" "\<forall>t\<in>set ts0. bal h t"
    by (cases T) auto
  then obtain ts t where ts: "ts0 = ts @ [t]" by (cases ts0 rule: rev_cases) auto
  have T: "length ks = length ts" "bal h t" using T0 by (auto simp: ts)
  then obtain fs j kvs where IH: "t = fill fs (BLeaf j kvs)" "list_all frame_ok fs" "length fs = h" "spost fs = []" "lpost fs = []" "epost fs = []"
    using Suc.IH by blast
  have "lpost (fs @ [f]) = lpost fs @ lpost [f]" "epost (fs @ [f]) = epost fs @ epost [f]" for f :: "('a, 'b) frame"
    by (induction fs) simp_all
  then show ?case using T T0 ts IH by (intro exI [of _ "fs @ [(i, ts, ks, [], [])]"] exI [of _ j] exI [of _ kvs]) simp
qed

section \<open>A leaf with room and a full leaf\<close>

abbreviation kseq :: "('k \<times> 'v) list \<Rightarrow> ('k \<times> bool) list" where
  "kseq kvs \<equiv> map (\<lambda>kv. (fst kv, True)) kvs"

lemma leaf_room_insert:
  assumes b: "brep L t (fill fs (BLeaf i kvs)) fl" and fs: "list_all frame_ok fs"
    and len: "length kvs < LEAF_CAP L" "pos \<le> length kvs"
    and srt: "sorted_wrt (<) (spre fs @ kseq (ins_at pos (key, v) kvs) @ spost fs)"
  defines "t1 \<equiv> leaf_insert_at i pos key v t"
  shows "brep L (t1\<lparr>b_len := b_len t1 + 1\<rparr>) (fill fs (BLeaf i (ins_at pos (key, v) kvs))) fl"
proof -
  note d = brepD [OF b]
  have i: "i \<in> set (nodes (fill fs (BLeaf i kvs)))" by (simp add: set_nodes_fill)
  note n = barena_okD [OF d(1) i]
  have l: "lrep (b_node t) (hole_parent NO_NODE fs) i kvs" using d(3) by (simp add: rep_fill)
  show ?thesis
    by (rule brep_leaf_update [OF b fs, where kvs' = "ins_at pos (key, v) kvs"])
      (use srt len leaf_insert_at_lrep [OF n(1,3) l len] leaf_insert_at_ok [OF d(1) i] leaf_insert_at_frame [OF n(1)]
        in \<open>simp_all add: t1_def\<close>)
qed

lemma sorted_separator:
  fixes xs ys zs :: "('k::linorder \<times> bool) list"
  assumes "sorted_wrt (<) (xs @ kseq (as @ b # bs) @ zs)" "as \<noteq> []"
  shows "sorted_wrt (<) (xs @ kseq as @ (fst b, False) # kseq (b # bs) @ zs)"
proof -
  have a: "x < (fst b, False)" if "x \<in> set (xs @ kseq as)" for x
  proof -
    have k: "(fst a, True) < (fst b, False)" if "a \<in> set as" for a
      using assms(1) that by (auto simp: sorted_wrt_append less_prod_def)
    obtain a where a: "a \<in> set as" using assms(2) by (cases as) auto
    then have "x \<in> set xs \<Longrightarrow> x < (fst a, True)" using assms(1) by (auto simp: sorted_wrt_append)
    moreover have "\<exists>a\<in>set as. x = (fst a, True)" if "x \<notin> set xs" using that \<open>x \<in> set (xs @ kseq as)\<close> by auto
    ultimately show ?thesis using k a by (metis less_trans)
  qed
  have "(fst b, False) < x" if "x \<in> set (kseq (b # bs) @ zs)" for x
  proof -
    have "sorted_wrt (<) (kseq (b # bs) @ zs)" using assms(1) by (simp add: sorted_wrt_append)
    then have "x = (fst b, True) \<or> (fst b, True) < x" using that by auto
    moreover have "(fst b, False) < (fst b, True)" by simp
    ultimately show ?thesis by (metis less_trans)
  qed
  then show ?thesis using assms(1) a by (auto simp: sorted_wrt_append)
qed

lemma leaf_full_insert:
  assumes b: "brep L t (fill fs (BLeaf i kvs)) fl" and fs: "list_all frame_ok fs" "length fs = b_height t"
    and len: "length kvs = LEAF_CAP L" "pos \<le> length kvs" and cap: "assert_capacities L"
    and room: "a_len (b_arena t) + b_height t + 1 < 2 ^ 31"
    and srt: "sorted_wrt (<) (spre fs @ kseq (ins_at pos (key, v) kvs) @ spost fs)"
  shows "\<exists>T fl' promoted r t1. brep L (split_path L i pos key v (rev (map frame_pos fs)) t) T fl' \<and>
    ents T = epre fs @ ins_at pos (key, v) kvs @ epost fs \<and> (fat (fill fs (BLeaf i kvs)) \<longrightarrow> fat T) \<and>
    b_height (split_path L i pos key v (rev (map frame_pos fs)) t) \<le> Suc (b_height t) \<and>
    leaf_split_and_insert L i pos key v t = ((promoted, r), t1) \<and>
    {(i, take ((LEAF_CAP L + 1) div 2) (ins_at pos (key, v) kvs)), (r, drop ((LEAF_CAP L + 1) div 2) (ins_at pos (key, v) kvs))} \<subseteq> leaves T \<and>
    propagate_split_lazy L i promoted r (t1\<lparr>b_len := b_len t1 + 1\<rparr>) = Some (split_path L i pos key v (rev (map frame_pos fs)) t)"
proof -
  let ?U = "set (nodes (fill fs (BLeaf i kvs)))" and ?all = "ins_at pos (key, v) kvs"
  define mid where "mid = (LEAF_CAP L + 1) div 2"
  note d = brepD [OF b]
  have i: "i \<in> ?U" by (simp add: set_nodes_fill)
  have l: "lrep (b_node t) (hole_parent NO_NODE fs) i kvs" and cx: "ctx (b_node t) NO_NODE fs i"
    using d(3) by (simp_all add: rep_fill)
  have caps: "1 \<le> LEAF_CAP L" "2 \<le> INTERNAL_CAP L" using cap by (simp_all add: assert_capacities_def)
  have lv: "lvs (fill fs (BLeaf i kvs)) = lpre fs @ i # lpost fs" by (simp add: lvs_fill)
  have dl: "distinct (lpre fs @ i # lpost fs)" "set (lpre fs @ i # lpost fs) \<subseteq> ?U"
    using distinct_lvs [OF d(6)] lvs_subset [of "fill fs (BLeaf i kvs)"] by (simp_all add: lvs_fill)
  obtain r t1 fl' where r: "leaf_split_and_insert L i pos key v t = ((fst (?all ! mid), r), t1)"
    "barena_ok L t1 (insert r ?U) fl'" "r \<notin> ?U"
    "lrep (b_node t1) (hole_parent NO_NODE fs) i (take mid ?all)" "lrep (b_node t1) (hole_parent NO_NODE fs) r (drop mid ?all)"
    "\<And>j. j \<in> ?U \<Longrightarrow> j \<noteq> i \<Longrightarrow> body (b_node t1 j) = body (b_node t j)"
    "dseg (b_node t1) NO_NODE (lpre fs @ i # r # lpost fs) NO_NODE" "b_last_leaf t1 = last (lpre fs @ i # r # lpost fs)"
    "b_root t1 = b_root t" "b_first_leaf t1 = b_first_leaf t" "b_len t1 = b_len t" "b_height t1 = b_height t"
    "a_len (b_arena t1) \<le> a_len (b_arena t) + 1"
    by (rule leaf_split_correct [OF d(1) _ i l len(1) caps(1) len(2) _ dl, folded mid_def])
      (use d(7,9) room lv in auto)
  define t2 where "t2 = t1\<lparr>b_len := b_len t1 + 1\<rparr>"
  let ?l = "BLeaf i (take mid ?all)" and ?r = "BLeaf r (drop mid ?all)"
  have dn: "distinct (cnodes fs @ [i])" using d(6) by (simp add: distinct_nodes_fill)
  have U: "?U = insert i (set (cnodes fs))" by (auto simp: set_nodes_fill)
  have "ctx (b_node t1) NO_NODE fs i"
  proof -
    have "ctx (b_node t1) NO_NODE fs i = ctx (b_node t) NO_NODE fs i"
      by (rule ctx_cong) (use dn r(6) U in auto)
    then show ?thesis using cx by simp
  qed
  moreover have "bal (b_height t) (fill fs ?l)" using d(4) by (rule bal_fill_replace) simp
  moreover have "b_root t1 = idx (fill fs ?l)" using d(2) r(9) by (cases fs rule: rev_cases) auto
  ultimately have st: "split_state L t2 fs ?l ?r fl'"
    unfolding split_state_def using r fs dn U by (auto simp: t2_def insert_commute)
  obtain T where T: "propagated L t2 fs ?l (fst (?all ! mid)) ?r T (propagate_split_rev L (map frame_pos fs) (fst (?all ! mid)) r t2)"
    "propagate_split_lazy L i (fst (?all ! mid)) r t2 = Some (propagate_split_rev L (map frame_pos fs) (fst (?all ! mid)) r t2)"
    using propagate_correct [OF st _ caps(2), of "fst (?all ! mid)"] room fs(2) r(13) by (auto simp: t2_def)
  define t' where "t' = split_path L i pos key v (rev (map frame_pos fs)) t"
  have t': "t' = propagate_split_rev L (map frame_pos fs) (fst (?all ! mid)) r t2"
    by (simp add: t'_def split_path_def r(1) propagate_split_def t2_def Let_def)
  note T' = T(1) [folded t', unfolded propagated_def]
  obtain fl'' where bs: "bstruct L t' T fl''" using T' by blast
  have m: "0 < mid" "mid < length ?all" using caps len by (auto simp: mid_def)
  have all: "?all = take mid ?all @ ?all ! mid # drop (Suc mid) ?all" using m(2) by (rule id_take_nth_drop)
  have dr: "drop mid ?all = ?all ! mid # drop (Suc mid) ?all" using m(2) by (rule Cons_nth_drop_Suc [symmetric])
  have "sorted_wrt (<) (seq T)"
  proof -
    have "seq T = spre fs @ kseq (take mid ?all) @ (fst (?all ! mid), False) # kseq (?all ! mid # drop (Suc mid) ?all) @ spost fs"
      using T' dr by simp
    then show ?thesis 
      using sorted_separator [of "spre fs" "take mid ?all" "?all ! mid" "drop (Suc mid) ?all" "spost fs"] srt m
      unfolding all [symmetric] by (cases ?all) auto
  qed
  moreover have "lvs T = lpre fs @ i # r # lpost fs" using T' by simp
  moreover have "dseg (b_node t') NO_NODE (lpre fs @ i # r # lpost fs) NO_NODE"
  proof -
    have sub: "set (lpre fs @ i # r # lpost fs) \<subseteq> set (cnodes fs @ nodes ?l @ nodes ?r)" using dl(2) U by auto
    have "dseg (b_node t') NO_NODE (lpre fs @ i # r # lpost fs) NO_NODE = dseg (b_node t2) NO_NODE (lpre fs @ i # r # lpost fs) NO_NODE"
      by (rule dseg_cong) (use T' sub in \<open>auto simp: same_leaves_def\<close>)
    then show ?thesis using r(7) by (simp add: t2_def)
  qed
  moreover have "ents T = epre fs @ ?all @ epost fs" using T' by simp
  moreover have "b_first_leaf t' = hd (lvs T)"
    using T' r(10) d(8) lv by (cases "lpre fs") (auto simp: same_leaves_def t2_def)
  moreover have "b_last_leaf t' = last (lvs T)" "b_len t' = Suc (b_len t)" using T' r(8,11) by (auto simp: same_leaves_def t2_def)
  moreover have "b_len t = length (epre fs @ kvs @ epost fs)" using d(10) by (simp add: ents_fill)
  ultimately have "brep L t' T fl''" using bs len by (simp add: brep_def bstruct_def)
  moreover have "fat (fill fs (BLeaf i kvs)) \<longrightarrow> fat T" using T' fat_fill_replace [of fs "BLeaf i kvs" ?l] by auto
  moreover have "b_height t' \<le> Suc (b_height t)" using T' r(12) by (simp add: t2_def)
  moreover have "{(i, take mid ?all), (r, drop mid ?all)} \<subseteq> leaves T" using T' by simp
  ultimately show ?thesis unfolding t'_def [symmetric] mid_def [symmetric]
    using \<open>ents T = epre fs @ ?all @ epost fs\<close> r(1) T(2) t' by (auto simp: t2_def)
qed

section \<open>The map after an insertion\<close>

lemma sorted_key_once:
  fixes key :: "'k::linorder"
  assumes "sorted_wrt (<) (map fst (xs @ (key, w) # ys))"
  shows "key \<notin> fst ` set xs" "key \<notin> fst ` set ys"
proof -
  have "distinct (map fst (xs @ (key, w) # ys))" using assms by (simp only: strict_sorted_iff)
  then show "key \<notin> fst ` set xs" "key \<notin> fst ` set ys" by simp_all
qed

lemma map_of_middle:
  "key \<notin> fst ` set xs \<Longrightarrow> map_of (xs @ (key, w) # ys) = (map_of (xs @ ys))(key \<mapsto> w)"
  by (induction xs) auto

lemma map_of_insert_at:
  fixes key :: "'k::linorder"
  assumes "sorted_wrt (<) (map fst (xs @ ins_at pos (key, v) kvs @ ys))"
  shows "map_of (xs @ ins_at pos (key, v) kvs @ ys) = (map_of (xs @ kvs @ ys))(key \<mapsto> v)"
    "key \<notin> fst ` set (xs @ kvs @ ys)"
proof -
  have split: "xs @ kvs @ ys = (xs @ take pos kvs) @ drop pos kvs @ ys" by simp
  have e: "xs @ ins_at pos (key, v) kvs @ ys = (xs @ take pos kvs) @ (key, v) # drop pos kvs @ ys" by (simp add: ins_at_def)
  have s: "sorted_wrt (<) (map fst ((xs @ take pos kvs) @ (key, v) # drop pos kvs @ ys))" using assms unfolding e .
  then have n: "key \<notin> fst ` set (xs @ take pos kvs)" "key \<notin> fst ` set (drop pos kvs @ ys)"
    by (rule sorted_key_once)+
  then show "key \<notin> fst ` set (xs @ kvs @ ys)" unfolding split set_append image_Un Un_iff by blast
  have "map_of ((xs @ take pos kvs) @ (key, v) # drop pos kvs @ ys) = (map_of ((xs @ take pos kvs) @ drop pos kvs @ ys))(key \<mapsto> v)"
    using n(1) by (rule map_of_middle)
  then show "map_of (xs @ ins_at pos (key, v) kvs @ ys) = (map_of (xs @ kvs @ ys))(key \<mapsto> v)"
    unfolding e split .
qed

lemma map_of_update_at:
  fixes key :: "'k::linorder"
  assumes "sorted_wrt (<) (map fst (xs @ kvs @ ys))" "pos < length kvs" "fst (kvs ! pos) = key"
  shows "map_of (xs @ kvs[pos := (key, v)] @ ys) = (map_of (xs @ kvs @ ys))(key \<mapsto> v)"
    "map_of (xs @ kvs @ ys) key = Some (snd (kvs ! pos))"
proof -
  have k: "kvs = take pos kvs @ (key, snd (kvs ! pos)) # drop (Suc pos) kvs"
    using id_take_nth_drop [OF assms(2)] assms(3) by (metis prod.collapse)
  have e: "kvs[pos := (key, v)] = take pos kvs @ (key, v) # drop (Suc pos) kvs" using assms(2) by (simp add: upd_conv_take_nth_drop)
  have "sorted_wrt (<) (map fst ((xs @ take pos kvs) @ (key, snd (kvs ! pos)) # drop (Suc pos) kvs @ ys))"
    using assms(1) k by (metis append.assoc append_Cons)
  then have n: "key \<notin> fst ` set (xs @ take pos kvs)" "key \<notin> fst ` set (drop (Suc pos) kvs @ ys)"
    by (rule sorted_key_once)+
  have *: "map_of ((xs @ take pos kvs) @ (key, w) # drop (Suc pos) kvs @ ys) = (map_of ((xs @ take pos kvs) @ drop (Suc pos) kvs @ ys))(key \<mapsto> w)" for w
    using n(1) by (rule map_of_middle)
  have a: "xs @ kvs @ ys = (xs @ take pos kvs) @ (key, snd (kvs ! pos)) # drop (Suc pos) kvs @ ys" using k by (metis append.assoc append_Cons)
  have b: "xs @ kvs[pos := (key, v)] @ ys = (xs @ take pos kvs) @ (key, v) # drop (Suc pos) kvs @ ys" unfolding e by simp
  show "map_of (xs @ kvs[pos := (key, v)] @ ys) = (map_of (xs @ kvs @ ys))(key \<mapsto> v)"
    unfolding a b * by simp
  show "map_of (xs @ kvs @ ys) key = Some (snd (kvs ! pos))" unfolding a * by simp
qed

section \<open>Insertion\<close>

definition binv :: "node_layout \<Rightarrow> ('k::linorder, 'v) btree \<Rightarrow> bool" where
  "binv L t \<longleftrightarrow> (\<exists>fl. bempty L t fl) \<or> (\<exists>T fl. brep L t T fl \<and> fat T)"

text \<open>One more entry at a position of a leaf.\<close>

definition put_at ::
  "node_layout \<Rightarrow> ('k::linorder, 'v) bt \<Rightarrow> ('k, 'v) frame list \<Rightarrow> nat \<Rightarrow> 'k \<Rightarrow> 'v \<Rightarrow> ('k \<times> 'v) list \<Rightarrow> ('k, 'v) btree \<Rightarrow> bool" where
  "put_at L T fs pos key v kvs t' \<longleftrightarrow>
     (\<exists>T' fl'. brep L t' T' fl' \<and> (fat T \<longrightarrow> fat T') \<and> ents T' = epre fs @ ins_at pos (key, v) kvs @ epost fs)"

lemma put_room:
  assumes "brep L t (fill fs (BLeaf i kvs)) fl" "list_all frame_ok fs" "length kvs < LEAF_CAP L" "pos \<le> length kvs"
    "sorted_wrt (<) (spre fs @ kseq (ins_at pos (key, v) kvs) @ spost fs)"
  shows "put_at L (fill fs (BLeaf i kvs)) fs pos key v kvs
    ((leaf_insert_at i pos key v t)\<lparr>b_len := b_len (leaf_insert_at i pos key v t) + 1\<rparr>)"
proof -
  have "fat (fill fs (BLeaf i kvs)) \<longrightarrow> fat (fill fs (BLeaf i (ins_at pos (key, v) kvs)))"
    using fat_fill_replace [of fs "BLeaf i kvs" "BLeaf i (ins_at pos (key, v) kvs)"] by auto
  then show ?thesis unfolding put_at_def
    by (intro exI conjI) (rule leaf_room_insert [OF assms], simp_all add: ents_fill)
qed

lemma put_full:
  assumes "brep L t (fill fs (BLeaf i kvs)) fl" "list_all frame_ok fs" "length fs = b_height t" "length kvs = LEAF_CAP L" "pos \<le> length kvs"
    "assert_capacities L" "a_len (b_arena t) + b_height t + 1 < 2 ^ 31"
    "sorted_wrt (<) (spre fs @ kseq (ins_at pos (key, v) kvs) @ spost fs)"
  shows "put_at L (fill fs (BLeaf i kvs)) fs pos key v kvs (split_path L i pos key v (rev (map frame_pos fs)) t)"
  using leaf_full_insert [OF assms] unfolding put_at_def by blast

lemma path_to_leaf:
  assumes "brep L t (fill fs (BLeaf i kvs)) fl" "list_all frame_ok fs" "length fs = b_height t" "b_height t \<le> MAX_PATH_HEIGHT"
  shows "path_to_node t i = Some (Inr (rev (map frame_pos fs)))"
proof -
  note d = brepD [OF assms(1)]
  have "NO_NODE \<notin> set (cnodes fs)"
    using barena_okD(2) [OF d(1), of NO_NODE] by (auto simp: set_nodes_fill)
  then have "path_up t i [] = Some (Inr (map frame_pos fs))"
    using path_up_correct [of t fs "BLeaf i kvs" "[]"] d(3,6) assms(2-4) by simp
  then show ?thesis by (simp add: path_to_node_def)
qed

lemma ins_at_ends [simp]: "ins_at (length xs) x xs = xs @ [x]" "ins_at 0 x xs = x # xs"
  by (simp_all add: ins_at_def)

lemma b_upd_cong: "f (b_node t i) = g (b_node t i) \<Longrightarrow> b_upd i f t = b_upd i g t"
  by (simp add: b_upd_def upd_node_def b_node_def)

lemma insert_append_put:
  assumes b: "brep L t T fl" and caps: "assert_capacities L" "a_len (b_arena t) + b_height t + 1 < 2 ^ 31" "b_height t \<le> MAX_PATH_HEIGHT"
    and key: "0 < n_len (b_node t (b_last_leaf t))" "lkey (b_node t (b_last_leaf t)) (n_len (b_node t (b_last_leaf t)) - 1) < key"
  shows "\<exists>fs pos kvs t'. insert_append L key v t = Some (Inr t') \<and> put_at L T fs pos key v kvs t' \<and> ents T = epre fs @ kvs @ epost fs"
proof -
  note d = brepD [OF b]
  obtain fs i kvs where T: "T = fill fs (BLeaf i kvs)" "list_all frame_ok fs" "length fs = b_height t" "spost fs = []" "lpost fs = []"
    using rightmost [OF d(4)] by blast
  have last: "b_last_leaf t = i" using d(9) T by (simp add: lvs_fill)
  have l: "lrep (b_node t) (hole_parent NO_NODE fs) i kvs" using d(3) T(1) by (simp add: rep_fill)
  have n: "n_len (b_node t i) = length kvs" "kvs \<noteq> []" using l key(1) last by (auto simp: lrep_def)
  have "lkey (b_node t i) (length kvs - 1) = fst (last kvs)" using lkey_lrep [OF l, of "length kvs - 1"] n(2) by (simp add: last_conv_nth)
  then have lk: "(fst (last kvs), True) < (key, True)" using key(2) last n by (simp add: less_prod_def)
  have sq: "sorted_wrt (<) (spre fs @ kseq kvs)" using d(5) T by (simp add: seq_fill)
  have "kvs = butlast kvs @ [last kvs]" using n(2) by simp
  then have ks: "kseq kvs = kseq (butlast kvs) @ [(fst (last kvs), True)]" by (metis (mono_tags, lifting) list.simps(8,9) map_append)
  have "x \<le> (fst (last kvs), True)" if "x \<in> set (spre fs @ kseq kvs)" for x
    using sq that unfolding ks by (auto simp: sorted_wrt_append)
  then have "x < (key, True)" if "x \<in> set (spre fs @ kseq kvs)" for x using that lk by (meson le_less_trans)
  then have srt: "sorted_wrt (<) (spre fs @ kseq (ins_at (length kvs) (key, v) kvs) @ spost fs)"
    using sq T(4) by (auto simp: sorted_wrt_append)
  have cap: "length kvs \<le> LEAF_CAP L"
    using lrep_cap [OF l] barena_okD(3) [OF d(1), of i] T(1) by (simp add: set_nodes_fill)
  let ?t1 = "leaf_insert_at i (length kvs) key v t"
  have "\<exists>t'. insert_append L key v t = Some (Inr t') \<and> put_at L T fs (length kvs) key v kvs t'"
  proof (cases "length kvs < LEAF_CAP L")
    case True
    have "b_upd i (\<lambda>m. m\<lparr>n_lkeys := (n_lkeys m)[length kvs := Some key], n_vals := (n_vals m)[length kvs := Some v],
        n_len := length kvs + 1\<rparr>) t = ?t1"
      unfolding leaf_insert_at_def by (rule b_upd_cong) (simp add: n shift_right_def)
    then have "insert_append L key v t = Some (Inr (?t1\<lparr>b_len := b_len ?t1 + 1\<rparr>))"
      using True by (simp add: insert_append_def last n Let_def)
    then show ?thesis using put_room [OF b [unfolded T(1)] T(2) True le_refl srt] T(1) by blast
  next
    case False
    then have full: "length kvs = LEAF_CAP L" using cap by simp
    have "insert_append L key v t = Some (Inr (split_path L i (length kvs) key v (rev (map frame_pos fs)) t))"
      using False path_to_leaf [OF b [unfolded T(1)] T(2,3) caps(3)] by (simp add: insert_append_def last n Let_def)
    then show ?thesis using put_full [OF b [unfolded T(1)] T(2,3) full le_refl caps(1,2) srt] T(1) by blast
  qed
  then show ?thesis using T(1) by (metis ents_fill ents.simps(1))
qed

lemma insert_prepend_put:
  assumes b: "brep L t T fl" and caps: "assert_capacities L" "a_len (b_arena t) + b_height t + 1 < 2 ^ 31" "b_height t \<le> MAX_PATH_HEIGHT"
    and key: "0 < n_len (b_node t (b_first_leaf t))" "key < lkey (b_node t (b_first_leaf t)) 0"
  shows "\<exists>fs pos kvs t'. insert_prepend L key v t = Some (Inr t') \<and> put_at L T fs pos key v kvs t' \<and> ents T = epre fs @ kvs @ epost fs"
proof -
  note d = brepD [OF b]
  obtain fs i kvs where T: "T = fill fs (BLeaf i kvs)" "list_all frame_ok fs" "length fs = b_height t" "spre fs = []" "lpre fs = []"
    using leftmost [OF d(4)] by blast
  have first: "b_first_leaf t = i" using d(8) T by (simp add: lvs_fill)
  have l: "lrep (b_node t) (hole_parent NO_NODE fs) i kvs" using d(3) T(1) by (simp add: rep_fill)
  have n: "n_len (b_node t i) = length kvs" "kvs \<noteq> []" using l key(1) first by (auto simp: lrep_def)
  have "lkey (b_node t i) 0 = fst (hd kvs)" using lkey_lrep [OF l, of 0] n(2) by (simp add: hd_conv_nth)
  then have lk: "(key, True) < (fst (hd kvs), True)" using key(2) first by (simp add: less_prod_def)
  have sq: "sorted_wrt (<) (kseq kvs @ spost fs)" using d(5) T by (simp add: seq_fill)
  have ks: "kseq kvs = (fst (hd kvs), True) # kseq (tl kvs)" using n(2) by (cases kvs) auto
  have "(fst (hd kvs), True) \<le> x" if "x \<in> set (kseq kvs @ spost fs)" for x
    using sq that unfolding ks by (auto intro: less_imp_le)
  then have "(key, True) < x" if "x \<in> set (kseq kvs @ spost fs)" for x using that lk by (meson less_le_trans)
  then have srt: "sorted_wrt (<) (spre fs @ kseq (ins_at 0 (key, v) kvs) @ spost fs)"
    using sq T(4) by simp
  have cap: "length kvs \<le> LEAF_CAP L"
    using lrep_cap [OF l] barena_okD(3) [OF d(1), of i] T(1) by (simp add: set_nodes_fill)
  have "\<exists>t'. insert_prepend L key v t = Some (Inr t') \<and> put_at L T fs 0 key v kvs t'"
  proof (cases "length kvs < LEAF_CAP L")
    case True
    then show ?thesis using put_room [OF b [unfolded T(1)] T(2) True le0 srt] T(1)
      by (auto simp: insert_prepend_def first n Let_def)
  next
    case False
    then have full: "length kvs = LEAF_CAP L" using cap by simp
    have "insert_prepend L key v t = Some (Inr (split_path L i 0 key v (rev (map frame_pos fs)) t))"
      using False path_to_leaf [OF b [unfolded T(1)] T(2,3) caps(3)] by (simp add: insert_prepend_def first n Let_def)
    then show ?thesis using put_full [OF b [unfolded T(1)] T(2,3) full le0 caps(1,2) srt] T(1) by blast
  qed
  then show ?thesis using T(1) by (metis ents_fill ents.simps(1))
qed

lemma at_hole_sorted_insert:
  fixes key :: "'k::linorder"
  assumes h: "at_hole T (\<lambda>k. key < k) fs (BLeaf i kvs)" and srt: "sorted_wrt (<) (seq T)"
    and pos: "pos = first_index (\<lambda>j. key \<le> fst (kvs ! j)) (length kvs)" and new: "\<not> (pos < length kvs \<and> fst (kvs ! pos) = key)"
  shows "pos \<le> length kvs" "sorted_wrt (<) (spre fs @ kseq (ins_at pos (key, v) kvs) @ spost fs)"
proof -
  show p: "pos \<le> length kvs" unfolding pos by (rule first_index_le)
  have s: "sorted_wrt (<) (spre fs @ kseq kvs @ spost fs)" using h srt by (simp add: at_hole_def seq_fill)
  have pre: "x < (key, True)" if x: "x \<in> set (spre fs)" for x
  proof -
    have "\<forall>x\<in>set (spre fs). \<exists>k. \<not> key < k \<and> x \<le> (k, False)" using h by (simp add: at_hole_def before_def)
    then obtain k where k: "\<not> key < k" "x \<le> (k, False)" using x by blast
    have "(k, False) < (key, True)" using k(1) by auto
    then show ?thesis by (rule le_less_trans [OF k(2)])
  qed
  have post: "(key, True) < x" if x: "x \<in> set (spost fs)" for x
  proof -
    have "\<forall>x\<in>set (spost fs). \<exists>k. key < k \<and> (k, False) \<le> x" using h by (simp add: at_hole_def after_def)
    then obtain k where k: "key < k" "(k, False) \<le> x" using x by blast
    have "(key, True) < (k, False)" using k(1) by simp
    then show ?thesis using k(2) by (rule less_le_trans)
  qed
  have sk: "sorted_wrt (<) (map fst kvs)" by (rule leaf_sorted [OF h srt])
  have lo: "fst kv < key" if "kv \<in> set (take pos kvs)" for kv
    using that first_index_before [of _ "\<lambda>j. key \<le> fst (kvs ! j)" "length kvs"] p
    by (auto simp: in_set_conv_nth not_le pos)
  have hi: "key < fst kv" if kv: "kv \<in> set (drop pos kvs)" for kv
  proof -
    obtain j where "j < length kvs - pos" and j2: "kv = kvs ! (pos + j)" using kv p by (auto simp: in_set_conv_nth)
    then have j: "pos + j < length kvs" "kv = kvs ! (pos + j)" by simp_all
    then have pl: "pos < length kvs" by simp
    then have "key \<le> fst (kvs ! pos)" using first_index_hit [of "\<lambda>j. key \<le> fst (kvs ! j)" "length kvs"] by (simp add: pos)
    then have "key < fst (kvs ! pos)" using new pl by simp
    moreover have "j = 0 \<or> fst (kvs ! pos) < fst (kvs ! (pos + j))" 
      using sorted_wrt_nth_less [OF sk, of pos "pos + j"] j(1) pl by (cases "j = 0") simp_all
    ultimately show ?thesis using j(2) by auto
  qed
  have e: "spre fs @ kseq (ins_at pos (key, v) kvs) @ spost fs = (spre fs @ kseq (take pos kvs)) @ (key, True) # kseq (drop pos kvs) @ spost fs"
    by (simp add: ins_at_def)
  have "sorted_wrt (<) ((spre fs @ kseq (take pos kvs)) @ kseq (drop pos kvs) @ spost fs)" 
    using s append_take_drop_id [of pos "kseq kvs"] by (metis append.assoc drop_map take_map)
  then show "sorted_wrt (<) (spre fs @ kseq (ins_at pos (key, v) kvs) @ spost fs)"
    unfolding e sorted_wrt_append [of _ "spre fs @ kseq (take pos kvs)"] using pre post lo hi by (auto simp: less_prod_def)
qed

lemma insert_pos_lrep: "lrep (b_node t) p i kvs \<Longrightarrow> insert_pos key (b_node t i) = first_index (\<lambda>j. key \<le> fst (kvs ! j)) (length kvs)"
  unfolding insert_pos_def n_len_lrep by (rule first_index_cong) (simp add: lkey_lrep)

text \<open>What the descent of an insertion finds.\<close>

lemma search_for_insert_correct:
  assumes b: "brep L t T fl" and h: "b_height t \<le> MAX_PATH_HEIGHT"
  obtains fs i kvs where "at_hole T (\<lambda>k. key < k) fs (BLeaf i kvs)" "length fs = b_height t"
    "lrep (b_node t) (hole_parent NO_NODE fs) i kvs"
    "search_for_insert t key = Inr ((i, first_index (\<lambda>j. key \<le> fst (kvs ! j)) (length kvs)), rev (map frame_pos fs))"
proof -
  note d = brepD [OF b]
  obtain fs i kvs where f: "at_hole T (\<lambda>k. key < k) fs (BLeaf i kvs)" "length fs = b_height t"
    "descend_path key t (b_height t) (idx T) [] = Inr (i, rev (map frame_pos fs))"
    using descent_path [OF d(3,4,5), of "[]" key] h by auto
  have l: "lrep (b_node t) (hole_parent NO_NODE fs) i kvs" using d(3) f(1) by (auto simp: at_hole_def rep_fill)
  show thesis
    by (rule that [OF f(1,2) l]) (simp add: search_for_insert_def d(2) f(3) insert_pos_lrep [OF l])
qed

lemma brep_value_update:
  assumes b: "brep L t (fill fs (BLeaf i kvs)) fl" and fs: "list_all frame_ok fs" and pos: "pos < length kvs" "fst (kvs ! pos) = key"
  shows "brep L (b_upd i (\<lambda>n. n\<lparr>n_vals := (n_vals n)[pos := Some v]\<rparr>) t) (fill fs (BLeaf i (kvs[pos := (key, v)]))) fl"
proof -
  note d = brepD [OF b]
  have i: "i \<in> set (nodes (fill fs (BLeaf i kvs)))" by (simp add: set_nodes_fill)
  note n = barena_okD [OF d(1) i]
  have l: "lrep (b_node t) (hole_parent NO_NODE fs) i kvs" using d(3) by (simp add: rep_fill)
  have ks: "map fst (kvs[pos := (key, v)]) = map fst kvs" using pos by (simp add: map_update list_update_same_conv)
  have km: "map (\<lambda>kv. g (fst kv)) (kvs[pos := (key, v)]) = map (\<lambda>kv. g (fst kv)) kvs" for g :: "'a \<Rightarrow> 'c"
    using arg_cong [OF ks, of "map g"] by (simp add: comp_def)
  have kq: "kseq (kvs[pos := (key, v)]) = kseq kvs" by (rule km)
  show ?thesis
  proof (rule brep_leaf_update [OF b fs])
    show "barena_ok L (b_upd i (\<lambda>n. n\<lparr>n_vals := (n_vals n)[pos := Some v]\<rparr>) t) (set (nodes (fill fs (BLeaf i kvs)))) fl"
      by (rule barena_ok_updI [OF d(1) i]) (simp add: shaped_def)
    show "lrep (b_node (b_upd i (\<lambda>n. n\<lparr>n_vals := (n_vals n)[pos := Some v]\<rparr>) t)) (hole_parent NO_NODE fs) i (kvs[pos := (key, v)])"
    proof -
      have "map (Some \<circ> fst) (kvs[pos := (key, v)]) = map (Some \<circ> fst) kvs" using km [of Some] by (simp add: comp_def)
      moreover have "starts ((n_vals (b_node t i))[pos := Some v]) (map (Some \<circ> snd) (kvs[pos := (key, v)]))"
        using starts_update [of "n_vals (b_node t i)" "map (Some \<circ> snd) kvs" pos "Some v"] l pos by (simp add: lrep_def map_update)
      ultimately show ?thesis using l n(1) by (simp add: lrep_def b_node_upd)
    qed
    show "sorted_wrt (<) (spre fs @ kseq (kvs[pos := (key, v)]) @ spost fs)"
      using d(5) fs unfolding kq by (simp add: seq_fill)
  qed (use n(1) in \<open>simp_all add: b_node_upd\<close>)
qed

lemma insert_search_put:
  assumes b: "brep L t T fl" and caps: "assert_capacities L" "a_len (b_arena t) + b_height t + 1 < 2 ^ 31" "b_height t \<le> MAX_PATH_HEIGHT"
  shows "\<exists>t' T' fl'. insert_search L key v t = Inr (map_of (ents T) key, t') \<and> brep L t' T' fl' \<and> (fat T \<longrightarrow> fat T') \<and>
    map_of (ents T') = (map_of (ents T))(key \<mapsto> v)"
proof -
  note d = brepD [OF b]
  obtain fs i kvs where h: "at_hole T (\<lambda>k. key < k) fs (BLeaf i kvs)" "length fs = b_height t"
    and l: "lrep (b_node t) (hole_parent NO_NODE fs) i kvs"
    and s: "search_for_insert t key = Inr ((i, first_index (\<lambda>j. key \<le> fst (kvs ! j)) (length kvs)), rev (map frame_pos fs))"
    by (rule search_for_insert_correct [OF b caps(3)])
  define pos where "pos = first_index (\<lambda>j. key \<le> fst (kvs ! j)) (length kvs)"
  note s = s [folded pos_def]
  have T: "T = fill fs (BLeaf i kvs)" "list_all frame_ok fs" using h(1) by (simp_all add: at_hole_def)
  have eT: "ents T = epre fs @ kvs @ epost fs" by (simp add: T(1) ents_fill)
  have sk: "sorted_wrt (<) (map fst (epre fs @ kvs @ epost fs))" using sorted_keys [OF d(4,5)] eT by simp
  have cap: "length kvs \<le> LEAF_CAP L"
    using lrep_cap [OF l] barena_okD(3) [OF d(1), of i] T(1) by (simp add: set_nodes_fill)
  have n: "n_len (b_node t i) = length kvs" by (rule n_len_lrep [OF l])
  show ?thesis
  proof (cases "pos < length kvs \<and> fst (kvs ! pos) = key")
    case True
    let ?t = "b_upd i (\<lambda>n. n\<lparr>n_vals := (n_vals n)[pos := Some v]\<rparr>) t"
    have "insert_search L key v t = Inr (Some (snd (kvs ! pos)), ?t)"
      using True by (simp add: insert_search_def s Let_def n lkey_lrep [OF l] lval_lrep [OF l])
    moreover have "brep L ?t (fill fs (BLeaf i (kvs[pos := (key, v)]))) fl"
      using brep_value_update [OF b [unfolded T(1)] T(2)] True by blast
    moreover have "fat T \<longrightarrow> fat (fill fs (BLeaf i (kvs[pos := (key, v)])))"
      using fat_fill_replace [of fs "BLeaf i kvs" "BLeaf i (kvs[pos := (key, v)])"] by (auto simp: T(1))
    moreover have "ents (fill fs (BLeaf i (kvs[pos := (key, v)]))) = epre fs @ kvs[pos := (key, v)] @ epost fs" by (simp add: ents_fill)
    ultimately show ?thesis using map_of_update_at(1) [OF sk, of pos key v] map_of_update_at(2) [OF sk, of pos key] True unfolding eT by auto
  next
    case False
    note ins = at_hole_sorted_insert(1) [OF h(1) d(5) pos_def False] at_hole_sorted_insert(2) [OF h(1) d(5) pos_def False, of v]
    obtain t' where t': "insert_search L key v t = Inr (None, t')" "put_at L T fs pos key v kvs t'"
    proof (cases "length kvs < LEAF_CAP L")
      case True
      then show ?thesis using that put_room [OF b [unfolded T(1)] T(2) True ins] False T(1)
        by (auto simp: insert_search_def s Let_def n lkey_lrep [OF l])
    next
      case nr: False
      then have "length kvs = LEAF_CAP L" using cap by simp
      then show ?thesis using that put_full [OF b [unfolded T(1)] T(2) h(2) _ ins(1) caps(1,2) ins(2)] False nr T(1)
        by (auto simp: insert_search_def s Let_def n lkey_lrep [OF l])
    qed
    obtain T' fl' where T': "brep L t' T' fl'" "fat T \<longrightarrow> fat T'" "ents T' = epre fs @ ins_at pos (key, v) kvs @ epost fs"
      using t'(2) by (auto simp: put_at_def)
    have sk': "sorted_wrt (<) (map fst (epre fs @ ins_at pos (key, v) kvs @ epost fs))"
      using sorted_keys [OF brepD(4,5) [OF T'(1)]] T'(3) by simp
    have "map_of (ents T) key = None" using map_of_insert_at(2) [OF sk'] unfolding eT map_of_eq_None_iff .
    moreover have "map_of (ents T') = (map_of (ents T))(key \<mapsto> v)" using map_of_insert_at(1) [OF sk'] unfolding T'(3) eT .
    ultimately show ?thesis using t'(1) T'(1,2) by metis
  qed
qed

lemma insert_first_brep:
  assumes e: "bempty L t fl" and room: "a_len (b_arena t) < 2 ^ 31" and cap: "1 \<le> LEAF_CAP L"
  shows "\<exists>i fl'. brep L (insert_first L key v t) (BLeaf i [(key, v)]) fl'"
proof -
  have ok: "barena_ok L t {} fl" using e by (simp add: bempty_def)
  obtain i t1 where al: "b_alloc L t = (i, t1)" by (cases "b_alloc L t")
  obtain fl' where a: "barena_ok L t1 {i} fl'" "b_height t1 = b_height t" using b_alloc_ok [OF ok room al] by metis
  define u where "u = b_upd i (\<lambda>n. n\<lparr>n_len := 1, n_flags := IS_LEAF, n_parent := NO_NODE,
      n_lkeys := (n_lkeys n)[0 := Some key], n_vals := (n_vals n)[0 := Some v], n_prev := NO_NODE, n_next := NO_NODE\<rparr>) t1"
  have def: "insert_first L key v t = u\<lparr>b_root := i, b_first_leaf := i, b_last_leaf := i, b_len := 1\<rparr>"
    by (simp only: insert_first_def al Let_def prod.case u_def)
  have n: "i < n_blocks t1" "shaped L (b_node t1 i)" using barena_okD [OF a(1), of i] by simp_all
  have ne: "n_lkeys (b_node t1 i) \<noteq> []" "n_vals (b_node t1 i) \<noteq> []" using shapedD(1,2) [OF n(2)] cap by auto
  have "barena_ok L u {i} fl'" unfolding u_def by (rule barena_ok_updI [OF a(1)]) (simp_all add: shaped_def)
  moreover have "lrep (b_node u) NO_NODE i [(key, v)]" "n_prev (b_node u i) = NO_NODE" "n_next (b_node u i) = NO_NODE"
    using n(1) ne by (simp_all add: u_def b_node_upd lrep_def starts_def Suc_le_eq)
  moreover have "b_height u = 0" using a(2) e by (simp add: u_def bempty_def)
  ultimately have "brep L (insert_first L key v t) (BLeaf i [(key, v)]) fl'"
    unfolding def brep_def by simp
  then show ?thesis by blast
qed

lemma get_bempty: "bempty L t fl \<Longrightarrow> btree_get t key = None"
  by (simp add: bempty_def btree_get_def search_def)

definition btree_room :: "node_layout \<Rightarrow> ('k, 'v) btree \<Rightarrow> bool" where
  "btree_room L t \<longleftrightarrow> assert_capacities L \<and> b_height t \<le> MAX_PATH_HEIGHT \<and> a_len (b_arena t) + b_height t + 1 < 2 ^ 31"

lemma btree_insert_brep:
  assumes b: "brep L t T fl" and room: "btree_room L t"
  shows "\<exists>t' T' fl'. btree_insert L key v t = Some (Inr (map_of (ents T) key, t')) \<and> brep L t' T' fl' \<and> (fat T \<longrightarrow> fat T') \<and>
    map_of (ents T') = (map_of (ents T))(key \<mapsto> v)"
proof -
  note d = brepD [OF b]
  have caps: "assert_capacities L" "a_len (b_arena t) + b_height t + 1 < 2 ^ 31" "b_height t \<le> MAX_PATH_HEIGHT"
    using room by (simp_all add: btree_room_def)
  let ?last = "b_node t (b_last_leaf t)" and ?first = "b_node t (b_first_leaf t)"
  have put: "map_of (ents T) key = None \<and> (\<exists>T' fl'. brep L t' T' fl' \<and> (fat T \<longrightarrow> fat T') \<and> map_of (ents T') = (map_of (ents T))(key \<mapsto> v))"
    if "put_at L T fs pos key v kvs t'" "ents T = epre fs @ kvs @ epost fs" for fs pos kvs t'
  proof -
    obtain T' fl' where T': "brep L t' T' fl'" "fat T \<longrightarrow> fat T'" "ents T' = epre fs @ ins_at pos (key, v) kvs @ epost fs"
      using \<open>put_at L T fs pos key v kvs t'\<close> by (auto simp: put_at_def)
    have sk: "sorted_wrt (<) (map fst (epre fs @ ins_at pos (key, v) kvs @ epost fs))"
      using sorted_keys [OF brepD(4,5) [OF T'(1)]] T'(3) by simp
    have "map_of (ents T) key = None" using map_of_insert_at(2) [OF sk] unfolding \<open>ents T = _\<close> map_of_eq_None_iff .
    moreover have "map_of (ents T') = (map_of (ents T))(key \<mapsto> v)" using map_of_insert_at(1) [OF sk] unfolding T'(3) \<open>ents T = _\<close> .
    ultimately show ?thesis using T'(1,2) by blast
  qed
  show ?thesis
  proof (cases "0 < n_len ?last \<and> lkey ?last (n_len ?last - 1) < key")
    case True
    then obtain fs pos kvs t' where i: "insert_append L key v t = Some (Inr t')" "put_at L T fs pos key v kvs t'" "ents T = epre fs @ kvs @ epost fs"
      using insert_append_put [OF b caps] by blast
    have "btree_insert L key v t = Some (Inr (None, t'))" using True d(11) i(1) by (simp add: btree_insert_def Let_def)
    then show ?thesis using put [OF i(2,3)] by auto
  next
    case na: False
    show ?thesis
    proof (cases "0 < n_len ?first \<and> key < lkey ?first 0")
      case True
      then obtain fs pos kvs t' where i: "insert_prepend L key v t = Some (Inr t')" "put_at L T fs pos key v kvs t'" "ents T = epre fs @ kvs @ epost fs"
        using insert_prepend_put [OF b caps] by blast
      have "btree_insert L key v t = Some (Inr (None, t'))" unfolding btree_insert_def Let_def if_not_P [OF na] if_P [OF True]
        using d(11) i(1) by simp
      then show ?thesis using put [OF i(2,3)] by auto
    next
      case False
      then have "btree_insert L key v t = Some (insert_search L key v t)" unfolding btree_insert_def Let_def if_not_P [OF na] if_not_P [OF False]
        using d(11) by simp
      then show ?thesis using insert_search_put [OF b caps, of key v] by auto
    qed
  qed
qed

lemma btree_insert_binv:
  assumes "binv L t" "btree_room L t"
  shows "\<exists>t'. btree_insert L key v t = Some (Inr (btree_get t key, t')) \<and> binv L t' \<and> btree_get t' = (btree_get t)(key \<mapsto> v)"
  using assms(1) [unfolded binv_def]
proof (elim disjE exE conjE)
  fix fl assume e: "bempty L t fl"
  have "1 \<le> LEAF_CAP L" "a_len (b_arena t) < 2 ^ 31" using assms(2) by (simp_all add: btree_room_def assert_capacities_def)
  then obtain i fl' where i: "brep L (insert_first L key v t) (BLeaf i [(key, v)]) fl'"
    using insert_first_brep [OF e] by blast
  have "btree_insert L key v t = Some (Inr (None, insert_first L key v t))" using e by (simp add: btree_insert_def bempty_def)
  moreover have "btree_get t = Map.empty" using get_bempty [OF e] by (simp add: fun_eq_iff)
  moreover have "btree_get (insert_first L key v t) = map_of [(key, v)]" using get_brep [OF i] by (simp add: fun_eq_iff)
  ultimately show ?thesis using i by (auto simp: binv_def intro: exI [of _ "BLeaf i [(key, v)]"])
next
  fix T fl assume b: "brep L t T fl" "fat T"
  obtain t' T' fl' where r: "btree_insert L key v t = Some (Inr (map_of (ents T) key, t'))" "brep L t' T' fl'" "fat T'"
    "map_of (ents T') = (map_of (ents T))(key \<mapsto> v)"
    using btree_insert_brep [OF b(1) assms(2)] b(2) by blast
  moreover have "btree_get t = map_of (ents T)" "btree_get t' = map_of (ents T')"
    using get_brep [OF b(1)] get_brep [OF r(2)] by (simp_all add: fun_eq_iff)
  ultimately show ?thesis by (auto simp: binv_def)
qed

end
