(* ===== verification/Btree_Entry.thy ===== *)
theory Btree_Entry
  imports Btree_Put
begin

text \<open>
  The entry interface of the tree: \<^verbatim>\<open>entry_search\<close> says where a key is or belongs, and
  \<^verbatim>\<open>insert_at_vacant\<close> inserts there, with splits propagated through the parent indices. The position it
  returns is the one at which a search of the new tree finds the key.
\<close>

section \<open>Where a key is found\<close>

lemma search_at_leaf:
  assumes b: "brep L t T fl" and l: "(i, kvs) \<in> leaves T" and j: "j < length kvs" "fst (kvs ! j) = key"
  shows "search t key = Some (i, j)"
proof -
  note d = brepD [OF b]
  obtain fs i' kvs' where h: "at_hole T (\<lambda>k. key < k) fs (BLeaf i' kvs')" "search t key = leaf_find key i' kvs'"
    using search_leaf [OF b] by blast
  have T: "T = fill fs (BLeaf i' kvs')" using h(1) by (simp add: at_hole_def)
  then have l': "(i', kvs') \<in> leaves T" using leaves_fill [of "BLeaf i' kvs'" fs] by simp
  have k: "key \<in> fst ` set kvs" using j by force
  then have "map_of (ents T) key \<noteq> None" using leaves_ents [OF l] by (auto simp: map_of_eq_None_iff)
  then have "key \<in> fst ` set kvs'" using map_of_at_hole [OF h(1) d(4)] by (simp add: map_of_eq_None_iff)
  moreover have "distinct (map fst (ents T))" using sorted_keys [OF d(4,5)] by (simp add: strict_sorted_iff)
  ultimately have "(i, kvs) = (i', kvs')" using leaves_unique [of T "(i, kvs)" "(i', kvs')" key] l l' k by simp
  then show ?thesis using h(2) leaf_find_at [OF leaf_sorted [OF h(1) d(5)], of j key i] j by simp
qed

section \<open>Entry search and insertion\<close>

lemma entry_search_brep:
  assumes b: "brep L t T fl"
  obtains fs i kvs pos where "at_hole T (\<lambda>k. key < k) fs (BLeaf i kvs)" "length fs = b_height t"
    "lrep (b_node t) (hole_parent NO_NODE fs) i kvs" "pos = first_index (\<lambda>j. key \<le> fst (kvs ! j)) (length kvs)"
    "btree_entry_search t key = (if pos < length kvs \<and> fst (kvs ! pos) = key then Occupied i pos else Vacant i pos)"
proof -
  note d = brepD [OF b]
  let ?sel = "\<lambda>n :: ('a, 'b) node_block. first_index (\<lambda>i. key < ikey n i) (n_len n)"
  have sel: "selects ?sel (\<lambda>k. key < k)" by (simp add: selects_def)
  obtain fs i kvs where h: "at_hole T (\<lambda>k. key < k) fs (BLeaf i kvs)" "length fs = b_height t"
    "descend ?sel t (b_height t) (idx T) = i"
    using descent [OF d(3,4,5), of "\<lambda>k. key < k"] sel by blast
  have l: "lrep (b_node t) (hole_parent NO_NODE fs) i kvs" using d(3) h(1) by (auto simp: at_hole_def rep_fill)
  show thesis
    by (rule that [OF h(1,2) l refl])
      (use d(11) h(3) lkey_lrep [OF l] in \<open>auto simp: btree_entry_search_def search_for_insert_no_path_def d(2) insert_pos_lrep [OF l] n_len_lrep [OF l] Let_def\<close>)
qed

lemma nth_ins_at_half:
  assumes "pos \<le> length kvs" "mid \<le> length kvs"
  shows "pos < mid \<Longrightarrow> pos < length (take mid (ins_at pos x kvs)) \<and> take mid (ins_at pos x kvs) ! pos = x"
    "mid \<le> pos \<Longrightarrow> pos - mid < length (drop mid (ins_at pos x kvs)) \<and> drop mid (ins_at pos x kvs) ! (pos - mid) = x"
  using assms by (auto simp: ins_at_def nth_append)

lemma insert_at_vacant_brep:
  assumes b: "brep L t T fl" "fat T" and room: "btree_room L t" and e: "btree_entry_search t key = Vacant i pos"
  shows "\<exists>p t' T' fl'. insert_at_vacant L i pos key v t = Some (p, t') \<and> brep L t' T' fl' \<and> fat T' \<and>
    map_of (ents T') = (map_of (ents T))(key \<mapsto> v) \<and> map_of (ents T) key = None \<and> search t' key = Some p"
proof -
  note d = brepD [OF b(1)]
  have caps: "assert_capacities L" "a_len (b_arena t) + b_height t + 1 < 2 ^ 31" using room by (simp_all add: btree_room_def)
  obtain fs kvs where h: "at_hole T (\<lambda>k. key < k) fs (BLeaf i kvs)" "length fs = b_height t"
    and l: "lrep (b_node t) (hole_parent NO_NODE fs) i kvs" and pos: "pos = first_index (\<lambda>j. key \<le> fst (kvs ! j)) (length kvs)"
    and new: "\<not> (pos < length kvs \<and> fst (kvs ! pos) = key)"
    by (rule entry_search_brep [OF b(1), of key]) (use e in \<open>auto split: if_splits\<close>)
  have T: "T = fill fs (BLeaf i kvs)" "list_all frame_ok fs" using h(1) by (simp_all add: at_hole_def)
  note ins = at_hole_sorted_insert(1) [OF h(1) d(5) pos new] at_hole_sorted_insert(2) [OF h(1) d(5) pos new, of v]
  have n: "n_len (b_node t i) = length kvs" by (rule n_len_lrep [OF l])
  have cap: "length kvs \<le> LEAF_CAP L"
    using lrep_cap [OF l] barena_okD(3) [OF d(1), of i] T(1) by (simp add: set_nodes_fill)
  obtain p t' T' fl' where r: "insert_at_vacant L i pos key v t = Some (p, t')" "brep L t' T' fl'" "fat T'"
    "ents T' = epre fs @ ins_at pos (key, v) kvs @ epost fs" "search t' key = Some p"
  proof (cases "length kvs < LEAF_CAP L")
    case True
    let ?t = "(leaf_insert_at i pos key v t)\<lparr>b_len := b_len (leaf_insert_at i pos key v t) + 1\<rparr>"
    let ?T = "fill fs (BLeaf i (ins_at pos (key, v) kvs))"
    have bt: "brep L ?t ?T fl" by (rule leaf_room_insert [OF b(1) [unfolded T(1)] T(2) True ins])
    have "(i, ins_at pos (key, v) kvs) \<in> leaves ?T" using leaves_fill [of "BLeaf i (ins_at pos (key, v) kvs)" fs] by simp
    then have "search ?t key = Some (i, pos)"
      by (rule search_at_leaf [OF bt]) (use ins(1) in \<open>simp_all add: ins_at_def nth_append\<close>)
    moreover have "fat ?T" using fat_fill_replace [of fs "BLeaf i kvs"] b(2) by (simp add: T(1))
    ultimately show ?thesis using that [of "(i, pos)" ?t ?T fl] bt True by (simp add: insert_at_vacant_def n Let_def ents_fill)
  next
    case False
    then have full: "length kvs = LEAF_CAP L" using cap by simp
    define mid where "mid = (LEAF_CAP L + 1) div 2"
    let ?t = "split_path L i pos key v (rev (map frame_pos fs)) t" and ?all = "ins_at pos (key, v) kvs"
    obtain T' fl' promoted r t1 where s: "brep L ?t T' fl'" "ents T' = epre fs @ ?all @ epost fs" "fat T'"
      "leaf_split_and_insert L i pos key v t = ((promoted, r), t1)" "{(i, take mid ?all), (r, drop mid ?all)} \<subseteq> leaves T'"
      "propagate_split_lazy L i promoted r (t1\<lparr>b_len := b_len t1 + 1\<rparr>) = Some ?t"
      using leaf_full_insert [OF b(1) [unfolded T(1)] T(2) h(2) full ins(1) caps ins(2), folded mid_def] b(2) T(1) by auto
    let ?p = "if pos < mid then (i, pos) else (r, pos - mid)"
    have m: "mid \<le> length kvs" using full caps(1) by (simp add: mid_def assert_capacities_def)
    have "search ?t key = Some ?p"
      using search_at_leaf [OF s(1), of i "take mid ?all" pos key] search_at_leaf [OF s(1), of r "drop mid ?all" "pos - mid" key]
        nth_ins_at_half [OF ins(1) m, of "(key, v)"] s(5) by (cases "pos < mid") auto
    moreover have "insert_at_vacant L i pos key v t = Some (?p, ?t)"
      using full s(4,6) by (simp add: insert_at_vacant_def n Let_def mid_def)
    ultimately show ?thesis using that s(1-3) by blast
  qed
  have sk: "sorted_wrt (<) (map fst (epre fs @ ins_at pos (key, v) kvs @ epost fs))"
    using sorted_keys [OF brepD(4,5) [OF r(2)]] r(4) by simp
  have eT: "ents T = epre fs @ kvs @ epost fs" by (simp add: T(1) ents_fill)
  have "map_of (ents T) key = None" using map_of_insert_at(2) [OF sk] unfolding eT map_of_eq_None_iff .
  moreover have "map_of (ents T') = (map_of (ents T))(key \<mapsto> v)" using map_of_insert_at(1) [OF sk] unfolding r(4) eT .
  ultimately show ?thesis using r by blast
qed

end
