(* ===== verification/Btree_Iter.thy ===== *)
theory Btree_Iter
  imports Btree_Entry
begin

text \<open>
  The read side of the map, \<^verbatim>\<open>src/flat_btree/map.rs\<close>: the double-ended iterator, the walk past
  empty leaves, and the first and the last entry. The iterators follow the leaf
  chain, so their loops are partial functions; the theorems show that they return.
\<close>

section \<open>Model\<close>

definition get_key_value :: "('k::linorder, 'v) btree \<Rightarrow> 'k \<Rightarrow> ('k \<times> 'v) option" where
  "get_key_value t key =
    map_option (\<lambda>(leaf_idx, slot_idx). (lkey (b_node t leaf_idx) slot_idx, lval (b_node t leaf_idx) slot_idx)) (search t key)"

definition contains_key :: "('k::linorder, 'v) btree \<Rightarrow> 'k \<Rightarrow> bool" where
  "contains_key t key \<longleftrightarrow> search t key \<noteq> None"

text \<open>\<^verbatim>\<open>while idx != NO_NODE\<close> along the next or the previous links.\<close>

partial_function (option) nonempty_from ::
  "(('k, 'v) node_block \<Rightarrow> nat) \<Rightarrow> ('k, 'v) btree \<Rightarrow> nat \<Rightarrow> nat option option" where
  [code]: "nonempty_from link t i =
    (if i = NO_NODE then Some None
     else if 0 < n_len (b_node t i) then Some (Some i)
     else nonempty_from link t (link (b_node t i)))"

definition first_nonempty_leaf :: "('k, 'v) btree \<Rightarrow> nat option option" where
  "first_nonempty_leaf t = nonempty_from n_next t (b_first_leaf t)"

definition last_nonempty_leaf :: "('k, 'v) btree \<Rightarrow> nat option option" where
  "last_nonempty_leaf t = nonempty_from n_prev t (b_last_leaf t)"

definition first_key_value :: "('k, 'v) btree \<Rightarrow> ('k \<times> 'v) option option" where
  "first_key_value t =
    (if b_len t = 0 then Some None
     else map_option (map_option (\<lambda>i. (lkey (b_node t i) 0, lval (b_node t i) 0))) (first_nonempty_leaf t))"

definition last_key_value :: "('k, 'v) btree \<Rightarrow> ('k \<times> 'v) option option" where
  "last_key_value t =
    (if b_len t = 0 then Some None
     else map_option (map_option (\<lambda>i. let last_idx = n_len (b_node t i) - 1
        in (lkey (b_node t i) last_idx, lval (b_node t i) last_idx))) (last_nonempty_leaf t))"

record iter =
  it_front_leaf :: nat
  it_front_idx :: nat
  it_back_leaf :: nat
  it_back_idx :: nat
  it_remaining :: nat

definition btree_iter :: "('k, 'v) btree \<Rightarrow> iter" where
  "btree_iter t =
    (let back_leaf = b_last_leaf t;
         back_idx = (if back_leaf \<noteq> NO_NODE then n_len (b_node t back_leaf) else 0)
     in \<lparr>it_front_leaf = b_first_leaf t, it_front_idx = 0, it_back_leaf = back_leaf, it_back_idx = back_idx,
         it_remaining = b_len t\<rparr>)"

text \<open>\<^verbatim>\<open>next\<close> with the cold path \<^verbatim>\<open>advance_front\<close>, which calls it again.\<close>

partial_function (option) iter_next ::
  "('k, 'v) btree \<Rightarrow> iter \<Rightarrow> (('k \<times> 'v) option \<times> iter) option" where
  [code]: "iter_next t it =
    (if it_remaining it = 0 then Some (None, it)
     else
       let n = b_node t (it_front_leaf it); i = it_front_idx it in
       if i < n_len n then
         Some (Some (lkey n i, lval n i), it\<lparr>it_front_idx := i + 1, it_remaining := it_remaining it - 1\<rparr>)
       else iter_next t (it\<lparr>it_front_leaf := n_next n, it_front_idx := 0\<rparr>))"

partial_function (option) iter_next_back ::
  "('k, 'v) btree \<Rightarrow> iter \<Rightarrow> (('k \<times> 'v) option \<times> iter) option" where
  [code]: "iter_next_back t it =
    (if it_remaining it = 0 then Some (None, it)
     else
       let start = (if it_back_leaf it = it_front_leaf it then it_front_idx it else 0) in
       if start < it_back_idx it then
         let j = it_back_idx it - 1; n = b_node t (it_back_leaf it)
         in Some (Some (lkey n j, lval n j), it\<lparr>it_back_idx := j, it_remaining := it_remaining it - 1\<rparr>)
       else
         let back_leaf = n_prev (b_node t (it_back_leaf it)) in
         if back_leaf \<noteq> NO_NODE then
           iter_next_back t (it\<lparr>it_back_leaf := back_leaf, it_back_idx := n_len (b_node t back_leaf)\<rparr>)
         else Some (None, it\<lparr>it_back_leaf := back_leaf, it_remaining := 0\<rparr>))"

text \<open>A client that takes entries from the two ends.\<close>

datatype iter_end = Front | Back

fun iter_run :: "('k, 'v) btree \<Rightarrow> iter \<Rightarrow> iter_end list \<Rightarrow> ('k \<times> 'v) option list option" where
  "iter_run t it [] = Some []"
| "iter_run t it (d # ds) =
    (case (case d of Front \<Rightarrow> iter_next t it | Back \<Rightarrow> iter_next_back t it) of
       None \<Rightarrow> None
     | Some (x, it') \<Rightarrow> map_option ((#) x) (iter_run t it' ds))"

fun deque_run :: "'a list \<Rightarrow> iter_end list \<Rightarrow> 'a option list" where
  "deque_run xs [] = []"
| "deque_run [] (d # ds) = None # deque_run [] ds"
| "deque_run (x # xs) (Front # ds) = Some x # deque_run xs ds"
| "deque_run (x # xs) (Back # ds) = Some (last (x # xs)) # deque_run (butlast (x # xs)) ds"

section \<open>The leaf chain as a list\<close>

definition lentries :: "('k, 'v) btree \<Rightarrow> nat \<Rightarrow> ('k \<times> 'v) list" where
  "lentries t i = map (\<lambda>s. (lkey (b_node t i) s, lval (b_node t i) s)) [0..<n_len (b_node t i)]"

lemma length_lentries [simp]: "length (lentries t i) = n_len (b_node t i)"
  by (simp add: lentries_def)

lemma lentries_lrep: "lrep (b_node t) p i kvs \<Longrightarrow> lentries t i = kvs"
  by (rule nth_equalityI) (simp_all add: lentries_def n_len_lrep lkey_lrep lval_lrep)

lemma lentries_rep: "rep (b_node t) p T \<Longrightarrow> concat (map (lentries t) (lvs T)) = ents T"
proof (induction "b_node t" p T rule: rep.induct)
  case (1 p i kvs)
  then show ?case by (simp add: lentries_lrep)
next
  case (2 p i ts ks)
  then have "\<forall>u\<in>set ts. concat (map (lentries t) (lvs u)) = ents u" by simp
  then have "concat (map (lentries t) (concat (map lvs ts))) = concat (map ents ts)" by (induction ts) simp_all
  then show ?case by simp
qed

section \<open>The double-ended iterator\<close>

definition leaf_chain :: "('k, 'v) btree \<Rightarrow> nat list \<Rightarrow> bool" where
  "leaf_chain t ls \<longleftrightarrow> dseg (b_node t) NO_NODE ls NO_NODE \<and> distinct ls \<and> NO_NODE \<notin> set ls"

abbreviation centries :: "('k, 'v) btree \<Rightarrow> nat list \<Rightarrow> ('k \<times> 'v) list" where
  "centries t ls \<equiv> concat (map (lentries t) ls)"

lemma leaf_chain_brep: "brep L t T fl \<Longrightarrow> leaf_chain t (lvs T) \<and> centries t (lvs T) = ents T"
  using brepD [of L t T fl] barena_okD(2) [of L t "set (nodes T)" fl NO_NODE] lvs_subset [of T] distinct_lvs [of T] lentries_rep [of t NO_NODE T]
  by (auto simp: leaf_chain_def)

lemma chain_next: "leaf_chain t (ls1 @ f # y # ls2) \<Longrightarrow> n_next (b_node t f) = y"
  by (simp add: leaf_chain_def dseg_append)

lemma chain_prev: "leaf_chain t (ls1 @ y # b # ls2) \<Longrightarrow> n_prev (b_node t b) = y"
  by (simp add: leaf_chain_def dseg_append)

lemma chain_end: "leaf_chain t (ls1 @ [f]) \<Longrightarrow> n_next (b_node t f) = NO_NODE"
  by (simp add: leaf_chain_def dseg_append)

lemma lentries_nth: "i < n_len (b_node t f) \<Longrightarrow> lentries t f ! i = (lkey (b_node t f) i, lval (b_node t f) i)"
  by (simp add: lentries_def)

text \<open>The entries \<open>W\<close> that an iterator has not yielded yet lie between its two positions.\<close>

definition iwin :: "('k, 'v) btree \<Rightarrow> nat list \<Rightarrow> iter \<Rightarrow> ('k \<times> 'v) list \<Rightarrow> bool" where
  "iwin t ls it W \<longleftrightarrow> it_remaining it = length W \<and> (W \<noteq> [] \<longrightarrow>
     (\<exists>A B ls1 ls2 ls3 ls4. ls = ls1 @ it_front_leaf it # ls2 \<and> ls = ls3 @ it_back_leaf it # ls4 \<and>
        it_front_idx it \<le> n_len (b_node t (it_front_leaf it)) \<and> it_back_idx it \<le> n_len (b_node t (it_back_leaf it)) \<and>
        A = centries t ls1 @ take (it_front_idx it) (lentries t (it_front_leaf it)) \<and>
        A @ W = centries t ls3 @ take (it_back_idx it) (lentries t (it_back_leaf it)) \<and> centries t ls = A @ W @ B))"

lemma iwinI:
  assumes "it_remaining it = length W" "ls = fa @ it_front_leaf it # fb" "ls = ba @ it_back_leaf it # bb"
    "it_front_idx it \<le> n_len (b_node t (it_front_leaf it))" "it_back_idx it \<le> n_len (b_node t (it_back_leaf it))"
    "A = centries t fa @ take (it_front_idx it) (lentries t (it_front_leaf it))"
    "A @ W = centries t ba @ take (it_back_idx it) (lentries t (it_back_leaf it))" "centries t ls = A @ W @ B"
  shows "iwin t ls it W"
  unfolding iwin_def using assms by blast

lemma iwinE:
  assumes "iwin t ls it W" "W \<noteq> []"
  obtains A B ls1 ls2 ls3 ls4 where "it_remaining it = length W"
    "ls = ls1 @ it_front_leaf it # ls2" "ls = ls3 @ it_back_leaf it # ls4"
    "it_front_idx it \<le> n_len (b_node t (it_front_leaf it))" "it_back_idx it \<le> n_len (b_node t (it_back_leaf it))"
    "A = centries t ls1 @ take (it_front_idx it) (lentries t (it_front_leaf it))"
    "A @ W = centries t ls3 @ take (it_back_idx it) (lentries t (it_back_leaf it))" "centries t ls = A @ W @ B"
  using assms unfolding iwin_def by blast

lemma iter_next_window:
  assumes c: "leaf_chain t ls" and w: "iwin t ls it (x # W)"
  shows "\<exists>it'. iter_next t it = Some (Some x, it') \<and> iwin t ls it' W"
proof -
  obtain A B ls1 ls2 ls3 ls4 where "it_remaining it = length (x # W)"
    "ls = ls1 @ it_front_leaf it # ls2" "ls = ls3 @ it_back_leaf it # ls4"
    "it_front_idx it \<le> n_len (b_node t (it_front_leaf it))" "it_back_idx it \<le> n_len (b_node t (it_back_leaf it))"
    "A = centries t ls1 @ take (it_front_idx it) (lentries t (it_front_leaf it))"
    "A @ x # W = centries t ls3 @ take (it_back_idx it) (lentries t (it_back_leaf it))" "centries t ls = A @ (x # W) @ B"
    by (rule iwinE [OF w list.simps(3)]) blast
  then show ?thesis
  proof (induction ls2 arbitrary: it ls1)
    case (Cons y ls2)
    let ?f = "it_front_leaf it" and ?i = "it_front_idx it"
    have split: "take ?i (lentries t ?f) @ drop ?i (lentries t ?f) = lentries t ?f" by simp
    have rest: "drop ?i (lentries t ?f) @ centries t (y # ls2) = x # W @ B"
      using Cons.prems(2,6,8) by (simp, metis append.assoc append_take_drop_id same_append_eq)
    show ?case
    proof (cases "?i < n_len (b_node t ?f)")
      case True
      then have d: "drop ?i (lentries t ?f) = lentries t ?f ! ?i # drop (Suc ?i) (lentries t ?f)" by (simp add: Cons_nth_drop_Suc)
      then have x: "lentries t ?f ! ?i = x" using rest by simp
      let ?it = "it\<lparr>it_front_idx := ?i + 1, it_remaining := it_remaining it - 1\<rparr>"
      have "iter_next t it = Some (Some x, ?it)"
        using True Cons.prems(1) x by (subst iter_next.simps) (simp add: Let_def lentries_nth)
      moreover have "take (Suc ?i) (lentries t ?f) = take ?i (lentries t ?f) @ [x]" using True x by (simp add: take_Suc_conv_app_nth)
      then have "iwin t ls ?it W"
        using Cons.prems True
        by (intro iwinI [where fa = ls1 and fb = "y # ls2" and A = "A @ [x]" and ba = ls3 and bb = ls4 and B = B]) auto
      ultimately show ?thesis by blast
    next
      case False
      let ?it = "it\<lparr>it_front_leaf := y, it_front_idx := 0\<rparr>"
      have "n_next (b_node t ?f) = y" using chain_next [of t ls1 ?f y ls2] c Cons.prems(2) by simp
      then have n: "iter_next t it = iter_next t ?it"
        using False Cons.prems(1) by (subst iter_next.simps) (simp add: Let_def)
      have "take ?i (lentries t ?f) = lentries t ?f" using False by simp
      then show ?thesis unfolding n using Cons.prems
        by (intro Cons.IH [of ?it "ls1 @ [?f]"]) auto
    qed
  next
    case Nil
    let ?f = "it_front_leaf it" and ?i = "it_front_idx it"
    have rest: "drop ?i (lentries t ?f) = x # W @ B"
      using Nil.prems(2,6,8) by (simp, metis append.assoc append_take_drop_id same_append_eq)
    then have True: "?i < n_len (b_node t ?f)" by (metis drop_all length_lentries list.distinct(1) not_le)
    then have x: "lentries t ?f ! ?i = x" using rest by (metis Cons_nth_drop_Suc length_lentries list.inject)
    let ?it = "it\<lparr>it_front_idx := ?i + 1, it_remaining := it_remaining it - 1\<rparr>"
    have "iter_next t it = Some (Some x, ?it)"
      using True Nil.prems(1) x by (subst iter_next.simps) (simp add: Let_def lentries_nth)
    moreover have "take (Suc ?i) (lentries t ?f) = take ?i (lentries t ?f) @ [x]" using True x by (simp add: take_Suc_conv_app_nth)
    then have "iwin t ls ?it W"
      using Nil.prems True
      by (intro iwinI [where fa = ls1 and fb = "[]" and A = "A @ [x]" and ba = ls3 and bb = ls4 and B = B]) auto
    ultimately show ?case by blast
  qed
qed

lemma distinct_split_unique:
  assumes "distinct (xs @ a # ys)" "xs @ a # ys = xs' @ a # ys'"
  shows "xs = xs'"
proof -
  have "distinct (xs' @ a # ys')" using assms by metis
  then have "a \<notin> set xs" "a \<notin> set xs'" using assms(1) by simp_all
  then have "takeWhile ((\<noteq>) a) (xs @ a # ys) = xs" "takeWhile ((\<noteq>) a) (xs' @ a # ys') = xs'"
    by (auto simp: takeWhile_append)
  then show ?thesis using assms(2) by simp
qed

lemma next_back_here:
  assumes W: "W \<noteq> []" and "it_remaining it = length W"
    "ls = ls1 @ it_front_leaf it # ls2" "ls = ls3 @ it_back_leaf it # ls4"
    "it_front_idx it \<le> n_len (b_node t (it_front_leaf it))" "it_back_idx it \<le> n_len (b_node t (it_back_leaf it))"
    "A = centries t ls1 @ take (it_front_idx it) (lentries t (it_front_leaf it))"
    "A @ W = centries t ls3 @ take (it_back_idx it) (lentries t (it_back_leaf it))" "centries t ls = A @ W @ B"
    and s: "(if it_back_leaf it = it_front_leaf it then it_front_idx it else 0) < it_back_idx it"
  shows "\<exists>it'. iter_next_back t it = Some (Some (last W), it') \<and> iwin t ls it' (butlast W)"
proof -
  let ?b = "it_back_leaf it" and ?j = "it_back_idx it - 1"
  have j: "it_back_idx it = Suc ?j" "?j < n_len (b_node t ?b)" using s assms(6) by auto
  have tk: "take (it_back_idx it) (lentries t ?b) = take ?j (lentries t ?b) @ [lentries t ?b ! ?j]"
    using j by (metis length_lentries take_Suc_conv_app_nth)
  have "A @ W = (centries t ls3 @ take ?j (lentries t ?b)) @ [lentries t ?b ! ?j]" using assms(8) tk by simp
  then have lw: "last W = lentries t ?b ! ?j" "A @ butlast W = centries t ls3 @ take ?j (lentries t ?b)"
    using W by (metis last_appendR last_snoc, metis butlast_append butlast_snoc)
  let ?it = "it\<lparr>it_back_idx := ?j, it_remaining := it_remaining it - 1\<rparr>"
  have "iter_next_back t it = Some (Some (last W), ?it)"
    using s W assms(2) j lw(1) by (subst iter_next_back.simps) (simp add: Let_def lentries_nth)
  moreover have "iwin t ls ?it (butlast W)"
    using assms j(2) lw(2)
    by (intro iwinI [where fa = ls1 and fb = ls2 and A = A and ba = ls3 and bb = ls4 and B = "last W # B"]) auto
  ultimately show ?thesis by blast
qed

lemma iter_next_back_window:
  assumes c: "leaf_chain t ls" and w: "iwin t ls it W" and W: "W \<noteq> []"
  shows "\<exists>it'. iter_next_back t it = Some (Some (last W), it') \<and> iwin t ls it' (butlast W)"
proof -
  obtain A B ls1 ls2 ls3 ls4 where "it_remaining it = length W"
    "ls = ls1 @ it_front_leaf it # ls2" "ls = ls3 @ it_back_leaf it # ls4"
    "it_front_idx it \<le> n_len (b_node t (it_front_leaf it))" "it_back_idx it \<le> n_len (b_node t (it_back_leaf it))"
    "A = centries t ls1 @ take (it_front_idx it) (lentries t (it_front_leaf it))"
    "A @ W = centries t ls3 @ take (it_back_idx it) (lentries t (it_back_leaf it))" "centries t ls = A @ W @ B"
    by (rule iwinE [OF w W]) blast
  then show ?thesis
  proof (induction ls3 arbitrary: it ls4 rule: rev_induct)
    case (snoc p ls3 it ls4)
    note P = snoc.prems
    let ?b = "it_back_leaf it" and ?j = "it_back_idx it"
    let ?start = "if ?b = it_front_leaf it then it_front_idx it else 0"
    show ?case
    proof (cases "?start < ?j")
      case True
      then show ?thesis by (rule next_back_here [OF W P])
    next
      case False
      have ne: "?b \<noteq> it_front_leaf it"
      proof
        assume e: "?b = it_front_leaf it"
        then have "ls1 = ls3 @ [p]" using distinct_split_unique [of ls1 ?b ls2 "ls3 @ [p]" ls4] c P(2,3) by (simp add: leaf_chain_def)
        then have "it_front_idx it + length W = ?j" using arg_cong [OF P(7), of length] P(4,5,6) e by simp
        then show False using False e W by (cases W) simp_all
      qed
      then have j: "?j = 0" using False by simp
      have pr: "n_prev (b_node t ?b) = p" using chain_prev [of t ls3 p ?b ls4] c P(3) by simp
      have pn: "p \<noteq> NO_NODE" using c P(3) by (auto simp: leaf_chain_def)
      let ?it = "it\<lparr>it_back_leaf := p, it_back_idx := n_len (b_node t p)\<rparr>"
      have n: "iter_next_back t it = iter_next_back t ?it"
        using False ne j pr pn P(1) W by (subst iter_next_back.simps) (simp add: Let_def)
      show ?thesis unfolding n
        by (rule snoc.IH [of ?it "?b # ls4"]) (use P j in auto)
    qed
  next
    case (Nil it ls4)
    note P = Nil.prems
    have "?case" if "(if it_back_leaf it = it_front_leaf it then it_front_idx it else 0) < it_back_idx it"
      by (rule next_back_here [OF W P that])
    moreover have "(if it_back_leaf it = it_front_leaf it then it_front_idx it else 0) < it_back_idx it"
    proof (cases "it_back_leaf it = it_front_leaf it")
      case True
      then have "ls1 = []" using distinct_split_unique [of ls1 "it_back_leaf it" ls2 "[]" ls4] c P(2,3) by (simp add: leaf_chain_def)
      then show ?thesis using arg_cong [OF P(7), of length] P(4,5,6) True W by (cases W) simp_all
    next
      case False
      show ?thesis using arg_cong [OF P(7), of length] P(5) False W by (cases W) simp_all
    qed
    ultimately show ?case by blast
  qed
qed

text \<open>Whatever ends a client takes entries from, the iterator behaves as a queue with two ends.\<close>

lemma iter_run_window:
  assumes "leaf_chain t ls" "iwin t ls it W"
  shows "iter_run t it ds = Some (deque_run W ds)"
  using assms(2)
proof (induction W ds arbitrary: it rule: deque_run.induct)
  case (2 d ds)
  then have "iter_next t it = Some (None, it)" "iter_next_back t it = Some (None, it)"
    by (subst iter_next.simps iter_next_back.simps, simp add: iwin_def)+
  then show ?case using 2 by (cases d) simp_all
next
  case (3 x xs ds)
  then show ?case using iter_next_window [OF assms(1) 3(2)] by auto
next
  case (4 x xs ds)
  then show ?case using iter_next_back_window [OF assms(1) 4(2)] by auto
qed simp

lemma btree_iter_window:
  assumes "brep L t T fl"
  shows "iwin t (lvs T) (btree_iter t) (ents T)"
proof -
  note d = brepD [OF assms]
  have ch: "leaf_chain t (lvs T)" "centries t (lvs T) = ents T" using leaf_chain_brep [OF assms] by simp_all
  have ne: "lvs T \<noteq> []" using leftmost [OF d(4)] by (auto simp: lvs_fill)
  have last: "last (lvs T) \<noteq> NO_NODE" using ch(1) ne by (metis last_in_set leaf_chain_def)
  have e: "lvs T = butlast (lvs T) @ [last (lvs T)]" using ne by simp
  have "ents T = centries t (butlast (lvs T)) @ lentries t (last (lvs T))" using ch(2) by (subst (asm) e) simp
  then show ?thesis using d ne last ch(2)
    by (intro iwinI [where fa = "[]" and fb = "tl (lvs T)" and ba = "butlast (lvs T)" and bb = "[]" and A = "[]" and B = "[]"])
      (simp_all add: btree_iter_def Let_def)
qed

section \<open>The first and the last entry\<close>

lemma nonempty_from_next:
  "dseg (b_node t) p ls NO_NODE \<Longrightarrow> NO_NODE \<notin> set ls \<Longrightarrow>
   nonempty_from n_next t (case ls of [] \<Rightarrow> NO_NODE | y # _ \<Rightarrow> y) = Some (find (\<lambda>i. 0 < n_len (b_node t i)) ls)"
proof (induction ls arbitrary: p)
  case Nil
  then show ?case by (subst nonempty_from.simps) simp
next
  case (Cons x ls)
  then show ?case by (subst nonempty_from.simps) auto
qed

lemma nonempty_from_prev:
  "dseg (b_node t) NO_NODE ls q \<Longrightarrow> NO_NODE \<notin> set ls \<Longrightarrow>
   nonempty_from n_prev t (if ls = [] then NO_NODE else last ls) = Some (find (\<lambda>i. 0 < n_len (b_node t i)) (rev ls))"
proof (induction ls arbitrary: q rule: rev_induct)
  case Nil
  then show ?case by (subst nonempty_from.simps) simp
next
  case (snoc x ls)
  then have "dseg (b_node t) NO_NODE ls x" "n_prev (b_node t x) = (if ls = [] then NO_NODE else last ls)"
    by (simp_all add: dseg_append)
  then show ?case using snoc by (subst nonempty_from.simps) auto
qed

lemma find_first_entry:
  "map_option (\<lambda>i. lentries t i ! 0) (find (\<lambda>i. 0 < n_len (b_node t i)) ls) =
   (if centries t ls = [] then None else Some (hd (centries t ls)))"
proof (induction ls)
  case (Cons x ls)
  have "lentries t x \<noteq> [] \<Longrightarrow> lentries t x ! 0 = hd (lentries t x)" by (simp add: hd_conv_nth)
  moreover have "lentries t x = [] \<longleftrightarrow> n_len (b_node t x) = 0" by (simp add: lentries_def)
  ultimately show ?case using Cons by (cases "lentries t x = []") auto
qed simp

lemma find_last_entry:
  "map_option (\<lambda>i. lentries t i ! (n_len (b_node t i) - 1)) (find (\<lambda>i. 0 < n_len (b_node t i)) (rev ls)) =
   (if centries t ls = [] then None else Some (last (centries t ls)))"
proof (induction ls rule: rev_induct)
  case (snoc x ls)
  have "lentries t x \<noteq> [] \<Longrightarrow> lentries t x ! (n_len (b_node t x) - 1) = last (lentries t x)" by (simp add: last_conv_nth)
  moreover have "lentries t x = [] \<longleftrightarrow> n_len (b_node t x) = 0" by (simp add: lentries_def)
  ultimately show ?case using snoc by (cases "lentries t x = []") auto
qed simp

lemma end_entries_brep:
  assumes "brep L t T fl"
  shows "first_key_value t = Some (if ents T = [] then None else Some (hd (ents T)))"
    "last_key_value t = Some (if ents T = [] then None else Some (last (ents T)))"
proof -
  note d = brepD [OF assms]
  have c: "dseg (b_node t) NO_NODE (lvs T) NO_NODE" "NO_NODE \<notin> set (lvs T)" "centries t (lvs T) = ents T"
    using leaf_chain_brep [OF assms] by (simp_all add: leaf_chain_def)
  have ne: "lvs T \<noteq> []" using leftmost [OF d(4)] by (auto simp: lvs_fill)
  have f: "first_nonempty_leaf t = Some (find (\<lambda>i. 0 < n_len (b_node t i)) (lvs T))"
    using nonempty_from_next [OF c(1,2)] ne d(8) by (cases "lvs T") (simp_all add: first_nonempty_leaf_def)
  have l: "last_nonempty_leaf t = Some (find (\<lambda>i. 0 < n_len (b_node t i)) (rev (lvs T)))"
    using nonempty_from_prev [OF c(1,2)] ne d(9) by (simp add: last_nonempty_leaf_def)
  have "map_option (\<lambda>i. (lkey (b_node t i) 0, lval (b_node t i) 0)) (find (\<lambda>i. 0 < n_len (b_node t i)) (lvs T)) =
      map_option (\<lambda>i. lentries t i ! 0) (find (\<lambda>i. 0 < n_len (b_node t i)) (lvs T))"
    by (rule map_option_cong) (auto simp: lentries_nth find_Some_iff)
  then show "first_key_value t = Some (if ents T = [] then None else Some (hd (ents T)))"
    using find_first_entry [of t "lvs T"] d(10) by (simp add: first_key_value_def f c(3))
  have "map_option (\<lambda>i. let last_idx = n_len (b_node t i) - 1 in (lkey (b_node t i) last_idx, lval (b_node t i) last_idx))
        (find (\<lambda>i. 0 < n_len (b_node t i)) (rev (lvs T))) =
      map_option (\<lambda>i. lentries t i ! (n_len (b_node t i) - 1)) (find (\<lambda>i. 0 < n_len (b_node t i)) (rev (lvs T)))"
    by (rule map_option_cong) (auto simp: lentries_nth find_Some_iff Let_def)
  then show "last_key_value t = Some (if ents T = [] then None else Some (last (ents T)))"
    using find_last_entry [of t "lvs T"] d(10) by (simp add: last_key_value_def l c(3))
qed

lemma get_key_value_brep:
  assumes "brep L t T fl"
  shows "get_key_value t key = map_option (Pair key) (btree_get t key)"
proof -
  obtain fs i kvs where h: "at_hole T (\<lambda>k. key < k) fs (BLeaf i kvs)" "search t key = leaf_find key i kvs"
    using search_leaf [OF assms] by blast
  have "lrep (b_node t) (hole_parent NO_NODE fs) i kvs"
    using brepD(3) [OF assms] h(1) by (auto simp: at_hole_def rep_fill)
  then show ?thesis by (auto simp: get_key_value_def btree_get_def h(2) leaf_find_def Let_def lkey_lrep)
qed

lemma contains_key_get: "contains_key t key \<longleftrightarrow> btree_get t key \<noteq> None"
  by (simp add: contains_key_def btree_get_def)

end
