(* ===== verification/Btree_Properties.thy ===== *)
theory Btree_Properties
  imports Btree_Iter
begin

text \<open>
  The B+ tree as a map: the trees that construction, insertion and the entry interface reach, the
  invariant of all of them, and the property of the search, insertion and iteration operations.
\<close>

section \<open>Reachable trees\<close>

inductive btree_reachable :: "node_layout \<Rightarrow> ('k::linorder, 'v) btree \<Rightarrow> bool" for L where
  new: "btree_reachable L btree_new"
| with_capacity: "btree_reachable L (btree_with_capacity L capacity)"
| insert: "btree_reachable L t \<Longrightarrow> btree_room L t \<Longrightarrow> btree_insert L key value t = Some (Inr (old, t')) \<Longrightarrow>
    btree_reachable L t'"
| entry_first: "btree_reachable L t \<Longrightarrow> btree_room L t \<Longrightarrow> btree_entry_search t key = EmptyTree \<Longrightarrow>
    btree_reachable L (insert_first L key value t)"
| entry_vacant: "btree_reachable L t \<Longrightarrow> btree_room L t \<Longrightarrow> btree_entry_search t key = Vacant leaf_idx pos \<Longrightarrow>
    insert_at_vacant L leaf_idx pos key value t = Some (p, t') \<Longrightarrow> btree_reachable L t'"

lemma arena_ok_with_capacity:
  assumes "node_count < 2 ^ 32"
  shows "arena_ok L (arena_with_capacity L node_count) {} []"
proof -
  let ?c = "max (next_power_of_two node_count mod 2 ^ 32) INITIAL_CAP"
  obtain e where e: "next_power_of_two node_count = 2 ^ e" using next_power_of_two_pow by blast
  have "(2::nat) ^ e \<le> 2 ^ 32" using next_power_of_two_least [of node_count 32] assms e by simp
  then have e32: "e \<le> 32" using power_le_imp_le_exp [of "2::nat" e 32] by simp
  have "cap_ok ?c"
  proof (cases "2 \<le> e \<and> e < 32")
    case True
    then have "(2::nat) ^ e < 2 ^ 32" "(2::nat) ^ 2 \<le> 2 ^ e"
      using power_strict_increasing [of e 32 "2::nat"] power_increasing [of 2 e "2::nat"] by simp_all
    then have "?c = 2 ^ e" by (simp add: e INITIAL_CAP_def)
    then show ?thesis using True by (auto simp: cap_ok_def intro: exI [of _ e])
  next
    case False
    then have "e = 0 \<or> e = 1 \<or> e = 32" using e32 by linarith
    then have "?c = 2 ^ 2" by (auto simp: e INITIAL_CAP_def)
    then show ?thesis unfolding cap_ok_def by (intro disjI2 exI [of _ 2]) simp
  qed
  then show ?thesis
    by (auto simp: arena_ok_def arena_with_capacity_def arena_new_def cap_ok_def [of 0] Let_def node_def)
qed

lemma binv_new: "binv L btree_new"
proof -
  have "bempty L btree_new []"
    by (simp add: bempty_def btree_new_def barena_ok_def arena_ok_def arena_new_def cap_ok_def)
  then show ?thesis unfolding binv_def by blast
qed

lemma binv_with_capacity: "binv L (btree_with_capacity L capacity)"
proof -
  have "bempty L (btree_with_capacity L capacity) []"
    unfolding btree_with_capacity_def Let_def btree_new_def bempty_def barena_ok_def
    by (simp add: arena_ok_with_capacity max_def min_def)
  then show ?thesis unfolding binv_def by blast
qed

lemma binv_cases [consumes 1, case_names empty tree]:
  assumes "binv L t"
  obtains fl where "bempty L t fl" | T fl where "brep L t T fl" "fat T"
  using assms by (auto simp: binv_def)

lemma entry_search_empty:
  assumes "binv L t"
  shows "btree_entry_search t key = EmptyTree \<longleftrightarrow> (\<exists>fl. bempty L t fl)"
  using assms
proof (cases rule: binv_cases)
  case (tree T fl)
  then have "b_root t \<noteq> NO_NODE" using brepD(11) by blast
  then show ?thesis by (simp add: btree_entry_search_def bempty_def Let_def split: prod.split)
qed (auto simp: btree_entry_search_def bempty_def)

lemma insert_first_binv:
  assumes "binv L t" "btree_room L t" "btree_entry_search t key = EmptyTree"
  shows "binv L (insert_first L key v t)" "btree_get (insert_first L key v t) = [key \<mapsto> v]" "btree_get t = Map.empty"
proof -
  obtain fl where e: "bempty L t fl" using assms(1,3) entry_search_empty by blast
  have "a_len (b_arena t) < 2 ^ 31" "1 \<le> LEAF_CAP L" using assms(2) by (simp_all add: btree_room_def assert_capacities_def)
  then obtain i fl' where i: "brep L (insert_first L key v t) (BLeaf i [(key, v)]) fl'"
    using insert_first_brep [OF e] by blast
  then show "binv L (insert_first L key v t)" unfolding binv_def by (intro disjI2 exI [of _ "BLeaf i [(key, v)]"]) auto
  show "btree_get (insert_first L key v t) = [key \<mapsto> v]" using get_brep [OF i] by (simp add: fun_eq_iff)
  show "btree_get t = Map.empty" using get_bempty [OF e] by (simp add: fun_eq_iff)
qed

lemma insert_at_vacant_binv:
  assumes "binv L t" "btree_room L t" "btree_entry_search t key = Vacant i pos"
  shows "\<exists>p t'. insert_at_vacant L i pos key v t = Some (p, t') \<and> binv L t' \<and>
    btree_get t' = (btree_get t)(key \<mapsto> v) \<and> btree_get t key = None \<and> search t' key = Some p"
  using assms(1)
proof (cases rule: binv_cases)
  case (empty fl)
  then show ?thesis using assms(3) by (simp add: btree_entry_search_def bempty_def)
next
  case (tree T fl)
  obtain p t' T' fl' where r: "insert_at_vacant L i pos key v t = Some (p, t')" "brep L t' T' fl'" "fat T'"
    "map_of (ents T') = (map_of (ents T))(key \<mapsto> v)" "map_of (ents T) key = None" "search t' key = Some p"
    using insert_at_vacant_brep [OF tree assms(2,3)] by blast
  moreover have "btree_get t = map_of (ents T)" "btree_get t' = map_of (ents T')"
    using get_brep [OF tree(1)] get_brep [OF r(2)] by (simp_all add: fun_eq_iff)
  ultimately show ?thesis by (auto simp: binv_def)
qed

lemma reachable_binv: "btree_reachable L t \<Longrightarrow> binv L t"
proof (induction rule: btree_reachable.induct)
  case (insert t key v old t')
  then show ?case using btree_insert_binv [of L t key v] by auto
next
  case (entry_vacant t key i pos v p t')
  then show ?case using insert_at_vacant_binv [of L t key i pos v] by auto
qed (simp_all add: binv_new binv_with_capacity insert_first_binv)

section \<open>The entries in order\<close>

lemma iter_run_empty: "bempty L t fl \<Longrightarrow> it_remaining it = 0 \<Longrightarrow> iter_run t it ds = Some (deque_run [] ds)"
proof (induction ds)
  case (Cons d ds)
  then have "iter_next t it = Some (None, it)" "iter_next_back t it = Some (None, it)"
    by (subst iter_next.simps iter_next_back.simps, simp)+
  then show ?case using Cons by (cases d) simp_all
qed simp

lemma binv_entries:
  assumes "binv L t"
  shows "\<exists>es. sorted_wrt (<) (map fst es) \<and> map_of es = btree_get t \<and> length es = b_len t \<and>
    (\<forall>ds. iter_run t (btree_iter t) ds = Some (deque_run es ds)) \<and>
    first_key_value t = Some (if es = [] then None else Some (hd es)) \<and>
    last_key_value t = Some (if es = [] then None else Some (last es))"
  using assms
proof (cases rule: binv_cases)
  case (empty fl)
  have "btree_get t = Map.empty" using get_bempty [OF empty] by (simp add: fun_eq_iff)
  moreover have "it_remaining (btree_iter t) = 0" using empty by (simp add: btree_iter_def bempty_def Let_def)
  ultimately show ?thesis using iter_run_empty [OF empty] empty
    by (intro exI [of _ "[]"]) (simp add: first_key_value_def last_key_value_def bempty_def)
next
  case (tree T fl)
  note d = brepD [OF tree(1)]
  have "btree_get t = map_of (ents T)" using get_brep [OF tree(1)] by (simp add: fun_eq_iff)
  moreover have "leaf_chain t (lvs T)" using leaf_chain_brep [OF tree(1)] by simp
  ultimately show ?thesis
    using sorted_keys [OF d(4,5)] d(10) iter_run_window [OF _ btree_iter_window [OF tree(1)]] end_entries_brep [OF tree(1)]
    by (intro exI [of _ "ents T"]) simp
qed

lemma binv_len: "binv L t \<Longrightarrow> finite (dom (btree_get t)) \<and> b_len t = card (dom (btree_get t))"
proof -
  assume "binv L t"
  then obtain es where es: "sorted_wrt (<) (map fst es)" "map_of es = btree_get t" "length es = b_len t"
    using binv_entries by blast
  have "distinct (map fst es)" using es(1) by (simp add: strict_sorted_iff)
  then have "card (set (map fst es)) = length es" by (metis distinct_card length_map)
  then show ?thesis using es(2,3) dom_map_of_conv_image_fst [of es] by simp
qed

lemma binv_reads:
  assumes "binv L t"
  shows "b_root t \<noteq> NO_NODE \<Longrightarrow> search_linear t key = search_binary t key"
    "get_key_value t key = map_option (Pair key) (btree_get t key)"
    "btree_entry_search t key = Occupied i j \<Longrightarrow> search t key = Some (i, j)"
  using assms
proof (atomize (full), cases rule: binv_cases)
  case (empty fl)
  then show "(b_root t \<noteq> NO_NODE \<longrightarrow> search_linear t key = search_binary t key) \<and>
    get_key_value t key = map_option (Pair key) (btree_get t key) \<and>
    (btree_entry_search t key = Occupied i j \<longrightarrow> search t key = Some (i, j))"
    by (simp add: bempty_def get_key_value_def btree_get_def search_def btree_entry_search_def)
next
  case (tree T fl)
  have "search t key = Some (i, j)" if o: "btree_entry_search t key = Occupied i j"
  proof -
    obtain fs kvs where h: "at_hole T (\<lambda>k. key < k) fs (BLeaf i kvs)" "j < length kvs" "fst (kvs ! j) = key"
      by (rule entry_search_brep [OF tree(1), of key]) (use o in \<open>auto split: if_splits\<close>)
    then have "(i, kvs) \<in> leaves T" using leaves_fill [of "BLeaf i kvs" fs] by (auto simp: at_hole_def)
    then show ?thesis using search_at_leaf [OF tree(1)] h(2,3) by blast
  qed
  moreover have "search_linear t key = search_binary t key" using search_both [OF tree(1), of key] by auto
  ultimately show "(b_root t \<noteq> NO_NODE \<longrightarrow> search_linear t key = search_binary t key) \<and>
    get_key_value t key = map_option (Pair key) (btree_get t key) \<and>
    (btree_entry_search t key = Occupied i j \<longrightarrow> search t key = Some (i, j))"
    using get_key_value_brep [OF tree(1)] by blast
qed

section \<open>A small tree\<close>

text \<open>
  Keys and values of 60 bytes, so two entries fill a leaf and three separators an internal node; the
  tree after the insertion of 5, 7 and 6, the last of which splits the only leaf.
\<close>

abbreviation wide :: node_layout where
  "wide \<equiv> \<lparr>key_size = 60, val_size = 60\<rparr>"

abbreviation unused_block :: "(nat, nat) node_block" where
  "unused_block \<equiv> \<lparr>n_len = 0, n_flags = 0, n_parent = 0, n_lkeys = [None, None], n_vals = [None, None], n_prev = 0, n_next = 0,
     n_ikeys = [None, None, None], n_children = [0, 0, 0, 0]\<rparr>"

definition one_entry :: "(nat, nat) btree" where
  "one_entry = \<lparr>b_arena = \<lparr>a_blocks =
       [\<lparr>n_len = 1, n_flags = 1, n_parent = NO_NODE, n_lkeys = [Some 5, None], n_vals = [Some 50, None],
          n_prev = NO_NODE, n_next = NO_NODE, n_ikeys = [None, None, None], n_children = [0, 0, 0, 0]\<rparr>,
        unused_block, unused_block, unused_block], a_cap = 4, a_len = 1, a_free_head = NO_NODE\<rparr>,
     b_root = 0, b_first_leaf = 0, b_last_leaf = 0, b_len = 1, b_height = 0\<rparr>"

definition two_entries :: "(nat, nat) btree" where
  "two_entries = \<lparr>b_arena = \<lparr>a_blocks =
       [\<lparr>n_len = 2, n_flags = 1, n_parent = NO_NODE, n_lkeys = [Some 5, Some 7], n_vals = [Some 50, Some 70],
          n_prev = NO_NODE, n_next = NO_NODE, n_ikeys = [None, None, None], n_children = [0, 0, 0, 0]\<rparr>,
        unused_block, unused_block, unused_block], a_cap = 4, a_len = 1, a_free_head = NO_NODE\<rparr>,
     b_root = 0, b_first_leaf = 0, b_last_leaf = 0, b_len = 2, b_height = 0\<rparr>"

definition three_entries :: "(nat, nat) btree" where
  "three_entries = \<lparr>b_arena = \<lparr>a_blocks =
       [\<lparr>n_len = 1, n_flags = 1, n_parent = 2, n_lkeys = [Some 5, Some 7], n_vals = [Some 50, Some 70],
          n_prev = NO_NODE, n_next = 1, n_ikeys = [None, None, None], n_children = [0, 0, 0, 0]\<rparr>,
        \<lparr>n_len = 2, n_flags = 1, n_parent = 2, n_lkeys = [Some 6, Some 7], n_vals = [Some 60, Some 70],
          n_prev = 0, n_next = NO_NODE, n_ikeys = [None, None, None], n_children = [0, 0, 0, 0]\<rparr>,
        \<lparr>n_len = 1, n_flags = 0, n_parent = NO_NODE, n_lkeys = [None, None], n_vals = [None, None],
          n_prev = 0, n_next = 0, n_ikeys = [Some 6, None, None], n_children = [0, 1, 0, 0]\<rparr>,
        unused_block], a_cap = 4, a_len = 3, a_free_head = NO_NODE\<rparr>,
     b_root = 2, b_first_leaf = 0, b_last_leaf = 1, b_len = 3, b_height = 1\<rparr>"

lemma wide_caps: "LEAF_CAP wide = 2" "INTERNAL_CAP wide = 3"
  by (simp_all add: LEAF_CAP_def INTERNAL_CAP_def PAYLOAD_def NODE_SIZE_def HEADER_SIZE_def LEAF_LINK_SIZE_def)

lemma small_replicate: "replicate 2 x = [x, x]" "replicate 3 x = [x, x, x]" "replicate 4 x = [x, x, x, x]"
  by (simp_all add: numeral_eq_Suc)

lemma small_upt: "[0..<2] = [0, Suc 0]" "[0..<Suc 0] = [0]" "[0..<Suc (Suc 0)] = [0, Suc 0]" "[Suc 0..<2] = [Suc 0]"
  by (simp_all add: upt_rec)

lemma small_index: "0 \<noteq> NO_NODE" "1 \<noteq> NO_NODE" "2 \<noteq> NO_NODE" "Suc 0 \<noteq> NO_NODE"
  by (simp_all add: NO_NODE_def)

lemmas btree_eval = btree_insert_def insert_first_def b_alloc_def alloc_node_def arena_grow_def arena_new_def btree_new_def
  b_upd_def upd_node_def b_node_def node_def zero_node_def INITIAL_CAP_def IS_LEAF_def lkey_def lval_def ikey_def child_def
  insert_append_def insert_search_def search_for_insert_def insert_pos_def first_index_def leaf_insert_at_def shift_right_def
  copy_slots_def leaf_split_and_insert_def leaf_split_move_def split_path_def propagate_split_def grow_root_def
  small_replicate small_index small_index [symmetric] wide_caps small_upt Let_def

lemma insert_5: "btree_insert wide 5 50 btree_new = Some (Inr (None, one_entry))"
  by (simp add: btree_eval one_entry_def)

lemma insert_7: "btree_insert wide 7 70 one_entry = Some (Inr (None, two_entries))"
  by (simp add: btree_eval one_entry_def two_entries_def)

lemma insert_6: "btree_insert wide 6 60 two_entries = Some (Inr (None, three_entries))"
  by (simp add: btree_eval two_entries_def three_entries_def)

lemma small_room: "btree_room wide btree_new" "btree_room wide one_entry" "btree_room wide two_entries" "btree_room wide three_entries"
  by (simp_all add: btree_room_def assert_capacities_def wide_caps MAX_PATH_HEIGHT_def btree_new_def arena_new_def
    one_entry_def two_entries_def three_entries_def)

lemma three_entries_reachable: "btree_reachable wide three_entries"
proof -
  have "btree_reachable wide one_entry" by (rule btree_reachable.insert [OF btree_reachable.new small_room(1) insert_5])
  then have "btree_reachable wide two_entries" by (rule btree_reachable.insert [OF _ small_room(2) insert_7])
  then show ?thesis by (rule btree_reachable.insert [OF _ small_room(3) insert_6])
qed

lemma three_entries_no_8:
  "btree_get three_entries 8 = None" "btree_entry_search three_entries 8 = Vacant 1 2"
  by (simp_all add: btree_get_def search_def search_linear_def child_linear_def cmp_def btree_entry_search_def
    search_for_insert_no_path_def btree_eval three_entries_def)

section \<open>Properties\<close>

text \<open>
  C40. On every tree that construction, insertion and the entry interface can reach, the linear and
  the binary search find the same position; the entry search finds an existing key where the
  search finds it; and the iterator, whatever ends its client takes entries from, yields exactly
  the entries of the map in increasing order of their keys, as many as the length says, with
  the first and the last of them as \<^verbatim>\<open>first_key_value\<close> and \<^verbatim>\<open>last_key_value\<close>. While the arena
  has fewer than \<open>2 ^ 31\<close> blocks after the operation and the tree is at most 16 levels high, insertion
  always returns, hands back the old value and leaves the updated map and length, through the
  append and prepend paths and every cascade of splits; and so does insertion through a vacant entry,
  which returns the position at which the key is found afterwards.
\<close>

theorem btree_map_refines:
  fixes t :: "('k::linorder, 'v) btree"
  assumes "btree_reachable L t"
  shows "b_len t = card (dom (btree_get t)) \<and> finite (dom (btree_get t)) \<and>
    (b_root t \<noteq> NO_NODE \<longrightarrow> search_linear t key = search_binary t key) \<and>
    get_key_value t key = map_option (Pair key) (btree_get t key) \<and>
    (contains_key t key \<longleftrightarrow> btree_get t key \<noteq> None) \<and>
    (\<exists>es. sorted_wrt (<) (map fst es) \<and> map_of es = btree_get t \<and> length es = b_len t \<and>
      (\<forall>ends. iter_run t (btree_iter t) ends = Some (deque_run es ends)) \<and>
      first_key_value t = Some (if es = [] then None else Some (hd es)) \<and>
      last_key_value t = Some (if es = [] then None else Some (last es))) \<and>
    (btree_room L t \<longrightarrow>
      (\<exists>t'. btree_insert L key v t = Some (Inr (btree_get t key, t')) \<and>
        btree_get t' = (btree_get t)(key \<mapsto> v) \<and> b_len t' = b_len t + (if btree_get t key = None then 1 else 0)) \<and>
      (case btree_entry_search t key of
         EmptyTree \<Rightarrow> btree_get t = Map.empty \<and> btree_get (insert_first L key v t) = [key \<mapsto> v] \<and>
           b_len (insert_first L key v t) = 1
       | Occupied i j \<Rightarrow> search t key = Some (i, j)
       | Vacant i pos \<Rightarrow> btree_get t key = None \<and>
           (\<exists>p t'. insert_at_vacant L i pos key v t = Some (p, t') \<and> search t' key = Some p \<and>
             btree_get t' = (btree_get t)(key \<mapsto> v) \<and> b_len t' = b_len t + 1)))"
proof -
  have b: "binv L t" using assms by (rule reachable_binv)
  note l = binv_len [OF b]
  have grown: "b_len t' = b_len t + (if btree_get t key = None then 1 else 0)"
    if "binv L t'" "btree_get t' = (btree_get t)(key \<mapsto> v)" for t'
    using binv_len [OF that(1)] that(2) l by (auto simp: insert_absorb card_insert_if)
  have "\<exists>t'. btree_insert L key v t = Some (Inr (btree_get t key, t')) \<and>
      btree_get t' = (btree_get t)(key \<mapsto> v) \<and> b_len t' = b_len t + (if btree_get t key = None then 1 else 0)"
    if room: "btree_room L t"
    using btree_insert_binv [OF b room, of key v] grown by blast
  moreover have "case btree_entry_search t key of
         EmptyTree \<Rightarrow> btree_get t = Map.empty \<and> btree_get (insert_first L key v t) = [key \<mapsto> v] \<and>
           b_len (insert_first L key v t) = 1
       | Occupied i j \<Rightarrow> search t key = Some (i, j)
       | Vacant i pos \<Rightarrow> btree_get t key = None \<and>
           (\<exists>p t'. insert_at_vacant L i pos key v t = Some (p, t') \<and> search t' key = Some p \<and>
             btree_get t' = (btree_get t)(key \<mapsto> v) \<and> b_len t' = b_len t + 1)"
    if room: "btree_room L t"
  proof (cases "btree_entry_search t key")
    case EmptyTree
    note f = insert_first_binv(1,2) [OF b room EmptyTree, of v] insert_first_binv(3) [OF b room EmptyTree]
    then show ?thesis using binv_len [OF f(1)] EmptyTree by simp
  next
    case (Occupied i j)
    then show ?thesis using binv_reads(3) [OF b Occupied] by simp
  next
    case (Vacant i pos)
    obtain p t' where r: "insert_at_vacant L i pos key v t = Some (p, t')" "binv L t'"
      "btree_get t' = (btree_get t)(key \<mapsto> v)" "btree_get t key = None" "search t' key = Some p"
      using insert_at_vacant_binv [OF b room Vacant, of v] by blast
    then show ?thesis using grown [OF r(2,3)] Vacant by simp
  qed
  ultimately show ?thesis
    using l binv_reads(1,2) [OF b] binv_entries [OF b] contains_key_get [of t key] by blast
qed

theorem btree_map_refines_witness:
  "btree_reachable wide three_entries \<and> btree_room wide three_entries \<and> b_root three_entries \<noteq> NO_NODE \<and>
   search_linear three_entries 8 = search_binary three_entries 8 \<and>
   (\<exists>t'. btree_insert wide 8 80 three_entries = Some (Inr (None, t')) \<and>
     btree_get t' = (btree_get three_entries)(8 \<mapsto> 80) \<and> b_len t' = 4) \<and>
   (\<exists>p t'. insert_at_vacant wide 1 2 8 80 three_entries = Some (p, t') \<and> search t' 8 = Some p \<and> b_len t' = 4)"
proof -
  have n: "b_root three_entries \<noteq> NO_NODE" "b_len three_entries = 3" by (simp_all add: three_entries_def NO_NODE_def)
  show ?thesis
    using btree_map_refines [OF three_entries_reachable, of 8 80] three_entries_reachable small_room(4) n three_entries_no_8 by auto
qed

end
