(* ===== verification/Spec2Isabelle.thy ===== *)
theory Spec2Isabelle
  imports Overflow_Properties Overflow_Hang Tomb_Properties Map_Properties Ipo64_Properties Btree_Properties
begin

text \<open>
  A verification development for the crate \<^verbatim>\<open>optimap\<close>: SIMD-style hash maps that keep
  one metadata byte per slot and probe groups of 16, 32 or 64 slots, and a B+ tree for ordered keys.

  \<^bold>\<open>The program.\<close> A map (\<^verbatim>\<open>src/generic_map.rs\<close>, \<^verbatim>\<open>src/raw_entry.rs\<close>) is a thin layer over a
  raw table, which it uses only through the trait \<^verbatim>\<open>RawTableApi\<close> (\<^verbatim>\<open>src/raw/table_api.rs\<close>).
  Two families of tables implement the trait. The overflow-bit tables
  (\<^verbatim>\<open>src/raw/overflow_table.rs\<close>) mark a group as overflowed, per hash channel, when an
  insertion had to leave it, and a lookup stops at the first group that is not marked. They
  are parametric in a group layout (\<^verbatim>\<open>src/raw/group_layout.rs\<close>) made of a tag strategy
  (\<^verbatim>\<open>src/raw/tag_strategy.rs\<close>), an overflow strategy (\<^verbatim>\<open>src/raw/overflow_strategy.rs\<close>) and the
  SIMD operations of a group (\<^verbatim>\<open>src/raw/generic_group.rs\<close>, \<^verbatim>\<open>group32.rs\<close>, \<^verbatim>\<open>group64.rs\<close>,
  \<^verbatim>\<open>bitmask.rs\<close>). The tombstone tables (\<^verbatim>\<open>src/in_place_overflow/raw/mod.rs\<close>) mark a removed
  slot, and a lookup stops at the first group with an empty slot; \<^verbatim>\<open>src/ipo64/raw\<close> is a second
  implementation of this design with groups of 64 slots and SIMD code of its own. The ordered map
  (\<^verbatim>\<open>src/flat_btree\<close>) is independent of the tables: a B+ tree whose nodes are blocks of 256 bytes in an arena,
  with indices for pointers and the leaves in a doubly linked chain.

  \<^bold>\<open>The theories.\<close>
  \<^item> \<^theory_text>\<open>Prelude\<close>: powers of two, triangular probing over a power-of-two number of groups (it
    visits every group once), bucket arrays seen as finite maps, loops in the option monad.
  \<^item> \<^theory_text>\<open>Bitmask\<close>, \<^theory_text>\<open>Group_Ops\<close>: the match masks and their iteration, the SIMD tiers and
    scalar fallbacks of every group width, proved to compute the same masks.
  \<^item> \<^theory_text>\<open>Tags\<close>, \<^theory_text>\<open>Layouts\<close>: tag and overflow strategies and the named layouts, as records of
    the constants and functions of the Rust traits, with the contract each must meet.
  \<^item> \<^theory_text>\<open>Table_Api\<close>: the trait \<^verbatim>\<open>RawTableApi\<close> as a record of operations.
  \<^item> \<^theory_text>\<open>Overflow_Table\<close>: the overflow-bit table, its state as a record (mask, metadata and
    overflow bytes, buckets, length, load limit, shift) and one definition per function.
    \<^theory_text>\<open>Overflow_Correct\<close> has the invariant and the search and insertion loops,
    \<^theory_text>\<open>Overflow_Ops\<close>, \<^theory_text>\<open>Overflow_Insert\<close>, \<^theory_text>\<open>Overflow_Entry\<close>, \<^theory_text>\<open>Overflow_Manage\<close> and
    \<^theory_text>\<open>Overflow_Iter\<close> the operations, \<^theory_text>\<open>Overflow_Liveness\<close> and \<^theory_text>\<open>Overflow_Reachable\<close> the
    reachable states and when lookups end, \<^theory_text>\<open>Overflow_Properties\<close> and \<^theory_text>\<open>Overflow_Hang\<close> the
    properties C1 to C19.
  \<^item> \<^theory_text>\<open>Tomb_Table\<close>: the tombstone table, generic in the group width, tag and group index;
    \<^theory_text>\<open>Tomb_Correct\<close>, \<^theory_text>\<open>Tomb_Ops\<close>, \<^theory_text>\<open>Tomb_Manage\<close>, \<^theory_text>\<open>Tomb_Entry\<close>, \<^theory_text>\<open>Tomb_Iter\<close> its invariant and
    operations, \<^theory_text>\<open>Tomb_Bytes\<close> the byte-offset probe loops, \<^theory_text>\<open>Tomb_Properties\<close> the properties
    C25 to C32.
  \<^item> \<^theory_text>\<open>Generic_Map\<close>: the map and its raw entries over any table. \<^theory_text>\<open>Generic_Laws\<close> states what
    the map relies on, the locale \<open>table_contract\<close>; \<^theory_text>\<open>Generic_Ops\<close> and \<^theory_text>\<open>Generic_Step\<close> prove
    what the map then does. \<^theory_text>\<open>Overflow_Map\<close> and \<^theory_text>\<open>Tomb_Map\<close> discharge the contract for the two
    engines, and \<^theory_text>\<open>Map_Properties\<close> has the properties C33 to C36.
  \<^item> \<^theory_text>\<open>Ipo64_Group\<close>, \<^theory_text>\<open>Ipo64_Table\<close>: the 64-slot tombstone table of \<^verbatim>\<open>src/ipo64/raw\<close>, its four SIMD
    versions of the group operations and one definition per function of the table. \<^theory_text>\<open>Ipo64_Refine\<close>
    shows that it refines the tombstone engine, and so meets the map's contract;
    \<^theory_text>\<open>Ipo64_Properties\<close> has the properties C37 to C39.
  \<^item> \<^theory_text>\<open>Btree_Node\<close>, \<^theory_text>\<open>Btree_Raw\<close>: the nodes and the arena (\<^verbatim>\<open>node.rs\<close>, \<^verbatim>\<open>raw.rs\<close>) and the tree engine: search,
    insertion, splits, entries. \<^theory_text>\<open>Btree_Slots\<close> has the moves inside a node, \<^theory_text>\<open>Btree_Tree\<close> the abstract tree and its
    key sequence, \<^theory_text>\<open>Btree_Rep\<close> the invariant that relates the blocks to it; \<^theory_text>\<open>Btree_Search\<close>, \<^theory_text>\<open>Btree_Insert\<close>,
    \<^theory_text>\<open>Btree_Propagate\<close>, \<^theory_text>\<open>Btree_Put\<close> and \<^theory_text>\<open>Btree_Entry\<close> the operations; \<^theory_text>\<open>Btree_Iter\<close> the read side of \<^verbatim>\<open>map.rs\<close> with its
    double-ended iterator; \<^theory_text>\<open>Btree_Properties\<close> the reachable trees and the property C40.

  \<^bold>\<open>What the model keeps and what it leaves out.\<close> Metadata is the list of bytes the code
  reads and writes, with the code's addressing; masks and hashes are machine words. Buckets
  are a list of optional pairs, where \<^const>\<open>None\<close> is uninitialised or moved-out memory: reading
  such a slot has no specified value, so every theorem about a result shows that it is
  not read. Group indices and counters are natural numbers; the code's wrapping additions,
  checked additions and unchecked decrements are written out. The capacity a caller asks for is
  an arbitrary number, so \<^verbatim>\<open>groups_for_capacity\<close> is modelled with the wrap-around of a release build
  (a debug build panics there); \<open>capacity_ok\<close> says that it does not happen. Sizes computed from an
  existing table are exact numbers: \<open>can_grow\<close>, fewer than \<open>2 ^ 54\<close> groups, is the bound under which the code's
  arithmetic on them is exact, and more groups than the address space of the targets holds. A probe loop has no bound in
  the code and is a \<^theory_text>\<open>partial_function (option)\<close>: \<^const>\<open>None\<close> is a loop that does not return, and
  results are stated as \<^const>\<open>Some\<close>. No fuel is used. A hasher is a function from keys to
  64-bit hashes, an argument of every operation that hashes. Panics are values of a sum
  type. Allocation always succeeds. A block of the B+ tree is a record of the arrays that the offsets of the
  code delimit; \<^theory_text>\<open>Btree_Node\<close> shows that these do not overlap. Node indices and the arena's capacity are
  \<^verbatim>\<open>u32\<close> values with the wrap-around of the code; \<open>btree_room\<close>, an arena below \<open>2 ^ 31\<close> blocks and a height of at most
  16, the size of the path buffer, is when an insertion meets neither limit.

  \<^bold>\<open>What is shown.\<close> For both engines: an invariant kept by every operation (C6, C29), the
  effect of every operation on the map a table represents (C1 to C5, C12 to C14, C25 to C28, C30; on the
  overflow-bit engine, for a key that is not in the map, under the condition that its lookup ends), that
  iteration, consumption and dropping visit every initialised slot exactly once
  (C15 to C17, C32), capacity bounds and the overflow panic (C11, C12), equivalence of the
  optimised variants (C19, C22, C23, C31, C38). For the overflow-bit engine: lookups end in
  every state without removals (C7) and, with one overflow bit per group, in every state
  (C8); with eight channels a lookup of an absent key can run forever (C9, C10). For the
  map: each operation refines the operation on a partial function (C33, C34, C37; over the
  overflow-bit engine when the lookup of the named key ends), equality is decided when the lookups
  it makes end (C35), iteration and retain (C36). The 64-slot table does what the tombstone
  engine does, operation by operation (C39). The B+ tree refines a finite map under insertion and the
  entry interface, and its iterator yields the sorted entries from either end (C40).

  \<^bold>\<open>Not modelled.\<close> The memory layout of an allocation (\<^verbatim>\<open>src/raw/kv_storage.rs\<close>,
  \<^verbatim>\<open>combined_layout\<close>) and deallocation; unwinding from panicking closures; removal, ranges and bulk operations of the
  B+ tree (the rest of \<^verbatim>\<open>src/flat_btree\<close>); the run-time selecting \<^verbatim>\<open>src/optimap.rs\<close>, the static perfect-hash maps (\<^verbatim>\<open>src/perfect\<close>), the sets and the
  trait layer (\<^verbatim>\<open>src/traits.rs\<close>).
\<close>

end
